(* ===== verification/TP_Prelude.thy ===== *)
theory TP_Prelude
  imports Main "HOL-Library.Sublist" "HOL-Library.Char_ord" "HOL-Library.List_Lexorder"
begin

text \<open>
  Shared vocabulary of the development.  A Rust \<open>&str\<close> or \<open>&[u8]\<close> is the list of its
  bytes: Isabelle's \<open>char\<close> is exactly one byte, so \<open>length\<close> is Rust's \<open>len()\<close>, and the
  order on lists of characters is the byte-wise order Rust strings and SQLite's \<open>BINARY\<close>
  collation use.  \<open>usize\<close> values that are lengths or offsets of buffers are \<open>nat\<close>: a Rust
  allocation never exceeds \<open>isize::MAX\<close> bytes, so their sums do not overflow.  Where a counter
  of the source saturates or is checked, the bound is written out in the component's theory.

  A fallible function returns \<open>'a result\<close>: \<open>Inl\<close> carries the outermost error message.
\<close>

named_theorems byte_simps \<open>evaluation of the byte classes\<close>
named_theorems str_simps \<open>string operations of the Rust standard library\<close>

type_synonym bytes = "char list"
type_synonym 'a result = "string + 'a"

abbreviation (input) LF :: char where "LF \<equiv> CHR 0x0A"
abbreviation (input) TAB :: char where "TAB \<equiv> CHR 0x09"

section \<open>Machine bounds\<close>

definition usize_max :: nat where
  "usize_max = 2 ^ 64 - 1"

definition saturating_add :: "nat \<Rightarrow> nat \<Rightarrow> nat" where
  "saturating_add a b = min (a + b) usize_max"

definition checked_add :: "nat \<Rightarrow> nat \<Rightarrow> nat option" where
  "checked_add a b = (if a + b \<le> usize_max then Some (a + b) else None)"

definition div_ceil :: "nat \<Rightarrow> nat \<Rightarrow> nat" where
  "div_ceil a b = (a + b - 1) div b"

lemma div_ceil_two_bounds: "0 < n \<Longrightarrow> 0 < div_ceil n 2 \<and> div_ceil n 2 \<le> n"
  by (auto simp: div_ceil_def)

section \<open>Bytes\<close>

definition byte :: "char \<Rightarrow> nat" where
  "byte c = of_char c"

definition is_ascii_digit :: "char \<Rightarrow> bool" where
  "is_ascii_digit c \<longleftrightarrow> 48 \<le> byte c \<and> byte c \<le> 57"

definition is_ascii_uppercase :: "char \<Rightarrow> bool" where
  "is_ascii_uppercase c \<longleftrightarrow> 65 \<le> byte c \<and> byte c \<le> 90"

definition is_ascii_lowercase :: "char \<Rightarrow> bool" where
  "is_ascii_lowercase c \<longleftrightarrow> 97 \<le> byte c \<and> byte c \<le> 122"

definition is_ascii_alphabetic :: "char \<Rightarrow> bool" where
  "is_ascii_alphabetic c \<longleftrightarrow> is_ascii_uppercase c \<or> is_ascii_lowercase c"

definition is_ascii_alphanumeric :: "char \<Rightarrow> bool" where
  "is_ascii_alphanumeric c \<longleftrightarrow> is_ascii_alphabetic c \<or> is_ascii_digit c"

definition is_ascii_hexdigit :: "char \<Rightarrow> bool" where
  "is_ascii_hexdigit c \<longleftrightarrow> is_ascii_digit c
     \<or> (65 \<le> byte c \<and> byte c \<le> 70) \<or> (97 \<le> byte c \<and> byte c \<le> 102)"

definition is_ascii_whitespace :: "char \<Rightarrow> bool" where
  "is_ascii_whitespace c \<longleftrightarrow> byte c \<in> {9, 10, 12, 13, 32}"

definition to_ascii_lowercase :: "char \<Rightarrow> char" where
  "to_ascii_lowercase c = (if is_ascii_uppercase c then char_of (byte c + 32) else c)"

definition to_ascii_uppercase :: "char \<Rightarrow> char" where
  "to_ascii_uppercase c = (if is_ascii_lowercase c then char_of (byte c - 32) else c)"

definition ascii_lower :: "string \<Rightarrow> string" where
  "ascii_lower = map to_ascii_lowercase"

lemma byte_less: "byte c < 256"
  by (simp add: byte_def)

lemma char_of_byte [simp]: "char_of (byte c) = c"
  by (simp add: byte_def)

lemma byte_char_of [simp]: "n < 256 \<Longrightarrow> byte (char_of n) = n"
  by (simp add: byte_def of_char_of)

lemma byte_inject [simp]: "byte c = byte d \<longleftrightarrow> c = d"
  by (simp add: byte_def)

lemma byte_less_iff: "byte c < byte d \<longleftrightarrow> c < d"
  by (simp add: byte_def less_char_def)

lemma byte_lowercase:
  "byte (to_ascii_lowercase c) = (if is_ascii_uppercase c then byte c + 32 else byte c)"
  by (auto simp: to_ascii_lowercase_def is_ascii_uppercase_def)

lemma byte_uppercase:
  "byte (to_ascii_uppercase c) = (if is_ascii_lowercase c then byte c - 32 else byte c)"
  by (auto simp: to_ascii_uppercase_def is_ascii_lowercase_def)

lemma lowercase_idem [simp]: "to_ascii_lowercase (to_ascii_lowercase c) = to_ascii_lowercase c"
  by (auto simp: to_ascii_lowercase_def is_ascii_uppercase_def)

lemma ascii_lower_idem [simp]: "ascii_lower (ascii_lower s) = ascii_lower s"
  by (simp add: ascii_lower_def)

lemma ascii_lower_eq_Nil [simp]: "ascii_lower s = [] \<longleftrightarrow> s = []"
  by (simp add: ascii_lower_def)

lemma length_ascii_lower [simp]: "length (ascii_lower s) = length s"
  by (simp add: ascii_lower_def)

lemma hexdigit_lowercase [simp]: "is_ascii_hexdigit (to_ascii_lowercase c) = is_ascii_hexdigit c"
  by (auto simp: is_ascii_hexdigit_def is_ascii_digit_def byte_lowercase is_ascii_uppercase_def)

lemmas ascii_classes = is_ascii_digit_def is_ascii_uppercase_def is_ascii_lowercase_def
  is_ascii_alphabetic_def is_ascii_alphanumeric_def is_ascii_hexdigit_def is_ascii_whitespace_def

lemmas [byte_simps] = ascii_classes byte_def to_ascii_lowercase_def to_ascii_uppercase_def ascii_lower_def

section \<open>String operations\<close>

text \<open>\<open>str::strip_prefix\<close>, \<open>str::strip_suffix\<close>, \<open>str::contains\<close> and \<open>str::find\<close> of a substring.\<close>

definition strip_prefix :: "'a list \<Rightarrow> 'a list \<Rightarrow> 'a list option" where
  "strip_prefix p s = (if prefix p s then Some (drop (length p) s) else None)"

definition strip_suffix :: "'a list \<Rightarrow> 'a list \<Rightarrow> 'a list option" where
  "strip_suffix p s = (if suffix p s then Some (take (length s - length p) s) else None)"

fun find_sub :: "'a list \<Rightarrow> 'a list \<Rightarrow> nat option" where
  "find_sub p [] = (if p = [] then Some 0 else None)"
| "find_sub p (c # s) = (if prefix p (c # s) then Some 0 else map_option Suc (find_sub p s))"

fun contains_sub :: "'a list \<Rightarrow> 'a list \<Rightarrow> bool" where
  "contains_sub p [] \<longleftrightarrow> p = []"
| "contains_sub p (c # s) \<longleftrightarrow> prefix p (c # s) \<or> contains_sub p s"

lemma contains_sub_sublist: "contains_sub p s \<longleftrightarrow> sublist p s"
  by (induction s) (auto simp: sublist_Cons_right)

lemma find_sub_None: "find_sub p s = None \<longleftrightarrow> \<not> sublist p s"
  by (induction s) (auto simp: sublist_Cons_right)

lemma find_sub_Some:
  "find_sub p s = Some i \<Longrightarrow> prefix p (drop i s) \<and> i + length p \<le> length s"
proof (induction s arbitrary: i)
  case Nil
  then show ?case by (auto split: if_splits)
next
  case (Cons c s)
  show ?case
  proof (cases "prefix p (c # s)")
    case True
    with Cons.prems show ?thesis using prefix_length_le [OF True] by simp
  next
    case False
    with Cons.prems obtain j where "find_sub p s = Some j" "i = Suc j"
      by (auto split: if_splits)
    with Cons.IH show ?thesis by simp
  qed
qed

text \<open>\<open>str::split(c)\<close>: at least one piece, separators removed.\<close>

fun split_char :: "'a \<Rightarrow> 'a list \<Rightarrow> 'a list list" where
  "split_char c [] = [[]]"
| "split_char c (x # xs) =
     (if x = c then [] # split_char c xs
      else case split_char c xs of [] \<Rightarrow> [[x]] | p # ps \<Rightarrow> (x # p) # ps)"

lemma split_char_nonempty [simp]: "split_char c xs \<noteq> []"
  by (induction xs) (auto split: list.splits)

fun join_with :: "'a list \<Rightarrow> 'a list list \<Rightarrow> 'a list" where
  "join_with sep [] = []"
| "join_with sep [p] = p"
| "join_with sep (p # q # ps) = p @ sep @ join_with sep (q # ps)"

lemma join_split_char [simp]: "join_with [c] (split_char c xs) = xs"
proof (induction xs)
  case Nil
  then show ?case by simp
next
  case (Cons x xs)
  obtain p ps where ps: "split_char c xs = p # ps"
    by (cases "split_char c xs") auto
  with Cons show ?case by (cases ps) auto
qed

lemma split_char_pieces: "p \<in> set (split_char c xs) \<Longrightarrow> c \<notin> set p"
  by (induction xs arbitrary: p) (auto split: if_splits list.splits)

text \<open>\<open>str::split_once(c)\<close> and \<open>str::rsplit_once(c)\<close>.\<close>

fun split_once :: "'a \<Rightarrow> 'a list \<Rightarrow> ('a list \<times> 'a list) option" where
  "split_once c [] = None"
| "split_once c (x # xs) =
     (if x = c then Some ([], xs)
      else map_option (\<lambda>(a, b). (x # a, b)) (split_once c xs))"

definition rsplit_once :: "'a \<Rightarrow> 'a list \<Rightarrow> ('a list \<times> 'a list) option" where
  "rsplit_once c s = map_option (\<lambda>(a, b). (rev b, rev a)) (split_once c (rev s))"

lemma split_once_append: "c \<notin> set a \<Longrightarrow> split_once c (a @ c # b) = Some (a, b)"
  by (induction a) auto

lemma split_once_Some: "split_once c s = Some (a, b) \<longleftrightarrow> s = a @ c # b \<and> c \<notin> set a"
proof
  assume "split_once c s = Some (a, b)"
  then show "s = a @ c # b \<and> c \<notin> set a"
    by (induction s arbitrary: a) (auto split: if_splits)
next
  assume "s = a @ c # b \<and> c \<notin> set a"
  then show "split_once c s = Some (a, b)" by (simp add: split_once_append)
qed

lemma split_once_None: "split_once c s = None \<longleftrightarrow> c \<notin> set s"
  by (induction s) auto

lemma rsplit_once_append: "c \<notin> set b \<Longrightarrow> rsplit_once c (a @ c # b) = Some (a, b)"
  by (simp add: rsplit_once_def split_once_append)

lemma rsplit_once_Some: "rsplit_once c s = Some (a, b) \<longleftrightarrow> s = a @ c # b \<and> c \<notin> set b"
proof -
  have "rsplit_once c s = Some (a, b) \<longleftrightarrow> split_once c (rev s) = Some (rev b, rev a)"
    by (auto simp: rsplit_once_def)
  also have "\<dots> \<longleftrightarrow> rev s = rev b @ c # rev a \<and> c \<notin> set b"
    by (simp add: split_once_Some)
  also have "rev s = rev b @ c # rev a \<longleftrightarrow> s = a @ c # b"
    by (metis append.assoc append_Cons append_Nil rev.simps(2) rev_append rev_rev_ident)
  finally show ?thesis .
qed

text \<open>\<open>str::trim_start_matches(c)\<close> and \<open>str::trim_end_matches\<close> of a set of bytes.\<close>

definition trim_end_matches :: "(char \<Rightarrow> bool) \<Rightarrow> string \<Rightarrow> string" where
  "trim_end_matches P s = rev (dropWhile P (rev s))"

lemmas [str_simps] = strip_prefix_def strip_suffix_def rsplit_once_def trim_end_matches_def

section \<open>Decimal numbers\<close>

text \<open>\<open>Display for usize\<close> and \<open>str::parse::<usize>\<close>, which accepts one leading \<open>+\<close> and fails on
  an empty string, on any other byte and on overflow.\<close>

definition digit_char :: "nat \<Rightarrow> char" where
  "digit_char d = char_of (48 + d)"

fun show_nat :: "nat \<Rightarrow> string" where
  "show_nat n = (if n < 10 then [digit_char n] else show_nat (n div 10) @ [digit_char (n mod 10)])"

declare show_nat.simps [simp del]

fun digits_value :: "nat \<Rightarrow> string \<Rightarrow> nat option" where
  "digits_value acc [] = Some acc"
| "digits_value acc (c # cs) =
     (if is_ascii_digit c \<and> acc * 10 + (byte c - 48) \<le> usize_max
      then digits_value (acc * 10 + (byte c - 48)) cs else None)"

definition parse_usize :: "string \<Rightarrow> nat option" where
  "parse_usize s =
     (let ds = (case s of c # cs \<Rightarrow> if c = CHR ''+'' then cs else s | [] \<Rightarrow> s)
      in if ds = [] then None else digits_value 0 ds)"

lemma byte_digit_char: "d < 10 \<Longrightarrow> byte (digit_char d) = 48 + d"
  by (simp add: digit_char_def)

lemma is_ascii_digit_digit_char: "d < 10 \<Longrightarrow> is_ascii_digit (digit_char d)"
  by (simp add: is_ascii_digit_def byte_digit_char)

lemma show_nat_digits: "c \<in> set (show_nat n) \<Longrightarrow> is_ascii_digit c"
proof (induction n rule: show_nat.induct)
  case (1 n)
  then show ?case
    by (subst (asm) (2) show_nat.simps) (auto split: if_splits simp: is_ascii_digit_digit_char)
qed

lemma show_nat_nonempty [simp]: "show_nat n \<noteq> []"
  by (subst show_nat.simps) simp

lemma digits_value_append:
  "digits_value acc (xs @ ys) = Option.bind (digits_value acc xs) (\<lambda>a. digits_value a ys)"
  by (induction xs arbitrary: acc) auto

lemma digits_value_show_nat: "n \<le> usize_max \<Longrightarrow> digits_value 0 (show_nat n) = Some n"
proof (induction n rule: show_nat.induct)
  case (1 n)
  show ?case
  proof (cases "n < 10")
    case True
    with "1.prems" show ?thesis
      by (subst show_nat.simps) (simp add: is_ascii_digit_digit_char byte_digit_char)
  next
    case False
    then have "digits_value 0 (show_nat (n div 10)) = Some (n div 10)"
      using "1.IH" "1.prems" by simp
    with False "1.prems" show ?thesis
      by (subst show_nat.simps)
        (simp add: digits_value_append is_ascii_digit_digit_char byte_digit_char)
  qed
qed

lemma parse_show_nat: "n \<le> usize_max \<Longrightarrow> parse_usize (show_nat n) = Some n"
proof -
  assume n: "n \<le> usize_max"
  obtain c cs where eq: "show_nat n = c # cs" by (cases "show_nat n") auto
  then have "is_ascii_digit c" using show_nat_digits [of c n] by simp
  then have "c \<noteq> CHR ''+''" by (auto simp: is_ascii_digit_def byte_def)
  with eq digits_value_show_nat [OF n] show ?thesis by (simp add: parse_usize_def)
qed

lemma digits_value_bound: "digits_value acc s = Some n \<Longrightarrow> acc \<le> usize_max \<Longrightarrow> n \<le> usize_max"
  by (induction s arbitrary: acc) (auto split: if_splits)

lemma parse_usize_bound: "parse_usize s = Some n \<Longrightarrow> n \<le> usize_max"
  by (auto simp: parse_usize_def Let_def digits_value_bound split: if_splits)

section \<open>Hexadecimal bytes\<close>

text \<open>\<open>{:02X}\<close> and \<open>{:02x}\<close> of one byte, and the value of a hexadecimal digit.\<close>

definition hex_digit_upper :: "nat \<Rightarrow> char" where
  "hex_digit_upper d = (if d < 10 then char_of (48 + d) else char_of (55 + d))"

definition hex_digit_lower :: "nat \<Rightarrow> char" where
  "hex_digit_lower d = (if d < 10 then char_of (48 + d) else char_of (87 + d))"

definition hex_upper :: "char \<Rightarrow> string" where
  "hex_upper c = [hex_digit_upper (byte c div 16), hex_digit_upper (byte c mod 16)]"

definition hex_lower :: "char \<Rightarrow> string" where
  "hex_lower c = [hex_digit_lower (byte c div 16), hex_digit_lower (byte c mod 16)]"

definition hex_value :: "char \<Rightarrow> nat option" where
  "hex_value c =
     (if is_ascii_digit c then Some (byte c - 48)
      else if 65 \<le> byte c \<and> byte c \<le> 70 then Some (byte c - 55)
      else if 97 \<le> byte c \<and> byte c \<le> 102 then Some (byte c - 87)
      else None)"

lemma hex_value_digit_upper: "d < 16 \<Longrightarrow> hex_value (hex_digit_upper d) = Some d"
  by (auto simp: hex_value_def hex_digit_upper_def is_ascii_digit_def)

lemma hex_value_digit_lower: "d < 16 \<Longrightarrow> hex_value (hex_digit_lower d) = Some d"
  by (auto simp: hex_value_def hex_digit_lower_def is_ascii_digit_def)

lemma hex_value_less: "hex_value c = Some d \<Longrightarrow> d < 16"
  by (auto simp: hex_value_def is_ascii_digit_def split: if_splits)

lemma hex_value_None: "hex_value c = None \<longleftrightarrow> \<not> is_ascii_hexdigit c"
  by (auto simp: hex_value_def is_ascii_hexdigit_def)

lemma byte_div_mod_16: "byte c div 16 < 16" "byte c mod 16 < 16"
  using byte_less [of c] by simp_all

section \<open>Lists\<close>

text \<open>\<open>slice::windows(2)\<close> and \<open>slice[a..b]\<close>.\<close>

definition slice :: "nat \<Rightarrow> nat \<Rightarrow> 'a list \<Rightarrow> 'a list" where
  "slice a b xs = take (b - a) (drop a xs)"

lemma slice_split: "a \<le> b \<Longrightarrow> b \<le> c \<Longrightarrow> slice a b xs @ slice b c xs = slice a c xs"
proof -
  assume "a \<le> b" "b \<le> c"
  then have "c - a = (b - a) + (c - b)" "drop b xs = drop (b - a) (drop a xs)" by simp_all
  then show ?thesis by (simp add: slice_def take_add)
qed

lemma slice_full [simp]: "slice 0 (length xs) xs = xs"
  by (simp add: slice_def)

lemma length_slice: "length (slice a b xs) = min (b - a) (length xs - a)"
  by (simp add: slice_def)

lemma slice_nth: "i < b - a \<Longrightarrow> b \<le> length xs \<Longrightarrow> slice a b xs ! i = xs ! (a + i)"
  by (simp add: slice_def)

text \<open>A stable sort by a total preorder given as a comparison, as \<open>slice::sort_by\<close> is: insertion
  keeps the order of equal elements.\<close>

fun insert_by :: "('a \<Rightarrow> 'a \<Rightarrow> bool) \<Rightarrow> 'a \<Rightarrow> 'a list \<Rightarrow> 'a list" where
  "insert_by le x [] = [x]"
| "insert_by le x (y # ys) = (if le x y then x # y # ys else y # insert_by le x ys)"

fun sort_by :: "('a \<Rightarrow> 'a \<Rightarrow> bool) \<Rightarrow> 'a list \<Rightarrow> 'a list" where
  "sort_by le [] = []"
| "sort_by le (x # xs) = insert_by le x (sort_by le xs)"

text \<open>\<open>slice::partition_point\<close> on a list partitioned by the predicate.\<close>

definition partition_point :: "('a \<Rightarrow> bool) \<Rightarrow> 'a list \<Rightarrow> nat" where
  "partition_point P xs = length (takeWhile P xs)"

lemma partition_point_le: "partition_point P xs \<le> length xs"
  by (simp add: partition_point_def length_takeWhile_le)

lemma partition_point_sat: "i < partition_point P xs \<Longrightarrow> P (xs ! i)"
  unfolding partition_point_def
  by (metis nth_mem set_takeWhileD takeWhile_nth)

lemma partition_point_stop:
  "partition_point P xs < length xs \<Longrightarrow> \<not> P (xs ! partition_point P xs)"
  by (simp add: partition_point_def nth_length_takeWhile)

definition nth_opt :: "'a list \<Rightarrow> nat \<Rightarrow> 'a option" where
  "nth_opt xs i = (if i < length xs then Some (xs ! i) else None)"

text \<open>\<open>Iterator::position\<close> and \<open>rposition\<close>.\<close>

fun position_of :: "('a \<Rightarrow> bool) \<Rightarrow> 'a list \<Rightarrow> nat option" where
  "position_of P [] = None"
| "position_of P (x # xs) = (if P x then Some 0 else map_option Suc (position_of P xs))"

definition rposition_of :: "('a \<Rightarrow> bool) \<Rightarrow> 'a list \<Rightarrow> nat option" where
  "rposition_of P xs = map_option (\<lambda>i. length xs - 1 - i) (position_of P (rev xs))"

lemma position_of_Some:
  "position_of P xs = Some i \<Longrightarrow> i < length xs \<and> P (xs ! i) \<and> (\<forall>j < i. \<not> P (xs ! j))"
  by (induction xs arbitrary: i) (auto split: if_splits simp: less_Suc_eq_0_disj)

lemma position_of_None: "position_of P xs = None \<longleftrightarrow> (\<forall>x \<in> set xs. \<not> P x)"
  by (induction xs) auto

lemma rposition_of_Some:
  assumes "rposition_of P xs = Some i"
  shows "i < length xs" and "P (xs ! i)"
proof -
  obtain j where j: "position_of P (rev xs) = Some j" and i: "i = length xs - 1 - j"
    using assms by (auto simp: rposition_of_def)
  from position_of_Some [OF j] have "j < length xs" "P (rev xs ! j)" by auto
  then show "i < length xs" "P (xs ! i)" using i by (auto simp: rev_nth)
qed

section \<open>Ordered maps\<close>

text \<open>A \<open>BTreeMap\<close> is the list of its entries in key order.\<close>

fun bt_insert :: "'k::linorder \<Rightarrow> 'v \<Rightarrow> ('k \<times> 'v) list \<Rightarrow> ('k \<times> 'v) list" where
  "bt_insert k v [] = [(k, v)]"
| "bt_insert k v ((l, w) # al) =
     (if k < l then (k, v) # (l, w) # al
      else if k = l then (k, v) # al
      else (l, w) # bt_insert k v al)"

definition bt_remove :: "'k \<Rightarrow> ('k \<times> 'v) list \<Rightarrow> ('k \<times> 'v) list" where
  "bt_remove k al = filter (\<lambda>(l, _). l \<noteq> k) al"

definition bt_ok :: "('k::linorder \<times> 'v) list \<Rightarrow> bool" where
  "bt_ok al \<longleftrightarrow> sorted_wrt (<) (map fst al)"

lemma map_of_bt_insert [simp]: "map_of (bt_insert k v al) = (map_of al)(k \<mapsto> v)"
  by (induction k v al rule: bt_insert.induct) auto

lemma keys_bt_insert [simp]: "fst ` set (bt_insert k v al) = insert k (fst ` set al)"
  by (induction k v al rule: bt_insert.induct) auto

lemma bt_ok_insert: "bt_ok al \<Longrightarrow> bt_ok (bt_insert k v al)"
proof (induction k v al rule: bt_insert.induct)
  case (1 k v)
  then show ?case by (simp add: bt_ok_def)
next
  case (2 k v l w al)
  have keys: "set (map fst (bt_insert k v al)) = insert k (fst ` set al)"
    by (metis keys_bt_insert list.set_map)
  show ?case
  proof (cases "l < k")
    case True
    then have "\<not> k < l" "k \<noteq> l" by auto
    with 2 True show ?thesis by (simp add: bt_ok_def keys del: set_map) simp
  next
    case False
    with 2 show ?thesis by (auto simp: bt_ok_def)
  qed
qed

lemma bt_ok_remove: "bt_ok al \<Longrightarrow> bt_ok (bt_remove k al)"
  by (auto simp: bt_ok_def bt_remove_def sorted_wrt_map intro: sorted_wrt_filter)

lemma bt_ok_distinct: "bt_ok al \<Longrightarrow> distinct (map fst al)"
  by (auto simp: bt_ok_def strict_sorted_iff)

lemma keys_bt_remove [simp]: "fst ` set (bt_remove k al) = fst ` set al - {k}"
  by (auto simp: bt_remove_def)

lemma map_of_bt_remove [simp]: "map_of (bt_remove k al) = (map_of al)(k := None)"
  by (induction al) (auto simp: bt_remove_def fun_eq_iff)

section \<open>Splitting at a separator\<close>

lemma split_char_append: "split_char c (a @ c # b) = split_char c a @ split_char c b"
proof (induction a)
  case Nil
  then show ?case by simp
next
  case (Cons x a)
  then show ?case by (cases "split_char c a") auto
qed

lemma split_char_notin: "c \<notin> set b \<Longrightarrow> split_char c b = [b]"
  by (induction b) auto

lemma split_char_rsplit:
  "split_char c s = (case rsplit_once c s of None \<Rightarrow> [s] | Some (d, f) \<Rightarrow> split_char c d @ [f])"
proof (cases "rsplit_once c s")
  case None
  then have "c \<notin> set s" by (simp add: rsplit_once_def split_once_None)
  with None show ?thesis by (simp add: split_char_notin)
next
  case (Some df)
  obtain d f where "df = (d, f)" by (cases df)
  with Some rsplit_once_Some [of c s d f] have "s = d @ c # f" "c \<notin> set f" by auto
  with Some \<open>df = (d, f)\<close> show ?thesis by (simp add: split_char_append split_char_notin)
qed

lemma map_filter_append: "List.map_filter f (xs @ ys) = List.map_filter f xs @ List.map_filter f ys"
  by (simp add: List.map_filter_def)

end
