(* ===== verification/TP_Interfaces.thy ===== *)
theory TP_Interfaces
  imports TP_Prelude "HOL-Library.Multiset" "HOL-Library.While_Combinator"
begin

text \<open>
  The contracts several components share, each stated once as a locale and interpreted by the
  components that provide it: comparisons handed to a sort, encodings with a decoder, functions
  that tile a buffer with ranges, loops that evict until a limit holds, and state machines.
\<close>

section \<open>Comparisons\<close>

lemma mset_insert_by [simp]: "mset (insert_by le x xs) = add_mset x (mset xs)"
  by (induction xs) auto

lemma mset_sort_by [simp]: "mset (sort_by le xs) = mset xs"
  by (induction xs) auto

lemma set_sort_by [simp]: "set (sort_by le xs) = set xs"
  by (metis mset_sort_by set_mset_mset)

lemma set_insert_by [simp]: "set (insert_by le x xs) = insert x (set xs)"
  by (induction xs) auto

lemma length_sort_by [simp]: "length (sort_by le xs) = length xs"
  by (metis mset_sort_by size_mset)

lemma distinct_sort_by [simp]: "distinct (sort_by le xs) = distinct xs"
  by (metis mset_eq_imp_distinct_iff mset_sort_by)

text \<open>A comparison that is a total preorder sorts, and sorting keeps the order of ties.\<close>

locale comparison =
  fixes le :: "'a \<Rightarrow> 'a \<Rightarrow> bool"
  assumes le_total: "le x y \<or> le y x"
    and le_trans: "le x y \<Longrightarrow> le y z \<Longrightarrow> le x z"
begin

lemma le_refl: "le x x"
  using le_total by blast

lemma sorted_insert_by: "sorted_wrt le xs \<Longrightarrow> sorted_wrt le (insert_by le x xs)"
proof (induction xs)
  case Nil
  then show ?case by simp
next
  case (Cons y ys)
  show ?case
  proof (cases "le x y")
    case True
    with Cons.prems show ?thesis by (auto intro: le_trans)
  next
    case False
    with le_total have "le y x" by blast
    with False Cons show ?thesis by simp
  qed
qed

lemma sorted_sort_by: "sorted_wrt le (sort_by le xs)"
  by (induction xs) (simp_all add: sorted_insert_by)

lemma filter_insert_by:
  "sorted_wrt le xs \<Longrightarrow>
   filter (\<lambda>y. le z y \<and> le y z) (insert_by le x xs) = filter (\<lambda>y. le z y \<and> le y z) (x # xs)"
proof (induction xs)
  case Nil
  then show ?case by simp
next
  case (Cons y ys)
  have "le x y \<or> \<not> (le z x \<and> le x z) \<or> \<not> (le z y \<and> le y z)"
    using le_trans by blast
  with Cons show ?case by auto
qed

lemma stable_sort_by:
  "filter (\<lambda>y. le z y \<and> le y z) (sort_by le xs) = filter (\<lambda>y. le z y \<and> le y z) xs"
  by (induction xs) (simp_all add: filter_insert_by sorted_sort_by)

lemma sort_by_sorted: "sorted_wrt le xs \<Longrightarrow> sort_by le xs = xs"
proof (induction xs)
  case Nil
  then show ?case by simp
next
  case (Cons x xs)
  then show ?case by (cases xs) auto
qed

lemma sort_by_idem: "sort_by le (sort_by le xs) = sort_by le xs"
  by (rule sort_by_sorted) (rule sorted_sort_by)

lemma sorted_unique:
  "sorted_wrt le xs \<Longrightarrow> sorted_wrt le ys \<Longrightarrow> mset xs = mset ys \<Longrightarrow>
   (\<And>x y. x \<in> set xs \<Longrightarrow> y \<in> set xs \<Longrightarrow> le x y \<Longrightarrow> le y x \<Longrightarrow> x = y) \<Longrightarrow> xs = ys"
proof (induction xs arbitrary: ys)
  case Nil
  then show ?case by simp
next
  case (Cons x xs)
  then obtain y zs where ys: "ys = y # zs" by (cases ys) auto
  have sets: "set (x # xs) = set (y # zs)" using Cons.prems(3) ys by (metis set_mset_mset)
  have "le x y" using sets Cons.prems(1) le_refl by (metis list.set_intros(1) set_ConsD sorted_wrt.simps(2))
  moreover have "le y x" using sets Cons.prems(2) ys le_refl by (metis list.set_intros(1) set_ConsD sorted_wrt.simps(2))
  ultimately have "x = y" using Cons.prems(4) sets by (metis list.set_intros(1))
  with Cons ys show ?case by auto
qed

text \<open>A sorted list is determined by the order of its ties; sorting commutes with filtering.\<close>

lemma stable_unique:
  "sorted_wrt le xs \<Longrightarrow> sorted_wrt le ys \<Longrightarrow>
   (\<And>z. filter (\<lambda>y. le z y \<and> le y z) xs = filter (\<lambda>y. le z y \<and> le y z) ys) \<Longrightarrow> xs = ys"
proof (induction xs arbitrary: ys)
  case Nil
  show ?case
  proof (cases ys)
    case (Cons y zs)
    with Nil.prems(3) [of y] show ?thesis by (simp add: le_refl)
  qed simp
next
  case (Cons x xs)
  note eq = Cons.prems(3)
  obtain y zs where ys: "ys = y # zs" using eq [of x] by (cases ys) (simp_all add: le_refl)
  have mem: "z \<in> set (x # xs) \<longleftrightarrow> z \<in> set ys" for z
    using arg_cong [OF eq [of z], of "\<lambda>l. z \<in> set l"] by (auto simp: le_refl split: if_splits)
  from mem [of x] mem [of y] ys have "x \<in> set ys" "y \<in> set (x # xs)" by simp_all
  then have "le y x" "le x y" using Cons.prems(1,2) ys by (auto simp: le_refl)
  with eq [of x] ys have xy: "x = y" by (simp add: le_refl)
  have "filter (\<lambda>y. le z y \<and> le y z) xs = filter (\<lambda>y. le z y \<and> le y z) zs" for z
    using eq [of z] xy ys by (simp split: if_splits)
  then have "xs = zs" using Cons.IH [of zs] Cons.prems(1,2) ys by simp
  with xy ys show ?case by simp
qed

lemma filter_insert_by_commute:
  "sorted_wrt le xs \<Longrightarrow> filter P (insert_by le x xs) = (if P x then insert_by le x (filter P xs) else filter P xs)"
proof (induction xs)
  case (Cons y ys)
  have "insert_by le x (filter P ys) = x # filter P ys" if "le x y"
    using that Cons.prems le_trans by (cases "filter P ys") (auto dest!: filter_eq_ConsD)
  with Cons show ?case by auto
qed simp

lemma filter_sort_by: "filter P (sort_by le xs) = sort_by le (filter P xs)"
  by (induction xs) (simp_all add: filter_insert_by_commute sorted_sort_by)

text \<open>A comparison that separates the elements at hand sorts them into one list only.\<close>

lemma sort_by_unique:
  assumes "sorted_wrt le ys" "mset xs = mset ys"
    and "\<And>x y. x \<in> set ys \<Longrightarrow> y \<in> set ys \<Longrightarrow> le x y \<Longrightarrow> le y x \<Longrightarrow> x = y"
  shows "sort_by le xs = ys"
  using sorted_unique [OF assms(1) sorted_sort_by [of xs]] assms by simp

lemma sort_by_perm:
  assumes "mset xs = mset ys"
    and "\<And>x y. x \<in> set ys \<Longrightarrow> y \<in> set ys \<Longrightarrow> le x y \<Longrightarrow> le y x \<Longrightarrow> x = y"
  shows "sort_by le xs = sort_by le ys"
  using assms by (intro sort_by_unique sorted_sort_by) auto

end

text \<open>A comparison by a key in a total order.\<close>

definition by_key :: "('a \<Rightarrow> 'k::linorder) \<Rightarrow> 'a \<Rightarrow> 'a \<Rightarrow> bool" where
  "by_key key a b \<longleftrightarrow> key a \<le> key b"

interpretation by_key: comparison "by_key key" for key :: "'a \<Rightarrow> 'k::linorder"
  by unfold_locales (auto simp: by_key_def)

lemma by_key_antisym: "by_key k x y \<Longrightarrow> by_key k y x \<Longrightarrow> k x = k y"
  by (simp add: by_key_def)

lemma sort_by_map: "sort_by (by_key k) (map f xs) = map f (sort_by (by_key (\<lambda>x. k (f x))) xs)"
proof -
  have "insert_by (by_key k) (f x) (map f ys) = map f (insert_by (by_key (\<lambda>x. k (f x))) x ys)" for x ys
    by (induction ys) (simp_all add: by_key_def)
  then show ?thesis by (induction xs) simp_all
qed

text \<open>A stable sort of a sorted list sorts by both keys.\<close>

lemma sorted_lexicographic:
  "sorted_wrt (by_key f) xs \<Longrightarrow> (\<And>z. sorted_wrt (by_key g) (filter (\<lambda>y. f y = z) xs)) \<Longrightarrow>
   sorted_wrt (\<lambda>a b. f a < f b \<or> f a = f b \<and> g a \<le> g b) xs"
proof (induction xs)
  case (Cons x xs)
  have "sorted_wrt (by_key g) (filter (\<lambda>y. f y = z) xs)" for z
    using Cons.prems(2) [of z] by (auto split: if_splits)
  moreover have "f x < f y \<or> f x = f y \<and> g x \<le> g y" if "y \<in> set xs" for y
    using that Cons.prems(1) Cons.prems(2) [of "f x"] by (fastforce simp: by_key_def order_le_less)
  ultimately show ?case using Cons by auto
qed simp

lemma sort_by_twice:
  "sorted_wrt (\<lambda>a b. f a < f b \<or> f a = f b \<and> g a \<le> g b) (sort_by (by_key f) (sort_by (by_key g) xs))"
proof (rule sorted_lexicographic)
  fix z
  have "filter (\<lambda>y. f y = z) (sort_by (by_key f) (sort_by (by_key g) xs))
      = sort_by (by_key f) (filter (\<lambda>y. f y = z) (sort_by (by_key g) xs))"
    by (rule by_key.filter_sort_by)
  also have "\<dots> = filter (\<lambda>y. f y = z) (sort_by (by_key g) xs)"
    by (rule by_key.sort_by_sorted) (rule sorted_wrt_mono_rel [of _ "\<lambda>_ _. True"]; simp add: by_key_def sorted_wrt_iff_nth_less)
  finally show "sorted_wrt (by_key g) (filter (\<lambda>y. f y = z) (sort_by (by_key f) (sort_by (by_key g) xs)))"
    by (simp add: sorted_wrt_filter by_key.sorted_sort_by)
qed (rule by_key.sorted_sort_by)

text \<open>Keeping only the best \<open>k\<close> after every insertion keeps the best \<open>k\<close> of all.\<close>

lemma take_insert_by: "take k (insert_by le x (take k ys)) = take k (insert_by le x ys)"
proof (induction ys arbitrary: k)
  case Nil
  then show ?case by simp
next
  case (Cons y ys)
  then show ?case
  proof (cases k)
    case (Suc n)
    show ?thesis
    proof (cases "le x y")
      case True
      then show ?thesis using Suc by (cases n) simp_all
    next
      case False
      then show ?thesis using Suc Cons [of n] by simp
    qed
  qed simp
qed

lemma fold_insert_by_sort: "fold (insert_by le) xs [] = sort_by le (rev xs)"
proof -
  have "fold (insert_by le) xs ys = foldr (insert_by le) (rev xs) ys" for ys by (simp add: foldr_conv_fold)
  moreover have "foldr (insert_by le) zs [] = sort_by le zs" for zs by (induction zs) simp_all
  ultimately show ?thesis by simp
qed

lemma bounded_selection:
  "fold (\<lambda>x h. take k (insert_by le x h)) xs [] = take k (sort_by le (rev xs))"
proof -
  have "fold (\<lambda>x h. take k (insert_by le x h)) xs (take k h) = take k (fold (insert_by le) xs h)" for h
    by (induction xs arbitrary: h) (simp_all add: take_insert_by)
  from this [of "[]"] show ?thesis by (simp add: fold_insert_by_sort)
qed

section \<open>First of each key\<close>

text \<open>The first element with each key, in list order.\<close>

function first_by :: "('a \<Rightarrow> 'k) \<Rightarrow> 'a list \<Rightarrow> 'a list" where
  "first_by f [] = []"
| "first_by f (x # xs) = x # first_by f (filter (\<lambda>y. f y \<noteq> f x) xs)"
  by pat_completeness auto
termination
  by (relation "measure (length \<circ> snd)") (auto simp: le_imp_less_Suc)

lemma set_first_by_subset: "set (first_by f xs) \<subseteq> set xs"
  by (induction f xs rule: first_by.induct) auto

lemma keys_first_by: "f ` set (first_by f xs) = f ` set xs"
  by (induction f xs rule: first_by.induct) auto

lemma distinct_first_by: "distinct (map f (first_by f xs))"
proof (induction f xs rule: first_by.induct)
  case (2 f x xs)
  have "f x \<notin> f ` set (first_by f (filter (\<lambda>y. f y \<noteq> f x) xs))" by (auto simp: keys_first_by)
  with 2 show ?case by simp
qed simp

lemma filter_first_by: "first_by f (filter (\<lambda>y. f y \<notin> K) xs) = filter (\<lambda>y. f y \<notin> K) (first_by f xs)"
proof (induction f xs arbitrary: K rule: first_by.induct)
  case (2 f x xs)
  have "filter (\<lambda>y. f y \<noteq> f x) (filter (\<lambda>y. f y \<notin> K) xs) = filter (\<lambda>y. f y \<notin> K) (filter (\<lambda>y. f y \<noteq> f x) xs)"
    by (simp add: conj_commute)
  moreover have "filter (\<lambda>y. f y \<notin> K) (filter (\<lambda>y. f y \<noteq> f x) xs) = filter (\<lambda>y. f y \<notin> K) xs" if "f x \<in> K"
    using that by (auto intro: filter_cong)
  ultimately show ?case using 2 [of K] by auto
qed simp

lemma sorted_wrt_first_by: "sorted_wrt P xs \<Longrightarrow> sorted_wrt P (first_by f xs)"
proof (induction f xs rule: first_by.induct)
  case (2 f x xs)
  then show ?case using set_first_by_subset [of f "filter (\<lambda>y. f y \<noteq> f x) xs"]
    by (auto simp: sorted_wrt_filter)
qed simp

lemma map_first_by: "(\<And>x. f (g x) = h x) \<Longrightarrow> map g (first_by h xs) = first_by f (map g xs)"
  by (induction h xs rule: first_by.induct) (simp_all add: filter_map comp_def)

lemma map_filter_mem: "y \<in> set (List.map_filter f xs) \<longleftrightarrow> (\<exists>x \<in> set xs. f x = Some y)"
  by (induction xs) (auto simp: map_filter_simps split: option.splits)

lemma length_map_filter: "length (List.map_filter f xs) \<le> length xs"
  by (simp add: map_filter_def)

section \<open>Encodings\<close>

text \<open>An encoder with a fallible decoder: decoding an encoded valid value gives it back.\<close>

locale codec =
  fixes enc :: "'a \<Rightarrow> 'b"
    and dec :: "'b \<Rightarrow> 'e + 'a"
    and valid :: "'a \<Rightarrow> bool"
  assumes dec_enc: "valid x \<Longrightarrow> dec (enc x) = Inr x"
begin

lemma enc_inject: "valid x \<Longrightarrow> valid y \<Longrightarrow> enc x = enc y \<longleftrightarrow> x = y"
  by (metis dec_enc sum.inject(2))

lemma enc_inj_on: "inj_on enc {x. valid x}"
  by (auto intro: inj_onI simp: enc_inject)

end

text \<open>A decoder that only returns valid values normalises: every accepted spelling denotes the
  value its canonical spelling denotes.\<close>

locale canonical_codec = codec +
  assumes dec_valid: "dec y = Inr x \<Longrightarrow> valid x"
begin

lemma dec_normalises: "dec y = Inr x \<Longrightarrow> dec (enc x) = dec y"
  by (simp add: dec_enc dec_valid)

lemma range_dec: "{x. \<exists>y. dec y = Inr x} = {x. valid x}"
  using dec_enc dec_valid by blast

end

section \<open>Tilings of a buffer\<close>

text \<open>\<open>tiles s e rs\<close>: the half-open ranges \<open>rs\<close> are nonempty, adjacent, and run from \<open>s\<close> to \<open>e\<close>.\<close>

fun tiles :: "nat \<Rightarrow> nat \<Rightarrow> (nat \<times> nat) list \<Rightarrow> bool" where
  "tiles s e [] \<longleftrightarrow> s = e"
| "tiles s e ((a, b) # rs) \<longleftrightarrow> a = s \<and> a < b \<and> tiles b e rs"

lemma tiles_le: "tiles s e rs \<Longrightarrow> s \<le> e"
  by (induction s e rs rule: tiles.induct) auto

lemma tiles_bounds: "tiles s e rs \<Longrightarrow> (a, b) \<in> set rs \<Longrightarrow> s \<le> a \<and> a < b \<and> b \<le> e"
proof (induction s e rs rule: tiles.induct)
  case (1 s e)
  then show ?case by simp
next
  case (2 s e c d rs)
  then show ?case using tiles_le [of d e rs] by auto
qed

lemma tiles_append: "tiles s e (rs @ ts) \<longleftrightarrow> (\<exists>m. tiles s m rs \<and> tiles m e ts)"
  by (induction rs arbitrary: s) auto

lemma tiles_ordered:
  "tiles s e rs \<Longrightarrow> i < j \<Longrightarrow> j < length rs \<Longrightarrow> snd (rs ! i) \<le> fst (rs ! j)"
proof (induction s e rs arbitrary: i j rule: tiles.induct)
  case (1 s e)
  then show ?case by simp
next
  case (2 s e a b rs)
  show ?case
  proof (cases i)
    case 0
    then obtain k where "j = Suc k" "k < length rs" using 2 by (cases j) auto
    then have "rs ! k \<in> set rs" by simp
    with tiles_bounds [of b e rs "fst (rs ! k)" "snd (rs ! k)"] 2 0 \<open>j = Suc k\<close> show ?thesis by simp
  next
    case (Suc i')
    with 2 show ?thesis by (cases j) auto
  qed
qed

lemma tiles_concat:
  "tiles s e rs \<Longrightarrow> concat (map (\<lambda>(a, b). slice a b xs) rs) = slice s e xs"
proof (induction s e rs rule: tiles.induct)
  case (1 s e)
  then show ?case by (simp add: slice_def)
next
  case (2 s e a b rs)
  then show ?case using tiles_le [of b e rs] by (simp add: slice_split)
qed

lemma tiles_cover: "tiles s e rs \<Longrightarrow> s \<le> i \<Longrightarrow> i < e \<Longrightarrow> \<exists>(a, b) \<in> set rs. a \<le> i \<and> i < b"
proof (induction s e rs rule: tiles.induct)
  case (1 s e)
  then show ?case by simp
next
  case (2 s e a b rs)
  then show ?case by (cases "i < b") auto
qed

lemma tiles_unique:
  "tiles s e rs \<Longrightarrow> (a, b) \<in> set rs \<Longrightarrow> (c, d) \<in> set rs \<Longrightarrow>
   a \<le> i \<Longrightarrow> i < b \<Longrightarrow> c \<le> i \<Longrightarrow> i < d \<Longrightarrow> (a, b) = (c, d)"
proof (induction s e rs rule: tiles.induct)
  case (1 s e)
  then show ?case by simp
next
  case (2 s e x y rs)
  then show ?case using tiles_bounds [of y e rs] by fastforce
qed

text \<open>A function that cuts its input into ranges covering a buffer exactly.\<close>

locale range_cover =
  fixes ranges :: "'x \<Rightarrow> (nat \<times> nat) list"
    and len :: "'x \<Rightarrow> nat"
    and ok :: "'x \<Rightarrow> bool"
  assumes ranges_tile: "ok x \<Longrightarrow> tiles 0 (len x) (ranges x)"
begin

lemma ranges_concat:
  "ok x \<Longrightarrow> length xs = len x \<Longrightarrow> concat (map (\<lambda>(a, b). slice a b xs) (ranges x)) = xs"
  by (metis tiles_concat ranges_tile slice_full)

lemma ranges_unique: "ok x \<Longrightarrow> i < len x \<Longrightarrow> \<exists>!r. r \<in> set (ranges x) \<and> fst r \<le> i \<and> i < snd r"
proof -
  assume ok: "ok x" and i: "i < len x"
  from tiles_cover [OF ranges_tile [OF ok], of i] i
  obtain a b where "(a, b) \<in> set (ranges x)" "a \<le> i" "i < b" by auto
  then show ?thesis using tiles_unique [OF ranges_tile [OF ok]] by fastforce
qed

lemma ranges_bounds: "ok x \<Longrightarrow> (a, b) \<in> set (ranges x) \<Longrightarrow> a < b \<and> b \<le> len x"
  using tiles_bounds [OF ranges_tile] by blast

lemma ranges_length: "ok x \<Longrightarrow> length (ranges x) \<le> len x"
proof -
  have "tiles s e rs \<Longrightarrow> length rs \<le> e - s" for s e rs
    by (induction s e rs rule: tiles.induct) (auto dest!: tiles_le)
  then show "ok x \<Longrightarrow> length (ranges x) \<le> len x" using ranges_tile by fastforce
qed

end

section \<open>Eviction loops\<close>

text \<open>A loop that deletes something while a limit is exceeded: it ends, within the limit.\<close>

locale eviction =
  fixes over :: "'s \<Rightarrow> bool"
    and evict :: "'s \<Rightarrow> 's"
    and weight :: "'s \<Rightarrow> nat"
    and inv :: "'s \<Rightarrow> bool"
  assumes evict_shrinks: "inv s \<Longrightarrow> over s \<Longrightarrow> weight (evict s) < weight s"
    and evict_inv: "inv s \<Longrightarrow> over s \<Longrightarrow> inv (evict s)"
begin

lemma evict_loop: "inv s \<Longrightarrow> \<exists>t. while_option over evict s = Some t \<and> inv t \<and> \<not> over t"
proof -
  assume s: "inv s"
  then obtain t where t: "while_option over evict s = Some t"
    using measure_while_option_Some [of inv over evict weight s] evict_shrinks evict_inv by blast
  moreover have "inv t"
    using while_option_rule [of inv over evict s t] evict_inv s t by blast
  ultimately show ?thesis using while_option_stop [OF t] by blast
qed

end

section \<open>State machines\<close>

text \<open>A state machine whose steps keep an invariant keeps it in every reachable state.\<close>

locale machine =
  fixes init :: "'s \<Rightarrow> bool"
    and step :: "'s \<Rightarrow> 's \<Rightarrow> bool"
    and inv :: "'s \<Rightarrow> bool"
  assumes inv_init: "init s \<Longrightarrow> inv s"
    and inv_step: "inv s \<Longrightarrow> step s t \<Longrightarrow> inv t"
begin

lemma inv_steps: "step\<^sup>*\<^sup>* s t \<Longrightarrow> inv s \<Longrightarrow> inv t"
  by (induction rule: rtranclp_induct) (auto intro: inv_step)

lemma inv_reachable: "init s \<Longrightarrow> step\<^sup>*\<^sup>* s t \<Longrightarrow> inv t"
  by (blast intro: inv_steps inv_init)

end

end
