(* ===== verification/TP_Identity.thy ===== *)
theory TP_Identity
  imports TP_Interfaces
begin

text \<open>
  \<open>src/identity.rs\<close>: validated Git object identifiers, byte spans, and the addresses of
  immutable results (\<open>SET:ORDINAL\<close> handles and \<open>SET@OFFSET\<close> cursors).  The identifiers of
  result sets are values of the \<open>uuid\<close> crate: its parser and its \<open>simple\<close> formatter are the
  parameters \<open>parse_uuid\<close> and \<open>show_uuid\<close>.
\<close>

section \<open>Git object identifiers\<close>

record git_oid =
  oid_hex :: bytes
  oid_len :: nat

definition GitOid_parse :: "string \<Rightarrow> git_oid result" where
  "GitOid_parse s =
     (if \<not> (length s = 40 \<or> length s = 64) \<or> \<not> list_all is_ascii_hexdigit s
      then Inl ''invalid_oid: expected full SHA-1 or SHA-256 object ID''
      else Inr \<lparr>oid_hex = map to_ascii_lowercase s @ replicate (64 - length s) (CHR 0x00),
                oid_len = length s\<rparr>)"

definition GitOid_as_str :: "git_oid \<Rightarrow> string" where
  "GitOid_as_str oid = take (oid_len oid) (oid_hex oid)"

definition valid_oid :: "git_oid \<Rightarrow> bool" where
  "valid_oid oid \<longleftrightarrow> (oid_len oid = 40 \<or> oid_len oid = 64) \<and> length (oid_hex oid) = 64
     \<and> list_all (\<lambda>c. is_ascii_hexdigit c \<and> \<not> is_ascii_uppercase c) (take (oid_len oid) (oid_hex oid))
     \<and> drop (oid_len oid) (oid_hex oid) = replicate (64 - oid_len oid) (CHR 0x00)"

lemma lowercase_not_upper [simp]: "\<not> is_ascii_uppercase (to_ascii_lowercase c)"
  by (simp add: is_ascii_uppercase_def byte_lowercase)

lemma lowercase_id: "\<not> is_ascii_uppercase c \<Longrightarrow> to_ascii_lowercase c = c"
  by (simp add: to_ascii_lowercase_def)

lemma GitOid_parse_valid: "GitOid_parse s = Inr oid \<Longrightarrow> valid_oid oid"
  by (auto simp: GitOid_parse_def valid_oid_def list_all_iff split: if_splits)

lemma GitOid_parse_as_str: "GitOid_parse s = Inr oid \<Longrightarrow> GitOid_as_str oid = ascii_lower s"
  by (auto simp: GitOid_parse_def GitOid_as_str_def ascii_lower_def split: if_splits)

lemma GitOid_as_str_parse: "valid_oid oid \<Longrightarrow> GitOid_parse (GitOid_as_str oid) = Inr oid"
proof -
  assume v: "valid_oid oid"
  let ?s = "take (oid_len oid) (oid_hex oid)"
  have len: "length ?s = oid_len oid" using v by (auto simp: valid_oid_def)
  have lower: "map to_ascii_lowercase ?s = ?s"
    using v by (auto simp: valid_oid_def list_all_iff lowercase_id intro: map_idI)
  have "?s @ replicate (64 - oid_len oid) (CHR 0x00) = oid_hex oid"
    using v append_take_drop_id [of "oid_len oid" "oid_hex oid"] by (simp add: valid_oid_def)
  with v len lower show ?thesis
    by (auto simp: GitOid_parse_def GitOid_as_str_def valid_oid_def list_all_iff)
qed

interpretation git_oid: canonical_codec GitOid_as_str GitOid_parse valid_oid
  by unfold_locales (simp_all add: GitOid_as_str_parse GitOid_parse_valid)

section \<open>Byte spans\<close>

record byte_span =
  span_start :: nat
  span_end :: nat

definition ByteSpan_new :: "nat \<Rightarrow> nat \<Rightarrow> byte_span result" where
  "ByteSpan_new s e =
     (if e < s then Inl ''invalid_span: reversed byte range''
      else Inr \<lparr>span_start = s, span_end = e\<rparr>)"

definition ByteSpan_validate :: "byte_span \<Rightarrow> nat \<Rightarrow> byte_span result" where
  "ByteSpan_validate sp len =
     (if span_end sp < span_start sp \<or> len < span_end sp
      then Inl ''invalid_span: coordinates outside verified source'' else Inr sp)"

lemma ByteSpan_validate_Inr:
  "ByteSpan_validate sp len = Inr sp' \<longleftrightarrow> sp' = sp \<and> span_start sp \<le> span_end sp \<and> span_end sp \<le> len"
  by (auto simp: ByteSpan_validate_def)

section \<open>Result handles and cursors\<close>

record 'u result_handle =
  handle_set :: 'u
  handle_ordinal :: nat

record 'u result_cursor =
  cursor_set :: 'u
  cursor_offset :: nat

definition ResultHandle_parse :: "(string \<Rightarrow> 'u option) \<Rightarrow> string \<Rightarrow> 'u result_handle result" where
  "ResultHandle_parse parse_uuid value =
     (case rsplit_once (CHR '':'') value of
        None \<Rightarrow> Inl ''invalid_handle: expected SET:ORDINAL''
      | Some (s, ord) \<Rightarrow>
          (case parse_uuid s of
             None \<Rightarrow> Inl ''invalid_handle: invalid result-set ID''
           | Some u \<Rightarrow>
               (case parse_usize ord of
                  None \<Rightarrow> Inl ''invalid_handle: invalid ordinal''
                | Some n \<Rightarrow>
                    if n = 0 then Inl ''invalid_handle: ordinal must be positive''
                    else Inr \<lparr>handle_set = u, handle_ordinal = n\<rparr>)))"

definition ResultHandle_display :: "('u \<Rightarrow> string) \<Rightarrow> 'u result_handle \<Rightarrow> string" where
  "ResultHandle_display show_uuid h =
     show_uuid (handle_set h) @ '':'' @ show_nat (handle_ordinal h)"

definition ResultCursor_parse :: "(string \<Rightarrow> 'u option) \<Rightarrow> string \<Rightarrow> 'u result_cursor result" where
  "ResultCursor_parse parse_uuid value =
     (case rsplit_once (CHR ''@'') value of
        None \<Rightarrow> Inl ''invalid_cursor: expected SET@OFFSET''
      | Some (s, off) \<Rightarrow>
          (case parse_uuid s of
             None \<Rightarrow> Inl ''invalid_cursor: invalid result-set ID''
           | Some u \<Rightarrow>
               (case parse_usize off of
                  None \<Rightarrow> Inl ''invalid_cursor: invalid offset''
                | Some n \<Rightarrow> Inr \<lparr>cursor_set = u, cursor_offset = n\<rparr>)))"

definition ResultCursor_display :: "('u \<Rightarrow> string) \<Rightarrow> 'u result_cursor \<Rightarrow> string" where
  "ResultCursor_display show_uuid c =
     show_uuid (cursor_set c) @ ''@'' @ show_nat (cursor_offset c)"

lemma colon_not_in_show_nat: "CHR '':'' \<notin> set (show_nat n)"
  by (auto dest!: show_nat_digits simp: is_ascii_digit_def byte_def)

lemma at_not_in_show_nat: "CHR ''@'' \<notin> set (show_nat n)"
  by (auto dest!: show_nat_digits simp: is_ascii_digit_def byte_def)

lemma ResultHandle_parse_bounds:
  "ResultHandle_parse pu s = Inr h \<Longrightarrow> 0 < handle_ordinal h \<and> handle_ordinal h \<le> usize_max"
  by (auto simp: ResultHandle_parse_def parse_usize_bound split: option.splits if_splits)

text \<open>Parsing a Git object identifier is exact on canonical spellings and normalising on all
  others: an identifier is accepted iff it is 40 or 64 hexadecimal digits, what it prints is the
  lower-case spelling of its input, and printing then parsing gives the identifier back.\<close>

theorem git_oid_canonical:
  "((\<exists>oid. GitOid_parse s = Inr oid) \<longleftrightarrow> length s \<in> {40, 64} \<and> list_all is_ascii_hexdigit s)
   \<and> (\<forall>oid. GitOid_parse s = Inr oid \<longrightarrow>
        GitOid_as_str oid = ascii_lower s \<and> GitOid_parse (GitOid_as_str oid) = Inr oid)"
proof (intro conjI allI impI)
  show "(\<exists>oid. GitOid_parse s = Inr oid) \<longleftrightarrow> length s \<in> {40, 64} \<and> list_all is_ascii_hexdigit s"
    by (auto simp: GitOid_parse_def)
next
  fix oid
  assume "GitOid_parse s = Inr oid"
  then show "GitOid_as_str oid = ascii_lower s" and "GitOid_parse (GitOid_as_str oid) = Inr oid"
    using git_oid.dec_normalises [of s oid] by (simp_all add: GitOid_parse_as_str)
qed

theorem git_oid_canonical_witness:
  "\<exists>oid. GitOid_parse (replicate 40 (CHR ''A'')) = Inr oid
     \<and> GitOid_as_str oid = replicate 40 (CHR ''a'')"
proof -
  have hex: "is_ascii_hexdigit (CHR ''A'')" and low: "to_ascii_lowercase (CHR ''A'') = CHR ''a''"
    by code_simp+
  obtain oid where oid: "GitOid_parse (replicate 40 (CHR ''A'')) = Inr oid"
    by (auto simp: GitOid_parse_def list_all_iff hex)
  with git_oid_canonical [of "replicate 40 (CHR ''A'')"] show ?thesis
    by (auto simp: ascii_lower_def low map_replicate)
qed

text \<open>Result addresses survive printing: for every UUID library whose parser reads what its
  formatter prints, a handle with a positive ordinal and a cursor are recovered exactly from their
  printed form, and an ordinal of zero is refused.\<close>

theorem result_address_roundtrip:
  assumes uuid: "\<And>u. parse_uuid (show_uuid u) = Some u"
    and n: "0 < n" "n \<le> usize_max" and m: "m \<le> usize_max"
  shows "ResultHandle_parse parse_uuid (ResultHandle_display show_uuid \<lparr>handle_set = u, handle_ordinal = n\<rparr>)
           = Inr \<lparr>handle_set = u, handle_ordinal = n\<rparr>
    \<and> ResultCursor_parse parse_uuid (ResultCursor_display show_uuid \<lparr>cursor_set = u, cursor_offset = m\<rparr>)
           = Inr \<lparr>cursor_set = u, cursor_offset = m\<rparr>
    \<and> ResultHandle_parse parse_uuid (ResultHandle_display show_uuid \<lparr>handle_set = u, handle_ordinal = 0\<rparr>)
           = Inl ''invalid_handle: ordinal must be positive''"
  using rsplit_once_append [OF colon_not_in_show_nat, of "show_uuid u"]
    rsplit_once_append [OF at_not_in_show_nat, of "show_uuid u"] n m
  by (simp add: ResultHandle_parse_def ResultHandle_display_def ResultCursor_parse_def
      ResultCursor_display_def uuid parse_show_nat)

theorem result_address_roundtrip_witness:
  "ResultHandle_parse Some (ResultHandle_display (\<lambda>u. u) \<lparr>handle_set = ''ab'', handle_ordinal = 7\<rparr>)
     = Inr \<lparr>handle_set = ''ab'', handle_ordinal = 7\<rparr>"
  using result_address_roundtrip [of Some "\<lambda>u. u" 7 3 "''ab''"] by (simp add: usize_max_def)

end
