(* ===== verification/TP_Paths.thy ===== *)
theory TP_Paths
  imports TP_Interfaces
begin

text \<open>
  \<open>src/store/paths.rs\<close>: the percent encoding of Unix paths.  A \<open>Path\<close> is its raw bytes.
  \<open>u8::from_str_radix\<close> accepts a leading plus sign, which \<open>decode_escape\<close> keeps.
\<close>

section \<open>Encoding\<close>

definition plain_path_byte :: "char \<Rightarrow> bool" where
  "plain_path_byte c \<longleftrightarrow> 0x21 \<le> byte c \<and> byte c \<le> 0x7e \<and> c \<notin> {CHR ''%'', CHR '':'', CHR ''@''}"

fun encode_path :: "bytes \<Rightarrow> string" where
  "encode_path [] = []"
| "encode_path (b # bs) =
     (if plain_path_byte b then b # encode_path bs
      else CHR ''%'' # hex_upper b @ encode_path bs)"

text \<open>\<open>u8::from_str_radix(digits, 16)\<close> on two bytes.\<close>

definition decode_escape :: "char \<Rightarrow> char \<Rightarrow> nat option" where
  "decode_escape h l =
     (if h = CHR ''+'' then hex_value l
      else case (hex_value h, hex_value l) of (Some a, Some b) \<Rightarrow> Some (16 * a + b) | _ \<Rightarrow> None)"

fun decode_bytes :: "string \<Rightarrow> bytes result" where
  "decode_bytes [] = Inr []"
| "decode_bytes (c # cs) =
     (if c = CHR ''%'' then
        (case cs of
           h # l # rest \<Rightarrow>
             (case decode_escape h l of
                None \<Rightarrow> Inl ''invalid digit found in string''
              | Some n \<Rightarrow> map_sum id (Cons (char_of n)) (decode_bytes rest))
         | _ \<Rightarrow> Inl ''invalid percent-encoded path'')
      else map_sum id (Cons c) (decode_bytes cs))"

definition decode_path :: "string \<Rightarrow> bytes result" where
  "decode_path encoded =
     (case decode_bytes encoded of
        Inl e \<Rightarrow> Inl e
      | Inr bs \<Rightarrow> if CHR 0x00 \<in> set bs then Inl ''NUL in path'' else Inr bs)"

section \<open>Round trip\<close>

lemma plus_not_hex: "hex_value (CHR ''+'') = None"
  by code_simp

lemma hex_digit_upper_plus: "d < 16 \<Longrightarrow> hex_digit_upper d \<noteq> CHR ''+''"
  using hex_value_digit_upper [of d] plus_not_hex by auto

lemma decode_escape_hex_upper:
  "decode_escape (hex_digit_upper (byte c div 16)) (hex_digit_upper (byte c mod 16)) = Some (byte c)"
  by (simp add: decode_escape_def hex_digit_upper_plus hex_value_digit_upper byte_div_mod_16)

lemma decode_encode_bytes: "decode_bytes (encode_path bs) = Inr bs"
  by (induction bs)
    (auto simp: plain_path_byte_def hex_upper_def decode_escape_hex_upper)

lemma decode_encode_path: "CHR 0x00 \<notin> set bs \<Longrightarrow> decode_path (encode_path bs) = Inr bs"
  by (simp add: decode_path_def decode_encode_bytes)

lemma decode_path_no_nul: "decode_path s = Inr bs \<Longrightarrow> CHR 0x00 \<notin> set bs"
  by (auto simp: decode_path_def split: sum.splits if_splits)

interpretation path_codec: canonical_codec encode_path decode_path "\<lambda>bs. CHR 0x00 \<notin> set bs"
  by unfold_locales (simp_all add: decode_encode_path decode_path_no_nul)

section \<open>Shape of encoded paths\<close>

text \<open>Encoded paths consist of printable ASCII bytes other than the two that separate handles and
  cursors.\<close>

definition printable :: "char \<Rightarrow> bool" where
  "printable c \<longleftrightarrow> 0x21 \<le> byte c \<and> byte c \<le> 0x7e"

definition encoded_byte :: "char \<Rightarrow> bool" where
  "encoded_byte c \<longleftrightarrow> printable c \<and> c \<notin> {CHR '':'', CHR ''@''}"

lemma hex_digit_upper_hexdigit: "d < 16 \<Longrightarrow> is_ascii_hexdigit (hex_digit_upper d)"
  using hex_value_digit_upper [of d] hex_value_None [of "hex_digit_upper d"] by simp

lemma hexdigit_encoded: "is_ascii_hexdigit c \<Longrightarrow> encoded_byte c"
  by (auto simp: is_ascii_hexdigit_def is_ascii_digit_def encoded_byte_def printable_def byte_def)

lemma percent_encoded: "encoded_byte (CHR ''%'')"
  by code_simp

lemma plain_encoded: "plain_path_byte c \<Longrightarrow> encoded_byte c"
  by (simp add: plain_path_byte_def encoded_byte_def printable_def)

lemma encode_path_encoded: "list_all encoded_byte (encode_path bs)"
  by (induction bs)
    (auto simp: plain_encoded hex_upper_def percent_encoded hexdigit_encoded
      hex_digit_upper_hexdigit byte_div_mod_16)

lemma encode_path_append [simp]: "encode_path (as @ bs) = encode_path as @ encode_path bs"
  by (induction as) auto

lemma encode_path_eq_Nil [simp]: "encode_path bs = [] \<longleftrightarrow> bs = []"
  by (cases bs) auto

text \<open>C39. Percent encoding loses nothing: every Unix path (a byte string without NUL) is decoded
  exactly from its encoding, distinct paths have distinct encodings, and the encoding is printable
  ASCII free of the separators \<open>:\<close> and \<open>@\<close>.\<close>

theorem path_encoding_roundtrip:
  assumes "CHR 0x00 \<notin> set p" and "CHR 0x00 \<notin> set q"
  shows "decode_path (encode_path p) = Inr p
     \<and> (encode_path p = encode_path q \<longleftrightarrow> p = q)
     \<and> list_all encoded_byte (encode_path p)"
  using assms path_codec.enc_inject [of p q] by (simp add: decode_encode_path encode_path_encoded)

theorem path_encoding_roundtrip_witness:
  "decode_path (encode_path ''a b%c'') = Inr ''a b%c'' \<and> encode_path ''a b%c'' = ''a%20b%25c''"
proof -
  have "encode_path ''a b%c'' = ''a%20b%25c''" by code_simp
  with path_encoding_roundtrip [of "''a b%c''" "''x''"] show ?thesis by simp
qed

end
