(* ===== verification/TP_Path_Filter.thy ===== *)
theory TP_Path_Filter
  imports TP_Paths
begin

text \<open>
  \<open>src/search/path_filter.rs\<close>: \<open>file:\<close> and \<open>-file:\<close> filters.  The \<open>files\<close> table is the list
  of its \<open>path\<close> column (a \<open>UNIQUE\<close> column of encoded paths); a SQL range scan compares paths with the
  byte-wise order.  Failures of the database connection itself are not modelled.  A SQL predicate
  is an expression tree, which \<open>sql_text\<close> prints as the source does and \<open>sql_eval\<close> evaluates.
\<close>

section \<open>Filter values\<close>

record path_filter =
  include_values :: "string list"
  exclude_values :: "string list"

text \<open>The value is scanned byte by byte; a valid escape is kept with upper-case digits.\<close>

function strip_dot_slash :: "string \<Rightarrow> string" where
  "strip_dot_slash s =
     (case strip_prefix ''./'' s of Some rest \<Rightarrow> strip_dot_slash rest | None \<Rightarrow> s)"
  by pat_completeness auto
termination
  by (relation "measure length") (auto simp: strip_prefix_def prefix_def split: if_splits)

declare strip_dot_slash.simps [simp del]

fun encode_value_bytes :: "bytes \<Rightarrow> string" where
  "encode_value_bytes [] = []"
| "encode_value_bytes (b # bs) =
     (if b = CHR ''%'' then
        (case bs of
           high # low # rest \<Rightarrow>
             if is_ascii_hexdigit high \<and> is_ascii_hexdigit low
             then CHR ''%'' # to_ascii_uppercase high # to_ascii_uppercase low # encode_value_bytes rest
             else CHR ''%'' # hex_upper b @ encode_value_bytes bs
         | _ \<Rightarrow> CHR ''%'' # hex_upper b @ encode_value_bytes bs)
      else if 0x21 \<le> byte b \<and> byte b \<le> 0x7e \<and> b \<noteq> CHR '':'' \<and> b \<noteq> CHR ''@''
      then b # encode_value_bytes bs
      else CHR ''%'' # hex_upper b @ encode_value_bytes bs)"

definition encoded_value :: "string \<Rightarrow> string option" where
  "encoded_value v =
     (let v = strip_dot_slash v in if v = [] then None else Some (encode_value_bytes v))"

definition PathFilter_include :: "path_filter \<Rightarrow> string \<Rightarrow> path_filter" where
  "PathFilter_include f v =
     (case encoded_value v of
        None \<Rightarrow> f
      | Some e \<Rightarrow> f\<lparr>include_values := include_values f @ [e]\<rparr>)"

definition PathFilter_exclude :: "path_filter \<Rightarrow> string \<Rightarrow> path_filter" where
  "PathFilter_exclude f v =
     (case encoded_value v of
        None \<Rightarrow> f
      | Some e \<Rightarrow> f\<lparr>exclude_values := exclude_values f @ [e]\<rparr>)"

definition PathFilter_default :: path_filter where
  "PathFilter_default = \<lparr>include_values = [], exclude_values = []\<rparr>"

definition PathFilter_prefix :: "string \<Rightarrow> path_filter" where
  "PathFilter_prefix v = PathFilter_include PathFilter_default v"

definition PathFilter_is_empty :: "path_filter \<Rightarrow> bool" where
  "PathFilter_is_empty f \<longleftrightarrow> include_values f = [] \<and> exclude_values f = []"

section \<open>Needles\<close>

record path_needle =
  slashed :: string
  anchored :: bool

definition PathNeedle_new :: "string \<Rightarrow> bool \<Rightarrow> path_needle" where
  "PathNeedle_new v a = \<lparr>slashed = CHR ''/'' # v, anchored = a\<rparr>"

definition needle_value :: "path_needle \<Rightarrow> string" where
  "needle_value n = drop 1 (slashed n)"

definition needle_matches :: "path_needle \<Rightarrow> string \<Rightarrow> bool" where
  "needle_matches n path \<longleftrightarrow>
     prefix (needle_value n) path \<or> (\<not> anchored n \<and> contains_sub (slashed n) path)"

text \<open>\<open>upper_bound\<close> increments the last byte; encoded values end below \<open>0x7f\<close>, so it never
  leaves ASCII.\<close>

definition upper_bound :: "string \<Rightarrow> string" where
  "upper_bound p = (if p = [] then [] else butlast p @ [char_of (byte (last p) + 1)])"

definition exists_path :: "string list \<Rightarrow> string \<Rightarrow> string \<Rightarrow> bool" where
  "exists_path files low high = list_ex (\<lambda>path. low \<le> path \<and> path < high) files"

definition anchors_at_root :: "string list \<Rightarrow> string \<Rightarrow> bool" where
  "anchors_at_root files v =
     (if suffix ''/'' v then exists_path files v (upper_bound v)
      else exists_path files (v @ ''.'') (v @ ''0'') \<or> exists_path files v (v @ [CHR 0x01]))"

record bound_path_filter =
  bound_include :: "path_needle list"
  bound_exclude :: "path_needle list"

definition PathFilter_bind :: "path_filter \<Rightarrow> string list \<Rightarrow> bound_path_filter" where
  "PathFilter_bind f files =
     \<lparr>bound_include = map (\<lambda>v. PathNeedle_new v (anchors_at_root files v)) (include_values f),
      bound_exclude = map (\<lambda>v. PathNeedle_new v False) (exclude_values f)\<rparr>"

definition BoundPathFilter_is_empty :: "bound_path_filter \<Rightarrow> bool" where
  "BoundPathFilter_is_empty f \<longleftrightarrow> bound_include f = [] \<and> bound_exclude f = []"

definition BoundPathFilter_matches :: "bound_path_filter \<Rightarrow> string \<Rightarrow> bool" where
  "BoundPathFilter_matches f path \<longleftrightarrow>
     (bound_include f = [] \<or> list_ex (\<lambda>n. needle_matches n path) (bound_include f))
     \<and> \<not> list_ex (\<lambda>n. needle_matches n path) (bound_exclude f)"

section \<open>SQL predicates\<close>

datatype sql_expr =
    SqlGe string
  | SqlLt string
  | SqlInstr string
  | SqlAnd sql_expr sql_expr
  | SqlOr "sql_expr list"
  | SqlNot sql_expr

fun sql_eval :: "sql_expr \<Rightarrow> string \<Rightarrow> bool" where
  "sql_eval (SqlGe v) column \<longleftrightarrow> v \<le> column"
| "sql_eval (SqlLt v) column \<longleftrightarrow> column < v"
| "sql_eval (SqlInstr v) column \<longleftrightarrow> contains_sub v column"
| "sql_eval (SqlAnd a b) column \<longleftrightarrow> sql_eval a column \<and> sql_eval b column"
| "sql_eval (SqlOr es) column \<longleftrightarrow> (\<exists>e \<in> set es. sql_eval e column)"
| "sql_eval (SqlNot a) column \<longleftrightarrow> \<not> sql_eval a column"

fun sql_escape :: "string \<Rightarrow> string" where
  "sql_escape [] = []"
| "sql_escape (c # cs) = (if c = CHR 0x27 then [c, c] else [c]) @ sql_escape cs"

definition sql_literal :: "string \<Rightarrow> string" where
  "sql_literal v = [CHR 0x27] @ sql_escape v @ [CHR 0x27]"

fun sql_text :: "string \<Rightarrow> sql_expr \<Rightarrow> string" where
  "sql_text column (SqlGe v) = column @ ''>='' @ sql_literal v"
| "sql_text column (SqlLt v) = column @ ''<'' @ sql_literal v"
| "sql_text column (SqlInstr v) = ''instr('' @ column @ '','' @ sql_literal v @ '')>0''"
| "sql_text column (SqlAnd a b) = ''('' @ sql_text column a @ '' AND '' @ sql_text column b @ '')''"
| "sql_text column (SqlOr es) = ''('' @ join_with '' OR '' (map (sql_text column) es) @ '')''"
| "sql_text column (SqlNot a) = ''NOT '' @ sql_text column a"

definition needle_expr :: "path_needle \<Rightarrow> sql_expr" where
  "needle_expr n =
     (let range = SqlAnd (SqlGe (needle_value n)) (SqlLt (upper_bound (needle_value n)))
      in if anchored n then range else SqlOr [range, SqlInstr (slashed n)])"

definition needle_sql :: "path_needle \<Rightarrow> string \<Rightarrow> string" where
  "needle_sql n column = sql_text column (needle_expr n)"

text \<open>The clause is a list of conjuncts, each printed after \<open> AND \<close>.\<close>

definition clause_conjuncts :: "bound_path_filter \<Rightarrow> sql_expr list" where
  "clause_conjuncts f =
     (if bound_include f = [] then [] else [SqlOr (map needle_expr (bound_include f))])
     @ map (SqlNot \<circ> needle_expr) (bound_exclude f)"

definition sql_clause :: "bound_path_filter \<Rightarrow> string \<Rightarrow> string" where
  "sql_clause f column =
     concat (map (\<lambda>e. '' AND '' @ sql_text column e) (clause_conjuncts f))"

definition sql_clause_holds :: "bound_path_filter \<Rightarrow> string \<Rightarrow> bool" where
  "sql_clause_holds f path \<longleftrightarrow> list_all (\<lambda>e. sql_eval e path) (clause_conjuncts f)"

section \<open>Resolving a filter to one file\<close>

definition names_file :: "string \<Rightarrow> string list \<Rightarrow> bool" where
  "names_file path vs =
     list_ex (\<lambda>v.
       case (if prefix v path then Some (length v)
             else map_option (\<lambda>start. start + 1 + length v) (find_sub (CHR ''/'' # v) path)) of
         None \<Rightarrow> False
       | Some e \<Rightarrow>
           let rest = drop e path
           in (rest = [] \<or> prefix ''.'' rest) \<and> \<not> contains_sub ''/'' rest) vs"

text \<open>The SQL query of the second stage returns the two smallest matching paths.\<close>

definition resolve_single_file :: "path_filter \<Rightarrow> string list \<Rightarrow> string option" where
  "resolve_single_file f files =
     (let exact = (case (include_values f, exclude_values f) of
                     ([v], []) \<Rightarrow> if v \<in> set files then Some v else None
                   | _ \<Rightarrow> None)
      in case exact of
           Some path \<Rightarrow> Some path
         | None \<Rightarrow>
             (let bound = PathFilter_bind f files
              in if bound_include bound = [] then None
                 else case take 2 (sort (filter (sql_clause_holds bound) files)) of
                        [path] \<Rightarrow> if names_file path (include_values f) then Some path else None
                      | _ \<Rightarrow> None))"

section \<open>Well-formed filters\<close>

definition wf_value :: "string \<Rightarrow> bool" where
  "wf_value v \<longleftrightarrow> v \<noteq> [] \<and> list_all encoded_byte v"

definition wf_filter :: "path_filter \<Rightarrow> bool" where
  "wf_filter f \<longleftrightarrow> list_all wf_value (include_values f) \<and> list_all wf_value (exclude_values f)"

definition wf_needle :: "path_needle \<Rightarrow> bool" where
  "wf_needle n \<longleftrightarrow> (\<exists>v a. n = PathNeedle_new v a \<and> wf_value v)"

definition wf_bound :: "bound_path_filter \<Rightarrow> bool" where
  "wf_bound f \<longleftrightarrow> (\<forall>n \<in> set (bound_include f) \<union> set (bound_exclude f). wf_needle n)"

lemma to_upper_hexdigit: "is_ascii_hexdigit c \<Longrightarrow> is_ascii_hexdigit (to_ascii_uppercase c)"
  by (auto simp: is_ascii_hexdigit_def is_ascii_digit_def byte_uppercase is_ascii_lowercase_def)

lemma hex_upper_encoded: "list_all encoded_byte (hex_upper c)"
  by (simp add: hex_upper_def hexdigit_encoded hex_digit_upper_hexdigit byte_div_mod_16)

lemma encode_value_bytes_encoded: "list_all encoded_byte (encode_value_bytes bs)"
proof (induction bs rule: encode_value_bytes.induct)
  case 1
  then show ?case by simp
next
  case (2 b bs)
  then show ?case
    by (auto simp: percent_encoded hex_upper_encoded hexdigit_encoded to_upper_hexdigit
        encoded_byte_def [of b] printable_def split: list.splits)
qed

lemma encode_value_bytes_Nil [simp]: "encode_value_bytes bs = [] \<longleftrightarrow> bs = []"
  by (cases bs) (auto split: list.splits)

lemma encoded_value_wf: "encoded_value v = Some e \<Longrightarrow> wf_value e"
  by (auto simp: encoded_value_def wf_value_def encode_value_bytes_encoded Let_def split: if_splits)

lemma wf_default [simp]: "wf_filter PathFilter_default"
  by (simp add: wf_filter_def PathFilter_default_def)

lemma wf_include: "wf_filter f \<Longrightarrow> wf_filter (PathFilter_include f v)"
  by (auto simp: wf_filter_def PathFilter_include_def encoded_value_wf split: option.splits)

lemma wf_exclude: "wf_filter f \<Longrightarrow> wf_filter (PathFilter_exclude f v)"
  by (auto simp: wf_filter_def PathFilter_exclude_def encoded_value_wf split: option.splits)

lemma wf_bind: "wf_filter f \<Longrightarrow> wf_bound (PathFilter_bind f files)"
  by (auto simp: wf_filter_def wf_bound_def wf_needle_def PathFilter_bind_def list_all_iff)

section \<open>Ranges of the byte order\<close>

lemma less_char_byte: "c < d \<longleftrightarrow> byte c < byte d"
  by (simp add: byte_less_iff)

lemma upper_bound_Cons: "v \<noteq> [] \<Longrightarrow> upper_bound (c # v) = c # upper_bound v"
  by (simp add: upper_bound_def)

lemma char_range: "byte c < 255 \<Longrightarrow> (c = d \<or> c < d) \<and> d < char_of (byte c + 1) \<longleftrightarrow> c = d"
  by (auto simp: less_char_byte simp flip: byte_inject)

lemma prefix_range:
  fixes v :: string
  shows "v \<noteq> [] \<Longrightarrow> byte (last v) < 255 \<Longrightarrow> v \<le> p \<and> p < upper_bound v \<longleftrightarrow> prefix v p"
proof (induction v arbitrary: p)
  case Nil
  then show ?case by simp
next
  case (Cons c v)
  show ?case
  proof (cases p)
    case Nil
    then show ?thesis by simp
  next
    case p: (Cons d q)
    show ?thesis
    proof (cases "v = []")
      case True
      with Cons.prems have "(c = d \<or> c < d) \<and> d < char_of (byte c + 1) \<longleftrightarrow> c = d"
        using char_range [of c d] by simp
      with True p show ?thesis by (auto simp: upper_bound_def)
    next
      case False
      with Cons.prems have "v \<le> q \<and> q < upper_bound v \<longleftrightarrow> prefix v q"
        by (intro Cons.IH) auto
      with False p show ?thesis by (auto simp: upper_bound_Cons)
    qed
  qed
qed

lemma between_range:
  fixes v :: string
  shows "v @ [c] \<le> p \<and> p < v @ [e] \<longleftrightarrow> (\<exists>d q. p = v @ d # q \<and> c \<le> d \<and> d < e)"
proof (induction v arbitrary: p)
  case Nil
  then show ?case by (cases p) auto
next
  case (Cons x v)
  show ?case
  proof (cases p)
    case Nil
    then show ?thesis by simp
  next
    case (Cons y q)
    with Cons.IH [of q] show ?thesis by auto
  qed
qed

lemma exact_range:
  fixes v :: string
  shows "v \<le> p \<and> p < v @ [e] \<longleftrightarrow> p = v \<or> (\<exists>d q. p = v @ d # q \<and> d < e)"
proof (induction v arbitrary: p)
  case Nil
  then show ?case by (cases p) auto
next
  case (Cons x v)
  show ?case
  proof (cases p)
    case Nil
    then show ?thesis by simp
  next
    case (Cons y q)
    with Cons.IH [of q] show ?thesis by auto
  qed
qed

lemma wf_value_last: "wf_value v \<Longrightarrow> byte (last v) < 255"
proof -
  assume "wf_value v"
  then have "encoded_byte (last v)" by (auto simp: wf_value_def list_all_iff)
  then show ?thesis by (simp add: encoded_byte_def printable_def)
qed

lemma needle_value_new [simp]: "needle_value (PathNeedle_new v a) = v"
  by (simp add: needle_value_def PathNeedle_new_def)

lemma needle_expr_matches: "wf_needle n \<Longrightarrow> sql_eval (needle_expr n) path \<longleftrightarrow> needle_matches n path"
  by (auto simp: wf_needle_def needle_expr_def needle_matches_def Let_def wf_value_last
      wf_value_def simp flip: prefix_range)

lemma clause_matches:
  "wf_bound f \<Longrightarrow> sql_clause_holds f path \<longleftrightarrow> BoundPathFilter_matches f path"
  by (auto simp: sql_clause_holds_def clause_conjuncts_def BoundPathFilter_matches_def wf_bound_def
      list_all_iff list_ex_iff needle_expr_matches)

lemma clause_matches_fun: "wf_bound f \<Longrightarrow> sql_clause_holds f = BoundPathFilter_matches f"
  by (rule ext) (rule clause_matches)

lemma unanchored_matches:
  "needle_matches (PathNeedle_new v False) path \<longleftrightarrow> sublist (CHR ''/'' # v) (CHR ''/'' # path)"
  by (auto simp: needle_matches_def contains_sub_sublist sublist_Cons_right PathNeedle_new_def
      needle_value_def)

lemma anchored_matches: "needle_matches (PathNeedle_new v True) path \<longleftrightarrow> prefix v path"
  by (simp add: needle_matches_def PathNeedle_new_def needle_value_def)

section \<open>Properties\<close>

lemma continues_at_boundary:
  assumes "wf_value v" and "list_all encoded_byte p"
  shows "(v @ ''.'' \<le> p \<and> p < v @ ''0'') \<or> (v \<le> p \<and> p < v @ [CHR 0x01])
     \<longleftrightarrow> p = v \<or> prefix (v @ ''.'') p \<or> prefix (v @ ''/'') p"
proof -
  have dots: "c = CHR ''.'' \<or> c = CHR ''/''" if "CHR ''.'' \<le> c" "c < CHR ''0''" for c
  proof -
    have "byte c = byte (CHR ''.'') \<or> byte c = byte (CHR ''/'')"
      using that by (auto simp: less_eq_char_def less_char_def byte_def)
    then show ?thesis by simp
  qed
  have order: "CHR ''.'' \<le> CHR ''/''" "CHR ''.'' < CHR ''0''" "CHR ''/'' < CHR ''0''"
    by (simp_all add: less_eq_char_def less_char_def)
  have nul: "\<not> d < CHR 0x01" if "p = v @ d # q" for d q
    using that assms(2) by (auto simp: encoded_byte_def printable_def less_char_def byte_def)
  have "(v @ ''.'' \<le> p \<and> p < v @ ''0'') \<longleftrightarrow> prefix (v @ ''.'') p \<or> prefix (v @ ''/'') p"
    unfolding between_range using dots order by (fastforce simp: prefix_def)
  moreover have "(v \<le> p \<and> p < v @ [CHR 0x01]) \<longleftrightarrow> p = v"
    unfolding exact_range using nul by blast
  ultimately show ?thesis by blast
qed

text \<open>C6. The SQL clause and the in-memory matcher agree: for every filter built from \<open>file:\<close> and
  \<open>-file:\<close> values, the predicate that the SQL lanes inline selects exactly the paths that
  \<open>BoundPathFilter::matches\<close> accepts.\<close>

theorem sql_clause_equals_matches:
  assumes "wf_filter f"
  shows "sql_clause_holds (PathFilter_bind f files) path
     \<longleftrightarrow> BoundPathFilter_matches (PathFilter_bind f files) path"
  using assms by (simp add: clause_matches wf_bind)

theorem sql_clause_equals_matches_witness:
  "sql_clause_holds (PathFilter_bind (PathFilter_exclude (PathFilter_prefix ''src/a'') ''tests'') [''src/a.rs'']) ''src/a.rs''
   \<longleftrightarrow> BoundPathFilter_matches (PathFilter_bind (PathFilter_exclude (PathFilter_prefix ''src/a'') ''tests'') [''src/a.rs'']) ''src/a.rs''"
  by (rule sql_clause_equals_matches) (simp add: PathFilter_prefix_def wf_include wf_exclude)

text \<open>What a bound filter matches: an include value is anchored exactly when some indexed path
  continues it at its end, at a \<open>.\<close> or at a \<open>/\<close>; an anchored value matches the paths it prefixes,
  an unanchored one the paths in which it starts a component, and excludes match at any component
  start.\<close>

theorem bind_matching_mode:
  assumes v: "wf_value v" and files: "list_all (list_all encoded_byte) files"
  shows "(anchors_at_root files v \<longleftrightarrow>
           (\<exists>p \<in> set files. prefix v p \<and>
              (suffix ''/'' v \<or> p = v \<or> prefix (v @ ''.'') p \<or> prefix (v @ ''/'') p)))
     \<and> (needle_matches (PathNeedle_new v (anchors_at_root files v)) path \<longleftrightarrow>
           (if anchors_at_root files v then prefix v path
            else sublist (''/'' @ v) (''/'' @ path)))"
proof
  show "anchors_at_root files v \<longleftrightarrow>
           (\<exists>p \<in> set files. prefix v p \<and>
              (suffix ''/'' v \<or> p = v \<or> prefix (v @ ''.'') p \<or> prefix (v @ ''/'') p))"
  proof (cases "suffix ''/'' v")
    case True
    with v show ?thesis
      by (auto simp: anchors_at_root_def exists_path_def list_ex_iff prefix_range wf_value_last
          wf_value_def)
  next
    case False
    have "anchors_at_root files v \<longleftrightarrow>
        (\<exists>p \<in> set files. (v @ ''.'' \<le> p \<and> p < v @ ''0'') \<or> (v \<le> p \<and> p < v @ [CHR 0x01]))"
      using False by (auto simp: anchors_at_root_def exists_path_def list_ex_iff)
    also have "\<dots> \<longleftrightarrow> (\<exists>p \<in> set files. p = v \<or> prefix (v @ ''.'') p \<or> prefix (v @ ''/'') p)"
      using files continues_at_boundary [OF v] by (auto simp: list_all_iff [of "list_all encoded_byte"])
    also have "\<dots> \<longleftrightarrow> (\<exists>p \<in> set files. prefix v p \<and>
        (suffix ''/'' v \<or> p = v \<or> prefix (v @ ''.'') p \<or> prefix (v @ ''/'') p))"
      using False by (auto dest: append_prefixD)
    finally show ?thesis .
  qed
  show "needle_matches (PathNeedle_new v (anchors_at_root files v)) path \<longleftrightarrow>
      (if anchors_at_root files v then prefix v path else sublist (''/'' @ v) (''/'' @ path))"
    by (simp add: unanchored_matches anchored_matches)
qed

theorem bind_matching_mode_witness:
  "anchors_at_root [''src/a.rs''] ''src/a'' \<and> \<not> anchors_at_root [''src/a.rs''] ''a''
   \<and> needle_matches (PathNeedle_new ''a'' (anchors_at_root [''src/a.rs''] ''a'')) ''lib/a/b.rs''"
proof -
  have wf: "wf_value ''src/a''" "wf_value ''a''" "list_all (list_all encoded_byte) [''src/a.rs'']"
    by code_simp+
  show ?thesis
    using bind_matching_mode [OF wf(1,3), of "''x''"]
      bind_matching_mode [OF wf(2,3), of "''lib/a/b.rs''"]
    by (auto simp: sublist_code)
qed

text \<open>A filter resolves to a file only if that file is indexed, and, unless the single include
  value is itself an indexed path, only if it is the one path the filter matches.\<close>

theorem resolve_single_file_sound:
  assumes wf: "wf_filter f"
    and r: "resolve_single_file f files = Some path"
  shows "path \<in> set files
     \<and> (include_values f = [path] \<and> exclude_values f = []
        \<or> filter (BoundPathFilter_matches (PathFilter_bind f files)) files = [path]
          \<and> names_file path (include_values f))"
proof (cases "include_values f = [path] \<and> exclude_values f = [] \<and> path \<in> set files")
  case True
  then show ?thesis by simp
next
  case False
  let ?b = "PathFilter_bind f files"
  have two: "take 2 (sort (filter (sql_clause_holds ?b) files)) = [path]
      \<and> names_file path (include_values f)"
    using r False
    by (auto simp: resolve_single_file_def Let_def split: list.splits option.splits if_splits)
  then have "sort (filter (sql_clause_holds ?b) files) = [path]"
    by (cases "sort (filter (sql_clause_holds ?b) files)"; cases "tl (sort (filter (sql_clause_holds ?b) files))")
      auto
  then have "filter (sql_clause_holds ?b) files = [path]"
    by (metis mset_sort mset_single_iff)
  then have "filter (BoundPathFilter_matches ?b) files = [path]"
    using wf by (simp add: clause_matches_fun wf_bind)
  moreover from this have "path \<in> set files"
    by (metis filter_eq_ConsD in_set_conv_decomp)
  ultimately show ?thesis using two by simp
qed

theorem resolve_single_file_sound_witness:
  "resolve_single_file (PathFilter_prefix ''host'') [''src/host.rs'', ''src/b.rs''] = Some ''src/host.rs''
   \<and> ''src/host.rs'' \<in> set [''src/host.rs'', ''src/b.rs'']"
proof -
  have r: "resolve_single_file (PathFilter_prefix ''host'') [''src/host.rs'', ''src/b.rs''] = Some ''src/host.rs''"
    by code_simp
  have "wf_filter (PathFilter_prefix ''host'')" by (simp add: PathFilter_prefix_def wf_include)
  with resolve_single_file_sound [OF this r] r show ?thesis by simp
qed

end
