(* ===== verification/TP_Filter_Diagnosis.thy ===== *)
theory TP_Filter_Diagnosis
  imports TP_Path_Filter "HOL-Library.Product_Lexorder"
begin

text \<open>
  \<open>src/search/path_filter/filter_diagnosis.rs\<close>: why a filtered query found nothing.  A row of the
  \<open>files\<close> table is its path and language; \<open>count(*)\<close> is the number of rows that satisfy the
  predicate.  The two-row Levenshtein distance is compared with edit scripts.
\<close>

section \<open>Edit distance\<close>

text \<open>The inner loop fills \<open>current[1..]\<close> from \<open>previous\<close>; \<open>left\<close> is the cell just written.\<close>

fun edit_cells :: "char \<Rightarrow> string \<Rightarrow> nat list \<Rightarrow> nat \<Rightarrow> nat list" where
  "edit_cells b (other # right) (p # q # previous) left =
     (let substitution = p + of_bool (b \<noteq> other);
          cell = min (min substitution (q + 1)) (left + 1)
      in cell # edit_cells b right (q # previous) cell)"
| "edit_cells b right previous left = []"

fun edit_rows :: "string \<Rightarrow> string \<Rightarrow> nat list \<Rightarrow> nat \<Rightarrow> nat list" where
  "edit_rows [] right previous row = previous"
| "edit_rows (b # left) right previous row =
     edit_rows left right ((row + 1) # edit_cells b right previous (row + 1)) (row + 1)"

definition edit_distance :: "string \<Rightarrow> string \<Rightarrow> nat" where
  "edit_distance left right = edit_rows left right [0..<length right + 1] 0 ! length right"

text \<open>An edit script of cost \<open>n\<close>: keep, substitute, delete or insert one byte at a time.\<close>

inductive edits :: "nat \<Rightarrow> 'a list \<Rightarrow> 'a list \<Rightarrow> bool" where
  edits_nil: "edits 0 [] []"
| edits_keep: "edits n xs ys \<Longrightarrow> edits n (x # xs) (x # ys)"
| edits_subst: "edits n xs ys \<Longrightarrow> edits (Suc n) (x # xs) (y # ys)"
| edits_del: "edits n xs ys \<Longrightarrow> edits (Suc n) (x # xs) ys"
| edits_ins: "edits n xs ys \<Longrightarrow> edits (Suc n) xs (y # ys)"

fun lev :: "'a list \<Rightarrow> 'a list \<Rightarrow> nat" where
  "lev [] ys = length ys"
| "lev xs [] = length xs"
| "lev (x # xs) (y # ys) =
     min (min (lev xs ys + of_bool (x \<noteq> y)) (lev (x # xs) ys + 1)) (lev xs (y # ys) + 1)"

lemma lev_Nil2 [simp]: "lev xs [] = length xs"
  by (cases xs) auto

lemma edits_insert_all: "edits (length ys) [] ys"
  by (induction ys) (auto intro: edits.intros)

lemma edits_delete_all: "edits (length xs) xs []"
  by (induction xs) (auto intro: edits.intros)

lemma edits_lev: "edits (lev xs ys) xs ys"
proof (induction xs ys rule: lev.induct)
  case (1 ys)
  then show ?case by (simp add: edits_insert_all)
next
  case (2 v va)
  then show ?case using edits_delete_all [of "v # va"] by simp
next
  case (3 x xs y ys)
  have "edits (lev xs ys + of_bool (x \<noteq> y)) (x # xs) (y # ys)"
    using 3(1) by (cases "x = y") (auto intro: edits.intros)
  moreover have "edits (lev (x # xs) ys + 1) (x # xs) (y # ys)"
    using 3(2) by (auto intro: edits.intros)
  moreover have "edits (lev xs (y # ys) + 1) (x # xs) (y # ys)"
    using 3(3) by (auto intro: edits.intros)
  ultimately show ?case by (simp add: min_def)
qed

lemma lev_Cons_left: "lev (x # xs) ys \<le> Suc (lev xs ys)"
  by (cases ys) auto

lemma lev_Cons_right: "lev xs (y # ys) \<le> Suc (lev xs ys)"
  by (cases xs) auto

lemma lev_Cons_both: "lev (x # xs) (y # ys) \<le> lev xs ys + of_bool (x \<noteq> y)"
  by simp

lemma lev_least: "edits n xs ys \<Longrightarrow> lev xs ys \<le> n"
proof (induction rule: edits.induct)
  case edits_nil
  then show ?case by simp
next
  case (edits_keep n xs ys x)
  then show ?case using lev_Cons_both [of x xs x ys] by simp
next
  case (edits_subst n xs ys x y)
  then show ?case using lev_Cons_both [of x xs y ys]
    by (cases "x = y") (simp_all del: lev.simps)
next
  case (edits_del n xs ys x)
  then show ?case using lev_Cons_left [of x xs ys] by simp
next
  case (edits_ins n xs ys y)
  then show ?case using lev_Cons_right [of xs y ys] by simp
qed

lemma edits_snoc_keep: "edits n xs ys \<Longrightarrow> edits n (xs @ [x]) (ys @ [x])"
  by (induction rule: edits.induct) (auto intro: edits.intros)

lemma edits_snoc_subst: "edits n xs ys \<Longrightarrow> edits (Suc n) (xs @ [x]) (ys @ [y])"
  by (induction rule: edits.induct) (auto intro: edits.intros)

lemma edits_snoc_del: "edits n xs ys \<Longrightarrow> edits (Suc n) (xs @ [x]) ys"
  by (induction rule: edits.induct) (auto intro: edits.intros)

lemma edits_snoc_ins: "edits n xs ys \<Longrightarrow> edits (Suc n) xs (ys @ [y])"
  by (induction rule: edits.induct) (auto intro: edits.intros)

lemma edits_rev: "edits n xs ys \<Longrightarrow> edits n (rev xs) (rev ys)"
  by (induction rule: edits.induct)
    (auto intro: edits.intros edits_snoc_keep edits_snoc_subst edits_snoc_del edits_snoc_ins)

lemma lev_rev: "lev (rev xs) (rev ys) = lev xs ys"
proof (rule antisym)
  show "lev (rev xs) (rev ys) \<le> lev xs ys"
    by (rule lev_least) (rule edits_rev, rule edits_lev)
  have "edits (lev (rev xs) (rev ys)) (rev (rev xs)) (rev (rev ys))"
    by (rule edits_rev, rule edits_lev)
  then show "lev xs ys \<le> lev (rev xs) (rev ys)" by (simp add: lev_least)
qed

text \<open>Row \<open>i\<close> of the table holds the distances between the first \<open>i\<close> bytes of the left name and
  every prefix of the right one.\<close>

lemma edit_cells_table:
  assumes "previous = map (\<lambda>j. lev u (rev (take j right) @ v)) [0..<length right + 1]"
    and "left = lev (b # u) v"
  shows "edit_cells b right previous left
     = map (\<lambda>j. lev (b # u) (rev (take j right) @ v)) [1..<length right + 1]"
  using assms
proof (induction right arbitrary: previous left v)
  case Nil
  then show ?case by simp
next
  case (Cons c right)
  let ?row = "\<lambda>w vs. map (\<lambda>j. lev w (rev (take j right) @ vs)) [0..<length right + 1]"
  have upt: "[0..<length (c # right) + 1] = 0 # map Suc [0..<length right + 1]"
    by (simp add: map_Suc_upt upt_conv_Cons del: upt_Suc)
  have prev: "previous = lev u v # ?row u (c # v)"
    using Cons.prems(1) unfolding upt by (simp del: upt_Suc)
  obtain rest where rest: "?row u (c # v) = lev u (c # v) # rest"
    by (simp add: upt_conv_Cons del: upt_Suc)
  define cell where "cell = min (min (lev u v + of_bool (b \<noteq> c)) (lev u (c # v) + 1)) (left + 1)"
  have cell: "cell = lev (b # u) (c # v)"
    using Cons.prems(2) by (simp add: cell_def min.commute min.left_commute)
  have "edit_cells b (c # right) previous left = cell # edit_cells b right (?row u (c # v)) cell"
    using prev rest by (simp add: cell_def Let_def)
  also have "\<dots> = cell # map (\<lambda>j. lev (b # u) (rev (take j right) @ c # v)) [1..<length right + 1]"
    using Cons.IH [of "?row u (c # v)" "c # v" cell] cell by simp
  also have "\<dots> = map (\<lambda>j. lev (b # u) (rev (take j (c # right)) @ v)) [1..<length (c # right) + 1]"
    using cell by (simp add: upt_conv_Cons map_Suc_upt [symmetric] o_def del: upt_Suc)
  finally show ?case .
qed

lemma edit_rows_table:
  assumes "previous = map (\<lambda>j. lev (rev u) (rev (take j right))) [0..<length right + 1]"
    and "row = length u"
  shows "edit_rows left right previous row
     = map (\<lambda>j. lev (rev (u @ left)) (rev (take j right))) [0..<length right + 1]"
  using assms
proof (induction left arbitrary: u previous row)
  case Nil
  then show ?case by simp
next
  case (Cons b left)
  have "edit_cells b right previous (row + 1)
      = map (\<lambda>j. lev (b # rev u) (rev (take j right))) [1..<length right + 1]"
    using edit_cells_table [of previous "rev u" right "[]" "row + 1" b] Cons.prems by simp
  then have "(row + 1) # edit_cells b right previous (row + 1)
      = map (\<lambda>j. lev (rev (u @ [b])) (rev (take j right))) [0..<length right + 1]"
    using Cons.prems by (simp add: upt_conv_Cons del: upt_Suc)
  with Cons.IH [of _ "u @ [b]" "row + 1"] Cons.prems show ?case by simp
qed

lemma edit_distance_lev: "edit_distance left right = lev left right"
proof -
  have "[0..<length right + 1] = map (\<lambda>j. lev (rev []) (rev (take j right))) [0..<length right + 1]"
    by (rule nth_equalityI) (auto simp del: upt_Suc)
  then have "edit_distance left right = lev (rev left) (rev right)"
    by (simp add: edit_distance_def edit_rows_table [of _ "[]"] del: upt_Suc)
  then show ?thesis by (simp add: lev_rev)
qed

section \<open>Nearest paths\<close>

definition NEAREST_PATHS :: nat where "NEAREST_PATHS = 3"
definition NEAREST_CANDIDATES :: nat where "NEAREST_CANDIDATES = 400"
definition NEAREST_KEY_CHARS :: nat where "NEAREST_KEY_CHARS = 4"

definition name_stem :: "string \<Rightarrow> string" where
  "name_stem name =
     trim_end_matches (\<lambda>c. c = CHR ''_'' \<or> c = CHR ''-'')
       (case split_once (CHR ''.'') name of None \<Rightarrow> name | Some (stem, _) \<Rightarrow> stem)"

definition relation_strength :: "string \<Rightarrow> string \<Rightarrow> string \<Rightarrow> nat option" where
  "relation_strength name stem key =
     (if contains_sub stem name then Some 0
      else if NEAREST_KEY_CHARS \<le> length name \<and> contains_sub name stem then Some 1
      else if prefix key name then Some 2
      else None)"

text \<open>The components of \<open>path.rsplit('/')\<close>, nearest the basename first; \<open>end_pos\<close> is the offset just
  past the current component.\<close>

fun related_scan :: "string \<Rightarrow> string \<Rightarrow> string \<Rightarrow> nat \<Rightarrow> nat \<Rightarrow> string list \<Rightarrow>
    ((nat \<times> nat \<times> nat) \<times> string) option" where
  "related_scan path stem key depth end_pos [] = None"
| "related_scan path stem key depth end_pos (component # rest) =
     (let start = end_pos - length component;
          name = ascii_lower (name_stem component)
      in case relation_strength name stem key of
           None \<Rightarrow> related_scan path stem key (depth + 1) (start - 1) rest
         | Some strength \<Rightarrow>
             Some ((strength, edit_distance name stem, depth),
                   if depth = 0 then path else take (end_pos + 1) path))"

definition related_prefix :: "string \<Rightarrow> string \<Rightarrow> string \<Rightarrow> ((nat \<times> nat \<times> nat) \<times> string) option" where
  "related_prefix path stem key =
     related_scan path stem key 0 (length path) (rev (split_char (CHR ''/'') path))"

definition nearest_step :: "string \<Rightarrow> string \<Rightarrow> ((nat \<times> nat \<times> nat \<times> nat) \<times> string) list \<Rightarrow> string \<Rightarrow>
    ((nat \<times> nat \<times> nat \<times> nat) \<times> string) list" where
  "nearest_step stem key ranked path =
     (case related_prefix path stem key of
        None \<Rightarrow> ranked
      | Some ((strength, distance, depth), shown) \<Rightarrow>
          if list_ex (\<lambda>(_, known). known = shown) ranked then ranked
          else let rank = (strength, distance, depth, length shown);
                   pos = partition_point (\<lambda>(known, _). known \<le> rank) ranked
               in if pos < NEAREST_PATHS
                  then take NEAREST_PATHS (take pos ranked @ (rank, shown) # drop pos ranked)
                  else ranked)"

text \<open>\<open>ORDER BY length(path), path LIMIT 400\<close> over the paths that contain the key.\<close>

definition nearest_candidates :: "string \<Rightarrow> string list \<Rightarrow> string list" where
  "nearest_candidates key files =
     take NEAREST_CANDIDATES
       (map snd (sort (map (\<lambda>p. (length p, p)) (filter (\<lambda>p. contains_sub key (ascii_lower p)) files))))"

definition nearest_paths :: "string list \<Rightarrow> string \<Rightarrow> string list" where
  "nearest_paths files v =
     (let last_segment = (case filter (\<lambda>s. s \<noteq> []) (rev (split_char (CHR ''/'') v)) of
                            s # _ \<Rightarrow> s | [] \<Rightarrow> v);
          stem = ascii_lower (name_stem last_segment)
      in if stem = [] then []
         else let key = take NEAREST_KEY_CHARS stem
              in map snd (fold (\<lambda>path ranked. nearest_step stem key ranked path)
                               (nearest_candidates key files) []))"

section \<open>Diagnosis\<close>

record file_row =
  row_path :: string
  row_language :: string

definition count_rows :: "file_row list \<Rightarrow> string \<Rightarrow> bound_path_filter \<Rightarrow> bool \<Rightarrow> nat" where
  "count_rows rows language f with_language =
     length (filter (\<lambda>r. sql_clause_holds f (row_path r)
                       \<and> (with_language \<and> language \<noteq> [] \<longrightarrow> row_language r = language)) rows)"

definition include_part :: "file_row list \<Rightarrow> path_needle \<Rightarrow> nat \<times> string" where
  "include_part rows needle =
     (let alone = \<lparr>bound_include = [needle], bound_exclude = []\<rparr>;
          matched = count_rows rows [] alone False;
          noun = (if matched = 1 then ''path'' else ''paths'');
          part = ''file:'' @ needle_value needle @ '' matched '' @ show_nat matched @ '' indexed '' @ noun;
          nearest = nearest_paths (map row_path rows) (needle_value needle)
      in (matched,
          if matched = 0 \<and> nearest \<noteq> []
          then part @ '' (nearest: '' @ join_with '', '' nearest @ '')'' else part))"

definition diagnose_empty_filters ::
    "file_row list \<Rightarrow> bound_path_filter \<Rightarrow> string \<Rightarrow> string option" where
  "diagnose_empty_filters rows f language =
     (if BoundPathFilter_is_empty f \<and> language = [] then None
      else
        let includes = map (include_part rows) (bound_include f);
            every_value_matched = list_all (\<lambda>(matched, _). 0 < matched) includes;
            language_matched = (language = [] \<or> list_ex (\<lambda>r. row_language r = language) rows);
            parts = map snd includes
              @ (if language_matched then [] else [''lang:'' @ language @ '' matched 0 files'']);
            unexcluded = f\<lparr>bound_exclude := []\<rparr>;
            filters = length (bound_include f) + of_bool (language \<noteq> []);
            combined_unexcluded = count_rows rows language unexcluded True;
            tail =
              (if every_value_matched \<and> language_matched then
                 if combined_unexcluded = 0 \<and> 1 < filters
                 then [''filters matched 0 files together'']
                 else if 0 < combined_unexcluded \<and> bound_exclude f \<noteq> []
                         \<and> count_rows rows language f True = 0
                 then [''-file: excluded all '' @ show_nat combined_unexcluded @ '' matching files'']
                 else []
               else []);
            all_parts = parts @ tail
        in if all_parts = [] then None else Some (join_with ''; '' all_parts))"

section \<open>Lemmas\<close>

lemma insert_sorted_at_partition_point:
  fixes k :: "'k :: linorder"
  assumes "sorted (map fst xs)"
  defines "pos \<equiv> partition_point (\<lambda>(known, _). known \<le> k) xs"
  shows "sorted (map fst (take pos xs @ (k, v) # drop pos xs))"
  using assms(1) unfolding pos_def
proof (induction xs)
  case Nil
  then show ?case by (simp add: partition_point_def)
next
  case (Cons x xs)
  then show ?case
    by (cases x) (auto simp: partition_point_def intro: order_trans dest: set_takeWhileD
        dest!: in_set_takeD in_set_dropD)
qed

definition ranked_inv :: "((nat \<times> nat \<times> nat \<times> nat) \<times> string) list \<Rightarrow> bool" where
  "ranked_inv ranked \<longleftrightarrow>
     length ranked \<le> NEAREST_PATHS \<and> sorted (map fst ranked) \<and> distinct (map snd ranked)"

lemma distinct_insert_at:
  assumes "distinct (map snd xs)" and "s \<notin> snd ` set xs"
  shows "distinct (map snd (take n xs @ (k, s) # drop n xs))"
proof -
  have "mset (map snd (take n xs @ (k, s) # drop n xs)) = add_mset s (mset (map snd (take n xs @ drop n xs)))"
    unfolding map_append by simp
  then have "mset (map snd (take n xs @ (k, s) # drop n xs)) = mset (s # map snd xs)" by simp
  then have "distinct (map snd (take n xs @ (k, s) # drop n xs)) = distinct (s # map snd xs)"
    by (rule mset_eq_imp_distinct_iff)
  with assms show ?thesis by simp
qed

lemma nearest_step_inv: "ranked_inv ranked \<Longrightarrow> ranked_inv (nearest_step stem key ranked path)"
proof -
  assume inv: "ranked_inv ranked"
  show ?thesis
  proof (cases "related_prefix path stem key")
    case None
    with inv show ?thesis by (simp add: nearest_step_def)
  next
    case (Some r)
    obtain a b c shown where r: "r = ((a, b, c), shown)" by (cases r) auto
    define pos where "pos = partition_point (\<lambda>(known, _). known \<le> (a, b, c, length shown)) ranked"
    define ins where "ins = take pos ranked @ ((a, b, c, length shown), shown) # drop pos ranked"
    have sorted_ins: "sorted (map fst ins)"
      using inv insert_sorted_at_partition_point [of ranked "(a, b, c, length shown)" shown]
      by (simp add: ins_def pos_def ranked_inv_def)
    show ?thesis
    proof (cases "list_ex (\<lambda>(_, known). known = shown) ranked \<or> \<not> pos < NEAREST_PATHS")
      case True
      with inv Some r show ?thesis by (auto simp: nearest_step_def pos_def Let_def)
    next
      case False
      then have "shown \<notin> snd ` set ranked" by (auto simp: list_ex_iff)
      then have "distinct (map snd ins)"
        using inv unfolding ins_def ranked_inv_def by (intro distinct_insert_at) auto
      moreover have "nearest_step stem key ranked path = take NEAREST_PATHS ins"
        using False Some r by (simp add: nearest_step_def pos_def [symmetric] ins_def Let_def)
      ultimately show ?thesis using sorted_ins
        by (auto simp: ranked_inv_def take_map [symmetric] sorted_wrt_take)
    qed
  qed
qed

lemma nearest_fold_inv:
  "ranked_inv ranked \<Longrightarrow> ranked_inv (fold (\<lambda>path ranked. nearest_step stem key ranked path) ps ranked)"
  by (induction ps arbitrary: ranked) (auto simp: nearest_step_inv)

lemma related_scan_prefix:
  "related_scan path stem key depth e cs = Some (r, shown) \<Longrightarrow> prefix shown path"
  by (induction path stem key depth e cs rule: related_scan.induct)
    (auto simp: Let_def take_is_prefix split: option.splits if_splits)

lemma set_insert_at: "set (take m (take n xs @ y # drop n xs)) \<subseteq> insert y (set xs)"
  using set_take_subset [of m "take n xs @ y # drop n xs"] set_take_subset [of n xs]
    set_drop_subset [of n xs] by auto

lemma nearest_step_prefix:
  "set (nearest_step stem key ranked path) \<subseteq> set ranked \<union> {x. prefix (snd x) path}"
proof (cases "related_prefix path stem key")
  case None
  then show ?thesis by (simp add: nearest_step_def)
next
  case (Some r)
  obtain a b c shown where r: "r = ((a, b, c), shown)" by (cases r) auto
  have shown: "prefix shown path"
    using Some r related_scan_prefix by (simp add: related_prefix_def)
  define y where "y = ((a, b, c, length shown), shown)"
  have "nearest_step stem key ranked path = ranked
      \<or> (\<exists>pos. nearest_step stem key ranked path = take NEAREST_PATHS (take pos ranked @ y # drop pos ranked))"
    unfolding nearest_step_def Some r y_def option.case prod.case Let_def by (simp del: take_append) blast
  moreover have "y \<in> {x. prefix (snd x) path}" using shown by (simp add: y_def)
  ultimately show ?thesis using set_insert_at [of NEAREST_PATHS _ ranked y] by (elim disjE exE) auto
qed

lemma nearest_fold_prefix:
  "set (fold (\<lambda>path ranked. nearest_step stem key ranked path) ps ranked)
     \<subseteq> set ranked \<union> {x. \<exists>p \<in> set ps. prefix (snd x) p}"
proof (induction ps arbitrary: ranked)
  case Nil
  then show ?case by simp
next
  case (Cons p ps)
  then show ?case
    using Cons.IH [of "nearest_step stem key ranked p"] nearest_step_prefix [of stem key ranked p]
    by auto
qed

lemma nearest_candidates_subset: "set (nearest_candidates key files) \<subseteq> set files"
  by (auto simp: nearest_candidates_def dest!: in_set_takeD)

lemma nearest_paths_cases:
  obtains "nearest_paths files v = []"
  | stem key where "nearest_paths files v =
      map snd (fold (\<lambda>path ranked. nearest_step stem key ranked path) (nearest_candidates key files) [])"
proof -
  define stem where "stem = ascii_lower (name_stem
      (case filter (\<lambda>s. s \<noteq> []) (rev (split_char (CHR ''/'') v)) of s # _ \<Rightarrow> s | [] \<Rightarrow> v))"
  show ?thesis
  proof (cases "stem = []")
    case True
    then show ?thesis by (intro that(1)) (simp add: nearest_paths_def stem_def Let_def)
  next
    case False
    then show ?thesis
      by (intro that(2) [of stem "take NEAREST_KEY_CHARS stem"])
        (simp add: nearest_paths_def stem_def Let_def)
  qed
qed

text \<open>A diagnosis exists whenever filters were given, files are indexed, and none of them passes.\<close>

lemma count_rows_zero:
  "count_rows rows language f wl = 0 \<longleftrightarrow>
     (\<forall>r \<in> set rows. sql_clause_holds f (row_path r) \<longrightarrow> wl \<and> language \<noteq> [] \<and> row_language r \<noteq> language)"
  by (auto simp: count_rows_def filter_empty_conv)

lemma diagnose_without_includes:
  assumes "bound_include f = []"
    and "\<not> (BoundPathFilter_is_empty f \<and> language = [])"
    and "rows \<noteq> []" and none: "count_rows rows language f True = 0"
  shows "diagnose_empty_filters rows f language \<noteq> None"
proof (cases "language = [] \<or> list_ex (\<lambda>r. row_language r = language) rows")
  case False
  with assms show ?thesis by (auto simp: diagnose_empty_filters_def Let_def)
next
  case True
  have pass: "sql_clause_holds (f\<lparr>bound_exclude := []\<rparr>) p" for p
    using assms(1) by (simp add: sql_clause_holds_def clause_conjuncts_def)
  have "0 < count_rows rows language (f\<lparr>bound_exclude := []\<rparr>) True"
    using True assms(3) pass count_rows_zero [of rows language "f\<lparr>bound_exclude := []\<rparr>" True]
    by (cases rows) (auto simp: list_ex_iff)
  moreover have "bound_exclude f \<noteq> []"
  proof
    assume "bound_exclude f = []"
    then have "f = f\<lparr>bound_exclude := []\<rparr>" by simp
    with none calculation show False by simp
  qed
  ultimately show ?thesis
    using True assms(1,2) none by (auto simp: diagnose_empty_filters_def Let_def)
qed

section \<open>Properties\<close>

text \<open>The two-row dynamic program computes the Levenshtein distance: its result is the cost of
  some edit script between the two names, and no edit script is cheaper.\<close>

theorem edit_distance_optimal:
  "edits (edit_distance left right) left right
   \<and> (\<forall>n. edits n left right \<longrightarrow> edit_distance left right \<le> n)"
  by (simp add: edit_distance_lev edits_lev lev_least)

theorem edit_distance_optimal_witness:
  "edit_distance ''kitten'' ''sitting'' \<le> 4"
proof -
  have "edits 3 ''kitten'' ''sitting''"
    unfolding numeral_3_eq_3
    by (rule edits_subst, rule edits_keep, rule edits_keep, rule edits_keep, rule edits_subst,
        rule edits_keep, rule edits_ins, rule edits_nil)
  with edit_distance_optimal [of "''kitten''" "''sitting''"] show ?thesis by fastforce
qed

text \<open>At most three nearest paths are suggested, all different, and each is an indexed path or a
  leading part (a directory) of one.\<close>

theorem nearest_paths_bounded:
  "length (nearest_paths files v) \<le> NEAREST_PATHS \<and> distinct (nearest_paths files v)
   \<and> set (nearest_paths files v) \<subseteq> {s. \<exists>p. p \<in> set files \<and> prefix s p}"
proof (cases rule: nearest_paths_cases [of files v])
  case 1
  then show ?thesis by simp
next
  case (2 stem key)
  let ?ranked = "fold (\<lambda>path ranked. nearest_step stem key ranked path) (nearest_candidates key files) []"
  have "ranked_inv ?ranked" by (rule nearest_fold_inv) (simp add: ranked_inv_def)
  moreover have "\<exists>p \<in> set files. prefix (snd x) p" if "x \<in> set ?ranked" for x
    using that nearest_fold_prefix [of stem key "nearest_candidates key files" "[]"]
      nearest_candidates_subset [of key files] by auto
  ultimately show ?thesis using 2 by (fastforce simp: ranked_inv_def)
qed

text \<open>An empty filtered result is always explained: when the query has a path or language filter
  and the index is not empty, but no indexed file passes the filters, a diagnosis is produced; and
  without filters there is none.\<close>

theorem empty_filter_result_is_explained:
  assumes "rows \<noteq> []" and "count_rows rows language f True = 0"
  shows "(\<exists>text. diagnose_empty_filters rows f language = Some text)
     \<longleftrightarrow> \<not> (BoundPathFilter_is_empty f \<and> language = [])"
proof (cases "BoundPathFilter_is_empty f \<and> language = []")
  case True
  then show ?thesis by (simp add: diagnose_empty_filters_def)
next
  case False
  then have "diagnose_empty_filters rows f language \<noteq> None"
  proof (cases "bound_include f = []")
    case True
    then show ?thesis using False assms by (rule diagnose_without_includes)
  next
    case nonempty: False
    with False show ?thesis by (simp add: diagnose_empty_filters_def Let_def)
  qed
  with False show ?thesis by simp
qed

theorem empty_filter_result_is_explained_witness:
  "\<exists>text. diagnose_empty_filters [\<lparr>row_path = ''a.rs'', row_language = ''rust''\<rparr>]
            \<lparr>bound_include = [], bound_exclude = []\<rparr> ''php'' = Some text"
proof -
  have "count_rows [\<lparr>row_path = ''a.rs'', row_language = ''rust''\<rparr>] ''php''
          \<lparr>bound_include = [], bound_exclude = []\<rparr> True = 0"
    by (simp add: count_rows_def)
  with empty_filter_result_is_explained [OF _ this] show ?thesis by simp
qed

end
