(* ===== verification/TP_Path_Class.thy ===== *)
theory TP_Path_Class
  imports TP_Interfaces
begin

text \<open>
  \<open>src/search/path_class.rs\<close> and \<open>src/search/language_filter.rs\<close>: which paths are tests or
  documentation, and which language a \<open>lang:\<close> value names.
\<close>

section \<open>Path classes\<close>

text \<open>The naming conventions of test files.\<close>

definition test_file_name :: "string \<Rightarrow> bool" where
  "test_file_name file =
     (let (stem, extension) = (case split_once (CHR ''.'') file of None \<Rightarrow> (file, []) | Some se \<Rightarrow> se)
      in stem = ''tests'' \<or> suffix ''_tests'' stem
         \<or> contains_sub ''.test.'' file \<or> contains_sub ''.spec.'' file
         \<or> (suffix ''_test'' stem \<and> extension \<in> {''go'', ''py''})
         \<or> (prefix ''test_'' stem \<and> extension = ''py'')
         \<or> (suffix ''_spec'' stem \<and> extension = ''rb''))"

definition is_test_path :: "string \<Rightarrow> bool" where
  "is_test_path path0 =
     (let path = ascii_lower path0;
          (directories, file) = (case rsplit_once (CHR ''/'') path of None \<Rightarrow> ([], path) | Some df \<Rightarrow> df);
          components = split_char (CHR ''/'') path;
          test_directory = list_ex (\<lambda>(index, directory).
             if directory \<in> {''tests'', ''__tests__'', ''spec'', ''testdata''} then True
             else if directory = ''test'' then nth_opt components (index + 1) \<noteq> Some ''src''
             else False) (enumerate 0 (split_char (CHR ''/'') directories))
      in test_directory \<or> test_file_name file)"

definition is_doc_pointer_path :: "string \<Rightarrow> bool" where
  "is_doc_pointer_path path0 =
     (let path = ascii_lower path0 in suffix ''.md'' path \<or> suffix ''.markdown'' path)"

section \<open>Language filters\<close>

definition INDEXED_LANGUAGES :: "string list" where
  "INDEXED_LANGUAGES = [''rust'', ''typescript'', ''javascript'', ''csharp'', ''php'', ''luau'',
     ''dreammaker'', ''text'']"

definition language_alias :: "string \<Rightarrow> string option" where
  "language_alias lower =
     (if lower = ''rs'' then Some ''rust''
      else if lower \<in> {''ts'', ''tsx''} then Some ''typescript''
      else if lower \<in> {''js'', ''jsx''} then Some ''javascript''
      else if lower \<in> {''cs'', ''c#''} then Some ''csharp''
      else if lower = ''phtml'' then Some ''php''
      else if lower = ''lua'' then Some ''luau''
      else if lower = ''dm'' then Some ''dreammaker''
      else if lower \<in> {''md'', ''markdown'', ''toml'', ''json'', ''txt''} then Some ''text''
      else None)"

definition canonical_language :: "string \<Rightarrow> string result" where
  "canonical_language v =
     (if v = [] then Inr []
      else
        let lower = ascii_lower v
        in case find (\<lambda>known. known = lower) INDEXED_LANGUAGES of
             Some known \<Rightarrow> Inr known
           | None \<Rightarrow>
               (case language_alias lower of
                  Some known \<Rightarrow> Inr known
                | None \<Rightarrow> Inl (''unknown_language: '' @ v @ ''; known: '' @ join_with '', '' INDEXED_LANGUAGES
                    @ '' (other files, including md/markdown/toml/json, are text)'')))"

section \<open>Properties\<close>

text \<open>Component \<open>i\<close> of a path is a test directory.\<close>

definition test_component :: "string list \<Rightarrow> nat \<Rightarrow> bool" where
  "test_component cs i \<longleftrightarrow> cs ! i \<in> {''tests'', ''__tests__'', ''spec'', ''testdata''}
     \<or> (cs ! i = ''test'' \<and> cs ! (i + 1) \<noteq> ''src'')"

lemma list_ex_enumerate:
  "list_ex P (enumerate n xs) \<longleftrightarrow> (\<exists>i < length xs. P (n + i, xs ! i))"
  by (auto simp: list_ex_iff in_set_enumerate_eq)
    (metis add.commute le_add_diff_inverse2 less_diff_conv2 nat_add_left_cancel_less)+

text \<open>A path is a test path exactly when one of its directory components is a test directory
  (\<open>test\<close> only when the next component is not \<open>src\<close>) or its file name follows a test naming
  convention; letter case never matters.\<close>

theorem is_test_path_components:
  "is_test_path p \<longleftrightarrow>
     (let cs = split_char (CHR ''/'') (ascii_lower p)
      in (\<exists>i. i < length cs - 1 \<and> test_component cs i) \<or> test_file_name (last cs))"
proof (cases "rsplit_once (CHR ''/'') (ascii_lower p)")
  case None
  then have cs: "split_char (CHR ''/'') (ascii_lower p) = [ascii_lower p]"
    using split_char_rsplit [of "CHR ''/''" "ascii_lower p"] by simp
  show ?thesis
    unfolding is_test_path_def Let_def cs None option.case prod.case by simp
next
  case (Some df)
  obtain d f where df: "df = (d, f)" by (cases df)
  let ?cs = "split_char (CHR ''/'') (ascii_lower p)"
  let ?ds = "split_char (CHR ''/'') d"
  have cs: "?cs = ?ds @ [f]"
    using Some df split_char_rsplit [of "CHR ''/''" "ascii_lower p"] by simp
  have dirs: "list_ex (\<lambda>(index, directory).
             if directory \<in> {''tests'', ''__tests__'', ''spec'', ''testdata''} then True
             else if directory = ''test'' then nth_opt ?cs (index + 1) \<noteq> Some ''src''
             else False) (enumerate 0 ?ds)
        \<longleftrightarrow> (\<exists>i. i < length ?cs - 1 \<and> test_component ?cs i)"
    (is "list_ex ?test _ \<longleftrightarrow> _")
  proof -
    have "?test (0 + i, ?ds ! i) \<longleftrightarrow> test_component ?cs i" if "i < length ?ds" for i
    proof -
      have "nth_opt ?cs (i + 1) = Some (?cs ! (i + 1))" "?ds ! i = ?cs ! i"
        using that by (simp_all only: cs nth_opt_def nth_append) simp_all
      then show ?thesis unfolding test_component_def by simp
    qed
    moreover have "length ?cs - 1 = length ?ds" unfolding cs by simp
    ultimately show ?thesis unfolding list_ex_enumerate
      by (intro ex_cong1 conj_cong) (simp_all only:)
  qed
  have "last ?cs = f" using cs by simp
  then show ?thesis
    unfolding is_test_path_def Let_def Some df option.case prod.case dirs by simp
qed

lemma find_known: "find (\<lambda>known. known = l) ks = Some k \<Longrightarrow> k = l \<and> l \<in> set ks"
  by (auto simp: find_Some_iff)

lemma language_alias_known: "language_alias v = Some l \<Longrightarrow> l \<in> set INDEXED_LANGUAGES"
  unfolding language_alias_def INDEXED_LANGUAGES_def by (simp split: if_split_asm)

lemma language_nonempty: "[] \<notin> set INDEXED_LANGUAGES"
  by (simp add: INDEXED_LANGUAGES_def)

lemma canonical_language_known:
  assumes "canonical_language v = Inr l" and "v \<noteq> []"
  shows "l \<in> set INDEXED_LANGUAGES"
proof (cases "find (\<lambda>known. known = ascii_lower v) INDEXED_LANGUAGES")
  case (Some k)
  with assms find_known [OF Some] show ?thesis by (simp add: canonical_language_def)
next
  case None
  with assms have "language_alias (ascii_lower v) = Some l"
    by (simp add: canonical_language_def split: option.splits)
  then show ?thesis by (rule language_alias_known)
qed

lemma canonical_language_fixed: "k \<in> set INDEXED_LANGUAGES \<Longrightarrow> canonical_language k = Inr k"
proof -
  have "list_all (\<lambda>k. canonical_language k = Inr k) INDEXED_LANGUAGES" by code_simp
  then show "k \<in> set INDEXED_LANGUAGES \<Longrightarrow> canonical_language k = Inr k" by (simp add: list_all_iff)
qed

lemma canonical_language_lower:
  assumes "canonical_language v = Inr l"
  shows "canonical_language (ascii_lower v) = Inr l"
proof (cases "find (\<lambda>known. known = ascii_lower v) INDEXED_LANGUAGES")
  case (Some k)
  with assms show ?thesis by (cases "v = []") (simp_all add: canonical_language_def)
next
  case None
  with assms show ?thesis by (cases "v = []") (simp_all add: canonical_language_def split: option.splits)
qed

text \<open>A \<open>lang:\<close> value resolves to a recorded language or to no filter at all, names are
  canonical (resolving a resolved name changes nothing), and case is ignored.\<close>

theorem canonical_language_idempotent:
  assumes "canonical_language v = Inr l"
  shows "(l = [] \<longleftrightarrow> v = []) \<and> (l \<noteq> [] \<longrightarrow> l \<in> set INDEXED_LANGUAGES)
     \<and> canonical_language l = Inr l \<and> canonical_language (ascii_lower v) = Inr l"
proof (cases "v = []")
  case True
  with assms show ?thesis by (simp add: canonical_language_def ascii_lower_def)
next
  case False
  from canonical_language_known [OF assms False] have l: "l \<in> set INDEXED_LANGUAGES" .
  moreover from l language_nonempty have "l \<noteq> []" by metis
  ultimately show ?thesis
    using False canonical_language_fixed [OF l] canonical_language_lower [OF assms] by simp
qed

theorem canonical_language_idempotent_witness:
  "canonical_language ''C#'' = Inr ''csharp'' \<and> canonical_language ''csharp'' = Inr ''csharp''"
proof -
  have l: "canonical_language ''C#'' = Inr ''csharp''" by code_simp
  show ?thesis using l canonical_language_idempotent [OF l] by simp
qed

end
