(* ===== verification/TP_Scheduler.thy ===== *)
theory TP_Scheduler
  imports TP_Interfaces
begin

text \<open>
  \<open>src/semantic/worker/scheduler.rs\<close>: the fair scheduler of the inference worker.  Each repository
  root has a query queue and a background queue; roots take turns, and after three queries a
  background request goes first.  \<open>query_turns\<close> is a saturating \<open>u8\<close>.
\<close>

section \<open>State and operations\<close>

datatype request_class = Query | Background

record 'a root_queue =
  rq_query :: "'a list"
  rq_background :: "'a list"

record 'a fair_scheduler =
  sched_roots :: "(string \<times> 'a root_queue) list"
  sched_order :: "string list"
  sched_cursor :: nat
  sched_query_turns :: nat

definition FairScheduler_default :: "'a fair_scheduler" where
  "FairScheduler_default =
     \<lparr>sched_roots = [], sched_order = [], sched_cursor = 0, sched_query_turns = 0\<rparr>"

definition empty_queue :: "'a root_queue" where
  "empty_queue = \<lparr>rq_query = [], rq_background = []\<rparr>"

fun class_queue :: "request_class \<Rightarrow> 'a root_queue \<Rightarrow> 'a list" where
  "class_queue Query q = rq_query q"
| "class_queue Background q = rq_background q"

fun set_class_queue :: "request_class \<Rightarrow> 'a list \<Rightarrow> 'a root_queue \<Rightarrow> 'a root_queue" where
  "set_class_queue Query xs q = q\<lparr>rq_query := xs\<rparr>"
| "set_class_queue Background xs q = q\<lparr>rq_background := xs\<rparr>"

definition sched_enqueue ::
    "string \<Rightarrow> request_class \<Rightarrow> 'a \<Rightarrow> 'a fair_scheduler \<Rightarrow> 'a fair_scheduler" where
  "sched_enqueue root_id c item s =
     (let (queue, order) =
            (case map_of (sched_roots s) root_id of
               Some q \<Rightarrow> (q, sched_order s)
             | None \<Rightarrow> (empty_queue, sched_order s @ [root_id]))
      in s\<lparr>sched_roots := bt_insert root_id
             (set_class_queue c (class_queue c queue @ [item]) queue) (sched_roots s),
           sched_order := order\<rparr>)"

text \<open>\<open>push\<close> takes the root from the item (trait \<open>RootIdent\<close>).\<close>

definition sched_push ::
    "('a \<Rightarrow> string) \<Rightarrow> request_class \<Rightarrow> 'a \<Rightarrow> 'a fair_scheduler \<Rightarrow> 'a fair_scheduler" where
  "sched_push root_id_of c item s = sched_enqueue (root_id_of item) c item s"

definition sched_pending :: "'a fair_scheduler \<Rightarrow> nat" where
  "sched_pending s =
     sum_list (map (\<lambda>(_, q). length (rq_query q) + length (rq_background q)) (sched_roots s))"

definition scan_indices :: "'a fair_scheduler \<Rightarrow> nat list" where
  "scan_indices s =
     map (\<lambda>off. (sched_cursor s + off) mod length (sched_order s)) [0..<length (sched_order s)]"

definition has_request :: "'a fair_scheduler \<Rightarrow> request_class \<Rightarrow> nat \<Rightarrow> bool" where
  "has_request s c index =
     (case map_of (sched_roots s) (sched_order s ! index) of
        None \<Rightarrow> False
      | Some q \<Rightarrow> class_queue c q \<noteq> [])"

definition preferred_class :: "'a fair_scheduler \<Rightarrow> request_class" where
  "preferred_class s = (if sched_query_turns s < 3 then Query else Background)"

fun fallback_class :: "request_class \<Rightarrow> request_class" where
  "fallback_class Query = Background"
| "fallback_class Background = Query"

definition pop_select :: "'a fair_scheduler \<Rightarrow> (request_class \<times> nat) option" where
  "pop_select s =
     (case find (has_request s (preferred_class s)) (scan_indices s) of
        Some index \<Rightarrow> Some (preferred_class s, index)
      | None \<Rightarrow>
          map_option (Pair (fallback_class (preferred_class s)))
            (find (has_request s (fallback_class (preferred_class s))) (scan_indices s)))"

definition remove_root :: "string \<Rightarrow> 'a fair_scheduler \<Rightarrow> 'a fair_scheduler" where
  "remove_root root s =
     (let s1 = s\<lparr>sched_roots := bt_remove root (sched_roots s)\<rparr>
      in case position_of (\<lambda>entry. entry = root) (sched_order s) of
           None \<Rightarrow> s1
         | Some index \<Rightarrow>
             (let order = take index (sched_order s) @ drop (index + 1) (sched_order s)
              in s1\<lparr>sched_order := order,
                    sched_cursor :=
                      (if order = [] then 0
                       else if index < sched_cursor s then sched_cursor s - 1
                       else sched_cursor s mod length order)\<rparr>))"

definition remove_empty_roots :: "'a fair_scheduler \<Rightarrow> 'a fair_scheduler" where
  "remove_empty_roots s =
     fold remove_root
       (map fst (filter (\<lambda>(_, q). rq_query q = [] \<and> rq_background q = []) (sched_roots s))) s"

definition sched_pop :: "'a fair_scheduler \<Rightarrow> 'a option \<times> 'a fair_scheduler" where
  "sched_pop s =
     (if sched_order s = [] then (None, s)
      else case pop_select s of
             None \<Rightarrow> (None, s)
           | Some (c, index) \<Rightarrow>
               (let root = sched_order s ! index;
                    queue = the (map_of (sched_roots s) root);
                    items = class_queue c queue;
                    s1 = s\<lparr>sched_roots := bt_insert root (set_class_queue c (tl items) queue) (sched_roots s),
                          sched_query_turns :=
                            (if c = Query then min 255 (sched_query_turns s + 1) else 0),
                          sched_cursor := (index + 1) mod length (sched_order s)\<rparr>
                in (Some (hd items), remove_empty_roots s1)))"

section \<open>Invariant\<close>

definition order_inv :: "'a fair_scheduler \<Rightarrow> bool" where
  "order_inv s \<longleftrightarrow> distinct (sched_order s) \<and> bt_ok (sched_roots s)
     \<and> set (sched_order s) = fst ` set (sched_roots s)
     \<and> (sched_cursor s < length (sched_order s) \<or> sched_order s = [] \<and> sched_cursor s = 0)"

definition no_empty_root :: "'a fair_scheduler \<Rightarrow> bool" where
  "no_empty_root s \<longleftrightarrow> (\<forall>(_, q) \<in> set (sched_roots s). rq_query q \<noteq> [] \<or> rq_background q \<noteq> [])"

definition sched_inv :: "'a fair_scheduler \<Rightarrow> bool" where
  "sched_inv s \<longleftrightarrow> order_inv s \<and> no_empty_root s \<and> sched_query_turns s \<le> 255"

inductive sched_step :: "'a fair_scheduler \<Rightarrow> 'a fair_scheduler \<Rightarrow> bool" where
  step_enqueue: "sched_step s (sched_enqueue root_id c item s)"
| step_pop: "sched_pop s = (r, t) \<Longrightarrow> sched_step s t"

inductive_cases sched_stepE: "sched_step s t"

lemma remove_at_position:
  assumes "position_of (\<lambda>e. e = x) xs = Some i" and "distinct xs"
  shows "take i xs @ drop (i + 1) xs = remove1 x xs"
  using assms
proof (induction xs arbitrary: i)
  case Nil
  then show ?case by simp
next
  case (Cons y ys)
  then show ?case by (auto split: if_splits)
qed

lemma remove_root_order_inv: "order_inv s \<Longrightarrow> order_inv (remove_root root s)"
proof (cases "position_of (\<lambda>entry. entry = root) (sched_order s)")
  case None
  assume "order_inv s"
  moreover from None have "root \<notin> set (sched_order s)" by (auto simp: position_of_None)
  ultimately show ?thesis using None
    by (auto simp: remove_root_def order_inv_def bt_ok_remove)
next
  case (Some i)
  assume inv: "order_inv s"
  then have d: "distinct (sched_order s)" by (simp add: order_inv_def)
  note rem = remove_at_position [OF Some d]
  have len: "length (remove1 root (sched_order s)) = length (sched_order s) - 1"
    using position_of_Some [OF Some] by (auto simp: length_remove1)
  have "sched_cursor s - 1 < length (remove1 root (sched_order s))"
    if "i < sched_cursor s"
    using that inv len by (auto simp: order_inv_def)
  with inv rem d show ?thesis
    by (auto simp: remove_root_def order_inv_def bt_ok_remove Let_def Some set_remove1_eq)
qed

lemma remove_root_roots [simp]: "sched_roots (remove_root root s) = bt_remove root (sched_roots s)"
  by (auto simp: remove_root_def Let_def split: option.splits)

lemma remove_root_turns [simp]: "sched_query_turns (remove_root root s) = sched_query_turns s"
  by (auto simp: remove_root_def Let_def split: option.splits)

lemma fold_remove_root:
  "order_inv s \<Longrightarrow> order_inv (fold remove_root rs s)"
  "sched_query_turns (fold remove_root rs s) = sched_query_turns s"
  "sched_roots (fold remove_root rs s) = filter (\<lambda>(k, _). k \<notin> set rs) (sched_roots s)"
proof -
  show "order_inv s \<Longrightarrow> order_inv (fold remove_root rs s)"
    by (induction rs arbitrary: s) (auto simp: remove_root_order_inv)
  show "sched_query_turns (fold remove_root rs s) = sched_query_turns s"
    by (induction rs arbitrary: s) auto
  show "sched_roots (fold remove_root rs s) = filter (\<lambda>(k, _). k \<notin> set rs) (sched_roots s)"
    by (induction rs arbitrary: s) (auto simp: bt_remove_def intro: filter_cong)
qed

lemma remove_empty_roots_inv:
  assumes "order_inv s"
  shows "order_inv (remove_empty_roots s)" and "no_empty_root (remove_empty_roots s)"
    and "sched_query_turns (remove_empty_roots s) = sched_query_turns s"
  using assms
  by (auto simp: remove_empty_roots_def fold_remove_root no_empty_root_def image_iff)

section \<open>Operations keep the invariant\<close>

lemma default_inv: "sched_inv FairScheduler_default"
  by (simp add: sched_inv_def order_inv_def no_empty_root_def FairScheduler_default_def bt_ok_def)

lemma set_bt_insert: "set (bt_insert k v al) \<subseteq> insert (k, v) (set al)"
  by (induction k v al rule: bt_insert.induct) auto

lemma map_of_member: "map_of al k = None \<longleftrightarrow> k \<notin> fst ` set al"
  by (simp add: map_of_eq_None_iff)

lemma set_class_queue_nonempty:
  "xs \<noteq> [] \<Longrightarrow> rq_query (set_class_queue c xs q) \<noteq> [] \<or> rq_background (set_class_queue c xs q) \<noteq> []"
  by (cases c) auto

lemma enqueue_inv:
  assumes "sched_inv s"
  shows "sched_inv (sched_enqueue r c x s)"
proof -
  obtain q order where qo: "(case map_of (sched_roots s) r of
               Some q \<Rightarrow> (q, sched_order s)
             | None \<Rightarrow> (empty_queue, sched_order s @ [r])) = (q, order)"
    by fastforce
  let ?q = "set_class_queue c (class_queue c q @ [x]) q"
  have "order_inv (sched_enqueue r c x s)"
    using assms qo
    by (auto simp: sched_inv_def order_inv_def sched_enqueue_def bt_ok_insert map_of_member
        insert_absorb rev_image_eqI split: option.splits)
      (auto dest!: map_of_SomeD intro: rev_image_eqI)
  moreover have "no_empty_root (sched_enqueue r c x s)"
    using assms qo set_bt_insert [of r ?q "sched_roots s"] set_class_queue_nonempty [of "class_queue c q @ [x]" c q]
    by (fastforce simp: sched_inv_def no_empty_root_def sched_enqueue_def)
  ultimately show ?thesis using assms qo by (simp add: sched_inv_def sched_enqueue_def)
qed

lemma scan_index: "i \<in> set (scan_indices s) \<longleftrightarrow> i < length (sched_order s)"
proof
  assume "i < length (sched_order s)"
  let ?n = "length (sched_order s)"
  let ?off = "(i + (?n - sched_cursor s mod ?n)) mod ?n"
  have "(sched_cursor s + ?off) mod ?n = (sched_cursor s mod ?n + (i + (?n - sched_cursor s mod ?n))) mod ?n"
    by (simp add: mod_add_left_eq mod_add_right_eq)
  also have "\<dots> = (i + ?n) mod ?n"
    using \<open>i < ?n\<close> by (metis add.left_commute le_add_diff_inverse less_imp_le mod_less_divisor not_less0 neq0_conv)
  also have "\<dots> = i" using \<open>i < ?n\<close> by simp
  finally have "(sched_cursor s + ?off) mod ?n = i" .
  moreover have "?off < ?n" using \<open>i < ?n\<close> by (metis mod_less_divisor neq0_conv not_less0)
  ultimately show "i \<in> set (scan_indices s)" by (auto simp: scan_indices_def intro!: rev_image_eqI)
qed (auto simp: scan_indices_def, metis gr_zeroI mod_less_divisor not_less0)

lemma pop_select_Some:
  assumes "pop_select s = Some (c, i)"
  shows "i < length (sched_order s)" and "has_request s c i"
proof -
  have "find (has_request s c) (scan_indices s) = Some i"
    using assms by (auto simp: pop_select_def split: option.splits)
  then have "has_request s c i" "i \<in> set (scan_indices s)" by (auto simp: find_Some_iff)
  then show "i < length (sched_order s)" "has_request s c i" by (simp_all add: scan_index)
qed

lemma pop_select_None:
  assumes "pop_select s = None" and "i < length (sched_order s)"
  shows "\<not> has_request s c i"
proof -
  have "find (has_request s (preferred_class s)) (scan_indices s) = None"
    and "find (has_request s (fallback_class (preferred_class s))) (scan_indices s) = None"
    using assms(1) by (auto simp: pop_select_def split: option.splits)
  moreover have "c = preferred_class s \<or> c = fallback_class (preferred_class s)"
    by (cases c; cases "preferred_class s") simp_all
  ultimately show ?thesis using assms(2) by (auto simp: find_None_iff scan_index)
qed

text \<open>The part of \<open>pop\<close> before the emptied roots are removed.\<close>

definition take_request :: "request_class \<Rightarrow> nat \<Rightarrow> 'a fair_scheduler \<Rightarrow> 'a fair_scheduler" where
  "take_request c index s =
     (let root = sched_order s ! index; queue = the (map_of (sched_roots s) root)
      in s\<lparr>sched_roots := bt_insert root (set_class_queue c (tl (class_queue c queue)) queue) (sched_roots s),
           sched_query_turns := (if c = Query then min 255 (sched_query_turns s + 1) else 0),
           sched_cursor := (index + 1) mod length (sched_order s)\<rparr>)"

lemma sched_pop_cases:
  assumes "sched_pop s = (r, t)" and "sched_inv s"
  obtains (empty) "r = None" "t = s" "\<And>i c. i < length (sched_order s) \<Longrightarrow> \<not> has_request s c i"
  | (taken) c i q where "pop_select s = Some (c, i)" "i < length (sched_order s)"
      "map_of (sched_roots s) (sched_order s ! i) = Some q" "class_queue c q \<noteq> []"
      "r = Some (hd (class_queue c q))" "t = remove_empty_roots (take_request c i s)"
proof (cases "pop_select s")
  case None
  with assms(1) have "r = None" "t = s" by (auto simp: sched_pop_def split: if_splits)
  then show ?thesis using pop_select_None [OF None] by (rule empty)
next
  case (Some ci)
  obtain c i where ci: "ci = (c, i)" by (cases ci)
  note sel = pop_select_Some [OF Some [unfolded ci]]
  then obtain q where q: "map_of (sched_roots s) (sched_order s ! i) = Some q" "class_queue c q \<noteq> []"
    by (auto simp: has_request_def split: option.splits)
  from assms(1) Some ci sel q have "r = Some (hd (class_queue c q))"
      "t = remove_empty_roots (take_request c i s)"
    by (auto simp: sched_pop_def take_request_def Let_def split: if_splits)
  with Some ci sel q show ?thesis by (intro taken) auto
qed

lemma take_request_order_inv:
  assumes "sched_inv s" and "i < length (sched_order s)"
  shows "order_inv (take_request c i s)"
proof -
  have "sched_order s ! i \<in> fst ` set (sched_roots s)"
    using assms by (auto simp: sched_inv_def order_inv_def)
  moreover have "(i + 1) mod length (sched_order s) < length (sched_order s)"
    using assms(2) by (intro mod_less_divisor) auto
  ultimately show ?thesis using assms
    by (auto simp: sched_inv_def order_inv_def take_request_def Let_def bt_ok_insert insert_absorb)
qed

lemma pop_inv:
  assumes "sched_inv s" and "sched_pop s = (r, t)"
  shows "sched_inv t"
  using assms(2,1)
proof (cases rule: sched_pop_cases)
  case (taken c i q)
  have "sched_query_turns (take_request c i s) \<le> 255"
    by (simp add: take_request_def Let_def)
  with remove_empty_roots_inv [OF take_request_order_inv [OF assms(1) taken(2)], of c] taken(6)
  show ?thesis by (simp add: sched_inv_def)
qed (use assms in simp)

interpretation scheduler: machine "\<lambda>s. s = FairScheduler_default" sched_step sched_inv
  by unfold_locales (auto simp: default_inv elim!: sched_stepE intro: enqueue_inv pop_inv)

section \<open>Refinement: one first-in first-out queue per root and class\<close>

definition queue_of :: "'a fair_scheduler \<Rightarrow> string \<times> request_class \<Rightarrow> 'a list" where
  "queue_of s = (\<lambda>(root, c). case map_of (sched_roots s) root of
     None \<Rightarrow> [] | Some q \<Rightarrow> class_queue c q)"

lemma class_set_class [simp]:
  "class_queue c (set_class_queue d xs q) = (if c = d then xs else class_queue c q)"
  by (cases c; cases d) simp_all

lemma queue_of_enqueue:
  "queue_of (sched_enqueue r c x s) = (queue_of s)((r, c) := queue_of s (r, c) @ [x])"
proof (rule ext)
  fix rd :: "string \<times> request_class"
  obtain r' d where [simp]: "rd = (r', d)" by (cases rd)
  have "class_queue d empty_queue = []" by (cases d) (simp_all add: empty_queue_def)
  then show "queue_of (sched_enqueue r c x s) rd = ((queue_of s)((r, c) := queue_of s (r, c) @ [x])) rd"
    by (auto simp: queue_of_def sched_enqueue_def empty_queue_def split: option.splits)
qed

lemma map_of_filter_keys:
  "map_of (filter (\<lambda>(k, _). P k) al) k = (if P k then map_of al k else None)"
  by (induction al) auto

lemma queue_of_remove_empty_roots:
  assumes "bt_ok (sched_roots s)"
  shows "queue_of (remove_empty_roots s) = queue_of s"
proof (rule ext)
  fix rc :: "string \<times> request_class"
  obtain r c where [simp]: "rc = (r, c)" by (cases rc)
  let ?gone = "set (map fst (filter (\<lambda>(_, q). rq_query q = [] \<and> rq_background q = []) (sched_roots s)))"
  have "class_queue c q = []" if gone: "r \<in> ?gone" and q: "map_of (sched_roots s) r = Some q" for q
  proof -
    from gone obtain q' where "(r, q') \<in> set (sched_roots s)" "rq_query q' = []" "rq_background q' = []"
      by auto
    moreover from this(1) have "map_of (sched_roots s) r = Some q'"
      using bt_ok_distinct [OF assms] by simp
    ultimately show ?thesis using q by (cases c) auto
  qed
  then show "queue_of (remove_empty_roots s) rc = queue_of s rc"
    by (auto simp: queue_of_def remove_empty_roots_def fold_remove_root map_of_filter_keys
        split: option.splits)
qed

lemma queue_of_take_request:
  assumes "map_of (sched_roots s) (sched_order s ! i) = Some q"
  shows "queue_of (take_request c i s) =
    (queue_of s)((sched_order s ! i, c) := tl (queue_of s (sched_order s ! i, c)))"
  using assms by (auto simp: fun_eq_iff queue_of_def take_request_def Let_def)

lemma queue_of_root:
  assumes "sched_inv s" and "queue_of s (r, c) \<noteq> []"
  obtains i where "i < length (sched_order s)" "sched_order s ! i = r" "has_request s c i"
proof -
  from assms(2) obtain q where q: "map_of (sched_roots s) r = Some q" "class_queue c q \<noteq> []"
    by (auto simp: queue_of_def split: option.splits)
  from q(1) have "r \<in> set (sched_order s)"
    using assms(1) by (auto simp: sched_inv_def order_inv_def dest!: map_of_SomeD intro: rev_image_eqI)
  then obtain i where "i < length (sched_order s)" "sched_order s ! i = r"
    by (auto simp: in_set_conv_nth)
  with q that show ?thesis by (auto simp: has_request_def)
qed

lemma pop_queues:
  assumes "sched_inv s" and "sched_pop s = (r, t)"
  shows "case r of
      None \<Rightarrow> t = s \<and> (\<forall>k. queue_of s k = [])
    | Some x \<Rightarrow> \<exists>k. queue_of s k = x # queue_of t k \<and> (\<forall>l. l \<noteq> k \<longrightarrow> queue_of t l = queue_of s l)"
  using assms(2,1)
proof (cases rule: sched_pop_cases)
  case empty
  then show ?thesis using queue_of_root [OF assms(1)] by fastforce
next
  case (taken c i q)
  let ?k = "(sched_order s ! i, c)"
  have ok: "bt_ok (sched_roots (take_request c i s))"
    using take_request_order_inv [OF assms(1) taken(2), of c] by (simp add: order_inv_def)
  have t: "queue_of t = (queue_of s)(?k := tl (queue_of s ?k))"
    using queue_of_remove_empty_roots [OF ok] queue_of_take_request [OF taken(3), of c] taken(6) by simp
  have "queue_of s ?k = class_queue c q" using taken(3) by (simp add: queue_of_def)
  with t taken(4,5) show ?thesis by (auto intro!: exI [of _ ?k])
qed

text \<open>C1. In every state the scheduler can reach, enqueueing appends to the queue of its root and
  class and touches no other; popping returns nothing only when every queue is empty, and otherwise
  removes the head of exactly one queue, so each root and class is served first in, first out and no
  request is lost or duplicated.\<close>

theorem scheduler_refines_queues:
  assumes "sched_step\<^sup>*\<^sup>* FairScheduler_default s"
  shows "queue_of (sched_enqueue r c x s) = (queue_of s)((r, c) := queue_of s (r, c) @ [x])
    \<and> (case sched_pop s of
         (None, t) \<Rightarrow> t = s \<and> (\<forall>k. queue_of s k = [])
       | (Some y, t) \<Rightarrow>
           \<exists>k. queue_of s k = y # queue_of t k \<and> (\<forall>l. l \<noteq> k \<longrightarrow> queue_of t l = queue_of s l))"
proof -
  have inv: "sched_inv s" using scheduler.inv_reachable [OF refl assms] .
  obtain y t where yt: "sched_pop s = (y, t)" by fastforce
  from pop_queues [OF inv yt] yt show ?thesis
    by (auto simp: queue_of_enqueue split: option.splits)
qed

theorem scheduler_refines_queues_witness:
  "let s = sched_enqueue ''a'' Query (7::nat) FairScheduler_default
   in queue_of (sched_enqueue ''a'' Query 8 s) (''a'', Query) = [7, 8]
     \<and> fst (sched_pop s) = Some 7"
proof -
  let ?s = "sched_enqueue ''a'' Query (7::nat) FairScheduler_default"
  have "sched_step\<^sup>*\<^sup>* FairScheduler_default ?s" by (intro r_into_rtranclp step_enqueue)
  note spec = scheduler_refines_queues [OF this, of "''a''" Query 8]
  have q: "queue_of ?s (''a'', Query) = [7]" and pop: "fst (sched_pop ?s) = Some 7" by code_simp+
  from spec q pop show ?thesis by (simp add: Let_def)
qed

section \<open>Fairness\<close>

datatype 'a sched_event = Enqueue string request_class 'a | Pop

text \<open>The classes served by the pops of a sequence of events.\<close>

fun served :: "'a sched_event list \<Rightarrow> 'a fair_scheduler \<Rightarrow> request_class option list" where
  "served [] s = []"
| "served (Enqueue r c x # es) s = served es (sched_enqueue r c x s)"
| "served (Pop # es) s = map_option fst (pop_select s) # served es (snd (sched_pop s))"

definition background_waits :: "'a fair_scheduler \<Rightarrow> bool" where
  "background_waits s \<longleftrightarrow> list_ex (\<lambda>(_, q). rq_background q \<noteq> []) (sched_roots s)"

lemma background_waits_queue:
  assumes "sched_inv s"
  shows "background_waits s \<longleftrightarrow> (\<exists>r. queue_of s (r, Background) \<noteq> [])"
proof -
  have d: "distinct (map fst (sched_roots s))"
    using assms bt_ok_distinct by (auto simp: sched_inv_def order_inv_def)
  show ?thesis
  proof
    assume "background_waits s"
    then obtain r q where "(r, q) \<in> set (sched_roots s)" "rq_background q \<noteq> []"
      by (auto simp: background_waits_def list_ex_iff)
    with d show "\<exists>r. queue_of s (r, Background) \<noteq> []"
      by (intro exI [of _ r]) (simp add: queue_of_def)
  next
    assume "\<exists>r. queue_of s (r, Background) \<noteq> []"
    then obtain r q where "map_of (sched_roots s) r = Some q" "rq_background q \<noteq> []"
      by (auto simp: queue_of_def split: option.splits)
    then show "background_waits s"
      by (force simp: background_waits_def list_ex_iff dest!: map_of_SomeD)
  qed
qed

lemma query_served:
  assumes inv: "sched_inv s" and wait: "background_waits s"
    and sel: "map_option fst (pop_select s) \<noteq> Some Background"
  shows "sched_query_turns s < 3" and "background_waits (snd (sched_pop s))"
    and "sched_query_turns (snd (sched_pop s)) = sched_query_turns s + 1"
proof -
  obtain r where r: "queue_of s (r, Background) \<noteq> []"
    using wait background_waits_queue [OF inv] by blast
  then obtain j where j: "j < length (sched_order s)" "has_request s Background j"
    by (rule queue_of_root [OF inv])
  obtain c i where ci: "pop_select s = Some (c, i)"
    using pop_select_None [OF _ j(1)] j(2) by (cases "pop_select s") auto
  with sel have [simp]: "c = Query" by (cases c) auto
  show turns: "sched_query_turns s < 3"
  proof (rule ccontr)
    assume "\<not> sched_query_turns s < 3"
    then have "find (has_request s Background) (scan_indices s) = None"
      using ci by (auto simp: pop_select_def preferred_class_def split: option.splits)
    with j show False by (auto simp: find_None_iff scan_index)
  qed
  obtain y t where yt: "sched_pop s = (y, t)" by fastforce
  from yt inv show "sched_query_turns (snd (sched_pop s)) = sched_query_turns s + 1"
  proof (cases rule: sched_pop_cases)
    case empty
    with j show ?thesis by blast
  next
    case (taken c' i' q)
    with ci turns yt remove_empty_roots_inv(3) [OF take_request_order_inv [OF inv, of i Query]]
    show ?thesis by (simp add: take_request_def Let_def)
  qed
  from yt inv have "queue_of t (r, Background) = queue_of s (r, Background)"
  proof (cases rule: sched_pop_cases)
    case (taken c' i' q)
    have "bt_ok (sched_roots (take_request c' i' s))"
      using take_request_order_inv [OF inv taken(2), of c'] by (simp add: order_inv_def)
    with taken ci show ?thesis
      by (simp add: queue_of_remove_empty_roots queue_of_take_request)
  qed simp
  with r yt pop_inv [OF inv yt] show "background_waits (snd (sched_pop s))"
    by (metis background_waits_queue snd_conv)
qed

lemma background_waits_enqueue:
  "sched_inv s \<Longrightarrow> background_waits s \<Longrightarrow> background_waits (sched_enqueue r c x s)"
  by (auto simp: background_waits_queue enqueue_inv queue_of_enqueue)

lemma starvation_bound:
  assumes "sched_inv s" and "background_waits s" and "Some Background \<notin> set (served es s)"
  shows "served es s = [] \<or> sched_query_turns s + length (served es s) \<le> 3"
  using assms
proof (induction es s rule: served.induct)
  case (1 s)
  then show ?case by simp
next
  case (2 r c x es s)
  then show ?case
    using enqueue_inv background_waits_enqueue
    by (fastforce simp: sched_enqueue_def Let_def split: option.splits)
next
  case (3 es s)
  then have sel: "map_option fst (pop_select s) \<noteq> Some Background" by auto
  note q = query_served [OF "3.prems"(1,2) sel]
  have "sched_inv (snd (sched_pop s))" using pop_inv [OF "3.prems"(1)] by (metis prod.collapse)
  with 3 q show ?case by auto
qed

text \<open>C2. Background work is never starved by queries: once a background request waits, any run
  of the scheduler with four pops serves a background request in one of them, whatever is enqueued
  in between.\<close>

theorem background_not_starved:
  assumes "sched_step\<^sup>*\<^sup>* FairScheduler_default s" and "background_waits s"
    and "length (served es s) \<ge> 4"
  shows "Some Background \<in> set (served es s)"
proof (rule ccontr)
  assume "Some Background \<notin> set (served es s)"
  with starvation_bound scheduler.inv_reachable [OF refl assms(1)] assms(2,3) show False by fastforce
qed

theorem background_not_starved_witness:
  "Some Background \<in> set (served [Enqueue ''a'' Query 1, Enqueue ''a'' Query 2, Enqueue ''a'' Query 3,
     Enqueue ''a'' Query 4, Pop, Pop, Pop, Pop]
     (sched_enqueue ''b'' Background (0::nat) FairScheduler_default))"
proof (rule background_not_starved)
  show "sched_step\<^sup>*\<^sup>* FairScheduler_default (sched_enqueue ''b'' Background (0::nat) FairScheduler_default)"
    by (intro r_into_rtranclp step_enqueue)
  show "background_waits (sched_enqueue ''b'' Background (0::nat) FairScheduler_default)" by code_simp
  show "4 \<le> length (served [Enqueue ''a'' Query 1, Enqueue ''a'' Query 2, Enqueue ''a'' Query 3,
     Enqueue ''a'' Query 4, Pop, Pop, Pop, Pop]
     (sched_enqueue ''b'' Background (0::nat) FairScheduler_default))" by simp
qed

end
