(* ===== verification/TP_Admission.thy ===== *)
theory TP_Admission
  imports TP_Interfaces
begin

text \<open>
  \<open>src/semantic/worker/admission.rs\<close> and \<open>src/semantic/worker/load_retry.rs\<close>: which batches the
  inference worker admits, and when it tries again to load its model.  The counters behind the mutex
  are one record; the tickets alive in the process are two multisets, each ticket known by the bytes
  it holds.  A ticket leaves the multisets when its destructor runs.
\<close>

section \<open>Admission control\<close>

record admission_limits =
  max_admitted :: nat
  max_raw_input_bytes :: nat
  max_inputs :: nat

definition MAX_ADMITTED :: nat where "MAX_ADMITTED = 64"
definition MAX_INPUTS :: nat where "MAX_INPUTS = 8"
definition MAX_RAW_INPUT_BYTES :: nat where "MAX_RAW_INPUT_BYTES = 8 * 1024 * 1024"

definition AdmissionLimits_default :: admission_limits where
  "AdmissionLimits_default =
     \<lparr>max_admitted = MAX_ADMITTED, max_raw_input_bytes = MAX_RAW_INPUT_BYTES, max_inputs = MAX_INPUTS\<rparr>"

record admission_state =
  adm_queued :: nat
  adm_inflight :: nat
  adm_raw_input_bytes :: nat

definition AdmissionState_default :: admission_state where
  "AdmissionState_default = \<lparr>adm_queued = 0, adm_inflight = 0, adm_raw_input_bytes = 0\<rparr>"

text \<open>\<open>try_admit\<close> returns the bytes the ticket holds with the new counters.\<close>

definition try_admit ::
    "admission_limits \<Rightarrow> nat \<Rightarrow> nat \<Rightarrow> admission_state \<Rightarrow> (nat \<times> admission_state) result" where
  "try_admit limits inputs raw st =
     (if inputs > max_inputs limits then
        Inl (''semantic_admission: at most '' @ show_nat (max_inputs limits) @ '' inputs per batch'')
      else if raw > max_raw_input_bytes limits then
        Inl (''semantic_admission: raw inputs exceed '' @ show_nat (max_raw_input_bytes limits) @ '' bytes'')
      else if saturating_add (adm_queued st) (adm_inflight st) \<ge> max_admitted limits then
        Inl ''semantic_admission: 64 batches already queued or in flight''
      else case checked_add (adm_raw_input_bytes st) raw of
        None \<Rightarrow> Inl ''semantic_admission: raw input byte counter overflow''
      | Some tot \<Rightarrow>
          if tot > max_raw_input_bytes limits then
            Inl (''semantic_admission: raw inputs exceed '' @ show_nat (max_raw_input_bytes limits)
              @ '' bytes including in-flight batches'')
          else Inr (raw, st\<lparr>adm_queued := adm_queued st + 1, adm_raw_input_bytes := tot\<rparr>))"

text \<open>Natural subtraction is \<open>saturating_sub\<close>.\<close>

definition ticket_begin :: "admission_state \<Rightarrow> admission_state" where
  "ticket_begin st = st\<lparr>adm_queued := adm_queued st - 1, adm_inflight := adm_inflight st + 1\<rparr>"

definition drop_admission_ticket :: "bool \<Rightarrow> nat \<Rightarrow> admission_state \<Rightarrow> admission_state" where
  "drop_admission_ticket started raw st =
     (if started then st
      else st\<lparr>adm_queued := adm_queued st - 1, adm_raw_input_bytes := adm_raw_input_bytes st - raw\<rparr>)"

definition drop_inflight_ticket :: "nat \<Rightarrow> admission_state \<Rightarrow> admission_state" where
  "drop_inflight_ticket raw st =
     st\<lparr>adm_inflight := adm_inflight st - 1, adm_raw_input_bytes := adm_raw_input_bytes st - raw\<rparr>"

definition admission_counts :: "admission_state \<Rightarrow> nat \<times> nat \<times> nat" where
  "admission_counts st = (adm_queued st, adm_inflight st, adm_raw_input_bytes st)"

text \<open>The controller with the tickets alive: admitted ones and those in flight.  \<open>begin\<close> consumes
  its ticket, whose destructor then runs with \<open>started\<close> set.\<close>

type_synonym admission_system = "admission_state \<times> nat multiset \<times> nat multiset"

inductive admission_step :: "admission_limits \<Rightarrow> admission_system \<Rightarrow> admission_system \<Rightarrow> bool"
  for limits where
  admit: "try_admit limits inputs raw st = Inr (t, st') \<Longrightarrow>
     admission_step limits (st, Q, I) (st', add_mset t Q, I)"
| refuse: "try_admit limits inputs raw st = Inl e \<Longrightarrow> admission_step limits (st, Q, I) (st, Q, I)"
| start: "admission_step limits (st, add_mset t Q, I)
     (drop_admission_ticket True t (ticket_begin st), Q, add_mset t I)"
| cancel: "admission_step limits (st, add_mset t Q, I) (drop_admission_ticket False t st, Q, I)"
| finish: "admission_step limits (st, Q, add_mset t I) (drop_inflight_ticket t st, Q, I)"

inductive_cases admission_stepE: "admission_step limits s t"

definition admission_inv :: "admission_limits \<Rightarrow> admission_system \<Rightarrow> bool" where
  "admission_inv limits = (\<lambda>(st, Q, I).
     adm_queued st = size Q \<and> adm_inflight st = size I
     \<and> adm_raw_input_bytes st = sum_mset Q + sum_mset I
     \<and> size Q + size I \<le> max_admitted limits
     \<and> sum_mset Q + sum_mset I \<le> max_raw_input_bytes limits)"

lemma try_admit_Inr:
  assumes "try_admit limits inputs raw st = Inr (t, st')" and "max_admitted limits \<le> usize_max"
  shows "t = raw \<and> inputs \<le> max_inputs limits
    \<and> adm_queued st + adm_inflight st < max_admitted limits
    \<and> adm_raw_input_bytes st + raw \<le> max_raw_input_bytes limits
    \<and> st' = st\<lparr>adm_queued := adm_queued st + 1, adm_raw_input_bytes := adm_raw_input_bytes st + raw\<rparr>"
  using assms
  by (auto simp: try_admit_def saturating_add_def checked_add_def split: if_splits)

lemma try_admit_accepts:
  assumes "inputs \<le> max_inputs limits" and "max_raw_input_bytes limits \<le> usize_max"
    and "adm_queued st + adm_inflight st < max_admitted limits"
    and "adm_raw_input_bytes st + raw \<le> max_raw_input_bytes limits"
  shows "\<exists>st'. try_admit limits inputs raw st = Inr (raw, st')"
  using assms by (auto simp: try_admit_def saturating_add_def checked_add_def)

locale admission_bounds =
  fixes limits :: admission_limits
  assumes admitted_usize: "max_admitted limits \<le> usize_max"
    and raw_usize: "max_raw_input_bytes limits \<le> usize_max"
begin

lemma admission_inv_step:
  assumes "admission_inv limits s" and "admission_step limits s s'"
  shows "admission_inv limits s'"
  using assms(2,1)
proof (cases rule: admission_step.cases)
  case (admit inputs raw st t st' Q I)
  with assms(1) try_admit_Inr [OF admit(3) admitted_usize] show ?thesis
    by (simp add: admission_inv_def)
qed (auto simp: admission_inv_def ticket_begin_def drop_admission_ticket_def drop_inflight_ticket_def)

lemma admits_iff_room:
  assumes "admission_inv limits (st, Q, I)"
  shows "(\<exists>st'. try_admit limits inputs raw st = Inr (raw, st')) \<longleftrightarrow>
    inputs \<le> max_inputs limits \<and> size Q + size I < max_admitted limits
    \<and> sum_mset Q + sum_mset I + raw \<le> max_raw_input_bytes limits"
  using assms try_admit_Inr [OF _ admitted_usize, of inputs raw st raw]
    try_admit_accepts [OF _ raw_usize, of inputs st raw]
  by (auto simp: admission_inv_def)

end

lemma usize_max_large: "2 ^ 32 \<le> usize_max"
  by (simp add: usize_max_def)

interpretation default_admission: admission_bounds AdmissionLimits_default
  using usize_max_large
  by unfold_locales
    (auto simp: AdmissionLimits_default_def MAX_ADMITTED_def MAX_RAW_INPUT_BYTES_def)

lemma admission_init: "admission_inv limits (AdmissionState_default, {#}, {#})"
  by (simp add: admission_inv_def AdmissionState_default_def)

interpretation admission: machine
  "\<lambda>s. s = (AdmissionState_default, {#}, {#})" "admission_step AdmissionLimits_default"
  "admission_inv AdmissionLimits_default"
  by unfold_locales (use admission_init default_admission.admission_inv_step in blast)+

text \<open>C7. Under every interleaving of admissions, starts, cancellations and completions the
  controller's counters are exactly the tickets alive: at most 64 batches and 8 MiB are admitted, the
  saturating subtractions never saturate, a batch is admitted exactly when it fits what is left, and
  when the last ticket is gone every counter is zero.\<close>

theorem admission_accounting:
  assumes "(admission_step AdmissionLimits_default)\<^sup>*\<^sup>*
    (AdmissionState_default, {#}, {#}) (st, queued, inflight)"
  shows "admission_counts st = (size queued, size inflight, sum_mset queued + sum_mset inflight)
    \<and> size queued + size inflight \<le> 64
    \<and> sum_mset queued + sum_mset inflight \<le> 8388608
    \<and> ((\<exists>st'. try_admit AdmissionLimits_default inputs raw st = Inr (raw, st')) \<longleftrightarrow>
         inputs \<le> 8 \<and> size queued + size inflight < 64
         \<and> sum_mset queued + sum_mset inflight + raw \<le> 8388608)"
  using admission.inv_reachable [OF refl assms]
    default_admission.admits_iff_room [of st queued inflight inputs raw]
  by (auto simp: admission_inv_def admission_counts_def AdmissionLimits_default_def
      MAX_ADMITTED_def MAX_RAW_INPUT_BYTES_def MAX_INPUTS_def)

theorem admission_accounting_witness:
  "\<exists>st. try_admit AdmissionLimits_default 2 100 AdmissionState_default = Inr (100, st)
    \<and> admission_counts st = (1, 0, 100)"
proof -
  have admit: "try_admit AdmissionLimits_default 2 100 AdmissionState_default
      = Inr (100, \<lparr>adm_queued = 1, adm_inflight = 0, adm_raw_input_bytes = 100\<rparr>)"
    using usize_max_large
    by (simp add: try_admit_def AdmissionLimits_default_def AdmissionState_default_def MAX_ADMITTED_def
        MAX_INPUTS_def MAX_RAW_INPUT_BYTES_def saturating_add_def checked_add_def)
  have "(admission_step AdmissionLimits_default)\<^sup>*\<^sup>* (AdmissionState_default, {#}, {#})
      (\<lparr>adm_queued = 1, adm_inflight = 0, adm_raw_input_bytes = 100\<rparr>, {#100#}, {#})"
    by (rule r_into_rtranclp) (rule admission_step.admit [OF admit])
  from admission_accounting [OF this] admit show ?thesis by auto
qed

section \<open>Model load retries\<close>

text \<open>Instants and durations are nanoseconds; \<open>Duration::MAX\<close> bounds the saturating product.\<close>

definition INITIAL_COOLDOWN :: nat where "INITIAL_COOLDOWN = 500000000"
definition MAX_COOLDOWN :: nat where "MAX_COOLDOWN = 30000000000"
definition DURATION_MAX :: nat where "DURATION_MAX = (2 ^ 64 - 1) * 1000000000 + 999999999"

record load_retry =
  lr_retry_at :: "nat option"
  lr_cooldown :: nat

definition LoadRetry_default :: load_retry where
  "LoadRetry_default = \<lparr>lr_retry_at = None, lr_cooldown = INITIAL_COOLDOWN\<rparr>"

definition lr_is_ready :: "nat \<Rightarrow> load_retry \<Rightarrow> bool" where
  "lr_is_ready now r = (case lr_retry_at r of None \<Rightarrow> True | Some retry_at \<Rightarrow> now \<ge> retry_at)"

definition lr_failed :: "nat \<Rightarrow> load_retry \<Rightarrow> load_retry" where
  "lr_failed now r =
     r\<lparr>lr_retry_at := Some (now + lr_cooldown r),
       lr_cooldown := min (min (lr_cooldown r * 2) DURATION_MAX) MAX_COOLDOWN\<rparr>"

definition lr_succeeded :: "load_retry \<Rightarrow> load_retry" where
  "lr_succeeded r = r\<lparr>lr_retry_at := None, lr_cooldown := INITIAL_COOLDOWN\<rparr>"

definition backoff :: "nat \<Rightarrow> nat" where
  "backoff n = min (500000000 * 2 ^ n) 30000000000"

lemma backoff_Suc: "min (min (backoff n * 2) DURATION_MAX) MAX_COOLDOWN = backoff (Suc n)"
  by (simp add: backoff_def DURATION_MAX_def MAX_COOLDOWN_def)

lemma failures_backoff:
  "lr_cooldown r = backoff n \<Longrightarrow>
   lr_cooldown (fold lr_failed fs r) = backoff (n + length fs)"
  by (induction fs arbitrary: r n) (simp_all add: lr_failed_def backoff_Suc)

lemma succeeded_fresh: "lr_succeeded r = LoadRetry_default"
  by (simp add: lr_succeeded_def LoadRetry_default_def)

text \<open>After any history in which the model last loaded (or the worker started) and then failed
  at the given times, the next attempt is allowed exactly from the last failure plus half a second
  doubled for every earlier failure, and never more than thirty seconds later.\<close>

theorem load_retry_backoff:
  assumes "r = LoadRetry_default \<or> r = lr_succeeded r0"
  shows "(lr_is_ready now (fold lr_failed (fs @ [t]) r)
      \<longleftrightarrow> t + min (500000000 * 2 ^ length fs) 30000000000 \<le> now) \<and> lr_is_ready now r"
proof -
  have r: "r = LoadRetry_default" using assms by (auto simp: succeeded_fresh)
  have "lr_cooldown r = backoff 0"
    using r by (simp add: LoadRetry_default_def backoff_def INITIAL_COOLDOWN_def)
  from failures_backoff [OF this, of fs] r show ?thesis
    by (simp add: lr_is_ready_def lr_failed_def backoff_def LoadRetry_default_def)
qed

theorem load_retry_backoff_witness:
  "\<not> lr_is_ready 1400000000 (fold lr_failed ([0] @ [500000000]) LoadRetry_default)
   \<and> lr_is_ready 1500000000 (fold lr_failed ([0] @ [500000000]) LoadRetry_default)"
  using load_retry_backoff [of LoadRetry_default _ 1400000000 "[0]" 500000000]
    load_retry_backoff [of LoadRetry_default _ 1500000000 "[0]" 500000000] by simp

end
