(* ===== verification/TP_Request_Control.thy ===== *)
theory TP_Request_Control
  imports TP_Interfaces
begin

text \<open>
  \<open>src/daemon/deadline.rs\<close> and \<open>src/cli/retry.rs\<close>: the wall-clock budget of a read request and the
  client's one retry.  Every read of the clock is an argument (nanoseconds on a monotonic clock); an
  \<open>anyhow::Error\<close> is its chain of causes, outermost first, each with the text it displays.
\<close>

section \<open>Errors\<close>

datatype io_kind = BrokenPipe | ConnectionReset | WouldBlock | TimedOut | OtherIo

datatype cause_kind = Context | SqliteInterrupted | SqliteOther | Io io_kind

type_synonym error_chain = "(cause_kind \<times> string) list"

definition error_to_string :: "error_chain \<Rightarrow> string" where
  "error_to_string e = (case e of [] \<Rightarrow> [] | (_, text) # _ \<Rightarrow> text)"

text \<open>\<open>{error:#}\<close>: the whole chain.\<close>

definition error_alternate :: "error_chain \<Rightarrow> string" where
  "error_alternate e = join_with '': '' (map snd e)"

section \<open>Deadlines\<close>

definition QUERY_DEADLINE :: nat where "QUERY_DEADLINE = 20000000000"
definition TIMED_OUT_PREFIX :: string where "TIMED_OUT_PREFIX = ''timed_out''"

record query_deadline =
  expires :: nat

definition deadline_after :: "nat \<Rightarrow> nat \<Rightarrow> query_deadline" where
  "deadline_after now budget = \<lparr>expires = now + budget\<rparr>"

definition deadline_start :: "nat \<Rightarrow> query_deadline" where
  "deadline_start now = deadline_after now QUERY_DEADLINE"

definition deadline_expired :: "nat \<Rightarrow> query_deadline \<Rightarrow> bool" where
  "deadline_expired now d \<longleftrightarrow> now \<ge> expires d"

definition deadline_remaining :: "nat \<Rightarrow> query_deadline \<Rightarrow> nat" where
  "deadline_remaining now d = expires d - now"

definition deadline_pause_during :: "nat \<Rightarrow> nat \<Rightarrow> query_deadline \<Rightarrow> query_deadline" where
  "deadline_pause_during started finished d = d\<lparr>expires := expires d + (finished - started)\<rparr>"

definition deadline_cap :: "nat \<Rightarrow> nat \<Rightarrow> query_deadline \<Rightarrow> nat" where
  "deadline_cap now wait d = min wait (deadline_remaining now d)"

definition deadline_capped :: "nat \<Rightarrow> nat \<Rightarrow> query_deadline \<Rightarrow> query_deadline" where
  "deadline_capped now maximum d = (let cap = now + maximum in \<lparr>expires = min (expires d) cap\<rparr>)"

definition deadline_classify :: "error_chain \<Rightarrow> error_chain" where
  "deadline_classify e =
     (let interrupted = list_ex (\<lambda>(kind, _). kind = SqliteInterrupted) e
      in if interrupted then (Context, TIMED_OUT_PREFIX @ '': query deadline expired'') # e else e)"

definition is_timed_out :: "error_chain \<Rightarrow> bool" where
  "is_timed_out e =
     (case strip_prefix TIMED_OUT_PREFIX (error_to_string e) of
        None \<Rightarrow> False
      | Some rest \<Rightarrow> prefix '':'' rest)"

text \<open>Pausing takes work off the clock: what remains of the budget when the work is done is what
  remained when it began, and so is whether the deadline has expired.  A capped wait ends no later
  than the deadline, a capped deadline expires no later than either bound, and an interrupt raised by
  the deadline is reported as a timeout.\<close>

theorem deadline_budget:
  assumes "started \<le> finished"
  shows "deadline_remaining finished (deadline_pause_during started finished d) = deadline_remaining started d
    \<and> (deadline_expired finished (deadline_pause_during started finished d) \<longleftrightarrow> deadline_expired started d)
    \<and> started + deadline_cap started wait d \<le> max started (expires d)
    \<and> (deadline_expired started d \<longleftrightarrow> deadline_cap started (Suc wait) d = 0)
    \<and> expires (deadline_capped started maximum d) \<le> expires d
    \<and> deadline_remaining started (deadline_capped started maximum d) = min (deadline_remaining started d) maximum
    \<and> ((\<exists>text. (SqliteInterrupted, text) \<in> set e) \<longrightarrow> is_timed_out (deadline_classify e))
    \<and> ((\<forall>text. (SqliteInterrupted, text) \<notin> set e) \<longrightarrow> deadline_classify e = e)"
proof -
  have "is_timed_out (deadline_classify e)" if "(SqliteInterrupted, text') \<in> set e" for text'
  proof -
    from that have "list_ex (\<lambda>(kind, _). kind = SqliteInterrupted) e"
      by (force simp: list_ex_iff)
    then show ?thesis
      by (simp add: deadline_classify_def is_timed_out_def error_to_string_def strip_prefix_def
          TIMED_OUT_PREFIX_def)
  qed
  moreover have "deadline_classify e = e" if "\<forall>text. (SqliteInterrupted, text) \<notin> set e"
    using that by (auto simp: deadline_classify_def list_ex_iff)
  ultimately show ?thesis using assms
    by (auto simp: deadline_remaining_def deadline_pause_during_def deadline_expired_def
        deadline_cap_def deadline_capped_def)
qed

theorem deadline_budget_witness:
  "deadline_remaining 9 (deadline_pause_during 4 9 \<lparr>expires = 10\<rparr>) = 6"
  using deadline_budget [of 4 9 "\<lparr>expires = 10\<rparr>"] by (simp add: deadline_remaining_def)

section \<open>The client's retry\<close>

definition WARMING_RETRY_DELAY :: nat where "WARMING_RETRY_DELAY = 2000000000"
definition CONTENTION_RETRY_DELAY :: nat where "CONTENTION_RETRY_DELAY = 250000000"
definition FAST_TRANSPORT_FAILURE :: nat where "FAST_TRANSPORT_FAILURE = 5000000000"
definition DAEMON_BUSY :: string where "DAEMON_BUSY = ''daemon_busy: retry''"

datatype retry_policy = Retry nat | Fail

definition read_verb :: "string \<Rightarrow> bool" where
  "read_verb verb \<longleftrightarrow> verb \<in> {''search'', ''refs'', ''map'', ''show'', ''more'', ''ctx'', ''status''}"

definition error_io_kind :: "io_kind list \<Rightarrow> error_chain \<Rightarrow> bool" where
  "error_io_kind kinds e =
     list_ex (\<lambda>(cause, _). case cause of Io kind \<Rightarrow> kind \<in> set kinds | _ \<Rightarrow> False) e"

definition retry_classify :: "string \<Rightarrow> error_chain \<Rightarrow> nat \<Rightarrow> retry_policy" where
  "retry_classify verb e elapsed =
     (if \<not> read_verb verb then Fail
      else
        let message = error_alternate e;
            dropped = error_io_kind [BrokenPipe, ConnectionReset] e
              \<or> contains_sub ''(os error 32)'' message
              \<or> contains_sub ''(os error 104)'' message;
            timed_out = error_io_kind [WouldBlock, TimedOut] e
              \<or> contains_sub ''(os error 11)'' message
              \<or> contains_sub ''(os error 110)'' message
        in if contains_sub ''index_warming'' message then Retry WARMING_RETRY_DELAY
           else if contains_sub DAEMON_BUSY message \<or> contains_sub ''database is locked'' message \<or> dropped
           then Retry CONTENTION_RETRY_DELAY
           else if timed_out \<and> elapsed < FAST_TRANSPORT_FAILURE then Retry 0
           else Fail)"

text \<open>One attempt is \<open>run context\<close>, with the time it took; a fresh context for the retry is the
  argument \<open>fresh\<close> of the first one.  The result carries the contexts used and the pause between.\<close>

type_synonym ('c, 'a) attempt = "'c \<Rightarrow> (error_chain + 'a) \<times> nat"

definition run_with_retry ::
    "('c, 'a) attempt \<Rightarrow> ('c \<Rightarrow> 'c) \<Rightarrow> string list \<Rightarrow> 'c \<Rightarrow> (error_chain + 'a) \<times> 'c list \<times> nat" where
  "run_with_retry run fresh words ctx =
     (let verb = (case words of [] \<Rightarrow> ''status'' | word # _ \<Rightarrow> word)
      in case run ctx of
           (Inl e, elapsed) \<Rightarrow>
             (case retry_classify verb e elapsed of
                Retry delay \<Rightarrow> (fst (run (fresh ctx)), [ctx, fresh ctx], delay)
              | Fail \<Rightarrow> (Inl e, [ctx], 0))
         | (Inr answered, _) \<Rightarrow> (Inr answered, [ctx], 0))"

lemma retry_classify_Retry:
  "retry_classify verb e elapsed = Retry delay \<Longrightarrow> read_verb verb \<and> delay \<le> WARMING_RETRY_DELAY
     \<and> (delay = 0 \<longrightarrow> elapsed < FAST_TRANSPORT_FAILURE)"
  by (auto simp: retry_classify_def Let_def WARMING_RETRY_DELAY_def CONTENTION_RETRY_DELAY_def
      split: if_splits)

text \<open>A command runs at most twice: an answer is returned as it is, and a failure is retried only
  for a read verb, once, under a fresh context, after at most two seconds; an immediate retry follows
  only a failure that took less than five seconds.  A mutating verb never runs twice.\<close>

theorem run_with_retry_once:
  "case run_with_retry run fresh words ctx of (outcome, contexts, delay) \<Rightarrow>
     (contexts = [ctx] \<and> outcome = fst (run ctx) \<and> delay = 0
      \<or> contexts = [ctx, fresh ctx] \<and> outcome = fst (run (fresh ctx))
        \<and> (\<exists>e elapsed. run ctx = (Inl e, elapsed) \<and> (delay = 0 \<longrightarrow> elapsed < 5000000000))
        \<and> delay \<le> 2000000000
        \<and> (words = [] \<or> hd words \<in> {''search'', ''refs'', ''map'', ''show'', ''more'', ''ctx'', ''status''}))"
proof -
  obtain r elapsed where r: "run ctx = (r, elapsed)" by fastforce
  show ?thesis
  proof (cases r)
    case (Inl e)
    let ?verb = "case words of [] \<Rightarrow> ''status'' | word # _ \<Rightarrow> word"
    show ?thesis
    proof (cases "retry_classify ?verb e elapsed")
      case (Retry delay)
      note q = retry_classify_Retry [OF Retry]
      from q have "words = [] \<or> read_verb (hd words)" by (cases words) auto
      with q r Inl Retry show ?thesis
        by (simp add: run_with_retry_def read_verb_def WARMING_RETRY_DELAY_def FAST_TRANSPORT_FAILURE_def)
    qed (simp add: run_with_retry_def r Inl)
  qed (simp add: run_with_retry_def r)
qed

theorem run_with_retry_once_witness:
  "run_with_retry (\<lambda>c. if c = (0::nat) then (Inl [(Io BrokenPipe, ''closed'')], 9) else (Inr ''ok'', 1)) Suc
     [''show''] 0 = (Inr ''ok'', [0, 1], 250000000)"
  using run_with_retry_once [where run = "\<lambda>c. if c = (0::nat) then (Inl [(Io BrokenPipe, ''closed'')], 9) else (Inr ''ok'', 1)"
      and fresh = Suc and words = "[''show'']" and ctx = 0]
  by (simp add: run_with_retry_def retry_classify_def read_verb_def error_io_kind_def error_alternate_def
      DAEMON_BUSY_def CONTENTION_RETRY_DELAY_def)

end
