(* ===== verification/TP_Batch.thy ===== *)
theory TP_Batch
  imports TP_Interfaces
begin

text \<open>
  \<open>src/semantic/inference/batch.rs\<close>: how texts are grouped for the embedding model.  The model is
  third-party code: its tokenizer is the parameter \<open>encode\<close> (the token count of a text), its inference
  the parameter \<open>emb\<close> (\<open>embed\<close>), which may change the model's state \<open>'m\<close>.  The floating-point validation of one
  vector (\<open>Embedding::from_values\<close>) is the parameter \<open>from_values\<close>.
\<close>

section \<open>Planning\<close>

definition MAX_BATCH_INPUTS :: nat where "MAX_BATCH_INPUTS = 8"
definition MAX_BATCH_PADDED_TOKENS :: nat where "MAX_BATCH_PADDED_TOKENS = 8192"
definition MAX_INPUT_TOKENS :: nat where "MAX_INPUT_TOKENS = 4096"

lemmas batch_limits = MAX_BATCH_INPUTS_def MAX_BATCH_PADDED_TOKENS_def MAX_INPUT_TOKENS_def

definition saturating_mul :: "nat \<Rightarrow> nat \<Rightarrow> nat" where
  "saturating_mul a b = min (a * b) usize_max"

definition too_long_message :: "nat \<Rightarrow> nat \<Rightarrow> string" where
  "too_long_message index n = ''semantic_unavailable: input at batch index '' @ show_nat index
     @ '' exceeds '' @ show_nat MAX_INPUT_TOKENS @ '' model tokens (got '' @ show_nat n @ '')''"

text \<open>The inner loop: \<open>end\<close> advances while the padded batch fits.\<close>

function extend_batch :: "nat list \<Rightarrow> nat \<Rightarrow> nat \<Rightarrow> nat \<Rightarrow> nat" where
  "extend_batch lens start stop padded =
     (if stop < length lens \<and> stop - start < MAX_BATCH_INPUTS then
        let candidate_max = max padded (lens ! stop);
            candidate_count = stop - start + 1
        in if saturating_mul candidate_max candidate_count > MAX_BATCH_PADDED_TOKENS then stop
           else extend_batch lens start (stop + 1) candidate_max
      else stop)"
  by pat_completeness auto
termination by (relation "measure (\<lambda>(lens, _, e, _). length lens - e)") auto

declare extend_batch.simps [simp del]

lemma extend_batch_ge: "stop \<le> extend_batch lens start stop padded"
proof (induction lens start stop padded rule: extend_batch.induct)
  case (1 lens start stop padded)
  then show ?case by (subst extend_batch.simps) (fastforce simp: Let_def)
qed

function plan_loop :: "nat list \<Rightarrow> nat \<Rightarrow> (nat \<times> nat) list result" where
  "plan_loop lens start =
     (if start < length lens then
        let stop = extend_batch lens start start 0
        in if stop = start then
             Inl (''semantic_unavailable: input at batch index '' @ show_nat start
               @ '' cannot fit the padded token limit'')
           else map_sum id (Cons (start, stop)) (plan_loop lens stop)
      else Inr [])"
  by pat_completeness auto
termination
proof (relation "measure (\<lambda>(lens, s). length lens - s)")
  fix lens start stop
  assume "start < length lens" "stop = extend_batch lens start start 0" "stop \<noteq> start"
  then show "((lens, stop), lens, start) \<in> measure (\<lambda>(lens, s). length lens - s)"
    using extend_batch_ge [of start lens start 0] by auto
qed simp

declare plan_loop.simps [simp del]

definition plan_batch_ranges :: "nat list \<Rightarrow> (nat \<times> nat) list result" where
  "plan_batch_ranges lens =
     (case find (\<lambda>(_, n). n > MAX_INPUT_TOKENS) (enumerate 0 lens) of
        Some (index, n) \<Rightarrow> Inl (too_long_message index n)
      | None \<Rightarrow> plan_loop lens 0)"

text \<open>A batch is admissible when it has at most eight inputs and, padded to its longest input, at most
  8192 tokens; it is full when it cannot take the next input.\<close>

definition batch_max :: "nat list \<Rightarrow> nat \<Rightarrow> nat \<Rightarrow> nat" where
  "batch_max lens a b = fold max (slice a b lens) 0"

definition batch_fits :: "nat list \<Rightarrow> nat \<times> nat \<Rightarrow> bool" where
  "batch_fits lens = (\<lambda>(a, b). b - a \<le> MAX_BATCH_INPUTS
     \<and> batch_max lens a b * (b - a) \<le> MAX_BATCH_PADDED_TOKENS)"

definition batch_full :: "nat list \<Rightarrow> nat \<times> nat \<Rightarrow> bool" where
  "batch_full lens = (\<lambda>(a, b). b = length lens \<or> b - a = MAX_BATCH_INPUTS
     \<or> batch_max lens a (b + 1) * (b + 1 - a) > MAX_BATCH_PADDED_TOKENS)"

lemma batch_max_empty [simp]: "batch_max lens a a = 0"
  by (simp add: batch_max_def slice_def)

lemma slice_snoc: "a \<le> b \<Longrightarrow> b < length xs \<Longrightarrow> slice a (Suc b) xs = slice a b xs @ [xs ! b]"
  by (simp add: slice_def Suc_diff_le take_Suc_conv_app_nth)

lemma batch_max_Suc:
  "a \<le> b \<Longrightarrow> b < length lens \<Longrightarrow> batch_max lens a (Suc b) = max (batch_max lens a b) (lens ! b)"
  by (simp add: batch_max_def slice_snoc max.commute)

lemma saturating_mul_over:
  "saturating_mul a b > MAX_BATCH_PADDED_TOKENS \<longleftrightarrow> a * b > MAX_BATCH_PADDED_TOKENS"
  by (auto simp: saturating_mul_def MAX_BATCH_PADDED_TOKENS_def usize_max_def)

lemma extend_batch_spec:
  assumes "a \<le> e" and "e \<le> length lens" and "padded = batch_max lens a e" and "batch_fits lens (a, e)"
  shows "batch_fits lens (a, extend_batch lens a e padded)"
    and "batch_full lens (a, extend_batch lens a e padded)"
    and "extend_batch lens a e padded \<le> length lens"
proof -
  have "batch_fits lens (a, extend_batch lens a e padded) \<and> batch_full lens (a, extend_batch lens a e padded)
      \<and> extend_batch lens a e padded \<le> length lens"
    using assms
  proof (induction lens a e padded rule: extend_batch.induct)
    case (1 lens a e padded)
    show ?case
    proof (cases "e < length lens \<and> e - a < MAX_BATCH_INPUTS")
      case False
      with "1.prems" show ?thesis
        by (subst (1 2 3) extend_batch.simps) (auto simp: batch_fits_def batch_full_def)
    next
      case True
      let ?m = "max padded (lens ! e)"
      have m: "?m = batch_max lens a (e + 1)" using True "1.prems" by (simp add: batch_max_Suc)
      show ?thesis
      proof (cases "saturating_mul ?m (e - a + 1) > MAX_BATCH_PADDED_TOKENS")
        case True': True
        with True "1.prems" m show ?thesis
          by (subst (1 2 3) extend_batch.simps)
            (auto simp: saturating_mul_over batch_full_def Suc_diff_le)
      next
        case False
        then have "batch_fits lens (a, e + 1)"
          using True "1.prems" m by (auto simp: saturating_mul_over batch_fits_def Suc_diff_le)
        with "1.IH" [OF True refl refl False] True "1.prems" m False show ?thesis
          by (subst (1 2 3) extend_batch.simps) (simp add: Let_def)
      qed
    qed
  qed
  then show "batch_fits lens (a, extend_batch lens a e padded)"
    and "batch_full lens (a, extend_batch lens a e padded)"
    and "extend_batch lens a e padded \<le> length lens" by auto
qed

lemma extend_batch_progress:
  assumes "a < length lens" and "lens ! a \<le> MAX_INPUT_TOKENS"
  shows "a < extend_batch lens a a 0"
proof -
  have "\<not> saturating_mul (max 0 (lens ! a)) (a - a + 1) > MAX_BATCH_PADDED_TOKENS"
    unfolding saturating_mul_over using assms(2) by (simp add: batch_limits)
  then have "extend_batch lens a a 0 = extend_batch lens a (a + 1) (lens ! a)"
    using assms(1) by (subst extend_batch.simps) (simp add: Let_def batch_limits)
  then show ?thesis using extend_batch_ge [of "a + 1" lens a "lens ! a"] by simp
qed

lemma plan_loop_spec:
  assumes "\<forall>n \<in> set lens. n \<le> MAX_INPUT_TOKENS" and "s \<le> length lens"
  shows "\<exists>rs. plan_loop lens s = Inr rs \<and> tiles s (length lens) rs
    \<and> (\<forall>r \<in> set rs. batch_fits lens r \<and> batch_full lens r)"
  using assms
proof (induction lens s rule: plan_loop.induct)
  case (1 lens s)
  show ?case
  proof (cases "s < length lens")
    case False
    with "1.prems" show ?thesis by (subst plan_loop.simps) simp
  next
    case True
    let ?e = "extend_batch lens s s 0"
    have "batch_fits lens (s, s)" by (simp add: batch_fits_def)
    with True have spec: "batch_fits lens (s, ?e)" "batch_full lens (s, ?e)" "?e \<le> length lens"
      using extend_batch_spec [of s s lens 0] by auto
    have less: "s < ?e" using True "1.prems" by (intro extend_batch_progress) auto
    with 1 True spec(3) obtain rs where "plan_loop lens ?e = Inr rs" "tiles ?e (length lens) rs"
        "\<forall>r \<in> set rs. batch_fits lens r \<and> batch_full lens r"
      by fastforce
    with True less spec show ?thesis by (subst plan_loop.simps) (auto simp: Let_def)
  qed
qed

lemma plan_batch_ranges_accepts:
  "\<forall>n \<in> set lens. n \<le> MAX_INPUT_TOKENS \<Longrightarrow> plan_batch_ranges lens = plan_loop lens 0"
proof -
  assume "\<forall>n \<in> set lens. n \<le> MAX_INPUT_TOKENS"
  then have "find (\<lambda>(_, n). n > MAX_INPUT_TOKENS) (enumerate 0 lens) = None"
    by (auto simp: find_None_iff in_set_enumerate_eq all_set_conv_all_nth not_less)
  then show ?thesis by (simp add: plan_batch_ranges_def)
qed

text \<open>The ranges of an accepted plan cover the inputs: the contract of \<open>range_cover\<close>.\<close>

definition planned_ranges :: "nat list \<Rightarrow> (nat \<times> nat) list" where
  "planned_ranges lens = (case plan_batch_ranges lens of Inl _ \<Rightarrow> [] | Inr rs \<Rightarrow> rs)"

interpretation batch_plan: range_cover planned_ranges length "\<lambda>lens. list_all (\<lambda>n. n \<le> MAX_INPUT_TOKENS) lens"
proof
  fix lens :: "nat list"
  assume "list_all (\<lambda>n. n \<le> MAX_INPUT_TOKENS) lens"
  then show "tiles 0 (length lens) (planned_ranges lens)"
    using plan_loop_spec [of lens 0] plan_batch_ranges_accepts [of lens]
    by (auto simp: planned_ranges_def list_all_iff)
qed

text \<open>C8. Planning succeeds exactly when every input is within the model's 4096 tokens.  The batches
  then cover all inputs in order without gap or overlap, none is empty, none exceeds eight inputs or
  8192 padded tokens, and each is maximal: it ends at the last input or could not take the next one.\<close>

theorem plan_batch_ranges_correct:
  "case plan_batch_ranges lens of
     Inl _ \<Rightarrow> \<exists>i < length lens. lens ! i > 4096
   | Inr rs \<Rightarrow> tiles 0 (length lens) rs \<and> list_all (\<lambda>n. n \<le> 4096) lens
       \<and> list_all (\<lambda>(a, b). b - a \<le> 8 \<and> batch_max lens a b * (b - a) \<le> 8192
           \<and> (b = length lens \<or> b - a = 8 \<or> batch_max lens a (b + 1) * (b + 1 - a) > 8192)) rs"
proof (cases "\<forall>n \<in> set lens. n \<le> MAX_INPUT_TOKENS")
  case True
  then obtain rs where "plan_batch_ranges lens = Inr rs" "tiles 0 (length lens) rs"
      "\<forall>r \<in> set rs. batch_fits lens r \<and> batch_full lens r"
    using plan_loop_spec [of lens 0] plan_batch_ranges_accepts [of lens] by auto
  with True show ?thesis
    by (auto simp: list_all_iff batch_fits_def batch_full_def batch_limits)
next
  case False
  then obtain i where i: "i < length lens" "lens ! i > MAX_INPUT_TOKENS"
    by (auto simp: in_set_conv_nth not_le)
  then have "(i, lens ! i) \<in> set (enumerate 0 lens)" by (auto simp: in_set_enumerate_eq)
  with i have "find (\<lambda>(_, n). n > MAX_INPUT_TOKENS) (enumerate 0 lens) \<noteq> None"
    by (auto simp: find_None_iff simp del: enumerate_simps)
  then obtain e where "plan_batch_ranges lens = Inl e"
    by (auto simp: plan_batch_ranges_def)
  with i show ?thesis by (auto simp: MAX_INPUT_TOKENS_def)
qed

section \<open>Inference\<close>

definition token_length :: "(string \<Rightarrow> nat result) \<Rightarrow> string \<Rightarrow> nat \<Rightarrow> nat result" where
  "token_length encode txt index =
     (case encode txt of
        Inl e \<Rightarrow> Inl e
      | Inr n \<Rightarrow> if n > MAX_INPUT_TOKENS then Inl (too_long_message index n) else Inr n)"

text \<open>\<open>Iterator::collect\<close> into a \<open>Result\<close>: the first error, or all values.\<close>

fun collect_results :: "('e + 'a) list \<Rightarrow> 'e + 'a list" where
  "collect_results [] = Inr []"
| "collect_results (Inl e # rs) = Inl e"
| "collect_results (Inr x # rs) = map_sum id (Cons x) (collect_results rs)"

type_synonym ('m, 'v) embedder = "'m \<Rightarrow> string list \<Rightarrow> 'v list result \<times> 'm"

definition range_message :: "nat \<Rightarrow> nat \<Rightarrow> string" where
  "range_message a b = ''semantic_unavailable: inference failed for batch inputs '' @ show_nat a @ ''..'' @ show_nat b"

definition count_message :: "nat \<Rightarrow> nat \<Rightarrow> string" where
  "count_message got want = ''semantic_unavailable: model returned '' @ show_nat got
     @ '' embeddings for '' @ show_nat want @ '' inputs''"

definition invalid_message :: "nat \<Rightarrow> string" where
  "invalid_message i = ''semantic_unavailable: invalid model output for batch input '' @ show_nat i"

definition validate_vectors :: "('v \<Rightarrow> 'e result) \<Rightarrow> nat list \<Rightarrow> 'v list \<Rightarrow> 'e list result" where
  "validate_vectors from_values names batch =
     collect_results (map2 (\<lambda>name vector. case from_values vector of
        Inl _ \<Rightarrow> Inl (invalid_message name) | Inr x \<Rightarrow> Inr x) names batch)"

text \<open>The loop of \<open>infer_batch\<close> over the planned ranges.\<close>

fun infer_ranges :: "('m, 'v) embedder \<Rightarrow> ('v \<Rightarrow> 'e result) \<Rightarrow> string list \<Rightarrow>
    (nat \<times> nat) list \<Rightarrow> 'm \<Rightarrow> 'e list result \<times> 'm" where
  "infer_ranges emb from_values texts [] m = (Inr [], m)"
| "infer_ranges emb from_values texts ((a, b) # rs) m =
     (case emb m (slice a b texts) of
        (Inl _, m') \<Rightarrow> (Inl (range_message a b), m')
      | (Inr batch, m') \<Rightarrow>
          if length batch \<noteq> b - a then (Inl (count_message (length batch) (b - a)), m')
          else case validate_vectors from_values [a..<b] batch of
            Inl e \<Rightarrow> (Inl e, m')
          | Inr xs \<Rightarrow> apfst (map_sum id (append xs)) (infer_ranges emb from_values texts rs m'))"

definition infer_batch :: "(string \<Rightarrow> nat result) \<Rightarrow> ('m, 'v) embedder \<Rightarrow> ('v \<Rightarrow> 'e result) \<Rightarrow>
    string list \<Rightarrow> 'm \<Rightarrow> 'e list result \<times> 'm" where
  "infer_batch encode emb from_values texts m =
     (if texts = [] then (Inr [], m)
      else case collect_results (map (\<lambda>(index, txt). token_length encode txt index) (enumerate 0 texts)) of
        Inl e \<Rightarrow> (Inl e, m)
      | Inr lens \<Rightarrow>
          (case plan_batch_ranges lens of
             Inl e \<Rightarrow> (Inl e, m)
           | Inr ranges \<Rightarrow> infer_ranges emb from_values texts ranges m))"

definition infer :: "(string \<Rightarrow> nat result) \<Rightarrow> ('m, 'v) embedder \<Rightarrow> ('v \<Rightarrow> 'e result) \<Rightarrow>
    string \<Rightarrow> 'm \<Rightarrow> 'e result \<times> 'm" where
  "infer encode emb from_values txt m =
     (case infer_batch encode emb from_values [txt] m of
        (Inl e, m') \<Rightarrow> (Inl e, m')
      | (Inr xs, m') \<Rightarrow>
          (if xs = [] then Inl ''semantic_unavailable: missing model output'' else Inr (last xs), m'))"

definition infer_one_planned_batch :: "('m, 'v) embedder \<Rightarrow> ('v \<Rightarrow> 'e result) \<Rightarrow>
    string list \<Rightarrow> nat list \<Rightarrow> 'm \<Rightarrow> 'e list result \<times> 'm" where
  "infer_one_planned_batch emb from_values texts indices m =
     (case emb m texts of
        (Inl _, m') \<Rightarrow>
          (Inl (range_message (if indices = [] then 0 else hd indices)
             (saturating_add (if indices = [] then 0 else last indices) 1)), m')
      | (Inr batch, m') \<Rightarrow>
          (if length batch \<noteq> length texts then Inl (count_message (length batch) (length texts))
           else validate_vectors from_values indices batch, m'))"

text \<open>\<open>isolate_batch\<close> halves a failing batch until single inputs fail.  The source never calls it on an
  empty range (it would not return on one); the plan's ranges are nonempty and so are their halves.\<close>

function isolate_batch :: "('m, 'v) embedder \<Rightarrow> ('v \<Rightarrow> 'e result) \<Rightarrow> string list \<Rightarrow> (nat \<times> nat) list \<Rightarrow>
    nat \<times> nat \<Rightarrow> 'm \<times> 'e result option list \<Rightarrow> 'm \<times> 'e result option list" where
  "isolate_batch emb from_values texts valid (a, b) (m, results) =
     (let original_indices = map fst (slice a b valid);
          batch = map (\<lambda>index. texts ! index) original_indices
      in case infer_one_planned_batch emb from_values batch original_indices m of
           (Inr embeddings, m') \<Rightarrow>
             (m', fold (\<lambda>(index, x) rs. rs[index := Some (Inr x)]) (zip original_indices embeddings) results)
         | (Inl e, m') \<Rightarrow>
             if b - a \<le> 1 then (m', results[hd original_indices := Some (Inl e)])
             else let middle = a + (b - a) div 2
                  in isolate_batch emb from_values texts valid (middle, b)
                       (isolate_batch emb from_values texts valid (a, middle) (m', results)))"
  by pat_completeness auto
termination
  by (relation "measure (\<lambda>(_, _, _, _, (a, b), _). b - a)") auto

declare isolate_batch.simps [simp del]

text \<open>\<open>None\<close> stands for the panic of \<open>expect("every batch input has a result")\<close>.\<close>

definition infer_batch_isolated :: "(string \<Rightarrow> nat result) \<Rightarrow> ('m, 'v) embedder \<Rightarrow> ('v \<Rightarrow> 'e result) \<Rightarrow>
    string list \<Rightarrow> 'm \<Rightarrow> 'e result list option \<times> 'm" where
  "infer_batch_isolated encode emb from_values texts m =
     (let measured = map (\<lambda>(index, txt). (index, token_length encode txt index)) (enumerate 0 texts);
          results = map (\<lambda>(_, n). case n of Inl e \<Rightarrow> Some (Inl e) | Inr _ \<Rightarrow> None) measured;
          valid = List.map_filter (\<lambda>(index, n). case n of Inl _ \<Rightarrow> None | Inr k \<Rightarrow> Some (index, k)) measured;
          (m', filled) =
            (case plan_batch_ranges (map snd valid) of
               Inl e \<Rightarrow> (m, fold (\<lambda>(index, _) rs. rs[index := Some (Inl e)]) valid results)
             | Inr ranges \<Rightarrow> fold (isolate_batch emb from_values texts valid) ranges (m, results))
      in (if None \<in> set filled then None else Some (map the filled), m'))"

section \<open>Every input gets its result\<close>

lemma collect_results_map_Inr [simp]: "collect_results (map Inr xs) = Inr xs"
  by (induction xs) simp_all

lemma collect_results_InrD: "collect_results rs = Inr xs \<Longrightarrow> rs = map Inr xs"
proof (induction rs arbitrary: xs)
  case Nil
  then show ?case by simp
next
  case (Cons r rs)
  then show ?case by (cases r; cases "collect_results rs") auto
qed

lemma validate_vectors_length:
  assumes "validate_vectors from_values names batch = Inr xs" and "length names = length batch"
  shows "length xs = length batch"
  using arg_cong [OF collect_results_InrD [OF assms(1) [unfolded validate_vectors_def]], of length] assms(2)
  by simp

lemma infer_one_length:
  assumes "infer_one_planned_batch emb from_values texts indices m = (Inr xs, m')"
    and "length indices = length texts"
  shows "length xs = length texts"
  using assms validate_vectors_length
  by (fastforce simp: infer_one_planned_batch_def split: prod.splits sum.splits if_splits)

text \<open>Slots of \<open>results\<close> named in \<open>is\<close> are filled with acceptable results and the others kept.\<close>

definition fills :: "(nat \<Rightarrow> 'r \<Rightarrow> bool) \<Rightarrow> nat set \<Rightarrow> 'r option list \<Rightarrow> 'r option list \<Rightarrow> bool" where
  "fills good is rs rs' \<longleftrightarrow> length rs' = length rs
     \<and> (\<forall>i < length rs. if i \<in> is then (\<exists>r. rs' ! i = Some r \<and> good i r) else rs' ! i = rs ! i)"

lemma fills_refl: "fills good {} rs rs"
  by (simp add: fills_def)

lemma fills_trans: "fills good A rs rs' \<Longrightarrow> fills good B rs' rs'' \<Longrightarrow> fills good (A \<union> B) rs rs''"
  by (simp add: fills_def) metis

lemma fills_single: "good i r \<Longrightarrow> fills good {i} rs (rs[i := Some r])"
  by (auto simp: fills_def nth_list_update)

lemma fills_fold:
  "\<forall>(i, r) \<in> set ps. good i r \<Longrightarrow>
   fills good (fst ` set ps) rs (fold (\<lambda>(i, r) rs. rs[i := Some r]) ps rs)"
proof (induction ps arbitrary: rs)
  case Nil
  then show ?case by (simp add: fills_refl)
next
  case (Cons p ps)
  obtain i r where p: "p = (i, r)" by (cases p)
  have "fills good {i} rs (rs[i := Some r])" using Cons.prems p by (intro fills_single) auto
  moreover have "fills good (fst ` set ps) (rs[i := Some r])
      (fold (\<lambda>(i, r) rs. rs[i := Some r]) ps (rs[i := Some r]))"
    using Cons by auto
  ultimately show ?case using p fills_trans by fastforce
qed

lemma fold_Inr_updates:
  "fold (\<lambda>(index, x) rs. rs[index := Some (Inr x)]) ps rs
     = fold (\<lambda>(i, r) rs. rs[i := Some r]) (map (apsnd Inr) ps) rs"
  by (induction ps arbitrary: rs) auto

lemma keys_apsnd_zip: "length xs = length is \<Longrightarrow> fst ` set (map (apsnd h) (zip is xs)) = set is"
  by (simp add: image_image) (metis image_set map_fst_zip)

text \<open>One step of the bisection.\<close>

lemma isolate_batch_step:
  assumes "infer_one_planned_batch emb from_values (map ((!) texts) (map fst (slice a b valid))) (map fst (slice a b valid)) m = (r, m1)"
  shows "isolate_batch emb from_values texts valid (a, b) (m, results) =
    (case r of
       Inr xs \<Rightarrow> (m1, fold (\<lambda>(i, r) rs. rs[i := Some r]) (map (apsnd Inr) (zip (map fst (slice a b valid)) xs)) results)
     | Inl e \<Rightarrow>
         if b - a \<le> 1 then (m1, results[hd (map fst (slice a b valid)) := Some (Inl e)])
         else isolate_batch emb from_values texts valid (a + (b - a) div 2, b)
                (isolate_batch emb from_values texts valid (a, a + (b - a) div 2) (m1, results)))"
  by (subst isolate_batch.simps) (simp only: Let_def assms prod.case fold_Inr_updates)

text \<open>What the results of a run may be, given what one call of the model returns: \<open>good\<close> judges a result by the state that the
  model is in, and keeps its judgement as the model goes on.\<close>

locale outcome_trace =
  fixes emb :: "('m, 'v) embedder" and from_values :: "'v \<Rightarrow> 'e result" and texts :: "string list"
    and grows :: "'m \<Rightarrow> 'm \<Rightarrow> bool" and good :: "'m \<Rightarrow> nat \<Rightarrow> 'e result \<Rightarrow> bool"
  assumes grows_refl: "grows m m"
    and grows_trans: "grows m m' \<Longrightarrow> grows m' m'' \<Longrightarrow> grows m m''"
    and good_grows: "grows m m' \<Longrightarrow> good m i r \<Longrightarrow> good m' i r"
    and call: "infer_one_planned_batch emb from_values (map ((!) texts) is) is m = (answer, m') \<Longrightarrow> is \<noteq> [] \<Longrightarrow>
      grows m m' \<and> (case answer of Inl e \<Rightarrow> length is = 1 \<longrightarrow> good m' (hd is) (Inl e)
        | Inr xs \<Rightarrow> \<forall>(i, x) \<in> set (zip is xs). good m' i (Inr x))"
begin

lemma fills_grows: "fills (good m) is rs rs' \<Longrightarrow> grows m m' \<Longrightarrow> fills (good m') is rs rs'"
  unfolding fills_def by (meson good_grows)

lemma isolate_batch_fills:
  "a < b \<Longrightarrow> b \<le> length valid \<Longrightarrow> isolate_batch emb from_values texts valid (a, b) (m, results) = (m', results') \<Longrightarrow>
   grows m m' \<and> fills (good m') (set (map fst (slice a b valid))) results results'"
proof (induction "b - a" arbitrary: a b m results m' results' rule: less_induct)
  case less
  let ?is = "map fst (slice a b valid)"
  have ne: "?is \<noteq> []" using less.prems(1,2) by (auto simp: slice_def)
  obtain r m1 where one: "infer_one_planned_batch emb from_values (map ((!) texts) ?is) ?is m = (r, m1)" by fastforce
  note step = call [OF one ne]
  show ?case
  proof (cases r)
    case (Inr xs)
    have "length xs = length ?is" using infer_one_length one Inr by fastforce
    note keys = keys_apsnd_zip [OF this, of Inr]
    have "\<forall>(i, r) \<in> set (map (apsnd Inr) (zip ?is xs)). good m1 i r" using step Inr by auto
    note fills_fold [OF this, of results, unfolded keys]
    then show ?thesis using Inr step less.prems(3) unfolding isolate_batch_step [OF one] by auto
  next
    case (Inl e)
    show ?thesis
    proof (cases "b - a \<le> 1")
      case True
      then have b: "b = Suc a" using less.prems by simp
      have "slice a b valid = [valid ! a]" using b less.prems by (simp add: slice_snoc) (simp add: slice_def)
      with b step Inl True less.prems(3) show ?thesis unfolding isolate_batch_step [OF one] by (auto simp: fills_single)
    next
      case False
      let ?mid = "a + (b - a) div 2"
      have mid: "a < ?mid" "?mid < b" "?mid \<le> length valid" using False less.prems by auto
      obtain m2 r2 where first: "isolate_batch emb from_values texts valid (a, ?mid) (m1, results) = (m2, r2)" by fastforce
      with less.prems(3) Inl False have second: "isolate_batch emb from_values texts valid (?mid, b) (m2, r2) = (m', results')"
        unfolding isolate_batch_step [OF one] by simp
      have left: "grows m1 m2 \<and> fills (good m2) (set (map fst (slice a ?mid valid))) results r2"
        by (rule less.hyps [OF _ mid(1,3) first]) (use mid in arith)
      have right: "grows m2 m' \<and> fills (good m') (set (map fst (slice ?mid b valid))) r2 results'"
        by (rule less.hyps [OF _ mid(2) less.prems(2) second]) (use mid in arith)
      have "fills (good m') (set (map fst (slice a ?mid valid)) \<union> set (map fst (slice ?mid b valid))) results results'"
        by (rule fills_trans [OF fills_grows]) (use left right in blast)+
      moreover have "set (slice a b valid) = set (slice a ?mid valid) \<union> set (slice ?mid b valid)"
        using mid slice_split [of a ?mid b valid] by (metis less_imp_le set_append)
      moreover have "grows m m'" using step left right grows_trans by blast
      ultimately show ?thesis by (simp add: image_Un)
    qed
  qed
qed

lemma isolate_ranges_fill:
  "tiles s e rs \<Longrightarrow> e \<le> length valid \<Longrightarrow>
   fold (isolate_batch emb from_values texts valid) rs (m, results) = (m', results') \<Longrightarrow>
   grows m m' \<and> fills (good m') (set (map fst (slice s e valid))) results results'"
proof (induction s e rs arbitrary: m results rule: tiles.induct)
  case (1 s e)
  then show ?case by (simp add: fills_refl slice_def grows_refl)
next
  case (2 s e a b rs)
  then have ab: "a = s" "a < b" "b \<le> e" "b \<le> length valid" using tiles_le [of b e rs] by auto
  obtain m1 r1 where first: "isolate_batch emb from_values texts valid (a, b) (m, results) = (m1, r1)"
    by fastforce
  note left = isolate_batch_fills [OF ab(2,4) first]
  have right: "grows m1 m' \<and> fills (good m') (set (map fst (slice b e valid))) r1 results'"
    using 2 first by simp
  have "set (slice a e valid) = set (slice a b valid) \<union> set (slice b e valid)"
    using ab slice_split [of a b e valid] by (metis less_imp_le set_append)
  moreover have "fills (good m') (set (map fst (slice a b valid)) \<union> set (map fst (slice b e valid))) results results'"
    by (rule fills_trans [OF fills_grows]) (use left right in blast)+
  moreover have "grows m m'" using left right grows_trans by blast
  ultimately show ?case using ab(1) by (simp add: image_Un)
qed

end

definition valid_inputs :: "(string \<Rightarrow> nat result) \<Rightarrow> string list \<Rightarrow> (nat \<times> nat) list" where
  "valid_inputs encode texts =
     List.map_filter (\<lambda>(index, n). case n of Inl _ \<Rightarrow> None | Inr k \<Rightarrow> Some (index, k))
       (map (\<lambda>(index, txt). (index, token_length encode txt index)) (enumerate 0 texts))"

lemma valid_inputs_mem:
  "(i, k) \<in> set (valid_inputs encode texts) \<longleftrightarrow>
     i < length texts \<and> token_length encode (texts ! i) i = Inr k"
  by (force simp: valid_inputs_def map_filter_def in_set_enumerate_eq split: sum.splits)

lemma valid_inputs_tokens: "\<forall>n \<in> set (map snd (valid_inputs encode texts)). n \<le> MAX_INPUT_TOKENS"
proof
  fix n
  assume "n \<in> set (map snd (valid_inputs encode texts))"
  then obtain i where "(i, n) \<in> set (valid_inputs encode texts)" by auto
  then show "n \<le> MAX_INPUT_TOKENS"
    by (auto simp: valid_inputs_mem token_length_def split: sum.splits if_splits)
qed

context outcome_trace
begin

lemma infer_batch_isolated_spec:
  "\<exists>rs m'. infer_batch_isolated encode emb from_values texts m = (Some rs, m')
    \<and> length rs = length texts
    \<and> (\<forall>i < length texts. case token_length encode (texts ! i) i of
          Inl e \<Rightarrow> rs ! i = Inl e | Inr _ \<Rightarrow> good m' i (rs ! i))"
proof -
  let ?valid = "valid_inputs encode texts"
  let ?measured = "map (\<lambda>(index, txt). (index, token_length encode txt index)) (enumerate 0 texts)"
  let ?results = "map (\<lambda>(_, n). case n of Inl e \<Rightarrow> Some (Inl e) | Inr _ \<Rightarrow> None) ?measured"
  obtain ranges where plan: "plan_batch_ranges (map snd ?valid) = Inr ranges"
      and tile: "tiles 0 (length ?valid) ranges"
    using plan_loop_spec [OF valid_inputs_tokens] plan_batch_ranges_accepts [OF valid_inputs_tokens]
    by (metis length_map zero_le)
  obtain m' filled where filled: "fold (isolate_batch emb from_values texts ?valid) ranges (m, ?results) = (m', filled)"
    by fastforce
  have fills: "fills (good m') (fst ` set ?valid) ?results filled"
    using isolate_ranges_fill [OF tile order_refl filled] by simp
  then have len: "length filled = length texts" by (simp add: fills_def)
  have slot: "\<exists>r. filled ! i = Some r \<and>
      (case token_length encode (texts ! i) i of Inl e \<Rightarrow> r = Inl e | Inr _ \<Rightarrow> good m' i r)"
    if i: "i < length texts" for i
  proof (cases "token_length encode (texts ! i) i")
    case (Inl e)
    then have "i \<notin> fst ` set ?valid" by (force simp: valid_inputs_mem)
    with fills i Inl show ?thesis by (simp add: fills_def nth_enumerate_eq)
  next
    case (Inr k)
    with i have "(i, k) \<in> set ?valid" by (simp add: valid_inputs_mem)
    then have "i \<in> fst ` set ?valid" by (rule rev_image_eqI) simp
    with fills i Inr show ?thesis by (simp add: fills_def)
  qed
  then have "None \<notin> set filled" using len by (fastforce simp: in_set_conv_nth)
  then have "infer_batch_isolated encode emb from_values texts m = (Some (map the filled), m')"
    using plan filled
    by (simp add: infer_batch_isolated_def Let_def valid_inputs_def)
  moreover have "case token_length encode (texts ! i) i of
      Inl e \<Rightarrow> map the filled ! i = Inl e | Inr _ \<Rightarrow> good m' i (map the filled ! i)" if "i < length texts" for i
    using slot [OF that] that len by (auto split: sum.splits)
  ultimately show ?thesis using len by auto
qed

end

section \<open>One bad input does not fail the others\<close>

text \<open>The calls of the model, in order, with their replies.\<close>

definition logged :: "('m, 'v) embedder \<Rightarrow> ('m \<times> (string list \<times> 'v list result) list, 'v) embedder" where
  "logged emb = (\<lambda>(m, calls) ts. case emb m ts of (r, m') \<Rightarrow> (r, (m', calls @ [(ts, r)])))"

text \<open>The outcome of input \<open>i\<close> in those calls: what the model gave for that text at its place in a batch, or the failure of a
  call with that text alone.\<close>

definition outcome_of :: "('v \<Rightarrow> 'e result) \<Rightarrow> string list \<Rightarrow> (string list \<times> 'v list result) list \<Rightarrow> nat \<Rightarrow> 'e result \<Rightarrow> bool" where
  "outcome_of from_values texts calls i r \<longleftrightarrow>
     (case r of
        Inr x \<Rightarrow> \<exists>is vs k. (map ((!) texts) is, Inr vs) \<in> set calls \<and> length vs = length is
          \<and> k < length is \<and> is ! k = i \<and> from_values (vs ! k) = Inr x
      | Inl e \<Rightarrow> \<exists>reply. ([texts ! i], reply) \<in> set calls
          \<and> (case reply of
               Inl _ \<Rightarrow> e = range_message i (saturating_add i 1)
             | Inr vs \<Rightarrow> if length vs = 1 then isl (from_values (hd vs)) \<and> e = invalid_message i
                 else e = count_message (length vs) 1))"

lemma validate_vectors_nth:
  assumes "validate_vectors from_values names batch = Inr xs" "length names = length batch" "k < length batch"
  shows "from_values (batch ! k) = Inr (xs ! k)"
proof -
  from collect_results_InrD [OF assms(1) [unfolded validate_vectors_def]]
  have "map2 (\<lambda>name vector. case from_values vector of Inl _ \<Rightarrow> Inl (invalid_message name) | Inr x \<Rightarrow> Inr x) names batch ! k = map Inr xs ! k"
    by simp
  with assms validate_vectors_length [OF assms(1,2)] show ?thesis by (simp split: sum.splits)
qed

interpretation call_log: outcome_trace "logged emb" from_values texts "\<lambda>s s'. prefix (snd s) (snd s')" "\<lambda>s. outcome_of from_values texts (snd s)"
  for emb :: "('m, 'v) embedder" and from_values :: "'v \<Rightarrow> 'e result" and texts
proof
  fix s s' :: "'m \<times> (string list \<times> 'v list result) list" and i and r :: "'e result"
  assume "prefix (snd s) (snd s')" and good: "outcome_of from_values texts (snd s) i r"
  then have "set (snd s) \<subseteq> set (snd s')" by (simp add: set_mono_prefix)
  then show "outcome_of from_values texts (snd s') i r"
  proof (cases r)
    case (Inl e)
    with good \<open>set (snd s) \<subseteq> set (snd s')\<close> show ?thesis
      unfolding outcome_of_def by simp (meson subsetD)
  next
    case (Inr x)
    from good [unfolded Inr outcome_of_def sum.case] obtain "is" vs k where "(map ((!) texts) is, Inr vs) \<in> set (snd s)"
      "length vs = length is" "k < length is" "is ! k = i" "from_values (vs ! k) = Inr x" by blast
    with \<open>set (snd s) \<subseteq> set (snd s')\<close> show ?thesis unfolding Inr outcome_of_def sum.case by blast
  qed
next
  fix "is" and s s' :: "'m \<times> (string list \<times> 'v list result) list" and r :: "'e list result"
  assume run: "infer_one_planned_batch (logged emb) from_values (map ((!) texts) is) is s = (r, s')" and ne: "is \<noteq> []"
  obtain m calls where s: "s = (m, calls)" by (cases s)
  obtain reply m' where reply: "emb m (map ((!) texts) is) = (reply, m')" by (cases "emb m (map ((!) texts) is)")
  from run s reply have s': "s' = (m', calls @ [(map ((!) texts) is, reply)])"
    by (auto simp: infer_one_planned_batch_def logged_def split: sum.splits if_splits)
  have "case r of Inl e \<Rightarrow> length is = 1 \<longrightarrow> outcome_of from_values texts (snd s') (hd is) (Inl e)
      | Inr xs \<Rightarrow> \<forall>(i, x) \<in> set (zip is xs). outcome_of from_values texts (snd s') i (Inr x)"
  proof (cases r)
    case (Inl e)
    have "outcome_of from_values texts (snd s') (hd is) (Inl e)" if "length is = 1"
    proof -
      from that obtain i where i: "is = [i]" by (cases "is") auto
      have "case reply of Inl _ \<Rightarrow> e = range_message i (saturating_add i 1)
          | Inr vs \<Rightarrow> if length vs = 1 then isl (from_values (hd vs)) \<and> e = invalid_message i else e = count_message (length vs) 1"
        using run s reply Inl i
        by (auto simp: infer_one_planned_batch_def logged_def validate_vectors_def length_Suc_conv split: sum.splits if_splits)
      moreover have "([texts ! i], reply) \<in> set (snd s')" using i s' by simp
      ultimately show ?thesis unfolding outcome_of_def i list.sel sum.case by blast
    qed
    with Inl show ?thesis by simp
  next
    case (Inr xs)
    with run s reply obtain vs where vs: "reply = Inr vs" "length vs = length is" "validate_vectors from_values is vs = Inr xs"
      by (auto simp: infer_one_planned_batch_def logged_def split: sum.splits if_splits)
    have "outcome_of from_values texts (snd s') i (Inr x)" if "(i, x) \<in> set (zip is xs)" for i x
    proof -
      from that obtain k where "k < length is" "is ! k = i" "xs ! k = x" by (auto simp: in_set_zip)
      with vs validate_vectors_nth [OF vs(3)] s' show ?thesis by (fastforce simp: outcome_of_def)
    qed
    with Inr show ?thesis by auto
  qed
  with s s' show "prefix (snd s) (snd s') \<and> (case r of Inl e \<Rightarrow> length is = 1 \<longrightarrow> outcome_of from_values texts (snd s') (hd is) (Inl e)
      | Inr xs \<Rightarrow> \<forall>(i, x) \<in> set (zip is xs). outcome_of from_values texts (snd s') i (Inr x))" by simp
qed auto

text \<open>Logging does not change a run.\<close>

lemma infer_one_logged:
  "infer_one_planned_batch (logged emb) from_values ts is (m, calls) =
     (fst (infer_one_planned_batch emb from_values ts is m),
      (snd (infer_one_planned_batch emb from_values ts is m), calls @ [(ts, fst (emb m ts))]))"
  by (auto simp: infer_one_planned_batch_def logged_def split: prod.splits sum.splits)

lemma isolate_batch_logged:
  "\<exists>calls'. isolate_batch (logged emb) from_values texts valid (a, b) ((m, calls), results) =
     (case isolate_batch emb from_values texts valid (a, b) (m, results) of (m', results') \<Rightarrow> ((m', calls'), results'))"
proof (induction "b - a" arbitrary: a b m calls results rule: less_induct)
  case less
  let ?is = "map fst (slice a b valid)" and ?mid = "a + (b - a) div 2"
  obtain r m1 where one: "infer_one_planned_batch emb from_values (map ((!) texts) ?is) ?is m = (r, m1)" by fastforce
  let ?calls = "calls @ [(map ((!) texts) ?is, fst (emb m (map ((!) texts) ?is)))]"
  have one': "infer_one_planned_batch (logged emb) from_values (map ((!) texts) ?is) ?is (m, calls) = (r, (m1, ?calls))"
    by (simp only: infer_one_logged one fst_conv snd_conv)
  show ?case
  proof (cases "isl r \<and> \<not> b - a \<le> 1")
    case False
    then show ?thesis
      unfolding isolate_batch_step [OF one] isolate_batch_step [OF one'] by (auto split: sum.splits)
  next
    case True
    then obtain e where e: "r = Inl e" "\<not> b - a \<le> 1" by (cases r) auto
    obtain m2 r2 where first: "isolate_batch emb from_values texts valid (a, ?mid) (m1, results) = (m2, r2)" by fastforce
    have "?mid - a < b - a" "b - ?mid < b - a" using e by auto
    from less [OF this(1), of m1 ?calls results] less [OF this(2), of m2 _ r2] first obtain calls2 calls3 where
      "isolate_batch (logged emb) from_values texts valid (a, ?mid) ((m1, ?calls), results) = ((m2, calls2), r2)"
      "isolate_batch (logged emb) from_values texts valid (?mid, b) ((m2, calls2), r2) =
        (case isolate_batch emb from_values texts valid (?mid, b) (m2, r2) of (m', results') \<Rightarrow> ((m', calls3), results'))"
      by fastforce
    with e first show ?thesis unfolding isolate_batch_step [OF one] isolate_batch_step [OF one'] by auto
  qed
qed

lemma isolate_ranges_logged:
  "\<exists>calls'. fold (isolate_batch (logged emb) from_values texts valid) rs ((m, calls), results) =
     (case fold (isolate_batch emb from_values texts valid) rs (m, results) of (m', results') \<Rightarrow> ((m', calls'), results'))"
proof (induction rs arbitrary: m calls results)
  case (Cons r rs)
  obtain a b where r: "r = (a, b)" by (cases r)
  obtain m1 r1 where one: "isolate_batch emb from_values texts valid (a, b) (m, results) = (m1, r1)" by fastforce
  with isolate_batch_logged [of emb from_values texts valid a b m calls results] obtain calls1 where
    "isolate_batch (logged emb) from_values texts valid (a, b) ((m, calls), results) = ((m1, calls1), r1)" by auto
  with Cons [of m1 calls1 r1] one r show ?case by simp
qed simp

lemma infer_batch_isolated_logged:
  assumes "infer_batch_isolated encode (logged emb) from_values texts (m, calls) = (rs, (m', calls'))"
  shows "infer_batch_isolated encode emb from_values texts m = (rs, m')"
proof -
  let ?measured = "map (\<lambda>(index, txt). (index, token_length encode txt index)) (enumerate 0 texts)"
  let ?results = "map (\<lambda>(_, n). case n of Inl e \<Rightarrow> Some (Inl e) | Inr _ \<Rightarrow> None) ?measured"
  let ?valid = "List.map_filter (\<lambda>(index, n). case n of Inl _ \<Rightarrow> None | Inr k \<Rightarrow> Some (index, k)) ?measured"
  show ?thesis
  proof (cases "plan_batch_ranges (map snd ?valid)")
    case (Inl e)
    with assms show ?thesis by (simp add: infer_batch_isolated_def Let_def)
  next
    case (Inr ranges)
    obtain m1 r1 where plain: "fold (isolate_batch emb from_values texts ?valid) ranges (m, ?results) = (m1, r1)" by fastforce
    with isolate_ranges_logged [of emb from_values texts ?valid ranges m calls ?results] obtain calls1 where
      "fold (isolate_batch (logged emb) from_values texts ?valid) ranges ((m, calls), ?results) = ((m1, calls1), r1)" by auto
    with plain Inr assms show ?thesis by (simp add: infer_batch_isolated_def Let_def split: if_splits)
  qed
qed

text \<open>C37. Whatever the model does, isolation returns one outcome per input, in input order, and never panics; the model is
  the one consulted, its calls recorded.  An input that the tokenizer refuses or that has too many tokens gets that
  error.  An embedding is what the model returned for that very text, at its place in one of those calls.  An input fails
  only when a call with that input alone was refused, returned another number of vectors than one, or an unusable
  vector, and the error names that input or that call; so a bad input in a batch never fails another.\<close>

theorem one_bad_input_is_isolated:
  "\<exists>rs m' calls. infer_batch_isolated encode emb from_values texts m = (Some rs, m')
     \<and> infer_batch_isolated encode (logged emb) from_values texts (m, []) = (Some rs, (m', calls))
     \<and> length rs = length texts
     \<and> (\<forall>i < length texts. case token_length encode (texts ! i) i of
          Inl e \<Rightarrow> rs ! i = Inl e | Inr _ \<Rightarrow> outcome_of from_values texts calls i (rs ! i))"
proof -
  from call_log.infer_batch_isolated_spec [where encode = encode and texts = texts and emb = emb and from_values = from_values and m = "(m, [])"] obtain rs s where
    "infer_batch_isolated encode (logged emb) from_values texts (m, []) = (Some rs, s)" "length rs = length texts"
    "\<forall>i < length texts. case token_length encode (texts ! i) i of
        Inl e \<Rightarrow> rs ! i = Inl e | Inr _ \<Rightarrow> outcome_of from_values texts (snd s) i (rs ! i)" by blast
  moreover obtain m' calls where "s = (m', calls)" by (cases s)
  ultimately show ?thesis using infer_batch_isolated_logged [of encode emb from_values texts m "[]" "Some rs" m' calls]
    by (metis snd_conv)
qed

definition failing_embed :: "unit \<Rightarrow> string list \<Rightarrow> nat list result \<times> unit" where
  "failing_embed m ts = (if list_ex (\<lambda>t. t = ''x'') ts then Inl ''fail'' else Inr (map length ts), m)"

theorem one_bad_input_is_isolated_witness:
  "\<exists>calls. infer_batch_isolated (\<lambda>t. Inr (length t)) failing_embed Inr [''abc'', ''x''] () = (Some [Inr 3, Inl (range_message 1 2)], ())
     \<and> outcome_of Inr [''abc'', ''x''] calls 0 (Inr (3 :: nat)) \<and> outcome_of (Inr :: nat \<Rightarrow> nat result) [''abc'', ''x''] calls 1 (Inl (range_message 1 2))"
proof -
  have run: "infer_batch_isolated (\<lambda>t. Inr (length t)) failing_embed Inr [''abc'', ''x''] () = (Some [Inr 3, Inl (range_message 1 2)], ())"
    by (simp add: infer_batch_isolated_def failing_embed_def token_length_def batch_limits plan_batch_ranges_def plan_loop.simps
        extend_batch.simps saturating_mul_def saturating_add_def usize_max_def isolate_batch.simps infer_one_planned_batch_def
        validate_vectors_def List.map_filter_def slice_def)
       (simp add: numeral_2_eq_2)
  have ok: "token_length (\<lambda>t. Inr (length t)) ([''abc'', ''x''] ! i) i = Inr (length ([''abc'', ''x''] ! i))" if "i < 2" for i
    using that by (auto simp: token_length_def MAX_INPUT_TOKENS_def less_Suc_eq numeral_2_eq_2)
  obtain rs m' calls where t: "infer_batch_isolated (\<lambda>t. Inr (length t)) failing_embed Inr [''abc'', ''x''] () = (Some rs, m')"
    "\<forall>i < length [''abc'', ''x'']. case token_length (\<lambda>t. Inr (length t)) ([''abc'', ''x''] ! i) i of
       Inl e \<Rightarrow> rs ! i = Inl e | Inr _ \<Rightarrow> outcome_of Inr [''abc'', ''x''] calls i (rs ! i)"
    using one_bad_input_is_isolated [of "\<lambda>t. Inr (length t)" failing_embed Inr "[''abc'', ''x'']" "()"] by blast
  from t(1) run have rs: "rs = [Inr 3, Inl (range_message 1 2)]" by simp
  have "outcome_of Inr [''abc'', ''x''] calls i (rs ! i)" if "i < 2" for i
    using t(2) [rule_format, of i] ok [OF that] that by simp
  from this [of 0] this [of 1] run rs show ?thesis by auto
qed

end
