(* ===== verification/TP_Ordered_Chains.thy ===== *)
theory TP_Ordered_Chains
  imports TP_Interfaces
begin

text \<open>
  \<open>src/store/inheritance/ordered_chains.rs\<close> and \<open>src/store/inheritance.rs\<close>: candidate predecessor
  edges between classes registered on one base with numeric priorities, and the budget that bounds
  derived facts.  A \<open>RegistrationIndex\<close> is its number, a \<open>HashSet\<close> of blocked bases does not occur in
  the production entry point \<open>build_chain_for_base\<close>.
\<close>

section \<open>Registrations and graphs\<close>

definition MAX_CHAIN_CLASSES :: nat where "MAX_CHAIN_CLASSES = 64"
definition MAX_CANDIDATES_PER_REGISTRATION :: nat where "MAX_CANDIDATES_PER_REGISTRATION = 64"

record 'e registration =
  reg_id :: string
  reg_base :: string
  implementation :: string
  numeric_priority :: int
  evidence :: 'e

datatype predecessor_candidate = Registration nat | Base

record 'e edge_evidence =
  child_evidence :: 'e
  predecessor_evidence :: "'e option"

record 'e candidate_edge =
  edge_base :: string
  edge_child :: nat
  edge_predecessor :: predecessor_candidate
  edge_evidence :: "'e edge_evidence"

datatype chain_issue =
    PriorityTie string int "nat list"
  | ClassLimitExceeded string nat nat
  | CandidateLimitExceeded string nat nat nat

record 'e chain_graph =
  edges :: "'e candidate_edge list"
  issues :: "chain_issue list"

section \<open>Operations\<close>

abbreviation priority :: "'e registration list \<Rightarrow> nat \<Rightarrow> int" where
  "priority regs i \<equiv> numeric_priority (regs ! i)"

function group_end :: "(nat \<Rightarrow> int) \<Rightarrow> nat list \<Rightarrow> int \<Rightarrow> nat \<Rightarrow> nat" where
  "group_end prio indices p stop =
     (if stop < length indices \<and> prio (indices ! stop) = p then group_end prio indices p (stop + 1) else stop)"
  by pat_completeness auto
termination by (relation "measure (\<lambda>(_, is, _, e). length is - e)") auto

declare group_end.simps [simp del]

lemma group_end_ge: "stop \<le> group_end prio indices p stop"
proof (induction prio indices p stop rule: group_end.induct)
  case (1 prio indices p stop)
  then show ?case by (subst group_end.simps) auto
qed

function groups_from :: "(nat \<Rightarrow> int) \<Rightarrow> nat list \<Rightarrow> nat \<Rightarrow> (nat \<times> nat) list" where
  "groups_from prio indices start =
     (if start < length indices then
        let stop = group_end prio indices (prio (indices ! start)) (start + 1)
        in (start, stop) # groups_from prio indices stop
      else [])"
  by pat_completeness auto
termination
proof (relation "measure (\<lambda>(_, is, s). length is - s)")
  fix prio indices start stop
  assume "start < length indices" "stop = group_end prio indices (prio (indices ! start)) (start + 1)"
  then show "((prio, indices, stop), prio, indices, start) \<in> measure (\<lambda>(_, is, s). length is - s)"
    using group_end_ge [of "start + 1" prio indices "prio (indices ! start)"] by auto
qed simp

declare groups_from.simps [simp del]

definition priority_groups :: "'e registration list \<Rightarrow> nat list \<Rightarrow> (nat \<times> nat) list" where
  "priority_groups regs indices = groups_from (priority regs) indices 0"

definition chain_edge :: "'e registration list \<Rightarrow> string \<Rightarrow> nat \<Rightarrow> predecessor_candidate \<Rightarrow> nat option \<Rightarrow>
    'e candidate_edge" where
  "chain_edge regs base child predecessor predecessor_index =
     \<lparr>edge_base = base, edge_child = child, edge_predecessor = predecessor,
      edge_evidence = \<lparr>child_evidence = evidence (regs ! child),
        predecessor_evidence = map_option (\<lambda>index. evidence (regs ! index)) predecessor_index\<rparr>\<rparr>"

abbreviation (input) range_len :: "nat \<times> nat \<Rightarrow> nat" where
  "range_len r \<equiv> snd r - fst r"

text \<open>How many predecessors each member of a grp would get.\<close>

definition candidate_count :: "(nat \<times> nat) list \<Rightarrow> nat \<Rightarrow> nat" where
  "candidate_count groups group_index =
     (let group_len = range_len (groups ! group_index);
          previous_len = (if group_index = 0 then 0 else range_len (groups ! (group_index - 1)))
      in (group_len - 1) + (if previous_len = 0 then 1 else previous_len))"

definition group_edges :: "'e registration list \<Rightarrow> string \<Rightarrow> nat list option \<Rightarrow> nat list \<Rightarrow> 'e candidate_edge list" where
  "group_edges regs base previous_group grp =
     concat (map (\<lambda>child.
       concat (map (\<lambda>peer. if child \<noteq> peer then [chain_edge regs base child (Registration peer) (Some peer)] else [])
         grp)
       @ (case previous_group of
            Some previous \<Rightarrow>
              map (\<lambda>predecessor. chain_edge regs base child (Registration predecessor) (Some predecessor)) previous
          | None \<Rightarrow> [chain_edge regs base child Base None])) grp)"

definition group_issue :: "'e registration list \<Rightarrow> string \<Rightarrow> nat list \<Rightarrow> chain_issue list" where
  "group_issue regs base grp =
     (if length grp > 1 then [PriorityTie base (priority regs (hd grp)) grp] else [])"

definition build_base_chain :: "string \<Rightarrow> nat list \<Rightarrow> 'e registration list \<Rightarrow> 'e chain_graph" where
  "build_base_chain base indices0 regs =
     (let indices = sort_by (\<lambda>i j. priority regs i \<le> priority regs j) indices0;
          class_count = saturating_add (length indices) 1
      in if class_count > MAX_CHAIN_CLASSES then
           \<lparr>edges = [], issues = [ClassLimitExceeded base class_count MAX_CHAIN_CLASSES]\<rparr>
         else
           let groups = priority_groups regs indices
           in case find (\<lambda>g. candidate_count groups g > MAX_CANDIDATES_PER_REGISTRATION) [0..<length groups] of
                Some g \<Rightarrow>
                  \<lparr>edges = [], issues = [CandidateLimitExceeded base (indices ! fst (groups ! g))
                     (candidate_count groups g) MAX_CANDIDATES_PER_REGISTRATION]\<rparr>
              | None \<Rightarrow>
                  (let members = (\<lambda>g. slice (fst (groups ! g)) (snd (groups ! g)) indices)
                   in \<lparr>edges = concat (map (\<lambda>g. group_edges regs base
                          (if g = 0 then None else Some (members (g - 1))) (members g)) [0..<length groups]),
                       issues = concat (map (\<lambda>g. group_issue regs base (members g)) [0..<length groups])\<rparr>))"

definition build_chain_for_base :: "string \<Rightarrow> nat list \<Rightarrow> 'e registration list \<Rightarrow> 'e chain_graph" where
  "build_chain_for_base base indices regs = build_base_chain base indices regs"

section \<open>Priority groups\<close>

lemma group_end_spec:
  assumes "e = group_end prio indices p s" and "s \<le> length indices"
  shows "e \<le> length indices" and "\<And>i. s \<le> i \<Longrightarrow> i < e \<Longrightarrow> prio (indices ! i) = p"
    and "e < length indices \<Longrightarrow> prio (indices ! e) \<noteq> p"
proof -
  have "e \<le> length indices \<and> (\<forall>i. s \<le> i \<longrightarrow> i < e \<longrightarrow> prio (indices ! i) = p)
      \<and> (e < length indices \<longrightarrow> prio (indices ! e) \<noteq> p)"
    using assms
  proof (induction prio indices p s arbitrary: e rule: group_end.induct)
    case (1 prio indices p s)
    show ?case
    proof (cases "s < length indices \<and> prio (indices ! s) = p")
      case True
      with 1 have "e = group_end prio indices p (s + 1)" by (subst (asm) (2) group_end.simps) simp
      with 1 True show ?thesis by (metis Suc_eq_plus1 Suc_leI le_neq_implies_less)
    next
      case False
      with 1 have "e = s" by (subst (asm) (2) group_end.simps) (simp split: if_splits)
      with 1 False show ?thesis by auto
    qed
  qed
  then show "e \<le> length indices" "\<And>i. s \<le> i \<Longrightarrow> i < e \<Longrightarrow> prio (indices ! i) = p"
      "e < length indices \<Longrightarrow> prio (indices ! e) \<noteq> p" by auto
qed

text \<open>Members of one range have one priority; the next range starts with another.\<close>

definition uniform :: "(nat \<Rightarrow> int) \<Rightarrow> nat list \<Rightarrow> nat \<times> nat \<Rightarrow> bool" where
  "uniform prio indices = (\<lambda>(a, b). (\<forall>i. a \<le> i \<and> i < b \<longrightarrow> prio (indices ! i) = prio (indices ! a))
     \<and> (b < length indices \<longrightarrow> prio (indices ! b) \<noteq> prio (indices ! a)))"

lemma uniformI:
  "(\<And>i. a \<le> i \<Longrightarrow> i < b \<Longrightarrow> prio (indices ! i) = prio (indices ! a)) \<Longrightarrow>
   (b < length indices \<Longrightarrow> prio (indices ! b) \<noteq> prio (indices ! a)) \<Longrightarrow> uniform prio indices (a, b)"
  unfolding uniform_def prod.case by blast

lemma uniform_same: "uniform prio indices (a, b) \<Longrightarrow> a \<le> i \<Longrightarrow> i < b \<Longrightarrow> prio (indices ! i) = prio (indices ! a)"
  unfolding uniform_def prod.case by blast

lemma uniform_next: "uniform prio indices (a, b) \<Longrightarrow> b < length indices \<Longrightarrow> prio (indices ! b) \<noteq> prio (indices ! a)"
  unfolding uniform_def prod.case by blast

lemma groups_from_spec:
  "s \<le> length indices \<Longrightarrow> tiles s (length indices) (groups_from prio indices s)
     \<and> (\<forall>r \<in> set (groups_from prio indices s). uniform prio indices r)"
proof (induction prio indices s rule: groups_from.induct)
  case (1 prio indices s)
  show ?case
  proof (cases "s < length indices")
    case False
    with "1.prems" show ?thesis by (subst (1 2) groups_from.simps) simp
  next
    case True
    define e where "e = group_end prio indices (prio (indices ! s)) (s + 1)"
    have le: "s + 1 \<le> e" "e \<le> length indices"
      using True group_end_ge [of "s + 1"] group_end_spec(1) [OF e_def] by (auto simp: e_def)
    have "prio (indices ! i) = prio (indices ! s)" if "s \<le> i" "i < e" for i
      using group_end_spec(2) [OF e_def, of i] that True by (cases "i = s") auto
    moreover have "e < length indices \<Longrightarrow> prio (indices ! e) \<noteq> prio (indices ! s)"
      using group_end_spec(3) [OF e_def] True by simp
    ultimately have "uniform prio indices (s, e)" by (rule uniformI)
    moreover have "groups_from prio indices s = (s, e) # groups_from prio indices e"
      using True by (subst groups_from.simps) (simp add: e_def Let_def)
    ultimately show ?thesis using "1.IH" [OF True e_def le(2)] le by auto
  qed
qed

interpretation priority_ranges: range_cover
  "\<lambda>(regs, indices). priority_groups regs indices" "\<lambda>(regs, indices). length indices" "\<lambda>_. True"
  by unfold_locales (auto simp: priority_groups_def groups_from_spec)

text \<open>The members of each group.\<close>

definition group_members :: "'e registration list \<Rightarrow> nat list \<Rightarrow> nat list list" where
  "group_members regs indices = map (\<lambda>(a, b). slice a b indices) (priority_groups regs indices)"

lemma priority_groups_tiles: "tiles 0 (length indices) (priority_groups regs indices)"
  using priority_ranges.ranges_tile [of "(regs, indices)"] by simp

lemma priority_groups_uniform:
  "g < length (priority_groups regs indices) \<Longrightarrow>
   uniform (priority regs) indices (priority_groups regs indices ! g)"
  using groups_from_spec [of 0 indices "priority regs"] by (simp add: priority_groups_def)

lemma concat_group_members: "concat (group_members regs indices) = indices"
  unfolding group_members_def
  using priority_ranges.ranges_concat [where x = "(regs, indices)" and xs = indices] by simp

lemma slice_member: "x \<in> set (slice a b xs) \<longleftrightarrow> (\<exists>i. a \<le> i \<and> i < b \<and> i < length xs \<and> x = xs ! i)"
proof
  assume "x \<in> set (slice a b xs)"
  then obtain k where "k < length (slice a b xs)" "x = slice a b xs ! k" by (auto simp: in_set_conv_nth)
  then show "\<exists>i. a \<le> i \<and> i < b \<and> i < length xs \<and> x = xs ! i"
    by (intro exI [of _ "a + k"]) (auto simp: slice_def)
next
  assume "\<exists>i. a \<le> i \<and> i < b \<and> i < length xs \<and> x = xs ! i"
  then obtain i where "a \<le> i" "i < b" "i < length xs" "x = xs ! i" by blast
  then show "x \<in> set (slice a b xs)"
    by (auto simp: slice_def in_set_conv_nth intro!: exI [of _ "i - a"])
qed

text \<open>A member of a group, with its position.\<close>

lemma group_member_position:
  assumes "g < length (priority_groups regs indices)" and "x \<in> set (group_members regs indices ! g)"
  obtains u where "fst (priority_groups regs indices ! g) \<le> u" "u < snd (priority_groups regs indices ! g)"
    "u < length indices" "x = indices ! u"
    "priority regs x = priority regs (indices ! fst (priority_groups regs indices ! g))"
proof -
  let ?r = "priority_groups regs indices ! g"
  obtain a b where r: "?r = (a, b)" by (cases ?r)
  have uni: "uniform (priority regs) indices (a, b)"
    using priority_groups_uniform [OF assms(1)] r by simp
  obtain u where u: "a \<le> u" "u < b" "u < length indices" "x = indices ! u"
    using assms r by (auto simp: group_members_def slice_member)
  have same: "priority regs x = priority regs (indices ! a)"
    unfolding u(4) by (rule uniform_same [OF uni u(1,2)])
  show ?thesis by (rule that [of u], unfold r fst_conv snd_conv) (fact u same)+
qed

lemma groups_same_priority:
  assumes "g < length (group_members regs indices)"
    and "x \<in> set (group_members regs indices ! g)" and "y \<in> set (group_members regs indices ! g)"
  shows "priority regs x = priority regs y"
  using assms group_member_position [of g regs indices] by (metis group_members_def length_map)

lemma groups_increase:
  assumes sorted: "sorted_wrt (\<lambda>i j. priority regs i \<le> priority regs j) indices"
    and "g < h" and "h < length (group_members regs indices)"
    and x: "x \<in> set (group_members regs indices ! g)" and y: "y \<in> set (group_members regs indices ! h)"
  shows "priority regs x < priority regs y"
proof -
  let ?rs = "priority_groups regs indices"
  have gh: "g < length ?rs" "h < length ?rs" using assms(2,3) by (simp_all add: group_members_def)
  obtain a b where r: "?rs ! g = (a, b)" by (cases "?rs ! g")
  obtain u where u: "a \<le> u" "u < b" "x = indices ! u" "priority regs x = priority regs (indices ! a)"
    using group_member_position [OF gh(1) x] r by (metis fst_conv snd_conv)
  obtain v where v: "fst (?rs ! h) \<le> v" "v < length indices" "y = indices ! v"
    using group_member_position [OF gh(2) y] by metis
  have bv: "b \<le> v" using tiles_ordered [OF priority_groups_tiles assms(2) gh(2)] r v by simp
  have "uniform (priority regs) indices (a, b)"
    using priority_groups_uniform [OF gh(1)] r by simp
  then have "priority regs (indices ! b) \<noteq> priority regs x"
    using uniform_next bv v u(4) by (metis le_less_trans)
  moreover have "priority regs x \<le> priority regs (indices ! b)"
    using sorted u bv v by (metis le_less_trans sorted_wrt_nth_less)
  moreover have "priority regs (indices ! b) \<le> priority regs y"
    using sorted bv v by (metis le_neq_implies_less order_refl sorted_wrt_nth_less)
  ultimately show ?thesis by simp
qed

lemma groups_nonempty: "g < length (group_members regs indices) \<Longrightarrow> group_members regs indices ! g \<noteq> []"
proof -
  assume g: "g < length (group_members regs indices)"
  obtain a b where r: "priority_groups regs indices ! g = (a, b)" by (cases "priority_groups regs indices ! g")
  have "(a, b) \<in> set (priority_groups regs indices)"
    using g r nth_mem by (fastforce simp: group_members_def)
  then have "a < b" "b \<le> length indices" using tiles_bounds [OF priority_groups_tiles] by auto
  with g r show ?thesis by (auto simp: group_members_def slice_def)
qed

lemma candidate_count_bound:
  assumes "g < length (priority_groups regs indices)"
  shows "candidate_count (priority_groups regs indices) g \<le> length indices"
proof -
  let ?rs = "priority_groups regs indices"
  have bounds: "fst (?rs ! i) < snd (?rs ! i) \<and> snd (?rs ! i) \<le> length indices" if "i < length ?rs" for i
    using tiles_bounds [OF priority_groups_tiles [of indices regs], of "fst (?rs ! i)" "snd (?rs ! i)"]
      nth_mem [OF that] by simp
  show ?thesis
  proof (cases g)
    case 0
    with bounds [OF assms] show ?thesis unfolding candidate_count_def Let_def by (simp, linarith)
  next
    case (Suc h)
    with assms have "h < length ?rs" by simp
    from bounds [OF this] bounds [OF assms] tiles_ordered [OF priority_groups_tiles, of h g regs indices] Suc assms
    show ?thesis unfolding candidate_count_def Let_def by (simp, linarith)
  qed
qed

section \<open>The candidate graph\<close>

interpretation by_priority: comparison "\<lambda>i j. priority regs i \<le> priority regs j"
  by unfold_locales auto

abbreviation (input) immediately_below :: "'e registration list \<Rightarrow> nat list \<Rightarrow> nat \<Rightarrow> nat \<Rightarrow> bool" where
  "immediately_below regs indices p c \<equiv> priority regs p < priority regs c
     \<and> (\<forall>q \<in> set indices. \<not> (priority regs p < priority regs q \<and> priority regs q < priority regs c))"

lemma member_of_group:
  "x \<in> set indices \<Longrightarrow> \<exists>g < length (group_members regs indices). x \<in> set (group_members regs indices ! g)"
proof -
  assume "x \<in> set indices"
  then have "x \<in> set (concat (group_members regs indices))" by (simp only: concat_group_members)
  then obtain grp where "grp \<in> set (group_members regs indices)" "x \<in> set grp" by auto
  then show ?thesis by (metis in_set_conv_nth)
qed

lemma group_member_in: "g < length (group_members regs indices) \<Longrightarrow>
  x \<in> set (group_members regs indices ! g) \<Longrightarrow> x \<in> set indices"
  using concat_group_members [of regs indices] by (metis UN_I nth_mem set_concat)

lemma same_group_iff:
  assumes sorted: "sorted_wrt (\<lambda>i j. priority regs i \<le> priority regs j) indices"
    and g: "g < length (group_members regs indices)" and c: "c \<in> set (group_members regs indices ! g)"
  shows "p \<in> set (group_members regs indices ! g) \<longleftrightarrow> p \<in> set indices \<and> priority regs p = priority regs c"
proof
  assume "p \<in> set indices \<and> priority regs p = priority regs c"
  then obtain h where h: "h < length (group_members regs indices)" "p \<in> set (group_members regs indices ! h)"
      "priority regs p = priority regs c"
    using member_of_group by blast
  then have "h = g"
    using groups_increase [OF sorted, of g h c p] groups_increase [OF sorted, of h g p c] g c
    by (metis less_irrefl linorder_neqE_nat)
  with h show "p \<in> set (group_members regs indices ! g)" by simp
qed (use g c group_member_in groups_same_priority in blast)

lemma previous_group_iff:
  assumes sorted: "sorted_wrt (\<lambda>i j. priority regs i \<le> priority regs j) indices"
    and g: "g < length (group_members regs indices)" and c: "c \<in> set (group_members regs indices ! g)"
  shows "(0 < g \<and> p \<in> set (group_members regs indices ! (g - 1))) \<longleftrightarrow>
    p \<in> set indices \<and> immediately_below regs indices p c"
proof
  assume p: "0 < g \<and> p \<in> set (group_members regs indices ! (g - 1))"
  have "\<not> (priority regs p < priority regs q \<and> priority regs q < priority regs c)" if q: "q \<in> set indices" for q
  proof -
    obtain h where h: "h < length (group_members regs indices)" "q \<in> set (group_members regs indices ! h)"
      using member_of_group [OF q] by blast
    consider "h < g - 1" | "h = g - 1" | "h = g" | "g < h" by linarith
    then show ?thesis
    proof cases
      case 1
      then show ?thesis using groups_increase [OF sorted 1 _ h(2), of p] p g by force
    next
      case 2
      then show ?thesis using groups_same_priority [of h regs indices q p] h p by simp
    next
      case 3
      then show ?thesis using groups_same_priority [of h regs indices q c] h c by simp
    next
      case 4
      then show ?thesis using groups_increase [OF sorted 4 h(1) c h(2)] by simp
    qed
  qed
  moreover have "priority regs p < priority regs c"
    using groups_increase [OF sorted, of "g - 1" g p c] p g c by simp
  moreover have "p \<in> set indices" using group_member_in [of "g - 1" regs indices p] p g by simp
  ultimately show "p \<in> set indices \<and> immediately_below regs indices p c" by blast
next
  assume p: "p \<in> set indices \<and> immediately_below regs indices p c"
  then obtain h where h: "h < length (group_members regs indices)" "p \<in> set (group_members regs indices ! h)"
    using member_of_group by blast
  have hg: "h < g"
    using groups_increase [OF sorted, of g h c p] groups_same_priority [of g regs indices c p] g c h p
    by (metis less_asym less_irrefl linorder_neqE_nat)
  have "h = g - 1"
  proof (rule ccontr)
    assume "h \<noteq> g - 1"
    with hg have between: "h < g - 1" by simp
    have ne: "group_members regs indices ! (g - 1) \<noteq> []" using g by (intro groups_nonempty) simp
    then obtain q where q: "q \<in> set (group_members regs indices ! (g - 1))" by (meson hd_in_set)
    have "priority regs p < priority regs q" using groups_increase [OF sorted between _ h(2) q] g by simp
    moreover have "priority regs q < priority regs c"
      using groups_increase [OF sorted, of "g - 1" g q c] hg g q c by simp
    moreover have "q \<in> set indices" using group_member_in [OF _ q] g by simp
    ultimately show False using p by blast
  qed
  with hg h show "0 < g \<and> p \<in> set (group_members regs indices ! (g - 1))" by simp
qed

lemma first_group_iff:
  assumes sorted: "sorted_wrt (\<lambda>i j. priority regs i \<le> priority regs j) indices"
    and g: "g < length (group_members regs indices)" and c: "c \<in> set (group_members regs indices ! g)"
  shows "g = 0 \<longleftrightarrow> (\<forall>q \<in> set indices. priority regs c \<le> priority regs q)"
proof
  assume "g = 0"
  show "\<forall>q \<in> set indices. priority regs c \<le> priority regs q"
  proof
    fix q assume "q \<in> set indices"
    then obtain h where h: "h < length (group_members regs indices)" "q \<in> set (group_members regs indices ! h)"
      using member_of_group by blast
    show "priority regs c \<le> priority regs q"
    proof (cases "h = 0")
      case True
      then show ?thesis using groups_same_priority [of h regs indices c q] h c \<open>g = 0\<close> by simp
    next
      case False
      then show ?thesis using groups_increase [OF sorted, of g h c q] h c \<open>g = 0\<close> by simp
    qed
  qed
next
  assume least: "\<forall>q \<in> set indices. priority regs c \<le> priority regs q"
  show "g = 0"
  proof (rule ccontr)
    assume "g \<noteq> 0"
    moreover obtain q where q: "q \<in> set (group_members regs indices ! 0)"
      using groups_nonempty [of 0 regs indices] g by (metis bot_nat_0.not_eq_extremum hd_in_set le_less_trans zero_le)
    ultimately have "priority regs q < priority regs c" using groups_increase [OF sorted, of 0 g q c] g c by simp
    moreover have "q \<in> set indices" using group_member_in [OF _ q] g by fastforce
    ultimately show False using least by force
  qed
qed

lemma concat_single:
  assumes "g < length xs" and "\<And>h. h < length xs \<Longrightarrow> h \<noteq> g \<Longrightarrow> f (xs ! h) = []"
  shows "concat (map f xs) = f (xs ! g)"
  using assms
proof (induction xs arbitrary: g)
  case Nil
  then show ?case by simp
next
  case (Cons x xs)
  show ?case
  proof (cases g)
    case 0
    then have "f y = []" if "y \<in> set xs" for y
      using that Cons.prems(2) [of "Suc k" for k] by (auto simp: in_set_conv_nth)
    with 0 show ?thesis by simp
  next
    case (Suc g')
    with Cons show ?thesis using Cons.prems(2) [of 0] by (fastforce dest: Cons.prems(2) [of "Suc k" for k])
  qed
qed

lemma group_is_filter:
  assumes sorted: "sorted_wrt (\<lambda>i j. priority regs i \<le> priority regs j) indices"
    and g: "g < length (group_members regs indices)" and c: "c \<in> set (group_members regs indices ! g)"
  shows "group_members regs indices ! g = filter (\<lambda>i. priority regs i = priority regs c) indices"
proof -
  let ?P = "\<lambda>i. priority regs i = priority regs c"
  have "filter ?P indices = concat (map (filter ?P) (group_members regs indices))"
    by (metis concat_group_members filter_concat)
  also have "\<dots> = filter ?P (group_members regs indices ! g)"
  proof (rule concat_single [OF g])
    fix h assume h: "h < length (group_members regs indices)" "h \<noteq> g"
    then have "\<not> ?P x" if "x \<in> set (group_members regs indices ! h)" for x
      using that groups_increase [OF sorted, of g h c x] groups_increase [OF sorted, of h g x c] g c
      by (metis less_irrefl linorder_neqE_nat)
    then show "filter ?P (group_members regs indices ! h) = []" by (simp add: filter_empty_conv)
  qed
  also have "\<dots> = group_members regs indices ! g"
    using groups_same_priority [OF g _ c] by (simp add: filter_id_conv)
  finally show ?thesis by simp
qed

lemma group_edges_mem:
  "e \<in> set (group_edges regs base prev grp) \<longleftrightarrow> (\<exists>c \<in> set grp.
     (\<exists>p \<in> set grp. c \<noteq> p \<and> e = chain_edge regs base c (Registration p) (Some p))
     \<or> (case prev of None \<Rightarrow> e = chain_edge regs base c Base None
        | Some ps \<Rightarrow> \<exists>p \<in> set ps. e = chain_edge regs base c (Registration p) (Some p)))"
  by (cases prev) (auto simp: group_edges_def split: if_splits)

text \<open>Below the class limit the graph is built from the groups.\<close>

lemma build_base_chain_groups:
  fixes regs :: "'e registration list"
  assumes "length indices < 64"
  defines "ord \<equiv> sort_by (\<lambda>i j. priority regs i \<le> priority regs j) indices"
  shows "build_base_chain base indices regs =
    \<lparr>edges = concat (map (\<lambda>g. group_edges regs base
        (if g = 0 then None else Some (group_members regs ord ! (g - 1))) (group_members regs ord ! g))
        [0..<length (group_members regs ord)]),
     issues = concat (map (group_issue regs base) (group_members regs ord))\<rparr>"
proof -
  let ?groups = "priority_groups regs ord"
  have len: "length ord = length indices" by (simp add: ord_def)
  have "find (\<lambda>g. candidate_count ?groups g > MAX_CANDIDATES_PER_REGISTRATION) [0..<length ?groups] = None"
    using candidate_count_bound [of _ regs ord] assms(1) len
    by (fastforce simp: find_None_iff MAX_CANDIDATES_PER_REGISTRATION_def)
  moreover have "\<not> saturating_add (length ord) 1 > MAX_CHAIN_CLASSES"
    using assms(1) len by (simp add: saturating_add_def MAX_CHAIN_CLASSES_def)
  moreover have "slice (fst (?groups ! g)) (snd (?groups ! g)) ord = group_members regs ord ! g"
    if "g < length ?groups" for g
    using that by (simp add: group_members_def split_beta)
  moreover from this have "map (\<lambda>g. group_issue regs base (slice (fst (?groups ! g)) (snd (?groups ! g)) ord)) [0..<length ?groups]
      = map (group_issue regs base) (group_members regs ord)"
    by (intro nth_equalityI) (auto simp: group_members_def)
  moreover have "length ?groups = length (group_members regs ord)" by (simp add: group_members_def)
  ultimately show ?thesis
    unfolding build_base_chain_def Let_def ord_def [symmetric]
    by (auto intro!: arg_cong [where f = concat] map_cong)
qed

lemma group_edges_exact:
  assumes sorted: "sorted_wrt (\<lambda>i j. priority regs i \<le> priority regs j) indices"
    and g: "g < length (group_members regs indices)"
  shows "e \<in> set (group_edges regs base (if g = 0 then None else Some ((group_members regs indices) ! (g - 1))) ((group_members regs indices) ! g)) \<longleftrightarrow>
      (\<exists>c \<in> set ((group_members regs indices) ! g). (\<exists>p \<in> set indices. c \<noteq> p \<and> e = chain_edge regs base c (Registration p) (Some p)
          \<and> (priority regs p = priority regs c \<or> immediately_below regs indices p c))
        \<or> (e = chain_edge regs base c Base None \<and> (\<forall>q \<in> set indices. priority regs c \<le> priority regs q)))"
  proof -
    have same: "p \<in> set ((group_members regs indices) ! g) \<longleftrightarrow> p \<in> set indices \<and> priority regs p = priority regs c"
      and prev: "(0 < g \<and> p \<in> set ((group_members regs indices) ! (g - 1))) \<longleftrightarrow> p \<in> set indices \<and> immediately_below regs indices p c"
      and first: "g = 0 \<longleftrightarrow> (\<forall>q \<in> set indices. priority regs c \<le> priority regs q)"
      if "c \<in> set ((group_members regs indices) ! g)" for c p
      using same_group_iff [OF sorted g that] previous_group_iff [OF sorted g that] first_group_iff [OF sorted g that]
      by simp_all
    show ?thesis unfolding group_edges_mem
    proof (rule bex_cong [OF refl])
      fix c assume c: "c \<in> set ((group_members regs indices) ! g)"
      show "((\<exists>p \<in> set ((group_members regs indices) ! g). c \<noteq> p \<and> e = chain_edge regs base c (Registration p) (Some p))
          \<or> (case if g = 0 then None else Some ((group_members regs indices) ! (g - 1)) of None \<Rightarrow> e = chain_edge regs base c Base None
             | Some ps \<Rightarrow> \<exists>p \<in> set ps. e = chain_edge regs base c (Registration p) (Some p)))
        \<longleftrightarrow> ((\<exists>p \<in> set indices. c \<noteq> p \<and> e = chain_edge regs base c (Registration p) (Some p)
            \<and> (priority regs p = priority regs c \<or> immediately_below regs indices p c))
          \<or> (e = chain_edge regs base c Base None \<and> (\<forall>q \<in> set indices. priority regs c \<le> priority regs q)))"
      proof (cases "g = 0")
        case True
        with same [OF c] prev [OF c] first [OF c] show ?thesis by auto
      next
        case False
        have "p \<in> set ((group_members regs indices) ! (g - 1)) \<longleftrightarrow> p \<in> set indices \<and> immediately_below regs indices p c" for p
          using prev [OF c, of p] False by simp
        then have "(\<exists>p \<in> set ((group_members regs indices) ! (g - 1)). e = chain_edge regs base c (Registration p) (Some p)) \<longleftrightarrow>
            (\<exists>p \<in> set indices. c \<noteq> p \<and> e = chain_edge regs base c (Registration p) (Some p)
               \<and> immediately_below regs indices p c)"
          by (metis less_irrefl)
        moreover have "(\<exists>p \<in> set ((group_members regs indices) ! g). c \<noteq> p \<and> e = chain_edge regs base c (Registration p) (Some p)) \<longleftrightarrow>
            (\<exists>p \<in> set indices. c \<noteq> p \<and> e = chain_edge regs base c (Registration p) (Some p)
               \<and> priority regs p = priority regs c)"
          using same [OF c] by metis
        moreover have "\<not> (\<forall>q \<in> set indices. priority regs c \<le> priority regs q)" using False first [OF c] by simp
        ultimately show ?thesis using False by (simp only: if_False option.case) blast
      qed
    qed
  qed

lemma chain_edges_set:
  assumes "length indices < 64"
  shows "set (edges (build_base_chain base indices regs)) =
      {chain_edge regs base c (Registration p) (Some p) | c p. c \<in> set indices \<and> p \<in> set indices \<and> c \<noteq> p
         \<and> (priority regs p = priority regs c \<or> immediately_below regs indices p c)}
    \<union> {chain_edge regs base c Base None | c. c \<in> set indices \<and> (\<forall>q \<in> set indices. priority regs c \<le> priority regs q)}"
    (is "_ = ?R \<union> ?B")
proof -
  define ord where "ord = sort_by (\<lambda>i j. priority regs i \<le> priority regs j) indices"
  let ?gs = "group_members regs ord"
  have sorted: "sorted_wrt (\<lambda>i j. priority regs i \<le> priority regs j) ord"
    unfolding ord_def by (rule by_priority.sorted_sort_by)
  have set_ord: "set ord = set indices" by (simp add: ord_def)
  note one = group_edges_exact [OF sorted, unfolded set_ord]
  have mem: "c \<in> set indices \<longleftrightarrow> (\<exists>g < length ?gs. c \<in> set (?gs ! g))" for c
    using member_of_group group_member_in set_ord by metis
  have "e \<in> set (edges (build_base_chain base indices regs)) \<longleftrightarrow> e \<in> ?R \<union> ?B" for e
  proof -
    have "e \<in> set (edges (build_base_chain base indices regs)) \<longleftrightarrow>
        (\<exists>g < length ?gs. e \<in> set (group_edges regs base (if g = 0 then None else Some (?gs ! (g - 1))) (?gs ! g)))"
      unfolding build_base_chain_groups [OF assms, of base regs] ord_def [symmetric] by (simp add: Bex_def)
    also have "\<dots> \<longleftrightarrow> (\<exists>g < length ?gs. \<exists>c \<in> set (?gs ! g).
        (\<exists>p \<in> set indices. c \<noteq> p \<and> e = chain_edge regs base c (Registration p) (Some p)
          \<and> (priority regs p = priority regs c \<or> immediately_below regs indices p c))
        \<or> (e = chain_edge regs base c Base None \<and> (\<forall>q \<in> set indices. priority regs c \<le> priority regs q)))"
      using one [of _ e] by (intro ex_cong1 conj_cong refl) simp
    also have "\<dots> \<longleftrightarrow> (\<exists>c \<in> set indices.
        (\<exists>p \<in> set indices. c \<noteq> p \<and> e = chain_edge regs base c (Registration p) (Some p)
          \<and> (priority regs p = priority regs c \<or> immediately_below regs indices p c))
        \<or> (e = chain_edge regs base c Base None \<and> (\<forall>q \<in> set indices. priority regs c \<le> priority regs q)))"
      unfolding Bex_def mem by blast
    finally show ?thesis by blast
  qed
  then show ?thesis by blast
qed

text \<open>No edge is listed twice when the registrations are distinct, and the ties are listed once each, by ascending priority.\<close>

lemma distinct_concat_map:
  "distinct xs \<Longrightarrow> (\<And>x. x \<in> set xs \<Longrightarrow> distinct (f x)) \<Longrightarrow>
   (\<And>x y. x \<in> set xs \<Longrightarrow> y \<in> set xs \<Longrightarrow> x \<noteq> y \<Longrightarrow> set (f x) \<inter> set (f y) = {}) \<Longrightarrow> distinct (concat (map f xs))"
proof (induction xs)
  case (Cons x xs)
  have "set (f x) \<inter> set (f y) = {}" if "y \<in> set xs" for y
    using Cons.prems(1,3) that by (metis distinct.simps(2) list.set_intros)
  then have "set (f x) \<inter> set (concat (map f xs)) = {}" by auto
  moreover have "distinct (concat (map f xs))" by (rule Cons.IH) (use Cons.prems in auto)
  ultimately show ?case using Cons.prems(2) by simp
qed simp

lemma chain_edge_inject:
  "chain_edge regs base c p i = chain_edge regs base c' p' i' \<Longrightarrow> c = c' \<and> p = p'"
  by (simp add: chain_edge_def)

lemma group_edges_distinct:
  assumes "distinct grp" "\<And>ps. prev = Some ps \<Longrightarrow> distinct ps \<and> set ps \<inter> set grp = {}"
  shows "distinct (group_edges regs base prev grp)"
  unfolding group_edges_def
proof (rule distinct_concat_map [OF assms(1)])
  fix c
  have "distinct (concat (map (\<lambda>p. if c \<noteq> p then [chain_edge regs base c (Registration p) (Some p)] else []) grp))"
    by (rule distinct_concat_map [OF assms(1)]) (auto dest: chain_edge_inject split: if_splits)
  moreover have "distinct (map (\<lambda>p. chain_edge regs base c (Registration p) (Some p)) ps)" if "prev = Some ps" for ps
    using assms(2) [OF that] by (auto simp: distinct_map inj_on_def dest: chain_edge_inject)
  ultimately show "distinct (concat (map (\<lambda>peer. if c \<noteq> peer then [chain_edge regs base c (Registration peer) (Some peer)] else []) grp)
      @ (case prev of Some previous \<Rightarrow> map (\<lambda>p. chain_edge regs base c (Registration p) (Some p)) previous
         | None \<Rightarrow> [chain_edge regs base c Base None]))"
    using assms(2) by (fastforce dest: chain_edge_inject split: option.splits if_splits)
qed (auto dest: chain_edge_inject split: option.splits if_splits)

lemma group_edges_child: "e \<in> set (group_edges regs base prev grp) \<Longrightarrow> edge_child e \<in> set grp"
  by (auto simp: group_edges_mem chain_edge_def split: option.splits)

lemma chain_edges_distinct:
  assumes "length indices < 64" "distinct indices"
  shows "distinct (edges (build_base_chain base indices regs))"
proof -
  define ord where "ord = sort_by (\<lambda>i j. priority regs i \<le> priority regs j) indices"
  let ?gs = "group_members regs ord"
  have sorted: "sorted_wrt (\<lambda>i j. priority regs i \<le> priority regs j) ord"
    unfolding ord_def by (rule by_priority.sorted_sort_by)
  have "distinct ord" using assms(2) by (simp add: ord_def)
  then have each: "distinct (?gs ! g)" if "g < length ?gs" for g
    using that concat_group_members [of regs ord] by (metis distinct_concat_iff nth_mem)
  have apart: "set (?gs ! g) \<inter> set (?gs ! h) = {}" if "g < length ?gs" "h < length ?gs" "g \<noteq> h" for g h
    using groups_increase [OF sorted, of g h] groups_increase [OF sorted, of h g] that
    by (metis (no_types) disjoint_iff less_irrefl linorder_neqE_nat)
  have "distinct (concat (map (\<lambda>g. group_edges regs base (if g = 0 then None else Some (?gs ! (g - 1))) (?gs ! g)) [0..<length ?gs]))"
  proof (rule distinct_concat_map)
    fix g assume "g \<in> set [0..<length ?gs]"
    then have g: "g < length ?gs" by simp
    show "distinct (group_edges regs base (if g = 0 then None else Some (?gs ! (g - 1))) (?gs ! g))"
      using each [OF g] each [of "g - 1"] apart [of "g - 1" g] g by (intro group_edges_distinct) (auto split: if_splits)
  next
    fix g h assume "g \<in> set [0..<length ?gs]" "h \<in> set [0..<length ?gs]" "g \<noteq> h"
    with apart [of g h] show "set (group_edges regs base (if g = 0 then None else Some (?gs ! (g - 1))) (?gs ! g))
        \<inter> set (group_edges regs base (if h = 0 then None else Some (?gs ! (h - 1))) (?gs ! h)) = {}"
      by (auto dest!: group_edges_child)
  qed simp
  then show ?thesis unfolding build_base_chain_groups [OF assms(1), of base regs] ord_def [symmetric] by simp
qed

lemma concat_map_filter: "concat (map (\<lambda>x. map f (filter P [g x])) xs) = map f (filter P (map g xs))"
  by (induction xs) simp_all

lemma chain_issues_list:
  assumes "length indices < 64"
  shows "issues (build_base_chain base indices regs) =
    map (\<lambda>n. PriorityTie base n (filter (\<lambda>i. priority regs i = n) indices))
      (filter (\<lambda>n. length (filter (\<lambda>i. priority regs i = n) indices) > 1) (sorted_list_of_set (priority regs ` set indices)))"
proof -
  define ord where "ord = sort_by (\<lambda>i j. priority regs i \<le> priority regs j) indices"
  let ?gs = "group_members regs ord" and ?prio = "\<lambda>grp. priority regs (hd grp)"
  have sorted: "sorted_wrt (\<lambda>i j. priority regs i \<le> priority regs j) ord"
    unfolding ord_def by (rule by_priority.sorted_sort_by)
  have stable: "filter (\<lambda>i. priority regs i = priority regs c) ord = filter (\<lambda>i. priority regs i = priority regs c) indices" for c
  proof -
    have "(\<lambda>i. priority regs i = priority regs c)
        = (\<lambda>i. priority regs c \<le> priority regs i \<and> priority regs i \<le> priority regs c)" by auto
    then show ?thesis unfolding ord_def by (simp only: by_priority.stable_sort_by)
  qed
  have grp: "filter (\<lambda>i. priority regs i = ?prio (?gs ! g)) indices = ?gs ! g" if "g < length ?gs" for g
    using group_is_filter [OF sorted that, of "hd (?gs ! g)"] groups_nonempty [OF that] stable by simp
  have "?prio (?gs ! i) < ?prio (?gs ! j)" if "i < j" "j < length ?gs" for i j
    by (rule groups_increase [OF sorted that]) (use that in \<open>auto intro!: hd_in_set groups_nonempty\<close>)
  then have "sorted_wrt (<) (map ?prio ?gs)" by (simp add: sorted_wrt_iff_nth_less)
  moreover have "set (map ?prio ?gs) = priority regs ` set indices"
  proof (intro set_eqI iffI)
    fix n assume "n \<in> set (map ?prio ?gs)"
    then obtain g where "g < length ?gs" "n = ?prio (?gs ! g)" by (auto simp: in_set_conv_nth)
    then show "n \<in> priority regs ` set indices"
      using group_member_in [of g regs ord "hd (?gs ! g)"] groups_nonempty [of g regs ord] by (simp add: ord_def)
  next
    fix n assume "n \<in> priority regs ` set indices"
    then obtain c g where "c \<in> set ord" "n = priority regs c" "g < length ?gs" "c \<in> set (?gs ! g)"
      using member_of_group [of _ ord regs] by (auto simp: ord_def) blast
    moreover from this have "?prio (?gs ! g) = n"
      using groups_same_priority [of g regs ord "hd (?gs ! g)" c] groups_nonempty [of g regs ord] by simp
    ultimately show "n \<in> set (map ?prio ?gs)" by (metis (no_types, lifting) image_eqI list.set_map nth_mem)
  qed
  ultimately have prios: "sorted_list_of_set (priority regs ` set indices) = map ?prio ?gs"
    by (metis sorted_list_of_set.idem_if_sorted_distinct strict_sorted_iff)
  have issue: "group_issue regs base (?gs ! g) = map (\<lambda>n. PriorityTie base n (filter (\<lambda>i. priority regs i = n) indices))
      (filter (\<lambda>n. length (filter (\<lambda>i. priority regs i = n) indices) > 1) [?prio (?gs ! g)])" if "g < length ?gs" for g
    using grp [OF that] by (simp add: group_issue_def)
  have "concat (map (group_issue regs base) ?gs) = concat (map (\<lambda>grp. map (\<lambda>n. PriorityTie base n (filter (\<lambda>i. priority regs i = n) indices))
      (filter (\<lambda>n. length (filter (\<lambda>i. priority regs i = n) indices) > 1) [?prio grp])) ?gs)"
    by (rule arg_cong [of _ _ concat], rule map_cong [OF refl]) (use issue in \<open>auto simp: in_set_conv_nth\<close>)
  also have "\<dots> = map (\<lambda>n. PriorityTie base n (filter (\<lambda>i. priority regs i = n) indices))
      (filter (\<lambda>n. length (filter (\<lambda>i. priority regs i = n) indices) > 1) (map ?prio ?gs))"
    by (rule concat_map_filter)
  finally show ?thesis unfolding build_base_chain_groups [OF assms, of base regs] ord_def [symmetric] prios by simp
qed

text \<open>C38. For a base with fewer than 64 registrations the graph is complete and exact: a registration
  gets as candidate predecessors its peers of equal priority and every registration of the next lower
  priority, or the base class when it has the least priority, each with the evidence of both
  declarations, and no edge is listed twice when the registrations are distinct; the issues are one tie
  for each priority shared by several registrations, with its members in input order, by ascending
  priority, and the per-registration candidate limit never applies.  With 64 or more registrations there
  are no edges and one issue says so.\<close>

theorem chain_graph_exact:
  assumes "list_all (\<lambda>i. i < length regs) indices"
  shows "if length indices < 64 then
      set (edges (build_chain_for_base base indices regs)) =
        {chain_edge regs base c (Registration p) (Some p) | c p. c \<in> set indices \<and> p \<in> set indices \<and> c \<noteq> p
           \<and> (priority regs p = priority regs c \<or> immediately_below regs indices p c)}
        \<union> {chain_edge regs base c Base None | c. c \<in> set indices
             \<and> (\<forall>q \<in> set indices. priority regs c \<le> priority regs q)}
      \<and> (distinct indices \<longrightarrow> distinct (edges (build_chain_for_base base indices regs)))
      \<and> issues (build_chain_for_base base indices regs) =
        map (\<lambda>n. PriorityTie base n (filter (\<lambda>i. priority regs i = n) indices))
          (filter (\<lambda>n. length (filter (\<lambda>i. priority regs i = n) indices) > 1)
             (sorted_list_of_set (priority regs ` set indices)))
    else build_chain_for_base base indices regs =
      \<lparr>edges = [], issues = [ClassLimitExceeded base (saturating_add (length indices) 1) 64]\<rparr>"
proof (cases "length indices < 64")
  case True
  then show ?thesis
    unfolding build_chain_for_base_def if_P [OF True]
    by (intro conjI impI chain_edges_set [OF True] chain_edges_distinct [OF True] chain_issues_list [OF True])
next
  case False
  then have "saturating_add (length indices) 1 > MAX_CHAIN_CLASSES"
    by (simp add: saturating_add_def MAX_CHAIN_CLASSES_def usize_max_def)
  with False show ?thesis
    by (simp add: build_chain_for_base_def build_base_chain_def MAX_CHAIN_CLASSES_def)
qed

definition tied :: "unit registration list" where
  "tied = [\<lparr>reg_id = ''a'', reg_base = ''B'', implementation = ''A'', numeric_priority = 5, evidence = ()\<rparr>,
      \<lparr>reg_id = ''c'', reg_base = ''B'', implementation = ''C'', numeric_priority = 5, evidence = ()\<rparr>]"

theorem chain_graph_exact_witness:
  "issues (build_chain_for_base ''B'' [0, 1] tied) = [PriorityTie ''B'' 5 [0, 1]]
   \<and> distinct (edges (build_chain_for_base ''B'' [0, 1] tied))"
proof -
  have "list_all (\<lambda>i. i < length tied) [0, 1]" by (simp add: tied_def)
  moreover have "priority tied 0 = 5" "priority tied (Suc 0) = 5" by (simp_all add: tied_def)
  ultimately show ?thesis using chain_graph_exact [of tied "[0, 1]" "''B''"] by simp
qed

section \<open>The derived-fact budget\<close>

definition MAX_DERIVED_ITEMS :: nat where "MAX_DERIVED_ITEMS = 200000"

record derived_budget =
  budget_used :: nat

definition DerivedBudget_new :: derived_budget where
  "DerivedBudget_new = \<lparr>budget_used = 0\<rparr>"

definition budget_charge :: "nat \<Rightarrow> derived_budget \<Rightarrow> unit result \<times> derived_budget" where
  "budget_charge n b =
     (let b' = b\<lparr>budget_used := saturating_add (budget_used b) n\<rparr>
      in (if budget_used b' \<le> MAX_DERIVED_ITEMS then Inr ()
          else Inl ''derived inheritance fact limit exceeded'', b'))"

fun charge_all :: "nat list \<Rightarrow> derived_budget \<Rightarrow> unit result list" where
  "charge_all [] b = []"
| "charge_all (n # ns) b = (let (r, b') = budget_charge n b in r # charge_all ns b')"

lemma charge_all_nth:
  "i < length ns \<Longrightarrow> (charge_all ns b ! i = Inr ()) \<longleftrightarrow>
     budget_used b + sum_list (take (Suc i) ns) \<le> MAX_DERIVED_ITEMS"
proof (induction ns arbitrary: b i)
  case Nil
  then show ?case by simp
next
  case (Cons n ns)
  have bound: "MAX_DERIVED_ITEMS < usize_max" by (simp add: MAX_DERIVED_ITEMS_def usize_max_def)
  show ?case
  proof (cases i)
    case 0
    with bound show ?thesis by (auto simp: budget_charge_def saturating_add_def Let_def)
  next
    case (Suc j)
    have "charge_all (n # ns) b ! i = charge_all ns (b\<lparr>budget_used := saturating_add (budget_used b) n\<rparr>) ! j"
      using Suc by (simp add: budget_charge_def Let_def)
    also have "(\<dots> = Inr ()) \<longleftrightarrow> saturating_add (budget_used b) n + sum_list (take (Suc j) ns) \<le> MAX_DERIVED_ITEMS"
      using Cons Suc by simp
    also have "\<dots> \<longleftrightarrow> budget_used b + sum_list (take (Suc i) (n # ns)) \<le> MAX_DERIVED_ITEMS"
      using bound Suc by (auto simp: saturating_add_def MAX_DERIVED_ITEMS_def usize_max_def)
    finally show ?thesis .
  qed
qed

text \<open>A sequence of charges succeeds exactly while the total charged so far is at most 200000: an
  overflow of the counter never lets a charge through, and once exceeded the budget stays exceeded.\<close>

theorem derived_budget_exact:
  "i < length counts \<Longrightarrow>
   charge_all counts DerivedBudget_new ! i = Inr () \<longleftrightarrow> sum_list (take (Suc i) counts) \<le> 200000"
  using charge_all_nth [of i counts DerivedBudget_new] by (simp add: DerivedBudget_new_def MAX_DERIVED_ITEMS_def)

theorem derived_budget_exact_witness:
  "charge_all [150000, 50000, 1] DerivedBudget_new ! 1 = Inr ()
   \<and> charge_all [150000, 50000, 1] DerivedBudget_new ! 2 \<noteq> Inr ()"
  using derived_budget_exact [of 1 "[150000, 50000, 1]"] derived_budget_exact [of 2 "[150000, 50000, 1]"] by simp

end
