(* ===== verification/TP_Regions.thy ===== *)
theory TP_Regions
  imports TP_Interfaces
begin

text \<open>
  \<open>src/store/regions.rs\<close>: how an indexed source is cut into search regions of at most 4096 bytes that
  follow its declarations.  Of a definition only its byte span matters here.  The unstable sorts of the
  source order by keys that differ between the elements compared, so a stable sort gives the same list.
\<close>

section \<open>Spans\<close>

definition REGION_BYTES :: nat where "REGION_BYTES = 4096"

record region_span =
  rs_start :: nat
  rs_end :: nat
  rs_definition :: "nat option"

record definition_span =
  ds_definition :: nat
  ds_start :: nat
  ds_end :: nat

datatype definition_node = DefinitionNode (node_span: definition_span) (node_children: "definition_node list")

definition is_utf8_boundary :: "bytes \<Rightarrow> nat \<Rightarrow> bool" where
  "is_utf8_boundary source offset \<longleftrightarrow> offset = 0 \<or> offset = length source
     \<or> byte (source ! offset) div 64 \<noteq> 2"

text \<open>\<open>byte & 0xc0 != 0x80\<close> compares the two upper bits, \<open>byte div 64\<close>.\<close>

definition valid_span :: "bytes \<Rightarrow> nat \<times> nat \<Rightarrow> bool" where
  "valid_span source = (\<lambda>(s, e). s < e \<and> e \<le> length source
     \<and> is_utf8_boundary source s \<and> is_utf8_boundary source e)"

definition span_key_le :: "definition_span \<Rightarrow> definition_span \<Rightarrow> bool" where
  "span_key_le a b \<longleftrightarrow> ds_start a < ds_start b \<or> ds_start a = ds_start b \<and>
     (ds_end a > ds_end b \<or> ds_end a = ds_end b \<and> ds_definition a \<le> ds_definition b)"

text \<open>\<open>Vec::dedup_by_key\<close>: drops an element whose key equals that of the last one kept.\<close>

fun dedup_by :: "('a \<Rightarrow> 'k) \<Rightarrow> 'a list \<Rightarrow> 'a list" where
  "dedup_by key [] = []"
| "dedup_by key [x] = [x]"
| "dedup_by key (x # y # xs) =
     (if key x = key y then dedup_by key (x # xs) else x # dedup_by key (y # xs))"

text \<open>A definition is given by the start and end of its span.\<close>

definition valid_definition_spans :: "bytes \<Rightarrow> (nat \<times> nat) list \<Rightarrow> definition_span list" where
  "valid_definition_spans source definitions =
     dedup_by (\<lambda>span. (ds_start span, ds_end span))
       (sort_by span_key_le
         (map (\<lambda>(i, s, e). \<lparr>ds_definition = i, ds_start = s, ds_end = e\<rparr>)
           (filter (\<lambda>(_, span). valid_span source span) (enumerate 0 definitions))))"

section \<open>The declaration forest\<close>

text \<open>The stack is kept with its top first.\<close>

definition attach_definition_node ::
    "definition_node \<Rightarrow> definition_node list \<times> definition_node list \<Rightarrow> definition_node list \<times> definition_node list" where
  "attach_definition_node node = (\<lambda>(roots, stack).
     case stack of
       DefinitionNode span children # rest \<Rightarrow> (roots, DefinitionNode span (children @ [node]) # rest)
     | [] \<Rightarrow> (roots @ [node], []))"

lemma attach_stack_length [simp]: "length (snd (attach_definition_node node (roots, stack))) = length stack"
  by (cases stack) (auto simp: attach_definition_node_def split: definition_node.splits)

function pop_closed :: "nat \<Rightarrow> definition_node list \<times> definition_node list \<Rightarrow>
    definition_node list \<times> definition_node list" where
  "pop_closed start (roots, []) = (roots, [])"
| "pop_closed start (roots, node # stack) =
     (if start \<ge> ds_end (node_span node)
      then pop_closed start (attach_definition_node node (roots, stack))
      else (roots, node # stack))"
  by pat_completeness auto
termination
proof (relation "measure (\<lambda>(_, _, stack). length stack)")
  fix start roots node stack
  show "((start, attach_definition_node node (roots, stack)), start, roots, node # stack)
      \<in> measure (\<lambda>(_, _, stack). length stack)"
    using attach_stack_length [of node roots stack] by (simp add: split_beta del: attach_stack_length)
qed simp

fun forest_step :: "definition_span \<Rightarrow> definition_node list \<times> definition_node list \<Rightarrow>
    definition_node list \<times> definition_node list" where
  "forest_step span (roots, stack) =
     (case pop_closed (ds_start span) (roots, stack) of
        (roots', []) \<Rightarrow> (roots', [DefinitionNode span []])
      | (roots', node # rest) \<Rightarrow>
          if ds_end span > ds_end (node_span node) then (roots', node # rest)
          else (roots', DefinitionNode span [] # node # rest))"

function close_stack :: "definition_node list \<times> definition_node list \<Rightarrow> definition_node list" where
  "close_stack (roots, []) = roots"
| "close_stack (roots, node # stack) = close_stack (attach_definition_node node (roots, stack))"
  by pat_completeness auto
termination
proof (relation "measure (\<lambda>(_, stack). length stack)")
  fix roots node stack
  show "(attach_definition_node node (roots, stack), roots, node # stack) \<in> measure (\<lambda>(_, stack). length stack)"
    using attach_stack_length [of node roots stack] by (simp add: split_beta del: attach_stack_length)
qed simp

definition definition_forest :: "definition_span list \<Rightarrow> definition_node list" where
  "definition_forest spans = close_stack (fold forest_step spans ([], []))"

fun collect_preferred_spans :: "definition_node \<Rightarrow> region_span list" where
  "collect_preferred_spans (DefinitionNode span children) =
     (if ds_end span - ds_start span \<le> REGION_BYTES
      then [\<lparr>rs_start = ds_start span, rs_end = ds_end span, rs_definition = Some (ds_definition span)\<rparr>]
      else concat (map collect_preferred_spans children))"

section \<open>Cutting\<close>

definition containing_definition :: "nat \<Rightarrow> nat \<Rightarrow> definition_span list \<Rightarrow> nat option" where
  "containing_definition start stop spans =
     (case filter (\<lambda>span. ds_start span \<le> start \<and> stop \<le> ds_end span) spans of
        [] \<Rightarrow> None
      | c # cs \<Rightarrow> Some (ds_definition (fold (\<lambda>span best.
          if ds_end span - ds_start span < ds_end best - ds_start best
             \<or> ds_end span - ds_start span = ds_end best - ds_start best \<and> ds_definition span < ds_definition best
          then span else best) cs c)))"

fun back_to_boundary :: "bytes \<Rightarrow> nat \<Rightarrow> nat \<Rightarrow> nat" where
  "back_to_boundary source start 0 = 0"
| "back_to_boundary source start (Suc candidate) =
     (if Suc candidate > start \<and> \<not> is_utf8_boundary source (Suc candidate)
      then back_to_boundary source start candidate else Suc candidate)"

definition split_boundary :: "bytes \<Rightarrow> nat \<Rightarrow> nat \<Rightarrow> nat" where
  "split_boundary source start limit =
     (let newline = map_option (\<lambda>offset. start + offset + 1)
            (rposition_of (\<lambda>b. b = LF) (slice start limit source));
          boundary = (case newline of Some n \<Rightarrow> n | None \<Rightarrow> limit)
      in if boundary = length source \<or> is_utf8_boundary source boundary then boundary
         else back_to_boundary source start boundary)"

text \<open>The inner loop packs preferred spans; it returns the end reached and the next span.\<close>

function pack_preferred :: "bytes \<Rightarrow> region_span list \<Rightarrow> nat \<Rightarrow> nat \<Rightarrow> nat \<Rightarrow> nat \<Rightarrow> nat \<times> nat" where
  "pack_preferred source preferred cursor limit stop next =
     (if next < length preferred then
        let span = preferred ! next
        in if rs_start span < cursor then pack_preferred source preferred cursor limit stop (next + 1)
           else if rs_start span \<ge> limit then (split_boundary source stop limit, next)
           else if rs_end span > limit then (rs_start span, next)
           else if rs_end span = limit then (rs_end span, next + 1)
           else pack_preferred source preferred cursor limit (rs_end span) (next + 1)
      else (stop, next))"
  by pat_completeness auto
termination by (relation "measure (\<lambda>(_, preferred, _, _, _, next). length preferred - next)") auto

declare pack_preferred.simps [simp del]

function skip_preferred :: "region_span list \<Rightarrow> nat \<Rightarrow> nat \<Rightarrow> nat" where
  "skip_preferred preferred cursor index =
     (if index < length preferred \<and> rs_end (preferred ! index) \<le> cursor
      then skip_preferred preferred cursor (index + 1) else index)"
  by pat_completeness auto
termination by (relation "measure (\<lambda>(preferred, _, index). length preferred - index)") auto

declare skip_preferred.simps [simp del]

definition region_end :: "bytes \<Rightarrow> region_span list \<Rightarrow> nat \<Rightarrow> nat \<Rightarrow> nat" where
  "region_end source preferred cursor index =
     (let limit = min (saturating_add cursor REGION_BYTES) (length source);
          (stop, next) = pack_preferred source preferred cursor limit cursor index;
          stop' = (if stop = cursor then split_boundary source cursor limit
                   else if stop < limit \<and> next = length preferred then split_boundary source stop limit
                   else stop)
      in if stop' > length source \<or> stop' \<le> cursor
         then min (max limit (cursor + 1)) (length source) else stop')"

lemma region_end_progress: "cursor < length source \<Longrightarrow>
  cursor < region_end source preferred cursor index \<and> region_end source preferred cursor index \<le> length source"
  by (auto simp: region_end_def Let_def split: prod.splits if_splits)

function region_loop :: "bytes \<Rightarrow> definition_span list \<Rightarrow> region_span list \<Rightarrow> nat \<Rightarrow> nat \<Rightarrow> region_span list" where
  "region_loop source spans preferred cursor index =
     (if cursor < length source then
        let index' = skip_preferred preferred cursor index;
            stop = region_end source preferred cursor index'
        in \<lparr>rs_start = cursor, rs_end = stop, rs_definition = containing_definition cursor stop spans\<rparr>
           # region_loop source spans preferred stop index'
      else [])"
  by pat_completeness auto
termination
  by (relation "measure (\<lambda>(source, _, _, cursor, _). length source - cursor)")
    (auto simp: region_end_progress diff_less_mono2)

declare region_loop.simps [simp del]

definition preferred_spans :: "definition_span list \<Rightarrow> region_span list" where
  "preferred_spans spans =
     sort_by (\<lambda>a b. rs_start a < rs_start b \<or> rs_start a = rs_start b \<and> rs_end a \<le> rs_end b)
       (concat (map collect_preferred_spans (definition_forest spans)))"

definition partition_source :: "bytes \<Rightarrow> (nat \<times> nat) list \<Rightarrow> region_span list" where
  "partition_source source definitions =
     (if source = [] then []
      else let spans = valid_definition_spans source definitions
           in region_loop source spans (preferred_spans spans) 0 0)"

section \<open>Tiling\<close>

definition region_ranges :: "bytes \<times> (nat \<times> nat) list \<Rightarrow> (nat \<times> nat) list" where
  "region_ranges = (\<lambda>(source, definitions).
     map (\<lambda>r. (rs_start r, rs_end r)) (partition_source source definitions))"

lemma region_loop_tiles:
  "cursor \<le> length source \<Longrightarrow>
   tiles cursor (length source) (map (\<lambda>r. (rs_start r, rs_end r)) (region_loop source spans preferred cursor index))"
proof (induction source spans preferred cursor index rule: region_loop.induct)
  case (1 source spans preferred cursor index)
  then show ?case
    using region_end_progress [of cursor source preferred]
    by (subst region_loop.simps) (auto simp: Let_def)
qed

interpretation regions: range_cover region_ranges "\<lambda>(source, _). length source" "\<lambda>_. True"
  by unfold_locales (auto simp: region_ranges_def partition_source_def region_loop_tiles Let_def)

section \<open>Where a region may end\<close>

lemma back_to_boundary_bounds:
  "start \<le> c \<Longrightarrow> start \<le> back_to_boundary source start c \<and> back_to_boundary source start c \<le> c"
  by (induction c) (auto simp: le_Suc_eq)

lemma back_to_boundary_stops:
  "start \<le> c \<Longrightarrow> is_utf8_boundary source (back_to_boundary source start c) \<or> back_to_boundary source start c = start"
  by (induction c) (auto simp: le_Suc_eq is_utf8_boundary_def)

lemma back_to_boundary_ge:
  "start < j \<Longrightarrow> j \<le> c \<Longrightarrow> is_utf8_boundary source j \<Longrightarrow> j \<le> back_to_boundary source start c"
  by (induction c) (auto simp: le_Suc_eq)

lemma newline_bounds:
  assumes "rposition_of (\<lambda>b. b = LF) (slice start limit source) = Some k" and "limit \<le> length source"
  shows "start + k < limit" and "source ! (start + k) = LF"
proof -
  note k = rposition_of_Some [OF assms(1)]
  then show "start + k < limit" using assms(2) by (auto simp: length_slice)
  with k assms(2) show "source ! (start + k) = LF" by (auto simp: slice_nth)
qed

lemma split_boundary_bounds:
  assumes "start \<le> limit" and "limit \<le> length source"
  shows "start \<le> split_boundary source start limit \<and> split_boundary source start limit \<le> limit"
proof (cases "rposition_of (\<lambda>b. b = LF) (slice start limit source)")
  case None
  with assms show ?thesis
    using back_to_boundary_bounds [of start limit source] by (auto simp: split_boundary_def)
next
  case (Some k)
  with newline_bounds [OF Some assms(2)] show ?thesis
    using back_to_boundary_bounds [of start "start + k + 1" source] by (auto simp: split_boundary_def)
qed

lemma split_boundary_utf8:
  assumes "start \<le> limit" and "limit \<le> length source"
  shows "is_utf8_boundary source (split_boundary source start limit) \<or> split_boundary source start limit = start"
proof -
  obtain b where b: "start \<le> b" "split_boundary source start limit =
      (if b = length source \<or> is_utf8_boundary source b then b else back_to_boundary source start b)"
  proof (cases "rposition_of (\<lambda>b. b = LF) (slice start limit source)")
    case None
    with assms(1) show ?thesis by (intro that [of limit]) (simp_all add: split_boundary_def)
  next
    case (Some k)
    then show ?thesis by (intro that [of "start + k + 1"]) (simp_all add: split_boundary_def)
  qed
  have "is_utf8_boundary source (length source)" by (simp add: is_utf8_boundary_def)
  with b back_to_boundary_stops [OF b(1), of source] show ?thesis by auto
qed

text \<open>No preferred span crosses \<open>b\<close>.\<close>

definition uncut :: "region_span list \<Rightarrow> nat \<Rightarrow> bool" where
  "uncut preferred b \<longleftrightarrow> (\<forall>p \<in> set preferred. \<not> (rs_start p < b \<and> b < rs_end p))"

definition preferred_ok :: "bytes \<Rightarrow> region_span list \<Rightarrow> bool" where
  "preferred_ok source preferred \<longleftrightarrow> sorted_wrt (\<lambda>a b. rs_end a \<le> rs_start b) preferred
     \<and> (\<forall>p \<in> set preferred. valid_span source (rs_start p, rs_end p) \<and> rs_end p - rs_start p \<le> REGION_BYTES)"

lemma preferred_order:
  "preferred_ok source preferred \<Longrightarrow> i < j \<Longrightarrow> j < length preferred \<Longrightarrow>
   rs_end (preferred ! i) \<le> rs_start (preferred ! j)"
  by (auto simp: preferred_ok_def dest: sorted_wrt_nth_less)

lemma preferred_valid:
  "preferred_ok source preferred \<Longrightarrow> i < length preferred \<Longrightarrow>
   rs_start (preferred ! i) < rs_end (preferred ! i) \<and> rs_end (preferred ! i) \<le> length source
   \<and> rs_end (preferred ! i) - rs_start (preferred ! i) \<le> REGION_BYTES
   \<and> is_utf8_boundary source (rs_start (preferred ! i)) \<and> is_utf8_boundary source (rs_end (preferred ! i))"
  by (auto simp: preferred_ok_def valid_span_def)

lemma uncutI:
  assumes "preferred_ok source preferred" and "\<And>i. i < n \<Longrightarrow> i < length preferred \<Longrightarrow> rs_end (preferred ! i) \<le> b"
    and "\<And>i. n \<le> i \<Longrightarrow> i < length preferred \<Longrightarrow> b \<le> rs_start (preferred ! i)"
  shows "uncut preferred b"
  unfolding uncut_def
proof
  fix p assume "p \<in> set preferred"
  then obtain i where "i < length preferred" "p = preferred ! i" by (auto simp: in_set_conv_nth)
  with assms(2,3) [of i] show "\<not> (rs_start p < b \<and> b < rs_end p)" by (cases "i < n") force+
qed

lemma preferred_start_mono:
  "preferred_ok source preferred \<Longrightarrow> i \<le> j \<Longrightarrow> j < length preferred \<Longrightarrow>
   rs_start (preferred ! i) \<le> rs_start (preferred ! j)"
  using preferred_order [of source preferred i j] preferred_valid [of source preferred i]
  by (cases "i = j") auto

lemma uncut_between:
  assumes "preferred_ok source preferred"
    and "\<And>i. i < n \<Longrightarrow> i < length preferred \<Longrightarrow> rs_end (preferred ! i) \<le> stop"
    and "n < length preferred \<Longrightarrow> limit \<le> rs_start (preferred ! n)" and "stop \<le> b" and "b \<le> limit"
  shows "uncut preferred b"
proof (rule uncutI [OF assms(1), of n])
  fix i assume "n \<le> i" "i < length preferred"
  with assms(3,5) preferred_start_mono [OF assms(1), of n i] show "b \<le> rs_start (preferred ! i)" by simp
qed (use assms(2,4) in force)

lemma uncut_at_start:
  assumes "preferred_ok source preferred" and "n < length preferred"
  shows "uncut preferred (rs_start (preferred ! n))"
proof (rule uncutI [OF assms(1), of n])
  show "i < n \<Longrightarrow> i < length preferred \<Longrightarrow> rs_end (preferred ! i) \<le> rs_start (preferred ! n)" for i
    using preferred_order [OF assms(1) _ assms(2)] by blast
  show "n \<le> i \<Longrightarrow> i < length preferred \<Longrightarrow> rs_start (preferred ! n) \<le> rs_start (preferred ! i)" for i
    using preferred_start_mono [OF assms(1)] by blast
qed

lemma uncut_at_end:
  assumes "preferred_ok source preferred" and "n < length preferred"
  shows "uncut preferred (rs_end (preferred ! n))"
proof (rule uncutI [OF assms(1), of "Suc n"])
  show "i < Suc n \<Longrightarrow> i < length preferred \<Longrightarrow> rs_end (preferred ! i) \<le> rs_end (preferred ! n)" for i
    using preferred_order [OF assms(1), of i n] preferred_valid [OF assms] assms(2) by (cases "i = n") auto
  show "Suc n \<le> i \<Longrightarrow> i < length preferred \<Longrightarrow> rs_end (preferred ! n) \<le> rs_start (preferred ! i)" for i
    using preferred_order [OF assms(1), of n i] by simp
qed

text \<open>What the packing loop keeps: the spans already passed end by \<open>stop\<close>, which is itself a safe place.
  A result other than the cursor is a safe end; when the loop returns the cursor, the whole window is safe.
  \<open>aligned\<close> says that the cursor is known to lie on a character boundary.\<close>

definition safe_result :: "bool \<Rightarrow> bytes \<Rightarrow> region_span list \<Rightarrow> nat \<Rightarrow> nat \<Rightarrow> nat \<times> nat \<Rightarrow> bool" where
  "safe_result aligned source preferred cursor limit = (\<lambda>(r, n). cursor \<le> r \<and> r \<le> limit
    \<and> (aligned \<longrightarrow> is_utf8_boundary source r)
    \<and> (if r = cursor then \<forall>b. cursor \<le> b \<and> b \<le> limit \<longrightarrow> uncut preferred b
       else uncut preferred r \<and> (n < length preferred \<or> r = limit \<or> (\<forall>b \<ge> r. uncut preferred b))))"

lemma pack_preferred_safe:
  assumes ok: "preferred_ok source preferred" and cursor: "uncut preferred cursor"
    and limit: "limit = min (cursor + REGION_BYTES) (length source)" "cursor < limit"
  shows "cursor \<le> stop \<Longrightarrow> stop < limit \<Longrightarrow> (aligned \<Longrightarrow> is_utf8_boundary source stop) \<Longrightarrow>
    (\<And>i. i < next \<Longrightarrow> i < length preferred \<Longrightarrow> rs_end (preferred ! i) \<le> stop) \<Longrightarrow>
    safe_result aligned source preferred cursor limit (pack_preferred source preferred cursor limit stop next)"
proof (induction "length preferred - next" arbitrary: stop "next" rule: less_induct)
  case less
  let ?S = "preferred ! next" and ?pack = "pack_preferred source preferred cursor limit"
  show ?case
  proof (cases "next < length preferred")
    case False
    then have "uncut preferred b" if "stop \<le> b" for b
      using uncut_between [OF ok, of "length preferred" stop b b] less.prems(4) that by auto
    with False less.prems show ?thesis by (subst pack_preferred.simps) (auto simp: safe_result_def)
  next
    case True
    note S = preferred_valid [OF ok True]
    consider (before) "rs_start ?S < cursor" | (beyond) "limit \<le> rs_start ?S"
      | (crossing) "cursor \<le> rs_start ?S" "rs_start ?S < limit" "limit < rs_end ?S"
      | (exact) "cursor \<le> rs_start ?S" "rs_end ?S = limit"
      | (packed) "cursor \<le> rs_start ?S" "rs_end ?S < limit" by linarith
    then show ?thesis
    proof cases
      case before
      then have "rs_end ?S \<le> cursor" using cursor True by (force simp: uncut_def)
      with less.prems have "safe_result aligned source preferred cursor limit (?pack stop (next + 1))"
        using True by (intro less.hyps) (auto simp: less_Suc_eq)
      with before True show ?thesis by (subst pack_preferred.simps) simp
    next
      case beyond
      let ?r = "split_boundary source stop limit"
      have "stop \<le> ?r \<and> ?r \<le> limit" "is_utf8_boundary source ?r \<or> ?r = stop"
        using split_boundary_bounds [of stop limit source] split_boundary_utf8 [of stop limit source]
          less.prems(2) limit(1) by auto
      moreover have "uncut preferred b" if "stop \<le> b" "b \<le> limit" for b
        using uncut_between [OF ok less.prems(4) _ that] beyond by blast
      moreover have "?pack stop next = (?r, next)"
        using beyond True limit(2) by (subst pack_preferred.simps) simp
      ultimately show ?thesis using less.prems True by (auto simp: safe_result_def)
    next
      case crossing
      then have "rs_start ?S \<noteq> cursor" using S limit(1) by auto
      moreover have "?pack stop next = (rs_start ?S, next)"
        using crossing True by (subst pack_preferred.simps) simp
      ultimately show ?thesis
        using crossing True S uncut_at_start [OF ok True] by (auto simp: safe_result_def)
    next
      case exact
      moreover have "?pack stop next = (limit, next + 1)"
        using exact True S by (subst pack_preferred.simps) simp
      ultimately show ?thesis
        using S limit(2) uncut_at_end [OF ok True] by (auto simp: safe_result_def)
    next
      case packed
      have "rs_end (preferred ! i) \<le> rs_end ?S" if "i < next + 1" "i < length preferred" for i
        using preferred_order [OF ok, of i "next"] True S that by (cases "i = next") auto
      then have "safe_result aligned source preferred cursor limit (?pack (rs_end ?S) (next + 1))"
        using packed True S by (intro less.hyps) auto
      with packed True S show ?thesis by (subst pack_preferred.simps) simp
    qed
  qed
qed

section \<open>UTF-8 sources\<close>

text \<open>Every byte belongs to a sequence of a lead byte and up to three continuation bytes.\<close>

definition continuation :: "char \<Rightarrow> bool" where
  "continuation c \<longleftrightarrow> byte c div 64 = 2"

definition trailing_bytes :: "char \<Rightarrow> nat option" where
  "trailing_bytes b =
     (if byte b < 128 then Some 0 else if byte b < 192 then None else if byte b < 224 then Some 1
      else if byte b < 240 then Some 2 else if byte b < 248 then Some 3 else None)"

fun utf8_valid :: "bytes \<Rightarrow> bool" where
  "utf8_valid [] = True"
| "utf8_valid (b # bs) =
     (case trailing_bytes b of
        None \<Rightarrow> False
      | Some n \<Rightarrow> n \<le> length bs \<and> list_all continuation (take n bs) \<and> utf8_valid (drop n bs))"

lemma lead_not_continuation: "trailing_bytes b = Some n \<Longrightarrow> \<not> continuation b \<and> n < 4"
  by (auto simp: trailing_bytes_def continuation_def split: if_splits)

lemma continuation_not_ascii: "continuation c \<Longrightarrow> \<not> byte c < 128"
  by (auto simp: continuation_def)

lemma utf8_near_lead:
  "utf8_valid s \<Longrightarrow> i < length s \<Longrightarrow> \<exists>j \<le> i. i < j + 4 \<and> \<not> continuation (s ! j)"
proof (induction s arbitrary: i rule: utf8_valid.induct)
  case 1
  then show ?case by simp
next
  case (2 b bs)
  then obtain n where n: "trailing_bytes b = Some n" "utf8_valid (drop n bs)" by (auto split: option.splits)
  show ?case
  proof (cases "i \<le> n")
    case True
    with lead_not_continuation [OF n(1)] show ?thesis by (intro exI [of _ 0]) auto
  next
    case False
    then obtain k where k: "i = Suc (n + k)" using less_imp_Suc_add not_le by blast
    with 2(3) have "k < length (drop n bs)" by simp
    from "2.IH" [OF n(1,2) this] obtain j where "j \<le> k" "k < j + 4" "\<not> continuation (drop n bs ! j)" by blast
    with k show ?thesis using 2(3) by (intro exI [of _ "Suc (n + j)"]) auto
  qed
qed

lemma utf8_after_ascii:
  "utf8_valid s \<Longrightarrow> Suc i < length s \<Longrightarrow> byte (s ! i) < 128 \<Longrightarrow> \<not> continuation (s ! Suc i)"
proof (induction s arbitrary: i rule: utf8_valid.induct)
  case 1
  then show ?case by simp
next
  case (2 b bs)
  then obtain n where n: "trailing_bytes b = Some n" "n \<le> length bs" "list_all continuation (take n bs)"
      "utf8_valid (drop n bs)" by (auto split: option.splits)
  have first: "\<not> continuation (hd xs)" if "utf8_valid xs" "xs \<noteq> []" for xs
    using that lead_not_continuation by (cases xs) (auto split: option.splits)
  consider (lead) "i = 0" | (inside) "0 < i" "i \<le> n" | (later) "n < i" by linarith
  then show ?case
  proof cases
    case lead
    with 2(4) n(1) have "n = 0" by (auto simp: trailing_bytes_def split: if_splits)
    with n(4) first [of bs] 2(3) lead show ?thesis by (cases bs) auto
  next
    case inside
    then have "continuation (take n bs ! (i - 1))" using n(2,3) by (simp add: list_all_length)
    with inside have "continuation ((b # bs) ! i)" by (cases i) auto
    with 2(4) show ?thesis by (simp add: continuation_not_ascii)
  next
    case later
    then obtain k where k: "i = Suc (n + k)" using less_imp_Suc_add by blast
    with 2(3,4) have "Suc k < length (drop n bs)" "byte (drop n bs ! k) < 128" by auto
    from "2.IH" [OF n(1,4) this] k show ?thesis using 2(3) by simp
  qed
qed

lemma boundary_iff: "i < length source \<Longrightarrow> is_utf8_boundary source i \<longleftrightarrow> i = 0 \<or> \<not> continuation (source ! i)"
  by (simp add: is_utf8_boundary_def continuation_def)

lemma split_boundary_progress:
  assumes valid: "utf8_valid source" and limit: "limit = min (cursor + REGION_BYTES) (length source)" "cursor < limit"
  shows "cursor < split_boundary source cursor limit"
proof (cases "rposition_of (\<lambda>b. b = LF) (slice cursor limit source)")
  case (Some k)
  note lf = newline_bounds [OF Some, unfolded limit(1), simplified]
  have "byte (source ! (cursor + k)) < 128" using lf(2) by (simp add: byte_def)
  then have "cursor + k + 1 = length source \<or> is_utf8_boundary source (cursor + k + 1)"
    using utf8_after_ascii [OF valid, of "cursor + k"] lf(1) boundary_iff [of "cursor + k + 1" source]
    by (metis Suc_eq_plus1 Suc_lessI)
  with Some show ?thesis by (auto simp: split_boundary_def)
next
  case None
  show ?thesis
  proof (cases "limit = length source")
    case True
    with None limit(2) show ?thesis by (simp add: split_boundary_def)
  next
    case False
    then have lim: "limit = cursor + 4096" "limit < length source" using limit(1) by (auto simp: REGION_BYTES_def)
    obtain j where j: "j \<le> limit" "limit < j + 4" "\<not> continuation (source ! j)"
      using utf8_near_lead [OF valid lim(2)] by blast
    then have "is_utf8_boundary source j" using boundary_iff [of j source] lim by simp
    with j lim have "j \<le> back_to_boundary source cursor limit" by (intro back_to_boundary_ge) auto
    with None j lim show ?thesis by (auto simp: split_boundary_def Let_def)
  qed
qed

section \<open>Region ends\<close>

lemma region_end_spec:
  assumes ok: "preferred_ok source preferred" and cursor: "uncut preferred cursor"
    and aligned: "utf8_valid source \<Longrightarrow> is_utf8_boundary source cursor"
    and len: "length source \<le> usize_max" "cursor < length source"
    and passed: "\<And>i. i < index \<Longrightarrow> i < length preferred \<Longrightarrow> rs_end (preferred ! i) \<le> cursor"
  defines "r \<equiv> region_end source preferred cursor index"
  shows "uncut preferred r" and "r \<le> cursor + REGION_BYTES" and "utf8_valid source \<Longrightarrow> is_utf8_boundary source r"
proof -
  define limit where "limit = min (saturating_add cursor REGION_BYTES) (length source)"
  have limit: "limit = min (cursor + REGION_BYTES) (length source)" "cursor < limit"
    using len by (auto simp: limit_def saturating_add_def REGION_BYTES_def)
  obtain stop n where pack: "pack_preferred source preferred cursor limit cursor index = (stop, n)" by fastforce
  have safe: "safe_result (utf8_valid source) source preferred cursor limit (stop, n)"
    using pack_preferred_safe [OF ok cursor limit, of cursor "utf8_valid source" index] pack limit(2) aligned passed
    by simp
  have split: "cursor \<le> split_boundary source cursor limit" "split_boundary source cursor limit \<le> limit"
      "stop \<le> split_boundary source stop limit" "split_boundary source stop limit \<le> limit"
    using split_boundary_bounds [of cursor limit source] split_boundary_bounds [of stop limit source] limit safe
    by (auto simp: safe_result_def)
  have r: "r = (if stop = cursor then
        if split_boundary source cursor limit = cursor then limit else split_boundary source cursor limit
      else if stop < limit \<and> n = length preferred then split_boundary source stop limit else stop)"
  proof -
    have stop: "cursor \<le> stop" "stop \<le> limit" using safe by (simp_all add: safe_result_def)
    have "min (max limit (cursor + 1)) (length source) = limit" "limit \<le> length source" using limit by auto
    then show ?thesis
      using stop split unfolding r_def region_end_def limit_def [symmetric] Let_def pack prod.case
      by (cases "stop = cursor"; cases "stop < limit \<and> n = length preferred") simp_all
  qed
  have "uncut preferred r \<and> r \<le> limit"
    using r safe split limit(2) by (auto simp: safe_result_def split: if_splits)
  then show "uncut preferred r" "r \<le> cursor + REGION_BYTES" using limit(1) by auto
  show "is_utf8_boundary source r" if valid: "utf8_valid source"
  proof -
    have "is_utf8_boundary source (split_boundary source b limit)" if "is_utf8_boundary source b" "b \<le> limit" for b
      using split_boundary_utf8 [of b limit source] that limit(1) by auto
    with r safe aligned [OF valid] valid limit(2) split_boundary_progress [OF valid limit] show ?thesis
      by (auto simp: safe_result_def split: if_splits)
  qed
qed

section \<open>The forest is laminar\<close>

abbreviation nstart :: "definition_node \<Rightarrow> nat" where "nstart n \<equiv> ds_start (node_span n)"
abbreviation nend :: "definition_node \<Rightarrow> nat" where "nend n \<equiv> ds_end (node_span n)"

definition nodes_ordered :: "nat \<Rightarrow> nat \<Rightarrow> definition_node list \<Rightarrow> bool" where
  "nodes_ordered lo hi ns \<longleftrightarrow> sorted_wrt (\<lambda>a b. nend a \<le> nstart b) ns
     \<and> (\<forall>n \<in> set ns. lo \<le> nstart n \<and> nend n \<le> hi)"

fun wf_node :: "(definition_span \<Rightarrow> bool) \<Rightarrow> definition_node \<Rightarrow> bool" where
  "wf_node P (DefinitionNode span children) \<longleftrightarrow> P span \<and> ds_start span < ds_end span
     \<and> nodes_ordered (ds_start span) (ds_end span) children \<and> (\<forall>c \<in> set children. wf_node P c)"

fun open_ok :: "(definition_span \<Rightarrow> bool) \<Rightarrow> nat \<Rightarrow> definition_node list \<Rightarrow> definition_node list \<Rightarrow> bool" where
  "open_ok P x roots [] \<longleftrightarrow> nodes_ordered 0 x roots \<and> (\<forall>n \<in> set roots. wf_node P n)"
| "open_ok P x roots (DefinitionNode span children # rest) \<longleftrightarrow>
     P span \<and> ds_start span \<le> x \<and> ds_start span < ds_end span
     \<and> nodes_ordered (ds_start span) (min x (ds_end span)) children \<and> (\<forall>c \<in> set children. wf_node P c)
     \<and> (rest \<noteq> [] \<longrightarrow> ds_end span \<le> nend (hd rest)) \<and> open_ok P (ds_start span) roots rest"

lemma nodes_ordered_mono: "nodes_ordered lo hi ns \<Longrightarrow> hi \<le> hi' \<Longrightarrow> nodes_ordered lo hi' ns"
  by (auto simp: nodes_ordered_def)

lemma nodes_ordered_snoc:
  "nodes_ordered lo mid ns \<Longrightarrow> lo \<le> nstart n \<Longrightarrow> mid \<le> nstart n \<Longrightarrow> nstart n < nend n \<Longrightarrow> nend n \<le> hi \<Longrightarrow>
   nodes_ordered lo hi (ns @ [n])"
  by (fastforce simp: nodes_ordered_def sorted_wrt_append)

lemma open_ok_mono: "open_ok P x roots stack \<Longrightarrow> x \<le> y \<Longrightarrow> open_ok P y roots stack"
  by (cases "(P, x, roots, stack)" rule: open_ok.cases) (auto intro: nodes_ordered_mono)

lemma attach_ok:
  assumes "open_ok P x roots (n # stack)" and "nend n \<le> x"
  shows "case attach_definition_node n (roots, stack) of (roots', stack') \<Rightarrow> open_ok P x roots' stack'"
proof -
  obtain span children where n: "n = DefinitionNode span children" by (cases n)
  have wf: "wf_node P n" using assms n by (auto intro: nodes_ordered_mono)
  show ?thesis
  proof (cases stack)
    case Nil
    with assms n wf show ?thesis
      by (auto simp: attach_definition_node_def intro!: nodes_ordered_snoc)
  next
    case (Cons u rest)
    obtain us uc where u: "u = DefinitionNode us uc" by (cases u)
    from assms n Cons u have "nodes_ordered (ds_start us) (min x (ds_end us)) (uc @ [n])"
      by (intro nodes_ordered_snoc [of _ "min (ds_start span) (ds_end us)"]) auto
    with assms n Cons u wf show ?thesis by (auto simp: attach_definition_node_def)
  qed
qed

lemma pop_closed_ok:
  "open_ok P x roots stack \<Longrightarrow> case pop_closed x (roots, stack) of (roots', stack') \<Rightarrow>
     open_ok P x roots' stack' \<and> (stack' = [] \<or> x < nend (hd stack'))"
proof (induction x "(roots, stack)" arbitrary: roots stack rule: pop_closed.induct)
  case (1 start roots)
  then show ?case by simp
next
  case (2 start roots node stack)
  show ?case
  proof (cases "start \<ge> nend node")
    case True
    obtain roots' stack' where attach: "attach_definition_node node (roots, stack) = (roots', stack')" by fastforce
    from 2(1) [OF True attach] attach_ok [OF 2(2) True] attach True show ?thesis by simp
  next
    case False
    with 2(2) show ?thesis by simp
  qed
qed

lemma forest_step_ok:
  assumes "open_ok P x roots stack" and "x \<le> ds_start span" and "P span" and "ds_start span < ds_end span"
  shows "case forest_step span (roots, stack) of (roots', stack') \<Rightarrow> open_ok P (ds_start span) roots' stack'"
proof -
  obtain roots' stack' where pop: "pop_closed (ds_start span) (roots, stack) = (roots', stack')" by fastforce
  have ok: "open_ok P (ds_start span) roots' stack'"
    using pop_closed_ok [OF open_ok_mono [OF assms(1,2)]] pop by simp
  have empty: "nodes_ordered lo hi []" for lo hi by (simp add: nodes_ordered_def)
  show ?thesis
  proof (cases stack')
    case Nil
    with pop ok assms empty show ?thesis by simp
  next
    case (Cons n rest)
    with pop ok assms empty show ?thesis by simp
  qed
qed

lemma forest_fold_ok:
  assumes "\<forall>span \<in> set spans. P span \<and> ds_start span < ds_end span"
  shows "sorted_wrt (\<lambda>a b. ds_start a \<le> ds_start b) spans \<Longrightarrow> (\<forall>span \<in> set spans. x \<le> ds_start span) \<Longrightarrow>
    open_ok P x roots stack \<Longrightarrow>
    \<exists>y. case fold forest_step spans (roots, stack) of (roots', stack') \<Rightarrow> open_ok P y roots' stack'"
  using assms
proof (induction spans arbitrary: x roots stack)
  case Nil
  then show ?case by auto
next
  case (Cons span spans)
  obtain roots' stack' where step: "forest_step span (roots, stack) = (roots', stack')" by fastforce
  have "open_ok P (ds_start span) roots' stack'"
    using forest_step_ok [OF Cons.prems(3), of span] Cons.prems step by simp
  then show ?case using Cons.IH [of "ds_start span" roots' stack'] Cons.prems step by auto
qed

lemma close_stack_ok:
  "open_ok P x roots stack \<Longrightarrow> (\<And>span. P span \<Longrightarrow> ds_end span \<le> x) \<Longrightarrow>
   nodes_ordered 0 x (close_stack (roots, stack)) \<and> (\<forall>n \<in> set (close_stack (roots, stack)). wf_node P n)"
proof (induction "(roots, stack)" arbitrary: roots stack rule: close_stack.induct)
  case (1 roots)
  then show ?case by simp
next
  case (2 roots node stack)
  obtain roots' stack' where attach: "attach_definition_node node (roots, stack) = (roots', stack')" by fastforce
  have "nend node \<le> x" using 2(2,3) by (cases node) auto
  from attach_ok [OF 2(2) this] attach 2(1) [OF attach _ 2(3)] show ?case by simp
qed

lemma definition_forest_ok:
  assumes "\<forall>span \<in> set spans. P span \<and> ds_start span < ds_end span"
    and "sorted_wrt (\<lambda>a b. ds_start a \<le> ds_start b) spans" and "\<And>span. P span \<Longrightarrow> ds_end span \<le> x"
  shows "nodes_ordered 0 x (definition_forest spans) \<and> (\<forall>n \<in> set (definition_forest spans). wf_node P n)"
proof -
  obtain roots stack where fold: "fold forest_step spans ([], []) = (roots, stack)" by fastforce
  have "open_ok P 0 [] []" by (simp add: nodes_ordered_def)
  then obtain y where "open_ok P y roots stack"
    using forest_fold_ok [OF assms(1,2), of 0 "[]" "[]"] fold by auto
  then have "open_ok P (max x y) roots stack" by (rule open_ok_mono) simp
  from close_stack_ok [OF this] assms(3) fold
  have "nodes_ordered 0 (max x y) (definition_forest spans) \<and> (\<forall>n \<in> set (definition_forest spans). wf_node P n)"
    by (force simp: definition_forest_def intro: max.coboundedI1)
  moreover from this assms(3) have "nend n \<le> x" if "n \<in> set (definition_forest spans)" for n
    using that by (cases n) auto
  ultimately show ?thesis by (auto simp: nodes_ordered_def)
qed

section \<open>Preferred spans\<close>

definition spans_ordered :: "(region_span \<Rightarrow> bool) \<Rightarrow> nat \<Rightarrow> nat \<Rightarrow> region_span list \<Rightarrow> bool" where
  "spans_ordered Q lo hi rs \<longleftrightarrow> sorted_wrt (\<lambda>a b. rs_end a \<le> rs_start b) rs
     \<and> (\<forall>r \<in> set rs. Q r \<and> lo \<le> rs_start r \<and> rs_start r < rs_end r \<and> rs_end r \<le> hi)"

lemma spans_ordered_append:
  "spans_ordered Q lo mid xs \<Longrightarrow> spans_ordered Q mid hi ys \<Longrightarrow> lo \<le> mid \<Longrightarrow> mid \<le> hi \<Longrightarrow>
   spans_ordered Q lo hi (xs @ ys)"
  by (fastforce simp: spans_ordered_def sorted_wrt_append)

lemma spans_ordered_mono:
  "spans_ordered Q lo hi rs \<Longrightarrow> lo' \<le> lo \<Longrightarrow> hi \<le> hi' \<Longrightarrow> spans_ordered Q lo' hi' rs"
  by (fastforce simp: spans_ordered_def)

lemma spans_ordered_concat:
  assumes "\<And>n. n \<in> set ns \<Longrightarrow> nstart n < nend n \<and> spans_ordered Q (nstart n) (nend n) (f n)"
  shows "nodes_ordered lo hi ns \<Longrightarrow> lo \<le> hi \<Longrightarrow> spans_ordered Q lo hi (concat (map f ns))"
  using assms
proof (induction ns arbitrary: lo)
  case Nil
  then show ?case by (simp add: spans_ordered_def)
next
  case (Cons n ns)
  then have "lo \<le> nstart n" "nend n \<le> hi" "nstart n < nend n" "spans_ordered Q (nstart n) (nend n) (f n)"
    by (auto simp: nodes_ordered_def)
  moreover have "nodes_ordered (nend n) hi ns" using Cons.prems(1) by (auto simp: nodes_ordered_def)
  moreover from calculation have "lo \<le> nend n" by simp
  ultimately show ?case using Cons.IH [of "nend n"] Cons.prems(3)
    by (auto intro!: spans_ordered_append [of Q lo "nend n"] intro: spans_ordered_mono)
qed

lemma spans_ordered_sorted:
  assumes "spans_ordered Q lo hi rs"
  shows "sorted_wrt (\<lambda>a b. rs_start a < rs_start b \<or> rs_start a = rs_start b \<and> rs_end a \<le> rs_end b) rs"
proof (rule sorted_wrt_mono_rel [of _ "\<lambda>a b. rs_end a \<le> rs_start b"])
  fix x y assume "x \<in> set rs" "rs_end x \<le> rs_start y"
  moreover from this assms have "rs_start x < rs_end x" by (simp add: spans_ordered_def)
  ultimately show "rs_start x < rs_start y \<or> rs_start x = rs_start y \<and> rs_end x \<le> rs_end y" by simp
qed (use assms in \<open>simp add: spans_ordered_def\<close>)

definition preferred_from :: "(definition_span \<Rightarrow> bool) \<Rightarrow> region_span \<Rightarrow> bool" where
  "preferred_from P r \<longleftrightarrow> rs_end r - rs_start r \<le> REGION_BYTES
     \<and> (\<exists>span. P span \<and> rs_start r = ds_start span \<and> rs_end r = ds_end span)"

lemma preferred_from_valid:
  "preferred_from (\<lambda>span. valid_span source (ds_start span, ds_end span)) r \<Longrightarrow>
   valid_span source (rs_start r, rs_end r) \<and> rs_end r - rs_start r \<le> REGION_BYTES"
  by (auto simp: preferred_from_def)

lemma collect_preferred_ordered:
  "wf_node P n \<Longrightarrow> spans_ordered (preferred_from P) (nstart n) (nend n) (collect_preferred_spans n)"
proof (induction n rule: collect_preferred_spans.induct)
  case (1 span children)
  show ?case
  proof (cases "ds_end span - ds_start span \<le> REGION_BYTES")
    case True
    with 1 show ?thesis by (auto simp: spans_ordered_def preferred_from_def)
  next
    case False
    have wf: "wf_node P c" if "c \<in> set children" for c using 1(2) that by simp
    have "nstart c < nend c" if "c \<in> set children" for c using wf [OF that] by (cases c) simp
    with 1 wf False show ?thesis by (simp add: spans_ordered_concat)
  qed
qed

interpretation span_order: comparison
  "\<lambda>a b :: region_span. rs_start a < rs_start b \<or> rs_start a = rs_start b \<and> rs_end a \<le> rs_end b"
  by unfold_locales auto

interpretation definition_order: comparison span_key_le
  by unfold_locales (auto simp: span_key_le_def)

lemma dedup_by_subset: "set (dedup_by key xs) \<subseteq> set xs"
  by (induction key xs rule: dedup_by.induct) auto

lemma dedup_by_sorted: "sorted_wrt R xs \<Longrightarrow> sorted_wrt R (dedup_by key xs)"
proof (induction key xs rule: dedup_by.induct)
  case (3 key x y xs)
  then show ?case using dedup_by_subset [of key "y # xs"] by auto
qed auto

lemma valid_definition_spans_valid:
  assumes "span \<in> set (valid_definition_spans source definitions)"
  shows "valid_span source (ds_start span, ds_end span)
    \<and> ds_definition span < length definitions
    \<and> definitions ! ds_definition span = (ds_start span, ds_end span)"
  using assms dedup_by_subset unfolding valid_definition_spans_def
  by (fastforce simp: in_set_enumerate_eq)

lemma valid_definition_spans_sorted:
  "sorted_wrt (\<lambda>a b. ds_start a \<le> ds_start b) (valid_definition_spans source definitions)"
  unfolding valid_definition_spans_def
  by (rule dedup_by_sorted, rule sorted_wrt_mono_rel [OF _ definition_order.sorted_sort_by])
    (auto simp: span_key_le_def)

lemma preferred_spans_ok:
  "preferred_ok source (preferred_spans (valid_definition_spans source definitions))"
proof -
  let ?spans = "valid_definition_spans source definitions"
  let ?P = "\<lambda>span. valid_span source (ds_start span, ds_end span)"
  let ?ys = "concat (map collect_preferred_spans (definition_forest ?spans))"
  have forest: "nodes_ordered 0 (length source) (definition_forest ?spans)"
      "\<And>n. n \<in> set (definition_forest ?spans) \<Longrightarrow> wf_node ?P n"
    using definition_forest_ok [of ?spans ?P "length source"] valid_definition_spans_valid
      valid_definition_spans_sorted by (auto simp: valid_span_def)
  have "nstart n < nend n" if "wf_node ?P n" for n using that by (cases n) simp
  with forest have ys: "spans_ordered (preferred_from ?P) 0 (length source) ?ys"
    by (intro spans_ordered_concat) (auto intro: collect_preferred_ordered)
  have "sorted_wrt (\<lambda>a b. rs_start a < rs_start b \<or> rs_start a = rs_start b \<and> rs_end a \<le> rs_end b) ?ys"
    by (rule spans_ordered_sorted [OF ys])
  then have "preferred_spans ?spans = ?ys"
    unfolding preferred_spans_def by (rule span_order.sort_by_sorted)
  with ys show ?thesis unfolding preferred_ok_def spans_ordered_def using preferred_from_valid by metis
qed

section \<open>Properties of the partition\<close>

lemma skip_preferred_spec:
  "i < skip_preferred preferred cursor index \<Longrightarrow> i < length preferred \<Longrightarrow>
   (\<And>i. i < index \<Longrightarrow> i < length preferred \<Longrightarrow> rs_end (preferred ! i) \<le> cursor) \<Longrightarrow> rs_end (preferred ! i) \<le> cursor"
proof (induction preferred cursor index rule: skip_preferred.induct)
  case (1 preferred cursor index)
  show ?case
  proof (cases "index < length preferred \<and> rs_end (preferred ! index) \<le> cursor")
    case True
    have "rs_end (preferred ! j) \<le> cursor" if "j < index + 1" "j < length preferred" for j
      using that "1.prems"(3) [of j] True by (cases "j = index") auto
    moreover have "skip_preferred preferred cursor index = skip_preferred preferred cursor (index + 1)"
      using True by (subst skip_preferred.simps) simp
    ultimately show ?thesis using "1.IH" [OF True] "1.prems"(1,2) by simp
  next
    case False
    with "1.prems" show ?thesis by (subst (asm) skip_preferred.simps) auto
  qed
qed

lemma containing_definition_contains:
  assumes "containing_definition a b spans = Some d"
  shows "\<exists>span \<in> set spans. ds_definition span = d \<and> ds_start span \<le> a \<and> b \<le> ds_end span"
proof -
  have fold: "fold (\<lambda>span best. if f span best then span else best) cs c \<in> insert c (set cs)" for f cs and c :: definition_span
    by (induction cs arbitrary: c) auto
  obtain c cs where cs: "filter (\<lambda>span. ds_start span \<le> a \<and> b \<le> ds_end span) spans = c # cs"
    using assms by (auto simp: containing_definition_def split: list.splits)
  have "set (c # cs) \<subseteq> {span \<in> set spans. ds_start span \<le> a \<and> b \<le> ds_end span}"
    unfolding cs [symmetric] by auto
  with assms cs fold [of "\<lambda>span best. ds_end span - ds_start span < ds_end best - ds_start best
      \<or> ds_end span - ds_start span = ds_end best - ds_start best \<and> ds_definition span < ds_definition best" cs c]
  show ?thesis by (fastforce simp: containing_definition_def)
qed

definition region_good :: "bytes \<Rightarrow> definition_span list \<Rightarrow> region_span list \<Rightarrow> region_span \<Rightarrow> bool" where
  "region_good source spans preferred r \<longleftrightarrow>
     rs_end r - rs_start r \<le> REGION_BYTES \<and> uncut preferred (rs_end r)
     \<and> (utf8_valid source \<longrightarrow> is_utf8_boundary source (rs_start r) \<and> is_utf8_boundary source (rs_end r))
     \<and> (\<forall>d. rs_definition r = Some d \<longrightarrow>
          (\<exists>span \<in> set spans. ds_definition span = d \<and> ds_start span \<le> rs_start r \<and> rs_end r \<le> ds_end span))"

lemma region_loop_good:
  assumes ok: "preferred_ok source preferred" and len: "length source \<le> usize_max"
  shows "uncut preferred cursor \<Longrightarrow> (utf8_valid source \<Longrightarrow> is_utf8_boundary source cursor) \<Longrightarrow>
    (\<And>i. i < index \<Longrightarrow> i < length preferred \<Longrightarrow> rs_end (preferred ! i) \<le> cursor) \<Longrightarrow>
    \<forall>r \<in> set (region_loop source spans preferred cursor index). region_good source spans preferred r"
proof (induction "length source - cursor" arbitrary: cursor index rule: less_induct)
  case less
  show ?case
  proof (cases "cursor < length source")
    case False
    then show ?thesis by (subst region_loop.simps) simp
  next
    case True
    let ?i = "skip_preferred preferred cursor index"
    let ?e = "region_end source preferred cursor ?i"
    have passed: "rs_end (preferred ! i) \<le> cursor" if "i < ?i" "i < length preferred" for i
      using skip_preferred_spec [OF that less.prems(3)] .
    note spec = region_end_spec [OF ok less.prems(1,2) len True passed, of ?i]
    note progress = region_end_progress [OF True, of preferred ?i]
    let ?r = "\<lparr>rs_start = cursor, rs_end = ?e, rs_definition = containing_definition cursor ?e spans\<rparr>"
    have "region_good source spans preferred ?r"
      using spec less.prems(2) containing_definition_contains
      by (auto simp: region_good_def)
    moreover have "\<forall>r \<in> set (region_loop source spans preferred ?e ?i). region_good source spans preferred r"
      using progress spec passed by (intro less.hyps) (auto intro: order.trans [OF passed])
    ultimately show ?thesis using True by (subst region_loop.simps) (simp add: Let_def)
  qed
qed

lemma partition_source_good:
  assumes "length source \<le> usize_max" and "r \<in> set (partition_source source definitions)"
  shows "region_good source (valid_definition_spans source definitions)
    (preferred_spans (valid_definition_spans source definitions)) r"
proof -
  let ?spans = "valid_definition_spans source definitions"
  have "uncut (preferred_spans ?spans) 0" by (simp add: uncut_def)
  then have "\<forall>r \<in> set (region_loop source ?spans (preferred_spans ?spans) 0 0).
      region_good source ?spans (preferred_spans ?spans) r"
    by (intro region_loop_good [OF preferred_spans_ok assms(1)]) (auto simp: is_utf8_boundary_def)
  with assms(2) show ?thesis by (auto simp: partition_source_def Let_def split: if_splits)
qed

lemma preferred_in_one_region:
  assumes len: "length source \<le> usize_max"
    and p: "p \<in> set (preferred_spans (valid_definition_spans source definitions))"
  shows "\<exists>r \<in> set (partition_source source definitions). rs_start r \<le> rs_start p \<and> rs_end p \<le> rs_end r"
proof -
  have ok: "rs_start p < rs_end p" "rs_end p \<le> length source"
    using preferred_spans_ok [of source definitions] p by (auto simp: preferred_ok_def valid_span_def)
  then have "\<exists>!q. q \<in> set (region_ranges (source, definitions)) \<and> fst q \<le> rs_start p \<and> rs_start p < snd q"
    using regions.ranges_unique [where x = "(source, definitions)" and i = "rs_start p"] by simp
  then obtain r where r: "r \<in> set (partition_source source definitions)" "rs_start r \<le> rs_start p"
      "rs_start p < rs_end r"
    by (auto simp: region_ranges_def)
  with partition_source_good [OF len r(1)] p have "rs_end p \<le> rs_end r"
    by (force simp: region_good_def uncut_def)
  with r show ?thesis by blast
qed

text \<open>C33. The regions of a source cover it exactly, in order, each with at most 4096 bytes.  The
  declaration a region is attributed to spans the whole region, and no preferred declaration (an
  outermost one of at most 4096 bytes in the declaration forest) is cut: it lies in a single region.\<close>

theorem partition_source_correct:
  assumes "length source \<le> usize_max"
  shows "concat (map (\<lambda>r. slice (rs_start r) (rs_end r) source) (partition_source source definitions)) = source
    \<and> tiles 0 (length source) (map (\<lambda>r. (rs_start r, rs_end r)) (partition_source source definitions))
    \<and> (\<forall>r \<in> set (partition_source source definitions). rs_end r - rs_start r \<le> 4096
        \<and> (\<forall>d. rs_definition r = Some d \<longrightarrow> d < length definitions
             \<and> fst (definitions ! d) \<le> rs_start r \<and> rs_end r \<le> snd (definitions ! d)))
    \<and> (\<forall>p \<in> set (preferred_spans (valid_definition_spans source definitions)).
        \<exists>r \<in> set (partition_source source definitions). rs_start r \<le> rs_start p \<and> rs_end p \<le> rs_end r)"
proof (intro conjI ballI)
  show "concat (map (\<lambda>r. slice (rs_start r) (rs_end r) source) (partition_source source definitions)) = source"
    using regions.ranges_concat [where x = "(source, definitions)" and xs = source]
    by (simp add: region_ranges_def comp_def)
  show "tiles 0 (length source) (map (\<lambda>r. (rs_start r, rs_end r)) (partition_source source definitions))"
    using regions.ranges_tile [of "(source, definitions)"] by (simp add: region_ranges_def)
next
  fix r assume r: "r \<in> set (partition_source source definitions)"
  note good = partition_source_good [OF assms r]
  then show "rs_end r - rs_start r \<le> 4096" by (simp add: region_good_def REGION_BYTES_def)
  show "\<forall>d. rs_definition r = Some d \<longrightarrow> d < length definitions
      \<and> fst (definitions ! d) \<le> rs_start r \<and> rs_end r \<le> snd (definitions ! d)"
    using good valid_definition_spans_valid [of _ source definitions] by (fastforce simp: region_good_def)
next
  fix p assume "p \<in> set (preferred_spans (valid_definition_spans source definitions))"
  then show "\<exists>r \<in> set (partition_source source definitions). rs_start r \<le> rs_start p \<and> rs_end p \<le> rs_end r"
    by (rule preferred_in_one_region [OF assms])
qed

theorem partition_source_correct_witness:
  "tiles 0 (length ''fn a'') (map (\<lambda>r. (rs_start r, rs_end r)) (partition_source ''fn a'' [(0, 4)]))"
proof -
  have "length ''fn a'' \<le> usize_max" by (simp add: usize_max_def)
  from partition_source_correct [OF this, of "[(0, 4)]"] show ?thesis by blast
qed

text \<open>C34. In a source that is valid UTF-8 every region starts and ends on a character boundary, so no
  region splits a character.\<close>

theorem regions_respect_utf8:
  assumes "utf8_valid source" and "length source \<le> usize_max"
    and "r \<in> set (partition_source source definitions)"
  shows "is_utf8_boundary source (rs_start r) \<and> is_utf8_boundary source (rs_end r)"
  using partition_source_good [OF assms(2,3)] assms(1) by (simp add: region_good_def)

theorem regions_respect_utf8_witness:
  "\<exists>r \<in> set (partition_source ''ab'' []). is_utf8_boundary ''ab'' (rs_end r)"
proof -
  have "utf8_valid ''ab''" by (simp add: trailing_bytes_def byte_def)
  moreover have "length ''ab'' \<le> usize_max" by (simp add: usize_max_def)
  moreover have "partition_source ''ab'' [] \<noteq> []"
    by (subst partition_source_def, simp add: Let_def, subst region_loop.simps) (simp add: Let_def)
  then obtain r where "r \<in> set (partition_source ''ab'' [])" by (meson hd_in_set)
  ultimately show ?thesis using regions_respect_utf8 [of "''ab''" r "[]"] by blast
qed

end
