(* ===== verification/TP_Source_Diff.thy ===== *)
theory TP_Source_Diff
  imports TP_Identity
begin

text \<open>
  \<open>src/history/source_diff.rs\<close> and \<open>src/history/source_diff/fingerprints.rs\<close>: line changes between two
  versions of a file.  The histogram diff is third-party code (\<open>imara_diff\<close>): its hunks are a parameter,
  and what the source relies on is \<open>hunks_ok\<close>: the hunks come in order, and the lines between them are
  pairwise equal.  The digest of a line (BLAKE3) is a parameter too.
\<close>

section \<open>Lines\<close>

definition line_offsets :: "bytes \<Rightarrow> nat list" where
  "line_offsets source =
     (let offsets = 0 # List.map_filter (\<lambda>(index, b). if b = LF then Some (index + 1) else None) (enumerate 0 source)
      in if last offsets \<noteq> length source then offsets @ [length source] else offsets)"

text \<open>\<open>slice::windows(2)\<close>.\<close>

fun windows2 :: "'a list \<Rightarrow> ('a \<times> 'a) list" where
  "windows2 (x # y # xs) = (x, y) # windows2 (y # xs)"
| "windows2 _ = []"

definition source_lines :: "bytes \<Rightarrow> bytes list" where
  "source_lines source = map (\<lambda>(a, b). slice a b source) (windows2 (line_offsets source))"

section \<open>Changes\<close>

type_synonym range = "nat \<times> nat"
type_synonym hunk = "range \<times> range"

record source_change =
  change_before :: byte_span
  change_after :: byte_span
  before_lines :: range
  after_lines :: range

record line_correspondence =
  run_before :: range
  run_after :: range

record source_diff =
  changes :: "source_change list"
  unchanged_lines :: "line_correspondence list"

definition SourceDiff_default :: source_diff where
  "SourceDiff_default = \<lparr>changes = [], unchanged_lines = []\<rparr>"

definition range_contains :: "range \<Rightarrow> nat \<Rightarrow> bool" where
  "range_contains r n \<longleftrightarrow> fst r \<le> n \<and> n < snd r"

definition map_before_line :: "source_diff \<Rightarrow> nat \<Rightarrow> nat option" where
  "map_before_line d line =
     (let index = partition_point (\<lambda>run. snd (run_before run) \<le> line) (unchanged_lines d)
      in case nth_opt (unchanged_lines d) index of
           None \<Rightarrow> None
         | Some run \<Rightarrow>
             if range_contains (run_before run) line
             then Some (fst (run_after run) + line - fst (run_before run)) else None)"

definition shares_change :: "source_diff \<Rightarrow> nat \<Rightarrow> nat \<Rightarrow> bool" where
  "shares_change d before_line after_line =
     (let index = partition_point (\<lambda>c. snd (before_lines c) \<le> before_line) (changes d)
      in case nth_opt (changes d) index of
           None \<Rightarrow> False
         | Some c \<Rightarrow> range_contains (before_lines c) before_line \<and> range_contains (after_lines c) after_line)"

text \<open>The loop over the hunks, with the ends of the last one.\<close>

fun diff_loop :: "nat list \<Rightarrow> nat list \<Rightarrow> nat \<Rightarrow> nat \<Rightarrow> nat \<Rightarrow> nat \<Rightarrow> hunk list \<Rightarrow> source_diff" where
  "diff_loop before_offsets after_offsets before_len after_len before_end after_end [] =
     \<lparr>changes = [], unchanged_lines =
       (if before_end < before_len
        then [\<lparr>run_before = (before_end, before_len), run_after = (after_end, after_len)\<rparr>] else [])\<rparr>"
| "diff_loop before_offsets after_offsets before_len after_len before_end after_end (((bs, be), (as, ae)) # hunks) =
     (let rest = diff_loop before_offsets after_offsets before_len after_len be ae hunks;
          change = \<lparr>change_before = \<lparr>span_start = before_offsets ! bs, span_end = before_offsets ! be\<rparr>,
            change_after = \<lparr>span_start = after_offsets ! as, span_end = after_offsets ! ae\<rparr>,
            before_lines = (bs, be), after_lines = (as, ae)\<rparr>
      in \<lparr>changes = change # changes rest,
          unchanged_lines =
            (if before_end < bs then [\<lparr>run_before = (before_end, bs), run_after = (after_end, as)\<rparr>] else [])
            @ unchanged_lines rest\<rparr>)"

definition diff_interned :: "('t list \<Rightarrow> 't list \<Rightarrow> hunk list) \<Rightarrow> 't list \<Rightarrow> 't list \<Rightarrow> nat list \<Rightarrow> nat list \<Rightarrow> source_diff" where
  "diff_interned compute before after before_offsets after_offsets =
     diff_loop before_offsets after_offsets (length before) (length after) 0 0 (compute before after)"

definition diff_sources :: "(bytes list \<Rightarrow> bytes list \<Rightarrow> hunk list) \<Rightarrow> bytes \<Rightarrow> bytes \<Rightarrow> source_diff" where
  "diff_sources compute before after =
     diff_interned compute (source_lines before) (source_lines after) (line_offsets before) (line_offsets after)"

section \<open>Fingerprints\<close>

record 'h fingerprint_lines_rec =
  offsets :: "nat list"
  fingerprints :: "'h list"

definition fingerprints_validate :: "'h fingerprint_lines_rec \<Rightarrow> nat result" where
  "fingerprints_validate f =
     (if length (offsets f) = length (fingerprints f) + 1 \<and> nth_opt (offsets f) 0 = Some 0
         \<and> list_all (\<lambda>(a, b). a < b) (windows2 (offsets f))
      then Inr (last (offsets f)) else Inl ''invalid fingerprint line coordinates'')"

definition fingerprint_lines :: "(bytes \<Rightarrow> 'h) \<Rightarrow> bytes \<Rightarrow> 'h fingerprint_lines_rec" where
  "fingerprint_lines digest source =
     (let offs = line_offsets source
      in \<lparr>offsets = offs, fingerprints = map (\<lambda>(a, b). digest (slice a b source)) (windows2 offs)\<rparr>)"

definition diff_fingerprints :: "('h list \<Rightarrow> 'h list \<Rightarrow> hunk list) \<Rightarrow> 'h fingerprint_lines_rec \<Rightarrow>
    'h fingerprint_lines_rec \<Rightarrow> source_diff result" where
  "diff_fingerprints compute before after =
     (case fingerprints_validate before of
        Inl e \<Rightarrow> Inl e
      | Inr _ \<Rightarrow>
          (case fingerprints_validate after of
             Inl e \<Rightarrow> Inl e
           | Inr _ \<Rightarrow> Inr (diff_interned compute (fingerprints before) (fingerprints after) (offsets before) (offsets after))))"

section \<open>Line offsets\<close>

text \<open>The offsets by recursion on the source: each newline ends a line, and so does the end.\<close>

fun offsets_from :: "nat \<Rightarrow> bytes \<Rightarrow> nat list" where
  "offsets_from n [] = []"
| "offsets_from n (b # bs) = (if b = LF \<or> bs = [] then [n + 1] else []) @ offsets_from (n + 1) bs"

lemma offsets_from_spec:
  "(let offs = n # List.map_filter (\<lambda>(index, b). if b = LF then Some (index + 1) else None) (enumerate n source)
    in if last offs \<noteq> n + length source then offs @ [n + length source] else offs) = n # offsets_from n source"
proof (induction source arbitrary: n)
  case Nil
  then show ?case by (simp add: map_filter_def)
next
  case (Cons b bs)
  let ?F = "List.map_filter (\<lambda>(index, b). if b = LF then Some (index + 1) else None) (enumerate (Suc n) bs)"
  have F: "List.map_filter (\<lambda>(index, b). if b = LF then Some (index + 1) else None) (enumerate n (b # bs))
      = (if b = LF then [n + 1] else []) @ ?F"
    by (simp add: map_filter_def)
  show ?case
  proof (cases "b = LF")
    case True
    with Cons [of "Suc n"] show ?thesis unfolding F by (auto simp: Let_def)
  next
    case False
    show ?thesis
    proof (cases "?F")
      case Nil
      with False Cons [of "Suc n"] show ?thesis unfolding F by (cases bs) (auto simp: Let_def)
    next
      case (Cons x xs)
      then have "bs \<noteq> []" by (auto simp: map_filter_def)
      with False Cons Cons.IH [of "Suc n"] show ?thesis unfolding F by (auto simp: Let_def split: if_splits)
    qed
  qed
qed

lemma line_offsets_eq: "line_offsets source = 0 # offsets_from 0 source"
  using offsets_from_spec [of 0 source] unfolding line_offsets_def by (simp only: add_0)

lemma offsets_from_tiles:
  "m \<le> n \<Longrightarrow> source \<noteq> [] \<or> m = n \<Longrightarrow> tiles m (n + length source) (windows2 (m # offsets_from n source))"
proof (induction source arbitrary: m n)
  case Nil
  then show ?case by simp
next
  case (Cons b bs)
  show ?case
  proof (cases "b = LF \<or> bs = []")
    case True
    with Cons.prems Cons.IH [of "n + 1" "n + 1"] show ?thesis by auto
  next
    case False
    with Cons.prems Cons.IH [of m "n + 1"] show ?thesis by auto
  qed
qed

lemma line_tiles: "tiles 0 (length source) (windows2 (line_offsets source))"
  using offsets_from_tiles [of 0 0 source] by (simp add: line_offsets_eq)

interpretation lines: range_cover "\<lambda>source. windows2 (line_offsets source)" length "\<lambda>_. True"
  by unfold_locales (rule line_tiles)

lemma length_windows2: "length (windows2 xs) = length xs - 1"
  by (induction xs rule: windows2.induct) auto

lemma windows2_nth: "Suc i < length xs \<Longrightarrow> windows2 xs ! i = (xs ! i, xs ! Suc i)"
  by (induction xs arbitrary: i rule: windows2.induct) (auto simp: nth_Cons split: nat.splits)

lemma last_windows_tiles: "tiles s e (windows2 xs) \<Longrightarrow> xs \<noteq> [] \<Longrightarrow> hd xs = s \<Longrightarrow> last xs = e"
  by (induction xs arbitrary: s rule: windows2.induct) auto

lemma line_offsets_last: "last (line_offsets source) = length source"
  using last_windows_tiles [OF line_tiles] by (simp add: line_offsets_eq)

lemma windows2_tiles_slice:
  "tiles s e (windows2 xs) \<Longrightarrow> i \<le> j \<Longrightarrow> j < length xs \<Longrightarrow> tiles (xs ! i) (xs ! j) (slice i j (windows2 xs))"
proof (induction "j - i" arbitrary: i)
  case 0
  then show ?case by (simp add: slice_def)
next
  case (Suc k)
  then have ij: "i < j" "Suc i < length xs" by simp_all
  have i: "i < length (windows2 xs)" using ij by (simp add: length_windows2)
  have "slice i j (windows2 xs) = windows2 xs ! i # slice (Suc i) j (windows2 xs)"
    using ij(1) i by (simp add: slice_def Cons_nth_drop_Suc [symmetric] take_Cons')
  moreover have "xs ! i < xs ! Suc i"
    using tiles_bounds [OF Suc.prems(1)] nth_mem [OF i] windows2_nth [OF ij(2)] by fastforce
  ultimately show ?case using Suc ij windows2_nth [OF ij(2)] by simp
qed

text \<open>The bytes between two line offsets are the lines between them.\<close>

lemma lines_between:
  assumes "i \<le> j" and "j \<le> length (source_lines source)"
  shows "slice (line_offsets source ! i) (line_offsets source ! j) source = concat (slice i j (source_lines source))"
proof -
  have len: "j < length (line_offsets source)"
    using assms(2) by (auto simp: source_lines_def length_windows2 line_offsets_eq)
  have "slice i j (source_lines source) = map (\<lambda>(a, b). slice a b source) (slice i j (windows2 (line_offsets source)))"
    by (simp add: source_lines_def slice_def take_map drop_map)
  then show ?thesis
    using tiles_concat [OF windows2_tiles_slice [OF line_tiles assms(1) len], of source] by simp
qed

section \<open>What the hunks promise\<close>

fun hunks_ok :: "'t list \<Rightarrow> 't list \<Rightarrow> nat \<Rightarrow> nat \<Rightarrow> hunk list \<Rightarrow> bool" where
  "hunks_ok before after b a [] \<longleftrightarrow> b \<le> length before \<and> a \<le> length after \<and> drop b before = drop a after"
| "hunks_ok before after b a (((bs, be), (as, ae)) # hunks) \<longleftrightarrow>
     b \<le> bs \<and> bs \<le> be \<and> be \<le> length before \<and> a \<le> as \<and> as \<le> ae \<and> ae \<le> length after
     \<and> slice b bs before = slice a as after \<and> hunks_ok before after be ae hunks"

text \<open>Where an unchanged line goes, by recursion on the hunks.\<close>

fun mapped :: "nat \<Rightarrow> nat \<Rightarrow> nat \<Rightarrow> hunk list \<Rightarrow> nat \<Rightarrow> nat option" where
  "mapped len b a [] line = (if line < len then Some (a + (line - b)) else None)"
| "mapped len b a (((bs, be), (as, ae)) # hunks) line =
     (if line < bs then Some (a + (line - b)) else if line < be then None else mapped len be ae hunks line)"

lemma map_before_line_Cons:
  "map_before_line \<lparr>changes = cs, unchanged_lines = run # runs\<rparr> line =
     (if snd (run_before run) \<le> line then map_before_line \<lparr>changes = cs, unchanged_lines = runs\<rparr> line
      else if range_contains (run_before run) line
      then Some (fst (run_after run) + line - fst (run_before run)) else None)"
  by (simp add: map_before_line_def partition_point_def nth_opt_def Let_def)

lemma map_before_line_changes:
  "map_before_line \<lparr>changes = cs, unchanged_lines = runs\<rparr> = map_before_line \<lparr>changes = ds, unchanged_lines = runs\<rparr>"
  by (simp add: map_before_line_def fun_eq_iff)

lemma diff_loop_runs_start:
  "hunks_ok before after b a hunks \<Longrightarrow>
   run \<in> set (unchanged_lines (diff_loop bo ao (length before) (length after) b a hunks)) \<Longrightarrow> b \<le> fst (run_before run)"
proof (induction before after b a hunks rule: hunks_ok.induct)
  case (1 before after b a)
  then show ?case by (auto split: if_splits)
next
  case (2 before after b a bs be as ae hunks)
  then show ?case by (fastforce simp: Let_def split: if_splits)
qed

lemma map_before_line_None:
  assumes "\<And>run. run \<in> set (unchanged_lines d) \<Longrightarrow> line < fst (run_before run)"
  shows "map_before_line d line = None"
proof -
  let ?i = "partition_point (\<lambda>run. snd (run_before run) \<le> line) (unchanged_lines d)"
  show ?thesis
  proof (cases "?i < length (unchanged_lines d)")
    case True
    with assms [OF nth_mem [OF True]] show ?thesis
      by (simp add: map_before_line_def nth_opt_def range_contains_def Let_def)
  next
    case False
    then show ?thesis by (simp add: map_before_line_def nth_opt_def Let_def)
  qed
qed

lemma map_before_line_mapped:
  "hunks_ok before after b a hunks \<Longrightarrow> b \<le> line \<Longrightarrow>
   map_before_line (diff_loop bo ao (length before) (length after) b a hunks) line
     = mapped (length before) b a hunks line"
proof (induction before after b a hunks rule: hunks_ok.induct)
  case (1 before after b a)
  then show ?case
    by (auto simp: map_before_line_def partition_point_def nth_opt_def range_contains_def)
next
  case (2 before after b a bs be as ae hunks)
  let ?rest = "diff_loop bo ao (length before) (length after) be ae hunks"
  let ?d = "diff_loop bo ao (length before) (length after) b a (((bs, be), (as, ae)) # hunks)"
  have rest: "map_before_line \<lparr>changes = cs, unchanged_lines = unchanged_lines ?rest\<rparr> = map_before_line ?rest" for cs
    by (metis map_before_line_changes old.unit.exhaust source_diff.surjective)
  have gap: "bs \<le> be" "b \<le> bs" "hunks_ok before after be ae hunks" using 2(2) by auto
  show ?case
  proof (cases "line < bs")
    case True
    then have "b < bs" using 2(3) by simp
    with True 2(3) show ?thesis by (simp add: Let_def map_before_line_Cons range_contains_def)
  next
    case False
    then have skip: "map_before_line ?d line = map_before_line ?rest line"
      using rest by (auto simp: Let_def map_before_line_Cons)
    show ?thesis
    proof (cases "line < be")
      case True
      have "map_before_line ?rest line = None"
        using diff_loop_runs_start [OF gap(3), of _ bo ao] True by (intro map_before_line_None) force
      with skip True False show ?thesis by simp
    next
      case beyond: False
      with skip False 2(1) [OF gap(3)] show ?thesis by simp
    qed
  qed
qed

lemma slices_eq_nth:
  assumes "slice b bs xs = slice a as ys" and "bs \<le> length xs" and "as \<le> length ys" and "b \<le> i" and "i < bs"
    and "a \<le> as"
  shows "a + (i - b) < as \<and> ys ! (a + (i - b)) = xs ! i"
proof -
  have "length (slice b bs xs) = bs - b" "length (slice a as ys) = as - a"
    using assms(2,3) by (simp_all add: length_slice)
  then have len: "as - a = bs - b" using assms(1) by metis
  then have "a + (i - b) < as" using assms by linarith
  moreover have "slice b bs xs ! (i - b) = xs ! i" "slice a as ys ! (i - b) = ys ! (a + (i - b))"
    using assms(2-6) len by (simp_all add: slice_nth)
  ultimately show ?thesis using assms(1) by metis
qed

lemma mapped_sound:
  "hunks_ok before after b a hunks \<Longrightarrow> b \<le> i \<Longrightarrow> mapped (length before) b a hunks i = Some j \<Longrightarrow>
   i < length before \<and> a \<le> j \<and> j < length after \<and> after ! j = before ! i"
proof (induction before after b a hunks rule: hunks_ok.induct)
  case (1 before after b a)
  then have "length before - b = length after - a" by (metis hunks_ok.simps(1) length_drop)
  moreover from 1 have "i < length before" "j = a + (i - b)" by (auto split: if_splits)
  moreover have "drop b before ! (i - b) = drop a after ! (i - b)" using 1 by simp
  moreover from calculation 1 have "a + (i - b) < length after" by simp
  ultimately show ?case using 1 by simp
next
  case (2 before after b a bs be as ae hunks)
  then have ok: "b \<le> bs" "bs \<le> be" "be \<le> length before" "a \<le> as" "as \<le> ae" "ae \<le> length after"
      "slice b bs before = slice a as after" "hunks_ok before after be ae hunks" by auto
  show ?case
  proof (cases "i < bs")
    case True
    with 2 ok slices_eq_nth [OF ok(7) _ _ _ True ok(4)] show ?thesis by simp
  next
    case False
    with 2(4) have "\<not> i < be" "mapped (length before) be ae hunks i = Some j" by (auto split: if_splits)
    with 2(1) [OF ok(8)] ok show ?thesis by auto
  qed
qed

lemma mapped_mono:
  "hunks_ok before after b a hunks \<Longrightarrow> b \<le> i \<Longrightarrow> i < i' \<Longrightarrow>
   mapped (length before) b a hunks i = Some j \<Longrightarrow> mapped (length before) b a hunks i' = Some j' \<Longrightarrow> j < j'"
proof (induction before after b a hunks rule: hunks_ok.induct)
  case (1 before after b a)
  then show ?case by (auto split: if_splits)
next
  case (2 before after b a bs be as ae hunks)
  then have ok: "b \<le> bs" "bs \<le> be" "be \<le> length before" "a \<le> as" "as \<le> ae" "ae \<le> length after"
      "slice b bs before = slice a as after" "hunks_ok before after be ae hunks" by auto
  consider (both) "i' < bs" | (crossing) "i < bs" "\<not> i' < bs" | (later) "\<not> i < bs" using 2(4) by linarith
  then show ?case
  proof cases
    case both
    with 2 show ?thesis by auto
  next
    case crossing
    with 2(5,6) have "j = a + (i - b)" "\<not> i' < be" "mapped (length before) be ae hunks i' = Some j'"
      by (auto split: if_splits)
    moreover have "a + (i - b) < as" using slices_eq_nth [OF ok(7) _ _ 2(3) crossing(1) ok(4)] ok by simp
    moreover have "ae \<le> j'" using mapped_sound [OF ok(8), of i' j'] calculation by simp
    ultimately show ?thesis using ok by simp
  next
    case later
    with 2(4,5,6) ok have "\<not> i < be" "mapped (length before) be ae hunks i = Some j"
        "mapped (length before) be ae hunks i' = Some j'" by (auto split: if_splits)
    with 2(1) [OF ok(8)] 2(4) show ?thesis by simp
  qed
qed

lemma mapped_None:
  "hunks_ok before after b a hunks \<Longrightarrow> b \<le> i \<Longrightarrow> i < length before \<Longrightarrow>
   mapped (length before) b a hunks i = None \<longleftrightarrow> list_ex (\<lambda>(br, _). range_contains br i) hunks"
proof (induction before after b a hunks rule: hunks_ok.induct)
  case (1 before after b a)
  then show ?case by simp
next
  case (2 before after b a bs be as ae hunks)
  have later: "\<not> list_ex (\<lambda>(br, _). range_contains br i) hs" if "hunks_ok before after b' a' hs" "i < b'" for b' a' hs
    using that by (induction before after b' a' hs rule: hunks_ok.induct) (auto simp: range_contains_def)
  from 2 later [of be ae hunks] show ?case by (auto simp: range_contains_def)
qed

text \<open>Provided the hunks of the line diff are in order and separate equal lines, an unchanged line
  of the old version maps to an equal line of the new one, exactly the lines of no hunk are mapped, the
  mapping is strictly increasing, and each reported change spans exactly the bytes of its lines.\<close>

theorem source_diff_line_mapping:
  assumes "hunks_ok (source_lines before) (source_lines after) 0 0 (compute (source_lines before) (source_lines after))"
  shows "(\<forall>i j. map_before_line (diff_sources compute before after) i = Some j \<longrightarrow>
        i < length (source_lines before) \<and> j < length (source_lines after)
        \<and> source_lines after ! j = source_lines before ! i)
    \<and> (\<forall>i < length (source_lines before). map_before_line (diff_sources compute before after) i = None \<longleftrightarrow>
        list_ex (\<lambda>(br, _). range_contains br i) (compute (source_lines before) (source_lines after)))
    \<and> (\<forall>i i' j j'. i < i' \<and> map_before_line (diff_sources compute before after) i = Some j
        \<and> map_before_line (diff_sources compute before after) i' = Some j' \<longrightarrow> j < j')
    \<and> (\<forall>c \<in> set (changes (diff_sources compute before after)).
        slice (span_start (change_before c)) (span_end (change_before c)) before
          = concat (slice (fst (before_lines c)) (snd (before_lines c)) (source_lines before))
        \<and> slice (span_start (change_after c)) (span_end (change_after c)) after
          = concat (slice (fst (after_lines c)) (snd (after_lines c)) (source_lines after)))"
proof -
  let ?h = "compute (source_lines before) (source_lines after)"
  let ?bo = "line_offsets before" and ?ao = "line_offsets after"
  let ?loop = "diff_loop ?bo ?ao (length (source_lines before)) (length (source_lines after))"
  have map: "map_before_line (diff_sources compute before after) i = mapped (length (source_lines before)) 0 0 ?h i" for i
    unfolding diff_sources_def diff_interned_def by (rule map_before_line_mapped [OF assms]) simp
  have spans: "hunks_ok (source_lines before) (source_lines after) b a hs \<Longrightarrow> c \<in> set (changes (?loop b a hs)) \<Longrightarrow>
      slice (span_start (change_before c)) (span_end (change_before c)) before
          = concat (slice (fst (before_lines c)) (snd (before_lines c)) (source_lines before))
        \<and> slice (span_start (change_after c)) (span_end (change_after c)) after
          = concat (slice (fst (after_lines c)) (snd (after_lines c)) (source_lines after))" for b a hs c
    by (induction "source_lines before" "source_lines after" b a hs rule: hunks_ok.induct)
      (auto simp: Let_def lines_between)
  show ?thesis unfolding map
  proof (intro conjI)
    show "\<forall>c \<in> set (changes (diff_sources compute before after)).
        slice (span_start (change_before c)) (span_end (change_before c)) before
          = concat (slice (fst (before_lines c)) (snd (before_lines c)) (source_lines before))
        \<and> slice (span_start (change_after c)) (span_end (change_after c)) after
          = concat (slice (fst (after_lines c)) (snd (after_lines c)) (source_lines after))"
      unfolding diff_sources_def diff_interned_def using spans [OF assms] by blast
    show "\<forall>i j. mapped (length (source_lines before)) 0 0 ?h i = Some j \<longrightarrow>
        i < length (source_lines before) \<and> j < length (source_lines after)
        \<and> source_lines after ! j = source_lines before ! i"
      using mapped_sound [OF assms] by simp
    show "\<forall>i < length (source_lines before). mapped (length (source_lines before)) 0 0 ?h i = None \<longleftrightarrow>
        list_ex (\<lambda>(br, _). range_contains br i) ?h"
      using mapped_None [OF assms] by simp
    show "\<forall>i i' j j'. i < i' \<and> mapped (length (source_lines before)) 0 0 ?h i = Some j
        \<and> mapped (length (source_lines before)) 0 0 ?h i' = Some j' \<longrightarrow> j < j'"
      using mapped_mono [OF assms] by (metis zero_le)
  qed
qed

theorem source_diff_line_mapping_witness:
  "map_before_line (diff_sources (\<lambda>_ _. [((0, 1), (0, 2))])
     (''a'' @ [LF] @ ''k'') (''b'' @ [LF] @ ''c'' @ [LF] @ ''k'')) 1 = Some 2"
proof -
  let ?b = "''a'' @ [LF] @ ''k''" and ?a = "''b'' @ [LF] @ ''c'' @ [LF] @ ''k''"
  have b: "source_lines ?b = [''a'' @ [LF], ''k'']" and a: "source_lines ?a = [''b'' @ [LF], ''c'' @ [LF], ''k'']"
    by (simp_all add: source_lines_def line_offsets_eq slice_def)
  have "hunks_ok (source_lines ?b) (source_lines ?a) 0 0 [((0, 1), (0, 2))]"
    unfolding a b by (simp add: slice_def)
  from source_diff_line_mapping [where compute = "\<lambda>_ _. [((0, 1), (0, 2))]", OF this] obtain j where
      j: "map_before_line (diff_sources (\<lambda>_ _. [((0, 1), (0, 2))]) ?b ?a) 1 = Some j"
      "j < length (source_lines ?a)" "source_lines ?a ! j = source_lines ?b ! 1"
    unfolding a b by (auto simp: range_contains_def)
  then have "j = 2" unfolding a b by (auto simp: less_Suc_eq numeral_2_eq_2)
  with j(1) show ?thesis by simp
qed

text \<open>The lines of a source are the source: concatenated they give it back, the recorded
  fingerprint lines of any source pass their own validation with the source's length, and comparing two
  recorded sources never fails.\<close>

theorem fingerprint_lines_valid:
  "concat (source_lines source) = source
    \<and> fingerprints_validate (fingerprint_lines digest source) = Inr (length source)
    \<and> fingerprints (fingerprint_lines digest source) = map digest (source_lines source)
    \<and> (\<exists>d. diff_fingerprints compute (fingerprint_lines digest source) (fingerprint_lines digest other) = Inr d)"
proof -
  have valid: "fingerprints_validate (fingerprint_lines digest s) = Inr (length s)" for s
  proof -
    have "list_all (\<lambda>(a, b). a < b) (windows2 (line_offsets s))"
      using tiles_bounds [OF line_tiles] by (fastforce simp: list_all_iff)
    then show ?thesis
      using line_offsets_last [of s]
      by (simp add: fingerprints_validate_def fingerprint_lines_def length_windows2 line_offsets_eq nth_opt_def Let_def)
  qed
  moreover have "concat (source_lines source) = source"
    using lines.ranges_concat [of source source] by (simp add: source_lines_def)
  ultimately show ?thesis
    by (auto simp: diff_fingerprints_def fingerprint_lines_def source_lines_def Let_def split_beta comp_def)
qed

end
