(* ===== verification/TP_Correspondence.thy ===== *)
theory TP_Correspondence
  imports TP_Source_Diff
begin

text \<open>
  \<open>src/history/source_diff/correspondence.rs\<close>, and the callers of \<open>match_facts\<close> there and in
  \<open>fingerprints.rs\<close>: which declaration of the old version is which of the new one.  The source iterates
  over hash maps, whose order is unspecified: the parameters \<open>key_order\<close> and \<open>content_order\<close> arrange
  the keys in whatever order the iteration visits them.
\<close>

section \<open>Facts and rows\<close>

datatype declaration_relation = Unchanged | Modified | Moved | Added | Deleted | Uncertain

record declaration_correspondence =
  row_before :: "nat option"
  row_after :: "nat option"
  row_candidates :: "nat list"
  candidates_truncated :: bool
  row_relation :: declaration_relation

record ('k, 'c) match_fact =
  fact_key :: 'k
  fact_start :: nat
  fact_content :: "'c option"

text \<open>The entry of a key in \<open>group_definitions\<close>, and the keys.\<close>

definition group_of :: "('k, 'c) match_fact list \<Rightarrow> 'k \<Rightarrow> nat list" where
  "group_of facts k = filter (\<lambda>i. fact_key (facts ! i) = k) [0..<length facts]"

definition group_keys :: "('k, 'c) match_fact list \<Rightarrow> 'k list" where
  "group_keys facts = remdups (map fact_key facts)"

definition position :: "nat list \<Rightarrow> nat \<Rightarrow> nat \<times> nat" where
  "position offs start =
     (let line = partition_point (\<lambda>offset. offset \<le> start) offs - 1
      in (line, start - offs ! line))"

section \<open>Matching\<close>

type_synonym match_state = "(nat \<times> declaration_relation) option list \<times> bool list"

definition assign :: "nat \<Rightarrow> nat \<Rightarrow> declaration_relation \<Rightarrow> match_state \<Rightarrow> match_state" where
  "assign left right relation = (\<lambda>(matches, used). (matches[left := Some (right, relation)], used[right := True]))"

definition same_content :: "('k, 'c) match_fact \<Rightarrow> ('k, 'c) match_fact \<Rightarrow> bool" where
  "same_content f g =
     (case (fact_content f, fact_content g) of (Some left, Some right) \<Rightarrow> left = right | _ \<Rightarrow> False)"

text \<open>The first pass: one declaration at its mapped position.\<close>

definition positional_step :: "('k, 'c) match_fact list \<Rightarrow> ('k, 'c) match_fact list \<Rightarrow> nat list \<Rightarrow> nat list \<Rightarrow>
    source_diff \<Rightarrow> nat \<Rightarrow> match_state \<Rightarrow> match_state" where
  "positional_step before after before_offsets after_offsets diff index st =
     (let d = before ! index;
          (line, column) = position before_offsets (fact_start d)
      in if length (filter (\<lambda>f. fact_key f = fact_key d
              \<and> position before_offsets (fact_start f) = (line, column)) before) \<noteq> 1 then st
         else case map_before_line diff line of
           None \<Rightarrow> st
         | Some mapped_line \<Rightarrow>
             (case filter (\<lambda>j. fact_key (after ! j) = fact_key d
                  \<and> position after_offsets (fact_start (after ! j)) = (mapped_line, column)) [0..<length after] of
                [candidate] \<Rightarrow>
                  if \<not> snd st ! candidate
                  then assign index candidate
                    (if same_content d (after ! candidate) then Unchanged else Modified) st
                  else st
              | _ \<Rightarrow> st))"

definition content_step :: "('k, 'c) match_fact list \<Rightarrow> ('k, 'c) match_fact list \<Rightarrow> nat list \<Rightarrow> nat list \<Rightarrow>
    'c \<Rightarrow> match_state \<Rightarrow> match_state" where
  "content_step before after before_indexes after_indexes content st =
     (case (filter (\<lambda>i. fact_content (before ! i) = Some content) before_indexes,
            filter (\<lambda>j. fact_content (after ! j) = Some content) after_indexes) of
        ([left], [right]) \<Rightarrow>
          if fst st ! left = None \<and> \<not> snd st ! right then assign left right Moved st else st
      | _ \<Rightarrow> st)"

definition group_step :: "('c list \<Rightarrow> 'c list) \<Rightarrow> ('k, 'c) match_fact list \<Rightarrow> ('k, 'c) match_fact list \<Rightarrow>
    nat list \<Rightarrow> nat list \<Rightarrow> source_diff \<Rightarrow> 'k \<Rightarrow> match_state \<Rightarrow> match_state" where
  "group_step content_order before after before_offsets after_offsets diff k st =
     (let before_indexes = group_of before k; after_indexes = group_of after k
      in if after_indexes = [] then st
         else
           let st' =
                 (case (before_indexes, after_indexes) of
                    ([left], [right]) \<Rightarrow>
                      if fst st ! left = None \<and> \<not> snd st ! right
                         \<and> shares_change diff (fst (position before_offsets (fact_start (before ! left))))
                             (fst (position after_offsets (fact_start (after ! right))))
                      then assign left right Modified st else st
                  | _ \<Rightarrow> st)
           in fold (content_step before after before_indexes after_indexes)
                (content_order (remdups (List.map_filter (\<lambda>i. fact_content (before ! i)) before_indexes))) st')"

definition match_all :: "('k list \<Rightarrow> 'k list) \<Rightarrow> ('c list \<Rightarrow> 'c list) \<Rightarrow> ('k, 'c) match_fact list \<Rightarrow>
    ('k, 'c) match_fact list \<Rightarrow> nat list \<Rightarrow> nat list \<Rightarrow> source_diff \<Rightarrow> match_state" where
  "match_all key_order content_order before after before_offsets after_offsets diff =
     fold (group_step content_order before after before_offsets after_offsets diff) (key_order (group_keys before))
       (fold (positional_step before after before_offsets after_offsets diff) [0..<length before]
         (replicate (length before) None, replicate (length after) False))"

section \<open>Rows\<close>

text \<open>The entry of \<open>remaining_groups\<close>: at most 64 unmatched declarations of a key, and their number.\<close>

definition remaining :: "('k, 'c) match_fact list \<Rightarrow> bool list \<Rightarrow> 'k \<Rightarrow> nat list \<times> nat" where
  "remaining after used k =
     (let free = filter (\<lambda>j. \<not> used ! j) (group_of after k) in (take 64 free, length free))"

definition uncertain_after :: "('k, 'c) match_fact list \<Rightarrow> ('k, 'c) match_fact list \<Rightarrow> match_state \<Rightarrow> nat \<Rightarrow> bool" where
  "uncertain_after before after st index \<longleftrightarrow>
     list_ex (\<lambda>i. fst st ! i = None) (group_of before (fact_key (after ! index)))"

fun before_rows :: "('k, 'c) match_fact list \<Rightarrow> ('k, 'c) match_fact list \<Rightarrow> bool \<Rightarrow> match_state \<Rightarrow>
    nat \<Rightarrow> nat list \<Rightarrow> declaration_correspondence list" where
  "before_rows before after complete st links [] = []"
| "before_rows before after complete st links (index # indexes) =
     (case fst st ! index of
        Some (a, relation) \<Rightarrow>
          \<lparr>row_before = Some index, row_after = Some a, row_candidates = [], candidates_truncated = False,
           row_relation = relation\<rparr> # before_rows before after complete st links indexes
      | None \<Rightarrow>
          (let (candidates0, n) = remaining after (snd st) (fact_key (before ! index));
               candidates = take (min (length candidates0) links) candidates0
           in \<lparr>row_before = Some index, row_after = None, row_candidates = candidates,
               candidates_truncated = length candidates < n,
               row_relation = (if n = 0 \<and> complete then Deleted else Uncertain)\<rparr>
              # before_rows before after complete st (links - length candidates) indexes))"

definition after_rows :: "('k, 'c) match_fact list \<Rightarrow> ('k, 'c) match_fact list \<Rightarrow> bool \<Rightarrow> match_state \<Rightarrow>
    declaration_correspondence list" where
  "after_rows before after complete st =
     map (\<lambda>index. \<lparr>row_before = None, row_after = Some index, row_candidates = [], candidates_truncated = False,
        row_relation = (if complete \<and> \<not> uncertain_after before after st index then Added else Uncertain)\<rparr>)
       (filter (\<lambda>index. \<not> snd st ! index) [0..<length after])"

definition match_facts :: "('k list \<Rightarrow> 'k list) \<Rightarrow> ('c list \<Rightarrow> 'c list) \<Rightarrow> ('k, 'c) match_fact list \<Rightarrow>
    ('k, 'c) match_fact list \<Rightarrow> nat list \<Rightarrow> nat list \<Rightarrow> bool \<Rightarrow> source_diff \<Rightarrow> declaration_correspondence list" where
  "match_facts key_order content_order before after before_offsets after_offsets complete diff =
     (let st = match_all key_order content_order before after before_offsets after_offsets diff
      in before_rows before after complete st 4096 [0..<length before] @ after_rows before after complete st)"

section \<open>Callers\<close>

record definition_fact =
  def_name :: string
  def_kind :: string
  def_container :: "string option"
  def_start :: nat
  def_end :: nat

record extraction =
  ex_definitions :: "definition_fact list"
  ex_status :: string

definition declaration_key :: "definition_fact \<Rightarrow> string \<times> string \<times> string option" where
  "declaration_key d = (def_name d, def_kind d, def_container d)"

text \<open>\<open>slice::get(range)\<close> is \<open>None\<close> when the range is reversed or out of bounds.\<close>

definition declaration_content :: "bytes \<Rightarrow> definition_fact \<Rightarrow> bytes option" where
  "declaration_content source d =
     (if def_start d \<le> def_end d \<and> def_end d \<le> length source \<and> slice (def_start d) (def_end d) source \<noteq> []
      then Some (slice (def_start d) (def_end d) source) else None)"

definition declaration_fact :: "bytes \<Rightarrow> definition_fact \<Rightarrow> (string \<times> string \<times> string option, bytes) match_fact" where
  "declaration_fact source d =
     \<lparr>fact_key = declaration_key d, fact_start = def_start d, fact_content = declaration_content source d\<rparr>"

definition correspond_declarations where
  "correspond_declarations key_order content_order before after before_extraction after_extraction diff =
     match_facts key_order content_order
       (map (declaration_fact before) (ex_definitions before_extraction))
       (map (declaration_fact after) (ex_definitions after_extraction))
       (line_offsets before) (line_offsets after)
       (ex_status before_extraction = ''complete'' \<and> ex_status after_extraction = ''complete'') diff"

record 'h fingerprint_fact =
  fp_key :: 'h
  fp_span :: byte_span
  fp_fingerprint :: 'h

definition fingerprint_match_fact :: "'h fingerprint_fact \<Rightarrow> ('h, 'h) match_fact" where
  "fingerprint_match_fact f =
     \<lparr>fact_key = fp_key f, fact_start = span_start (fp_span f),
      fact_content = (if span_start (fp_span f) < span_end (fp_span f) then Some (fp_fingerprint f) else None)\<rparr>"

fun validate_facts :: "'h fingerprint_fact list \<Rightarrow> nat \<Rightarrow> unit result" where
  "validate_facts [] len = Inr ()"
| "validate_facts (f # fs) len =
     (case ByteSpan_validate (fp_span f) len of Inl e \<Rightarrow> Inl e | Inr _ \<Rightarrow> validate_facts fs len)"

definition validate_lines :: "'h fingerprint_lines_rec option \<Rightarrow> nat option result" where
  "validate_lines ls =
     (case ls of None \<Rightarrow> Inr None
      | Some f \<Rightarrow> (case fingerprints_validate f of Inl e \<Rightarrow> Inl e | Inr n \<Rightarrow> Inr (Some n)))"

definition lines_or_default :: "'h fingerprint_lines_rec option \<Rightarrow> nat list" where
  "lines_or_default ls = (case ls of None \<Rightarrow> [0] | Some f \<Rightarrow> offsets f)"

definition fingerprint_diff :: "('h list \<Rightarrow> 'h list \<Rightarrow> hunk list) \<Rightarrow> 'h fingerprint_lines_rec option \<Rightarrow>
    'h fingerprint_lines_rec option \<Rightarrow> source_diff result" where
  "fingerprint_diff compute before_ls after_ls =
     (case (before_ls, after_ls) of
        (Some b, Some a) \<Rightarrow> diff_fingerprints compute b a
      | _ \<Rightarrow> Inr SourceDiff_default)"

definition correspond_fingerprints where
  "correspond_fingerprints compute key_order content_order before after before_complete after_complete before_ls after_ls =
     (case fingerprint_diff compute before_ls after_ls of
        Inl e \<Rightarrow> Inl e
      | Inr diff \<Rightarrow>
     (case validate_lines before_ls of
        Inl e \<Rightarrow> Inl e
      | Inr before_length \<Rightarrow>
     (case validate_lines after_ls of
        Inl e \<Rightarrow> Inl e
      | Inr after_length \<Rightarrow>
     (case validate_facts before (case before_length of None \<Rightarrow> usize_max | Some n \<Rightarrow> n) of
        Inl e \<Rightarrow> Inl e
      | Inr _ \<Rightarrow>
     (case validate_facts after (case after_length of None \<Rightarrow> usize_max | Some n \<Rightarrow> n) of
        Inl e \<Rightarrow> Inl e
      | Inr _ \<Rightarrow>
          Inr (match_facts key_order content_order (map fingerprint_match_fact before) (map fingerprint_match_fact after)
            (lines_or_default before_ls) (lines_or_default after_ls) (before_complete \<and> after_complete) diff))))))"

section \<open>The matching is a partial bijection\<close>

definition relation_ok :: "('k, 'c) match_fact \<Rightarrow> ('k, 'c) match_fact \<Rightarrow> declaration_relation \<Rightarrow> bool" where
  "relation_ok f g r \<longleftrightarrow> fact_key f = fact_key g \<and> r \<in> {Unchanged, Modified, Moved}
     \<and> (r \<noteq> Modified \<longrightarrow> same_content f g)"

definition match_inv :: "('k, 'c) match_fact list \<Rightarrow> ('k, 'c) match_fact list \<Rightarrow> match_state \<Rightarrow> bool" where
  "match_inv before after st \<longleftrightarrow>
     length (fst st) = length before \<and> length (snd st) = length after
     \<and> (\<forall>i < length before. \<forall>j r. fst st ! i = Some (j, r) \<longrightarrow>
          j < length after \<and> snd st ! j \<and> relation_ok (before ! i) (after ! j) r)
     \<and> (\<forall>i < length before. \<forall>i' < length before. \<forall>j r r'.
          fst st ! i = Some (j, r) \<and> fst st ! i' = Some (j, r') \<longrightarrow> i = i')
     \<and> (\<forall>j < length after. snd st ! j \<longrightarrow> (\<exists>i < length before. \<exists>r. fst st ! i = Some (j, r)))"

lemma match_invD:
  assumes "match_inv before after st"
  shows "length (fst st) = length before" "length (snd st) = length after"
    "\<And>i j r. i < length before \<Longrightarrow> fst st ! i = Some (j, r) \<Longrightarrow>
       j < length after \<and> snd st ! j \<and> relation_ok (before ! i) (after ! j) r"
    "\<And>i i' j r r'. i < length before \<Longrightarrow> i' < length before \<Longrightarrow> fst st ! i = Some (j, r) \<Longrightarrow>
       fst st ! i' = Some (j, r') \<Longrightarrow> i = i'"
    "\<And>j. j < length after \<Longrightarrow> snd st ! j \<Longrightarrow> \<exists>i < length before. \<exists>r. fst st ! i = Some (j, r)"
  using assms unfolding match_inv_def by blast+

lemma assign_inv:
  assumes inv: "match_inv before after st" and ij: "i < length before" "j < length after"
    and free: "fst st ! i = None" "\<not> snd st ! j" and ok: "relation_ok (before ! i) (after ! j) r"
  shows "match_inv before after (assign i j r st)"
proof -
  note inv' = match_invD [OF inv]
  have m: "fst (assign i j r st) ! k = (if k = i then Some (j, r) else fst st ! k)" if "k < length before" for k
    using that inv'(1) by (simp add: assign_def split_beta nth_list_update)
  have u: "snd (assign i j r st) ! k = (k = j \<or> snd st ! k)" if "k < length after" for k
    using that inv'(2) by (cases "k = j") (simp_all add: assign_def split_beta)
  have fresh: "fst st ! k \<noteq> Some (j, r')" if "k < length before" for k r'
    using inv'(3) [OF that] free(2) by blast
  show ?thesis unfolding match_inv_def
  proof (intro conjI allI impI)
    show "length (fst (assign i j r st)) = length before" "length (snd (assign i j r st)) = length after"
      using inv'(1,2) by (simp_all add: assign_def split_beta)
  next
    fix k l q assume k: "k < length before" "fst (assign i j r st) ! k = Some (l, q)"
    then have "l < length after \<and> (l = j \<or> snd st ! l) \<and> relation_ok (before ! k) (after ! l) q"
      using m [OF k(1)] inv'(3) [OF k(1)] ij(2) ok by (cases "k = i") auto
    then show "l < length after" "snd (assign i j r st) ! l" "relation_ok (before ! k) (after ! l) q" using u by auto
  next
    fix k k' l q q'
    assume "k < length before" "k' < length before"
      "fst (assign i j r st) ! k = Some (l, q) \<and> fst (assign i j r st) ! k' = Some (l, q')"
    then show "k = k'" using m fresh inv'(4) by (metis option.inject prod.inject)
  next
    fix l assume "l < length after" "snd (assign i j r st) ! l"
    then show "\<exists>k < length before. \<exists>q. fst (assign i j r st) ! k = Some (l, q)"
      using u m inv'(5) free(1) ij(1) by (metis option.distinct(1))
  qed
qed

lemma filter_single: "filter P xs = [c] \<Longrightarrow> c \<in> set xs \<and> P c"
proof -
  assume "filter P xs = [c]"
  then have "c \<in> set (filter P xs)" by simp
  then show ?thesis by simp
qed

lemma positional_step_inv:
  assumes "match_inv before after st" and "index < length before" and "fst st ! index = None"
  shows "match_inv before after (positional_step before after bo ao diff index st)
    \<and> (\<forall>i. i \<noteq> index \<longrightarrow> fst (positional_step before after bo ao diff index st) ! i = fst st ! i)"
proof -
  obtain line column where pos: "position bo (fact_start (before ! index)) = (line, column)" by fastforce
  consider "positional_step before after bo ao diff index st = st"
    | c r where "positional_step before after bo ao diff index st = assign index c r st"
      "c < length after" "\<not> snd st ! c" "relation_ok (before ! index) (after ! c) r"
  proof (cases "map_before_line diff line")
    case None
    then have "positional_step before after bo ao diff index st = st"
      using pos by (simp add: positional_step_def Let_def)
    then show ?thesis by (rule that(1))
  next
    case (Some mapped_line)
    let ?cs = "filter (\<lambda>j. fact_key (after ! j) = fact_key (before ! index)
        \<and> position ao (fact_start (after ! j)) = (mapped_line, column)) [0..<length after]"
    show ?thesis
    proof (cases "\<exists>c. ?cs = [c]")
      case False
      then have "positional_step before after bo ao diff index st = st"
        using pos Some by (auto simp: positional_step_def Let_def split: list.splits)
      then show ?thesis by (rule that(1))
    next
      case True
      then obtain c where cs: "?cs = [c]" by blast
      from filter_single [OF this] have c: "c < length after" "fact_key (after ! c) = fact_key (before ! index)" by auto
      let ?r = "if same_content (before ! index) (after ! c) then Unchanged else Modified"
      have "positional_step before after bo ao diff index st = st
          \<or> positional_step before after bo ao diff index st = assign index c ?r st \<and> \<not> snd st ! c"
        using pos Some cs by (simp add: positional_step_def Let_def)
      then show ?thesis using that(1) that(2) [of c ?r] c by (auto simp: relation_ok_def)
    qed
  qed
  then show ?thesis
  proof cases
    case 1
    with assms show ?thesis by simp
  next
    case (2 c r)
    with assms assign_inv [OF assms(1,2) 2(2) assms(3) 2(3,4)] show ?thesis
      by (simp add: assign_def split_beta)
  qed
qed

lemma positional_fold_inv:
  "n \<le> length before \<Longrightarrow>
   match_inv before after (fold (positional_step before after bo ao diff) [0..<n]
      (replicate (length before) None, replicate (length after) False))
   \<and> (\<forall>i. n \<le> i \<and> i < length before \<longrightarrow> fst (fold (positional_step before after bo ao diff) [0..<n]
      (replicate (length before) None, replicate (length after) False)) ! i = None)"
proof (induction n)
  case 0
  then show ?case by (simp add: match_inv_def)
next
  case (Suc n)
  let ?st = "fold (positional_step before after bo ao diff) [0..<n]
      (replicate (length before) None, replicate (length after) False)"
  have ih: "match_inv before after ?st" "\<And>i. n \<le> i \<Longrightarrow> i < length before \<Longrightarrow> fst ?st ! i = None"
    using Suc by auto
  have "n < length before" "fst ?st ! n = None" using Suc.prems ih(2) by auto
  from positional_step_inv [OF ih(1) this, of bo ao diff] ih(2) show ?case by simp
qed

lemma group_of_mem: "i \<in> set (group_of facts k) \<longleftrightarrow> i < length facts \<and> fact_key (facts ! i) = k"
  by (auto simp: group_of_def)

lemma content_step_inv:
  assumes "match_inv before after st"
  shows "match_inv before after (content_step before after (group_of before k) (group_of after k) c st)"
proof -
  let ?ls = "filter (\<lambda>i. fact_content (before ! i) = Some c) (group_of before k)"
  let ?rs = "filter (\<lambda>j. fact_content (after ! j) = Some c) (group_of after k)"
  show ?thesis
  proof (cases "\<exists>l r. ?ls = [l] \<and> ?rs = [r]")
    case True
    then obtain l r where lr: "?ls = [l]" "?rs = [r]" by blast
    from filter_single [OF lr(1)] filter_single [OF lr(2)] assms lr show ?thesis
      by (simp add: content_step_def assign_inv group_of_mem relation_ok_def same_content_def)
  next
    case False
    then have "content_step before after (group_of before k) (group_of after k) c st = st"
      by (auto simp: content_step_def split: list.splits)
    with assms show ?thesis by simp
  qed
qed

lemma content_fold_inv:
  "match_inv before after st \<Longrightarrow>
   match_inv before after (fold (content_step before after (group_of before k) (group_of after k)) cs st)"
  by (induction cs arbitrary: st) (simp_all add: content_step_inv)

lemma group_step_inv:
  assumes "match_inv before after st"
  shows "match_inv before after (group_step content_order before after bo ao diff k st)"
proof -
  have "match_inv before after (case (group_of before k, group_of after k) of
      ([left], [right]) \<Rightarrow>
        if fst st ! left = None \<and> \<not> snd st ! right
           \<and> shares_change diff (fst (position bo (fact_start (before ! left)))) (fst (position ao (fact_start (after ! right))))
        then assign left right Modified st else st
    | _ \<Rightarrow> st)"
  proof (cases "\<exists>l r. group_of before k = [l] \<and> group_of after k = [r]")
    case True
    then obtain l r where lr: "group_of before k = [l]" "group_of after k = [r]" by blast
    then have "l < length before" "r < length after" "fact_key (before ! l) = fact_key (after ! r)"
      using group_of_mem [of l before k] group_of_mem [of r after k] by auto
    with assms lr show ?thesis by (simp add: assign_inv relation_ok_def)
  qed (use assms in \<open>auto split: list.splits\<close>)
  with assms show ?thesis by (simp add: group_step_def Let_def content_fold_inv)
qed

lemma match_all_inv: "match_inv before after (match_all key_order content_order before after bo ao diff)"
proof -
  have "match_inv before after st \<Longrightarrow>
      match_inv before after (fold (group_step content_order before after bo ao diff) ks st)" for ks st
    by (induction ks arbitrary: st) (simp_all add: group_step_inv)
  then show ?thesis using positional_fold_inv [of "length before" before after bo ao diff]
    by (simp add: match_all_def)
qed

section \<open>Rows account for every declaration\<close>

lemma map_filter_Cons: "List.map_filter f (x # xs) = (case f x of None \<Rightarrow> [] | Some y \<Rightarrow> [y]) @ List.map_filter f xs"
  by (simp add: map_filter_def split: option.splits)

lemma set_map_filter: "set (List.map_filter f xs) = {y. \<exists>x \<in> set xs. f x = Some y}"
  by (induction xs) (auto simp: map_filter_Cons map_filter_def split: option.splits)

lemma distinct_map_filter:
  "distinct xs \<Longrightarrow> (\<And>x y z. x \<in> set xs \<Longrightarrow> y \<in> set xs \<Longrightarrow> f x = Some z \<Longrightarrow> f y = Some z \<Longrightarrow> x = y) \<Longrightarrow>
   distinct (List.map_filter f xs)"
proof (induction xs)
  case Nil
  then show ?case by (simp add: map_filter_def)
next
  case (Cons x xs)
  then have "distinct (List.map_filter f xs)" by auto
  with Cons.prems show ?case by (fastforce simp: map_filter_Cons set_map_filter split: option.splits)
qed

lemma before_rows_before: "List.map_filter row_before (before_rows before after complete st links ns) = ns"
  by (induction ns arbitrary: links) (auto simp: map_filter_Cons map_filter_def Let_def split: option.splits prod.splits)

lemma before_rows_after:
  "List.map_filter row_after (before_rows before after complete st links ns)
     = List.map_filter (\<lambda>i. map_option fst (fst st ! i)) ns"
  by (induction ns arbitrary: links)
    (auto simp: map_filter_Cons map_filter_def Let_def split: option.splits prod.splits)

lemma after_rows_index:
  "List.map_filter row_before (after_rows before after complete st) = []"
  "List.map_filter row_after (after_rows before after complete st) = filter (\<lambda>j. \<not> snd st ! j) [0..<length after]"
  by (simp_all add: after_rows_def map_filter_def comp_def)

lemma rows_after_permutation:
  assumes "match_inv before after st"
  shows "mset (List.map_filter (\<lambda>i. map_option fst (fst st ! i)) [0..<length before]
      @ filter (\<lambda>j. \<not> snd st ! j) [0..<length after]) = mset [0..<length after]"
proof -
  let ?m = "List.map_filter (\<lambda>i. map_option fst (fst st ! i)) [0..<length before]"
  note inv = match_invD [OF assms]
  have set_m: "set ?m = {j. j < length after \<and> snd st ! j}"
    using inv(3,5) by (fastforce simp: set_map_filter)
  have "distinct ?m" using inv(4) by (intro distinct_map_filter) auto
  then have "distinct (?m @ filter (\<lambda>j. \<not> snd st ! j) [0..<length after])"
    unfolding distinct_append set_m by auto
  moreover have "set (?m @ filter (\<lambda>j. \<not> snd st ! j) [0..<length after]) = set [0..<length after]"
    unfolding set_append set_m by auto
  ultimately show ?thesis
    using set_eq_iff_mset_eq_distinct [OF _ distinct_upt] by blast
qed

lemma before_rows_pairs:
  "row \<in> set (before_rows before after complete st links ns) \<Longrightarrow> row_after row = Some j \<Longrightarrow>
   \<exists>i \<in> set ns. row_before row = Some i \<and> fst st ! i = Some (j, row_relation row)"
  by (induction ns arbitrary: links) (auto simp: Let_def split: option.splits prod.splits)

text \<open>C30. Whatever order the hash maps are visited in, the rows mention every old declaration exactly
  once, in order, and every new declaration exactly once; a row that pairs two declarations pairs equal
  keys, and one reported unchanged or moved has equal content on both sides.\<close>

theorem correspondence_rows_complete:
  "List.map_filter row_before (match_facts key_order content_order before after bo ao complete diff) = [0..<length before]
    \<and> mset (List.map_filter row_after (match_facts key_order content_order before after bo ao complete diff))
        = mset [0..<length after]
    \<and> list_all (\<lambda>row. case (row_before row, row_after row) of
         (Some i, Some j) \<Rightarrow> fact_key (before ! i) = fact_key (after ! j)
           \<and> row_relation row \<in> {Unchanged, Modified, Moved}
           \<and> (row_relation row = Modified \<or> same_content (before ! i) (after ! j))
       | _ \<Rightarrow> True) (match_facts key_order content_order before after bo ao complete diff)"
proof -
  let ?st = "match_all key_order content_order before after bo ao diff"
  have inv: "match_inv before after ?st" by (rule match_all_inv)
  have pair: "fact_key (before ! i) = fact_key (after ! j) \<and> row_relation row \<in> {Unchanged, Modified, Moved}
      \<and> (row_relation row = Modified \<or> same_content (before ! i) (after ! j))"
    if row: "row \<in> set (match_facts key_order content_order before after bo ao complete diff)"
      and ij: "row_before row = Some i" "row_after row = Some j" for row i j
  proof -
    from row ij have "row \<in> set (before_rows before after complete ?st 4096 [0..<length before])"
      by (auto simp: match_facts_def Let_def after_rows_def)
    from before_rows_pairs [OF this ij(2)] ij(1) have "i < length before" "fst ?st ! i = Some (j, row_relation row)"
      by auto
    with match_invD(3) [OF inv] show ?thesis unfolding relation_ok_def by blast
  qed
  have "List.map_filter row_before (match_facts key_order content_order before after bo ao complete diff) = [0..<length before]"
    by (simp add: match_facts_def Let_def map_filter_append before_rows_before after_rows_index)
  moreover have "mset (List.map_filter row_after (match_facts key_order content_order before after bo ao complete diff))
      = mset [0..<length after]"
    unfolding match_facts_def Let_def map_filter_append before_rows_after after_rows_index
    by (rule rows_after_permutation [OF inv])
  ultimately show ?thesis using pair by (simp add: list_all_iff split: option.splits)
qed

section \<open>Definitive rows and candidates\<close>

lemma remaining_spec:
  assumes "remaining after used k = (cs, n)"
  shows "length cs \<le> 64" and "length cs \<le> n"
    and "\<And>j. j \<in> set cs \<Longrightarrow> j < length after \<and> \<not> used ! j \<and> fact_key (after ! j) = k"
    and "n = 0 \<Longrightarrow> j < length after \<Longrightarrow> fact_key (after ! j) = k \<Longrightarrow> used ! j"
proof -
  have cs: "cs = take 64 (filter (\<lambda>j. \<not> used ! j) (group_of after k))"
    and n: "n = length (filter (\<lambda>j. \<not> used ! j) (group_of after k))"
    using assms by (auto simp: remaining_def Let_def)
  then show "length cs \<le> 64" "length cs \<le> n" by auto
  show "j \<in> set cs \<Longrightarrow> j < length after \<and> \<not> used ! j \<and> fact_key (after ! j) = k" for j
    using cs by (auto simp: group_of_mem dest!: in_set_takeD)
  show "n = 0 \<Longrightarrow> j < length after \<Longrightarrow> fact_key (after ! j) = k \<Longrightarrow> used ! j"
    using n by (auto simp: filter_empty_conv group_of_mem)
qed

lemma before_rows_candidates:
  "sum_list (map (\<lambda>row. length (row_candidates row)) (before_rows before after complete st links ns)) \<le> links"
proof (induction ns arbitrary: links)
  case Nil
  then show ?case by simp
next
  case (Cons n ns)
  show ?case
  proof (cases "fst st ! n")
    case None
    obtain cs m where r: "remaining after (snd st) (fact_key (before ! n)) = (cs, m)" by fastforce
    have "length (take (min (length cs) links) cs) \<le> links" by simp
    with Cons [of "links - length (take (min (length cs) links) cs)"] None r show ?thesis
      by (simp add: Let_def)
  next
    case (Some p)
    with Cons show ?thesis by (cases p) simp
  qed
qed

definition unmatched_row :: "('k, 'c) match_fact list \<Rightarrow> ('k, 'c) match_fact list \<Rightarrow> bool \<Rightarrow> match_state \<Rightarrow>
    declaration_correspondence \<Rightarrow> nat \<Rightarrow> bool" where
  "unmatched_row before after complete st row i \<longleftrightarrow> row_before row = Some i \<and> fst st ! i = None
     \<and> (case remaining after (snd st) (fact_key (before ! i)) of (cs, m) \<Rightarrow>
          (\<exists>n. row_candidates row = take n cs)
          \<and> candidates_truncated row = (length (row_candidates row) < m)
          \<and> row_relation row = (if m = 0 \<and> complete then Deleted else Uncertain))"

lemma before_rows_unmatched:
  assumes "row_after row = None"
  shows "row \<in> set (before_rows before after complete st links ns) \<Longrightarrow>
    \<exists>i \<in> set ns. unmatched_row before after complete st row i"
proof (induction ns arbitrary: links)
  case Nil
  then show ?case by simp
next
  case (Cons n ns)
  obtain cs m where r: "remaining after (snd st) (fact_key (before ! n)) = (cs, m)" by fastforce
  show ?case
  proof (cases "fst st ! n")
    case None
    with Cons.prems r consider "row \<in> set (before_rows before after complete st
          (links - length (take (min (length cs) links) cs)) ns)"
      | "row = \<lparr>row_before = Some n, row_after = None, row_candidates = take (min (length cs) links) cs,
          candidates_truncated = length (take (min (length cs) links) cs) < m,
          row_relation = (if m = 0 \<and> complete then Deleted else Uncertain)\<rparr>"
      by (auto simp: Let_def)
    then show ?thesis
    proof cases
      case 1
      from Cons.IH [OF this] show ?thesis by auto
    next
      case 2
      with None r have "unmatched_row before after complete st row n" by (auto simp: unmatched_row_def)
      then show ?thesis by simp
    qed
  next
    case (Some p)
    with Cons.prems assms have "row \<in> set (before_rows before after complete st links ns)" by (cases p) auto
    from Cons.IH [OF this] show ?thesis by auto
  qed
qed

text \<open>A new declaration that no row pairs with an old one.\<close>

definition unpaired_after :: "declaration_correspondence list \<Rightarrow> nat \<Rightarrow> bool" where
  "unpaired_after rows j \<longleftrightarrow> \<not> list_ex (\<lambda>row. row_before row \<noteq> None \<and> row_after row = Some j) rows"

definition unpaired_before :: "declaration_correspondence list \<Rightarrow> nat \<Rightarrow> bool" where
  "unpaired_before rows i \<longleftrightarrow> \<not> list_ex (\<lambda>row. row_before row = Some i \<and> row_after row \<noteq> None) rows"

lemma before_rows_pair_candidates:
  "row \<in> set (before_rows before after complete st links ns) \<Longrightarrow> row_after row = Some j \<Longrightarrow> row_candidates row = []"
  by (induction ns arbitrary: links) (auto simp: Let_def split: option.splits prod.splits)

lemma before_rows_matched:
  "i \<in> set ns \<Longrightarrow> fst st ! i = Some (j, r) \<Longrightarrow>
   \<exists>row \<in> set (before_rows before after complete st links ns). row_before row = Some i \<and> row_after row = Some j"
proof (induction ns arbitrary: links)
  case Nil
  then show ?case by simp
next
  case (Cons n ns)
  obtain cs m where r: "remaining after (snd st) (fact_key (before ! n)) = (cs, m)" by fastforce
  show ?case
  proof (cases "i = n")
    case True
    with Cons.prems show ?thesis by simp
  next
    case False
    then have "\<exists>row \<in> set (before_rows before after complete st links' ns). row_before row = Some i \<and> row_after row = Some j"
      for links' using Cons by auto
    with r show ?thesis by (cases "fst st ! n") (simp_all add: Let_def split_beta)
  qed
qed

lemma unpaired_iff:
  assumes inv: "match_inv before after st"
    and rows: "rows = before_rows before after complete st 4096 [0..<length before] @ after_rows before after complete st"
  shows "j < length after \<Longrightarrow> unpaired_after rows j \<longleftrightarrow> \<not> snd st ! j"
    and "i < length before \<Longrightarrow> unpaired_before rows i \<longleftrightarrow> fst st ! i = None"
proof -
  have after: "row_before row = None" if "row \<in> set (after_rows before after complete st)" for row
    using that by (auto simp: after_rows_def)
  have paired: "\<exists>i < length before. row_before row = Some i \<and> fst st ! i = Some (j, row_relation row)"
    if "row \<in> set rows" "row_before row \<noteq> None" "row_after row = Some j" for row j
    using that after before_rows_pairs [of row before after complete st 4096 "[0..<length before]" j]
    unfolding rows by fastforce
  have matched: "\<exists>row \<in> set rows. row_before row = Some i \<and> row_after row = Some j"
    if "i < length before" "fst st ! i = Some (j, r)" for i j r
    using before_rows_matched [of i "[0..<length before]" st j r before after complete 4096] that
    unfolding rows by auto
  show "unpaired_after rows j \<longleftrightarrow> \<not> snd st ! j" if j: "j < length after"
  proof
    assume free: "unpaired_after rows j"
    show "\<not> snd st ! j"
    proof
      assume "snd st ! j"
      with match_invD(5) [OF inv j] obtain i r where "i < length before" "fst st ! i = Some (j, r)" by blast
      from matched [OF this] free show False by (auto simp: unpaired_after_def list_ex_iff)
    qed
  next
    assume "\<not> snd st ! j"
    then show "unpaired_after rows j"
      using paired match_invD(3) [OF inv] unfolding unpaired_after_def list_ex_iff by blast
  qed
  show "unpaired_before rows i \<longleftrightarrow> fst st ! i = None" if i: "i < length before"
  proof
    assume "unpaired_before rows i"
    then show "fst st ! i = None"
      using matched [OF i] unfolding unpaired_before_def list_ex_iff by (cases "fst st ! i") auto
  next
    assume "fst st ! i = None"
    then show "unpaired_before rows i"
      using paired unfolding unpaired_before_def list_ex_iff by fastforce
  qed
qed

text \<open>C31. A declaration is reported deleted or added only when both extractions are complete and no
  unpaired declaration of the same key is left on the other side; every candidate offered for an
  unpaired old declaration is an unpaired new one of the same key, a row offers at most 64, all rows
  together at most 4096.\<close>

theorem correspondence_rows_conservative:
  assumes "rows = match_facts key_order content_order before after bo ao complete diff" and "row \<in> set rows"
  shows "(row_relation row = Deleted \<longrightarrow> complete \<and> (\<exists>i. row_before row = Some i \<and> row_after row = None
        \<and> (\<forall>j < length after. fact_key (after ! j) = fact_key (before ! i) \<longrightarrow> \<not> unpaired_after rows j)))
    \<and> (row_relation row = Added \<longrightarrow> complete \<and> (\<exists>j. row_after row = Some j \<and> row_before row = None
        \<and> (\<forall>i < length before. fact_key (before ! i) = fact_key (after ! j) \<longrightarrow> \<not> unpaired_before rows i)))
    \<and> (\<forall>c \<in> set (row_candidates row). c < length after \<and> unpaired_after rows c
        \<and> (\<exists>i. row_before row = Some i \<and> fact_key (before ! i) = fact_key (after ! c)))
    \<and> length (row_candidates row) \<le> 64
    \<and> sum_list (map (\<lambda>row. length (row_candidates row)) rows) \<le> 4096"
proof -
  define st where "st = match_all key_order content_order before after bo ao diff"
  have inv: "match_inv before after st" unfolding st_def by (rule match_all_inv)
  have rows: "rows = before_rows before after complete st 4096 [0..<length before] @ after_rows before after complete st"
    using assms(1) by (simp add: match_facts_def st_def Let_def)
  note unpaired = unpaired_iff [OF inv rows]
  have total: "sum_list (map (\<lambda>row. length (row_candidates row)) rows) \<le> 4096"
    using before_rows_candidates [of before after complete st 4096 "[0..<length before]"]
    by (simp add: rows after_rows_def comp_def)
  consider (after) "row \<in> set (after_rows before after complete st)"
    | (pair) j where "row \<in> set (before_rows before after complete st 4096 [0..<length before])" "row_after row = Some j"
    | (unmatched) i where "i < length before" "row_after row = None" "unmatched_row before after complete st row i"
    using assms(2) before_rows_unmatched [of row before after complete st 4096 "[0..<length before]"]
    unfolding rows by (cases "row_after row") auto
  then show ?thesis
  proof cases
    case after
    then obtain j where j: "j < length after" "row_after row = Some j" "row_before row = None" "row_candidates row = []"
        "row_relation row = (if complete \<and> \<not> uncertain_after before after st j then Added else Uncertain)"
      by (auto simp: after_rows_def)
    have "\<not> unpaired_before rows i" if "\<not> uncertain_after before after st j" "i < length before"
        "fact_key (before ! i) = fact_key (after ! j)" for i
      using that unpaired(2) by (auto simp: uncertain_after_def list_ex_iff group_of_mem)
    with j total show ?thesis by (auto split: if_splits)
  next
    case (pair j)
    have "row_candidates row = []" by (rule before_rows_pair_candidates [OF pair])
    then show ?thesis using before_rows_pairs [OF pair] match_invD(3) [OF inv] total
      by (fastforce simp: relation_ok_def)
  next
    case (unmatched i)
    obtain cs m where r: "remaining after (snd st) (fact_key (before ! i)) = (cs, m)" by fastforce
    note spec = remaining_spec [OF r]
    from unmatched(3) r obtain n where row: "row_before row = Some i" "row_candidates row = take n cs"
        "row_relation row = (if m = 0 \<and> complete then Deleted else Uncertain)"
      by (auto simp: unmatched_row_def)
    have "\<forall>c \<in> set (row_candidates row). c < length after \<and> unpaired_after rows c \<and> fact_key (after ! c) = fact_key (before ! i)"
      using spec(3) unpaired(1) row(2) by (auto dest: in_set_takeD)
    moreover have "length (row_candidates row) \<le> 64" using row(2) spec(1) by simp
    moreover have "\<not> unpaired_after rows j" if "m = 0" "j < length after" "fact_key (after ! j) = fact_key (before ! i)" for j
      using spec(4) [OF that] unpaired(1) that(2) by simp
    ultimately show ?thesis using row unmatched(2) total by (auto split: if_splits)
  qed
qed

theorem correspondence_rows_conservative_witness:
  "\<exists>row \<in> set (match_facts id id [] [\<lparr>fact_key = ''f'', fact_start = 0, fact_content = Some ''x''\<rparr>] [0] [0] True
      SourceDiff_default). row_relation row = Added \<and> length (row_candidates row) \<le> 64"
proof -
  let ?after = "[\<lparr>fact_key = ''f'', fact_start = 0, fact_content = Some ''x''\<rparr>]"
  let ?row = "\<lparr>row_before = None, row_after = Some 0, row_candidates = [], candidates_truncated = False,
      row_relation = Added\<rparr>"
  have row: "?row \<in> set (match_facts id id [] ?after [0] [0] True SourceDiff_default)"
    by (simp add: match_facts_def match_all_def group_keys_def after_rows_def uncertain_after_def group_of_def)
  from correspondence_rows_conservative [OF refl row] have "length (row_candidates ?row) \<le> 64" by blast
  with row show ?thesis by (intro bexI [of _ ?row]) simp_all
qed

end
