(* ===== verification/TP_Results.thy ===== *)
theory TP_Results
  imports TP_Paths TP_Identity
begin

text \<open>
  \<open>src/results.rs\<close>, \<open>src/results/entries.rs\<close>, \<open>src/results/lines.rs\<close>, \<open>src/output/lines.rs\<close> and
  \<open>reference_summary\<close> of \<open>src/search/navigation/reference_sites.rs\<close>: result entries and how a page shows
  them.  A \<open>serde_json::Value\<close> is \<open>json\<close>; its text form is produced by the library (a parameter where it
  matters).  The derived serialisation of a whole entry is the parameter \<open>entry_value\<close>.
\<close>

section \<open>JSON values\<close>

datatype json = JNull | JBool bool | JNum int | JStr string | JArr "json list" | JObj "(string \<times> json) list"

definition MAX_HITS :: nat where "MAX_HITS = 10000"

definition json_get :: "string \<Rightarrow> json \<Rightarrow> json" where
  "json_get key v = (case v of JObj kvs \<Rightarrow> (case map_of kvs key of Some w \<Rightarrow> w | None \<Rightarrow> JNull) | _ \<Rightarrow> JNull)"

text \<open>Assigning to a key of a JSON object; indexing it mutably inserts a missing key with \<open>null\<close>, and turns
  a \<open>null\<close> into an object.  Objects keep the order of
  insertion (the \<open>preserve_order\<close> feature).  The values assigned to are objects, so the indexing panics of others cannot occur.\<close>

definition json_set :: "string \<Rightarrow> json \<Rightarrow> json \<Rightarrow> json" where
  "json_set key w v =
     (case v of
        JObj kvs \<Rightarrow> if map_of kvs key = None then JObj (kvs @ [(key, w)])
          else JObj (map (\<lambda>(k, x). if k = key then (k, w) else (k, x)) kvs)
      | JNull \<Rightarrow> JObj [(key, w)]
      | _ \<Rightarrow> v)"

lemma json_get_set [simp]: "json_get k (json_set k' v (JObj kvs)) = (if k = k' then v else json_get k (JObj kvs))"
proof -
  have "map_of (map (\<lambda>(k, x). if k = k' then (k, v) else (k, x)) l) k = (if k = k' \<and> map_of l k \<noteq> None then Some v else map_of l k)"
    for l :: "(string \<times> json) list"
    by (induction l) auto
  then show ?thesis by (auto simp: json_get_def json_set_def map_add_def split: option.splits)
qed

lemma json_set_obj: "\<exists>kvs'. json_set k v (JObj kvs) = JObj kvs'"
  by (simp add: json_set_def)

definition json_has :: "string \<Rightarrow> json \<Rightarrow> bool" where
  "json_has key v = (case v of JObj kvs \<Rightarrow> map_of kvs key \<noteq> None | _ \<Rightarrow> False)"

definition as_u64 :: "json \<Rightarrow> nat option" where
  "as_u64 v = (case v of JNum n \<Rightarrow> if 0 \<le> n then Some (nat n) else None | _ \<Rightarrow> None)"

definition as_str :: "json \<Rightarrow> string option" where
  "as_str v = (case v of JStr s \<Rightarrow> Some s | _ \<Rightarrow> None)"

section \<open>Entries\<close>

record definition_target =
  dt_path :: string
  dt_revision :: string
  dt_start :: nat
  dt_end :: nat
  dt_name :: string

record snippet_text =
  snip_line :: nat
  snip_text :: string

record hit =
  hit_handle :: string
  hit_path :: string
  hit_revision :: "string option"
  hit_start :: nat
  hit_end :: nat
  hit_start_line :: nat
  hit_end_line :: nat
  hit_name :: string
  hit_kind :: string
  hit_container :: "string option"
  hit_provenance :: "string option"
  hit_resolution :: "string option"
  hit_candidates :: "definition_target list"
  hit_target :: "definition_target option"
  hit_snippet :: "snippet_text option"
  hit_repeats :: "nat option"

record historical_source =
  hs_repository :: string
  hs_commit :: git_oid
  hs_blob :: git_oid
  hs_revision :: string
  hs_path :: string
  hs_span :: byte_span

record commit_entry =
  ce_handle :: string
  ce_repository :: string
  ce_commit :: git_oid
  ce_parent :: "git_oid option"
  ce_summary :: string
  ce_committer_time :: int

record change_entry =
  ch_handle :: string
  ch_name :: string
  ch_status :: string
  ch_before :: "historical_source option"
  ch_after :: "historical_source option"
  ch_correspondence :: string

datatype result_entry = LiveSource hit | Commit commit_entry | Change change_entry

record stored_result_set =
  rs_generation :: int
  rs_coverage :: json
  rs_truncated :: bool
  rs_hits :: "result_entry list"

fun entry_handle :: "result_entry \<Rightarrow> string" where
  "entry_handle (LiveSource h) = hit_handle h"
| "entry_handle (Commit c) = ce_handle c"
| "entry_handle (Change c) = ch_handle c"

text \<open>Assignment through \<open>handle_mut\<close>.\<close>

fun set_entry_handle :: "string \<Rightarrow> result_entry \<Rightarrow> result_entry" where
  "set_entry_handle s (LiveSource h) = LiveSource (h\<lparr>hit_handle := s\<rparr>)"
| "set_entry_handle s (Commit c) = Commit (c\<lparr>ce_handle := s\<rparr>)"
| "set_entry_handle s (Change c) = Change (c\<lparr>ch_handle := s\<rparr>)"

lemma entry_handle_set [simp]: "entry_handle (set_entry_handle s e) = s"
  by (cases e) simp_all

section \<open>File URIs\<close>

text \<open>\<open>Path::components\<close>: separators repeat freely, a \<open>.\<close> counts only in front.\<close>

datatype path_component = RootDir | CurDir | ParentDir | Normal bytes

fun component_of :: "bool \<Rightarrow> bytes \<Rightarrow> path_component list" where
  "component_of first part =
     (if part = [] then []
      else if part = ''.'' then (if first then [CurDir] else [])
      else if part = ''..'' then [ParentDir]
      else [Normal part])"

definition path_components :: "bytes \<Rightarrow> path_component list" where
  "path_components p =
     (let parts = split_char (CHR ''/'') p; absolute = prefix ''/'' p
      in (if absolute then [RootDir] else [])
         @ concat (map (\<lambda>(i, part). component_of (i = 0 \<and> \<not> absolute) part) (enumerate 0 parts)))"

definition path_is_relative :: "bytes \<Rightarrow> bool" where
  "path_is_relative p \<longleftrightarrow> \<not> prefix ''/'' p"

text \<open>\<open>Path::join\<close> of a relative path.\<close>

definition path_join :: "bytes \<Rightarrow> bytes \<Rightarrow> bytes" where
  "path_join root p = (if root = [] \<or> suffix ''/'' root then root @ p else root @ ''/'' @ p)"

definition escape_uri :: "string \<Rightarrow> string" where
  "escape_uri s = concat (map (\<lambda>c. if c = CHR ''?'' then ''%3F'' else if c = CHR ''#'' then ''%23'' else [c]) s)"

definition is_normal :: "path_component \<Rightarrow> bool" where
  "is_normal c = (case c of Normal _ \<Rightarrow> True | _ \<Rightarrow> False)"

definition file_uri :: "bytes \<Rightarrow> string \<Rightarrow> string result" where
  "file_uri root relative =
     (case decode_path relative of
        Inl e \<Rightarrow> Inl e
      | Inr p \<Rightarrow>
          if \<not> path_is_relative p then Inl ''result_unavailable: stored path is absolute''
          else if \<not> list_all is_normal (path_components p)
          then Inl ''result_unavailable: stored path escapes repository root''
          else Inr (''file://'' @ escape_uri (encode_path (path_join root p))))"

section \<open>Compact rendering\<close>

record hit_detail =
  detail_names :: bool
  detail_snippets :: bool

definition COMPACT_NAME_LIMIT :: nat where "COMPACT_NAME_LIMIT = 96"

text \<open>\<open>str::chars().count()\<close> of UTF-8 text: the bytes that start a character.\<close>

definition char_count :: "string \<Rightarrow> nat" where
  "char_count s = length (filter (\<lambda>c. byte c div 64 \<noteq> 2) s)"

definition concise_name :: "string \<Rightarrow> bool" where
  "concise_name name \<longleftrightarrow> name \<noteq> [] \<and> char_count name \<le> COMPACT_NAME_LIMIT"

definition compact_target :: "bytes \<Rightarrow> bool \<Rightarrow> definition_target \<Rightarrow> json result" where
  "compact_target root names t =
     map_sum id (\<lambda>uri. JObj ([(''file'', JStr uri), (''start'', JNum (int (dt_start t))), (''end'', JNum (int (dt_end t)))]
        @ (if names \<and> concise_name (dt_name t) then [(''name'', JStr (dt_name t))] else [])))
       (file_uri root (dt_path t))"

fun collect_values :: "json result list \<Rightarrow> json list result" where
  "collect_values [] = Inr []"
| "collect_values (Inl e # rs) = Inl e"
| "collect_values (Inr x # rs) = map_sum id (Cons x) (collect_values rs)"

definition compact_hit :: "bytes \<Rightarrow> string option \<Rightarrow> hit_detail \<Rightarrow> hit \<Rightarrow> json result" where
  "compact_hit root mem detail h =
     (case file_uri root (hit_path h) of
        Inl e \<Rightarrow> Inl e
      | Inr uri \<Rightarrow>
     (case (case hit_target h of None \<Rightarrow> Inr []
            | Some t \<Rightarrow> map_sum id (\<lambda>v. [(''target'', v)]) (compact_target root (detail_names detail) t)) of
        Inl e \<Rightarrow> Inl e
      | Inr target \<Rightarrow>
     (case (if hit_candidates h = [] then Inr []
            else map_sum id (\<lambda>vs. [(''candidates'', JArr vs)])
              (collect_values (map (compact_target root (detail_names detail)) (hit_candidates h)))) of
        Inl e \<Rightarrow> Inl e
      | Inr candidates \<Rightarrow>
          Inr (JObj (
            (if hit_handle h \<noteq> [] then [(''handle'', JStr (hit_handle h))] else [])
            @ (case mem of Some m \<Rightarrow> [(''member'', JStr m)] | None \<Rightarrow> [])
            @ [(''file'', JStr uri), (''start_line'', JNum (int (hit_start_line h))), (''end_line'', JNum (int (hit_end_line h)))]
            @ (if detail_names detail \<and> concise_name (hit_name h) then [(''name'', JStr (hit_name h))] else [])
            @ (case hit_snippet h of
                 Some s \<Rightarrow> if detail_snippets detail
                   then [(''snippet'', JObj [(''line'', JNum (int (snip_line s))), (''text'', JStr (snip_text s))])] else []
               | None \<Rightarrow> [])
            @ (case hit_resolution h of Some r \<Rightarrow> [(''resolution'', JStr r)] | None \<Rightarrow> [])
            @ (case hit_repeats h of Some n \<Rightarrow> [(''repeats'', JNum (int n))] | None \<Rightarrow> [])
            @ target @ candidates)))))"

definition compact_entry_for_page ::
    "(result_entry \<Rightarrow> json) \<Rightarrow> bytes \<Rightarrow> string option \<Rightarrow> hit_detail \<Rightarrow> bool \<Rightarrow> result_entry \<Rightarrow> json result" where
  "compact_entry_for_page entry_value root mem detail compact_live entry =
     (case entry of
        LiveSource h \<Rightarrow> if compact_live then compact_hit root mem detail h else Inr (entry_value entry)
      | _ \<Rightarrow> Inr (entry_value entry))"

definition compact_entry where
  "compact_entry entry_value root mem detail entry = compact_entry_for_page entry_value root mem detail True entry"

section \<open>Lines rendering\<close>

definition COVERAGE_KEY :: string where "COVERAGE_KEY = ''coverage: ''"
definition NEXT_KEY :: string where "NEXT_KEY = ''next: ''"
definition HINT_KEY :: string where "HINT_KEY = ''hint: ''"
definition TRUNCATED_LINE :: string where "TRUNCATED_LINE = ''truncated: true''"
definition PAGE_SIZE_HINT :: string where "PAGE_SIZE_HINT = ''-n N raises the page size''"
definition PAGE_BUDGET_HINT :: string where "PAGE_BUDGET_HINT = ''-b N raises the token budget''"

record next_command =
  nc_verb :: string
  nc_cursor :: string
  nc_hint :: "string option"

definition footer :: "next_command option \<Rightarrow> bool \<Rightarrow> string" where
  "footer nxt truncated =
     (case nxt of
        None \<Rightarrow> []
      | Some n \<Rightarrow> NEXT_KEY @ nc_verb n @ '' '' @ nc_cursor n @ [LF]
          @ (case nc_hint n of None \<Rightarrow> [] | Some h \<Rightarrow> HINT_KEY @ h @ [LF]))
     @ (if truncated then TRUNCATED_LINE @ [LF] else [])"

text \<open>\<open>str::lines\<close>: a final newline ends the last line, and a carriage return before a newline is dropped.\<close>

definition strip_cr :: "string \<Rightarrow> string" where
  "strip_cr l = (case strip_suffix [CHR 0x0D] l of Some r \<Rightarrow> r | None \<Rightarrow> l)"

definition str_lines :: "string \<Rightarrow> string list" where
  "str_lines s = (let ps = split_char LF s
     in map strip_cr (butlast ps) @ (if last ps = [] then [] else [last ps]))"

text \<open>The bytes of the multiplication sign in UTF-8.\<close>

definition TIMES_SIGN :: string where "TIMES_SIGN = [CHR 0xC3, CHR 0x97]"

definition hit_line :: "string \<Rightarrow> hit_detail \<Rightarrow> hit \<Rightarrow> string" where
  "hit_line pre detail h =
     (let previewed = detail_snippets detail \<and> hit_snippet h \<noteq> None \<and> hit_provenance h = Some ''live_regex''
      in hit_handle h @ [TAB] @ pre @ hit_path h @ '':'' @ show_nat (hit_start_line h) @ ''-'' @ show_nat (hit_end_line h)
         @ (if detail_names detail \<and> concise_name (hit_name h) \<and> hit_name h \<noteq> hit_path h \<and> \<not> previewed
            then [TAB] @ hit_name h else [])
         @ (case hit_resolution h of Some r \<Rightarrow> [TAB] @ ''resolution='' @ r | None \<Rightarrow> [])
         @ (case hit_repeats h of Some n \<Rightarrow> [TAB] @ TIMES_SIGN @ show_nat n | None \<Rightarrow> []))"

definition entry_line :: "string option \<Rightarrow> hit_detail \<Rightarrow> result_entry \<Rightarrow> string" where
  "entry_line mem detail entry =
     (let pre = (case mem of Some m \<Rightarrow> m @ ''/'' | None \<Rightarrow> [])
      in case entry of
           LiveSource h \<Rightarrow> hit_line pre detail h
             @ (case hit_snippet h of
                  Some s \<Rightarrow> if detail_snippets detail
                    then [LF] @ ''  '' @ show_nat (snip_line s) @ '': '' @ snip_text s else []
                | None \<Rightarrow> [])
         | Commit c \<Rightarrow> ce_handle c @ [TAB] @ ''commit:'' @ GitOid_as_str (ce_commit c) @ [TAB]
             @ (case str_lines (ce_summary c) of [] \<Rightarrow> [] | l # _ \<Rightarrow> l)
         | Change c \<Rightarrow> ch_handle c @ [TAB] @ ''change:'' @ ch_status c @ [TAB] @ pre
             @ (case ch_after c of Some s \<Rightarrow> hs_path s
                | None \<Rightarrow> (case ch_before c of Some s \<Rightarrow> hs_path s | None \<Rightarrow> []))
             @ [TAB] @ ch_name c)"

definition page_text :: "(string option \<times> result_entry) list \<Rightarrow> hit_detail \<Rightarrow> string \<Rightarrow> next_command option \<Rightarrow> bool \<Rightarrow> string" where
  "page_text entries detail coverage nxt truncated =
     concat (map (\<lambda>(mem, entry). entry_line mem detail entry @ [LF]) entries)
     @ COVERAGE_KEY @ coverage @ [LF] @ footer nxt truncated"

definition next_cursor :: "string \<Rightarrow> nat \<Rightarrow> nat \<Rightarrow> nat \<Rightarrow> string option" where
  "next_cursor ident offset n tot =
     (if offset + n < tot then Some (ident @ ''@'' @ show_nat (offset + n)) else None)"

definition more_command :: "string \<Rightarrow> nat \<Rightarrow> nat \<Rightarrow> nat \<Rightarrow> next_command" where
  "more_command cursor offset n limit =
     \<lparr>nc_verb = ''more'', nc_cursor = cursor,
      nc_hint = (if offset = 0 then Some (if n \<ge> limit then PAGE_SIZE_HINT else PAGE_BUDGET_HINT) else None)\<rparr>"

definition emitted_handles :: "(string \<Rightarrow> 'u option) \<Rightarrow> string \<Rightarrow> string list" where
  "emitted_handles parse_uuid txt =
     List.map_filter (\<lambda>line. let handle = hd (split_char TAB line)
         in case ResultHandle_parse parse_uuid handle of Inl _ \<Rightarrow> None | Inr _ \<Rightarrow> Some handle)
       (takeWhile (\<lambda>line. \<not> prefix COVERAGE_KEY line) (str_lines txt))"

section \<open>Coverage summary\<close>

definition unconfigured :: "string option \<Rightarrow> bool" where
  "unconfigured reason =
     (case reason of None \<Rightarrow> False
      | Some r \<Rightarrow> contains_sub ''model_dir'' r \<or> contains_sub ''not configured'' r)"

definition reference_summary :: "json \<Rightarrow> string option" where
  "reference_summary coverage =
     (case as_u64 (json_get ''reference_sites'' coverage) of
        None \<Rightarrow> None
      | Some sites \<Rightarrow>
          (let files = (case as_u64 (json_get ''reference_files'' coverage) of Some n \<Rightarrow> n | None \<Rightarrow> 0);
               more = (if json_get ''reference_sites_truncated'' coverage = JBool True then ''+'' else []);
               plural = (\<lambda>n :: nat. if n = 1 then [] else ''s'')
           in Some (''refs '' @ show_nat sites @ more @ '' site'' @ plural sites @ '' in '' @ show_nat files
                @ '' file'' @ plural files)))"

definition single_repo_coverage :: "json \<Rightarrow> string" where
  "single_repo_coverage coverage =
     (let cnt = (\<lambda>key. case as_u64 (json_get key coverage) of Some n \<Rightarrow> n | None \<Rightarrow> 0);
          lane = (\<lambda>(label, key, reason). case as_str (json_get key coverage) of
             Some status \<Rightarrow> if status \<noteq> ''ready'' \<and> \<not> unconfigured (as_str (json_get reason coverage))
               then [label @ '' '' @ status] else []
           | None \<Rightarrow> [])
      in join_with ''; ''
        ([''indexed '' @ show_nat (cnt ''indexed_files'') @ ''/'' @ show_nat (cnt ''total_files'')]
         @ concat (map (\<lambda>(key, label). if cnt key > 0 then [label @ '' '' @ show_nat (cnt key)] else [])
             [(''excluded_files'', ''excluded''), (''parse_failures'', ''parse_failures''),
              (''walk_failures'', ''walk_failures''), (''truncated_files'', ''truncated'')])
         @ concat (map lane [(''semantic'', ''semantic_status'', ''semantic_reason''),
              (''rerank'', ''rerank_status'', ''rerank_reason'')])
         @ (if json_has ''semantic_preparation_error'' coverage then [''semantic preparation_error''] else [])
         @ (case as_str (json_get ''endpoint'' coverage) of Some e \<Rightarrow> [''endpoint '' @ e] | None \<Rightarrow> [])
         @ (case as_str (json_get ''filter_diagnosis'' coverage) of Some d \<Rightarrow> [d] | None \<Rightarrow> [])
         @ (case reference_summary coverage of Some r \<Rightarrow> [r] | None \<Rightarrow> [])))"

section \<open>URIs decode to the path they name\<close>

lemma escape_uri_append: "escape_uri (a @ b) = escape_uri a @ escape_uri b"
  by (simp add: escape_uri_def)

lemma escape_uri_Cons: "escape_uri (c # s) =
  (if c = CHR ''?'' then ''%3F'' else if c = CHR ''#'' then ''%23'' else [c]) @ escape_uri s"
  by (simp add: escape_uri_def)

lemma hex_digit_plain: "d < 16 \<Longrightarrow> hex_digit_upper d \<noteq> CHR ''?'' \<and> hex_digit_upper d \<noteq> CHR ''#''"
proof -
  assume d: "d < 16"
  have "hex_value (CHR ''?'') = None" "hex_value (CHR ''#'') = None" by code_simp+
  with hex_value_digit_upper [OF d] show ?thesis by auto
qed

lemma decode_escaped: "decode_bytes (escape_uri (encode_path bs)) = Inr bs"
proof (induction bs)
  case Nil
  then show ?case by (simp add: escape_uri_def)
next
  case (Cons b bs)
  have q: "decode_escape (CHR ''3'') (CHR ''F'') = Some 63" and h: "decode_escape (CHR ''2'') (CHR ''3'') = Some 35"
    by code_simp+
  have c: "char_of (63 :: nat) = CHR ''?''" "char_of (35 :: nat) = CHR ''#''" by code_simp+
  show ?case
  proof (cases "plain_path_byte b")
    case True
    then have "b \<noteq> CHR ''%''" by (auto simp: plain_path_byte_def)
    with True Cons show ?thesis by (auto simp: escape_uri_Cons q h c)
  next
    case False
    with Cons hex_digit_plain byte_div_mod_16 [of b] show ?thesis
      by (simp add: escape_uri_Cons hex_upper_def decode_escape_hex_upper)
  qed
qed

lemma escape_uri_clean: "CHR ''?'' \<notin> set (escape_uri s) \<and> CHR ''#'' \<notin> set (escape_uri s)"
  by (induction s) (auto simp: escape_uri_def)

lemma parent_component:
  assumes "''..'' \<in> set (split_char (CHR ''/'') p)"
  shows "ParentDir \<in> set (path_components p)"
proof -
  let ?parts = "split_char (CHR ''/'') p"
  from assms obtain i where "i < length ?parts" "?parts ! i = ''..''" by (auto simp: in_set_conv_nth)
  then have "(i, ''..'') \<in> set (enumerate 0 ?parts)" by (auto simp: in_set_enumerate_eq)
  then show ?thesis unfolding path_components_def Let_def
    by (auto intro!: bexI [of _ "(i, ''..'')"])
qed

text \<open>A \<open>file:\<close> URI names exactly one file below the repository root: percent-decoding what follows
  \<open>file://\<close> gives the root joined with the stored path, the URI has no query or fragment delimiter, and
  a stored path that is absolute or has a parent component gives no URI.\<close>

theorem file_uri_names_the_path:
  assumes "file_uri root relative = Inr uri" and "CHR 0x00 \<notin> set root"
  shows "\<exists>p. decode_path relative = Inr p \<and> uri = ''file://'' @ drop 7 uri
    \<and> decode_path (drop 7 uri) = Inr (path_join root p)
    \<and> CHR ''?'' \<notin> set uri \<and> CHR ''#'' \<notin> set uri
    \<and> \<not> prefix ''/'' p \<and> ''..'' \<notin> set (split_char (CHR ''/'') p)"
proof -
  obtain p where p: "decode_path relative = Inr p" using assms(1) by (auto simp: file_uri_def split: sum.splits)
  with assms(1) have rel: "\<not> prefix ''/'' p" "list_all is_normal (path_components p)"
      "uri = ''file://'' @ escape_uri (encode_path (path_join root p))"
    by (auto simp: file_uri_def path_is_relative_def split: if_splits)
  have nul: "CHR 0x00 \<notin> set p" using p by (auto simp: decode_path_def split: sum.splits if_splits)
  then have "decode_path (escape_uri (encode_path (path_join root p))) = Inr (path_join root p)"
    using assms(2) by (auto simp: decode_path_def decode_escaped path_join_def)
  moreover have "''..'' \<notin> set (split_char (CHR ''/'') p)"
    using rel(2) parent_component by (fastforce simp: list_all_iff is_normal_def)
  moreover have "drop 7 uri = escape_uri (encode_path (path_join root p))" using rel(3) by simp
  ultimately show ?thesis using p rel escape_uri_clean by auto
qed

theorem file_uri_names_the_path_witness:
  "\<exists>uri. file_uri ''/r'' ''a%3Fb'' = Inr uri \<and> decode_path (drop 7 uri) = Inr ''/r/a?b''"
proof -
  have "file_uri ''/r'' ''a%3Fb'' = Inr ''file:///r/a%3Fb''" by code_simp
  moreover have "decode_path ''a%3Fb'' = Inr ''a?b''" by code_simp
  ultimately show ?thesis
    using file_uri_names_the_path [of "''/r''" "''a%3Fb''"] by (auto simp: path_join_def suffix_def)
qed

section \<open>A lines page can be read back\<close>

text \<open>What a line shows of an entry has no newline; the handle has no tab either.\<close>

definition clean_entry :: "string option \<times> result_entry \<Rightarrow> bool" where
  "clean_entry = (\<lambda>(mem, entry).
     TAB \<notin> set (entry_handle entry) \<and> LF \<notin> set (entry_handle entry)
     \<and> (case mem of None \<Rightarrow> True | Some m \<Rightarrow> LF \<notin> set m)
     \<and> (case entry of
          LiveSource h \<Rightarrow> LF \<notin> set (hit_path h) \<and> LF \<notin> set (hit_name h)
            \<and> (case hit_resolution h of None \<Rightarrow> True | Some r \<Rightarrow> LF \<notin> set r)
            \<and> (case hit_snippet h of None \<Rightarrow> True | Some s \<Rightarrow> LF \<notin> set (snip_text s))
        | Commit c \<Rightarrow> LF \<notin> set (GitOid_as_str (ce_commit c))
        | Change c \<Rightarrow> LF \<notin> set (ch_status c) \<and> LF \<notin> set (ch_name c)
            \<and> (case ch_after c of None \<Rightarrow> True | Some s \<Rightarrow> LF \<notin> set (hs_path s))
            \<and> (case ch_before c of None \<Rightarrow> True | Some s \<Rightarrow> LF \<notin> set (hs_path s))))"

lemma show_nat_no_LF: "LF \<notin> set (show_nat n)"
  by (auto dest!: show_nat_digits simp: is_ascii_digit_def byte_def)

lemma strip_cr_snoc: "strip_cr (xs @ [c]) = (if c = CHR 0x0D then xs else xs @ [c])"
  by (auto simp: strip_cr_def strip_suffix_def suffix_def)

lemma strip_cr_Nil: "strip_cr [] = []"
  by (simp add: strip_cr_def strip_suffix_def)

lemma strip_cr_subset: "set (strip_cr l) \<subseteq> set l"
  by (cases l rule: rev_cases) (auto simp: strip_cr_snoc strip_cr_Nil)

lemma strip_cr_prefix: "CHR 0x0D \<notin> set k \<Longrightarrow> \<exists>rest'. strip_cr (k @ rest) = k @ rest'"
proof (cases rest rule: rev_cases)
  case Nil
  assume "CHR 0x0D \<notin> set k"
  with Nil show ?thesis by (cases k rule: rev_cases) (auto simp: strip_cr_snoc strip_cr_Nil)
next
  case (snoc ys y)
  then show ?thesis using strip_cr_snoc [of "k @ ys" y] by auto
qed

lemma strip_cr_after_tab: "\<exists>rest'. strip_cr (h @ TAB # rest) = h @ TAB # rest'"
proof (cases rest rule: rev_cases)
  case Nil
  then show ?thesis by (simp add: strip_cr_snoc)
next
  case (snoc ys y)
  then show ?thesis using strip_cr_snoc [of "h @ TAB # ys" y] by auto
qed

lemma str_lines_append: "str_lines (a @ LF # b) = map strip_cr (split_char LF a) @ str_lines b"
  by (simp add: str_lines_def split_char_append butlast_append Let_def)

lemma kept_pieces:
  "l \<in> set (map f (butlast ps) @ (if last ps = [] then [] else [last ps])) \<Longrightarrow> ps \<noteq> [] \<Longrightarrow>
   \<exists>p \<in> set ps. l = p \<or> l = f p"
  by (auto split: if_splits dest: in_set_butlastD intro: last_in_set)

lemma str_lines_no_LF: "l \<in> set (str_lines s) \<Longrightarrow> LF \<notin> set l"
proof -
  assume l: "l \<in> set (str_lines s)"
  obtain p where p: "p \<in> set (split_char LF s)" "l = p \<or> l = strip_cr p"
    using kept_pieces [OF l [unfolded str_lines_def Let_def] split_char_nonempty] ..
  then have "set l \<subseteq> set p" using strip_cr_subset by auto
  with split_char_pieces [OF p(1)] show ?thesis by blast
qed

text \<open>The lines of an entry: one that starts with its handle and a tab, and possibly a preview.\<close>

lemma entry_line_shape:
  assumes "clean_entry (mem, entry)"
  obtains (plain) rest where "entry_line mem detail entry = entry_handle entry @ TAB # rest" "LF \<notin> set rest"
  | (preview) rest n tx where "entry_line mem detail entry = (entry_handle entry @ TAB # rest) @ LF # ''  '' @ show_nat n @ '': '' @ tx"
      "LF \<notin> set rest" "LF \<notin> set tx"
proof (cases entry)
  case (LiveSource h)
  let ?pre = "case mem of Some m \<Rightarrow> m @ ''/'' | None \<Rightarrow> []"
  obtain rest where rest: "hit_line ?pre detail h = hit_handle h @ TAB # rest" "LF \<notin> set rest"
  proof
    show "hit_line ?pre detail h = hit_handle h @ TAB # drop (Suc (length (hit_handle h))) (hit_line ?pre detail h)"
      by (simp add: hit_line_def Let_def)
    show "LF \<notin> set (drop (Suc (length (hit_handle h))) (hit_line ?pre detail h))"
      using assms LiveSource show_nat_no_LF
      by (auto simp: hit_line_def Let_def clean_entry_def TIMES_SIGN_def split: option.splits)
  qed
  show ?thesis
  proof (cases "hit_snippet h")
    case None
    with rest LiveSource plain show ?thesis by (simp add: entry_line_def)
  next
    case (Some sn)
    with assms LiveSource have "LF \<notin> set (snip_text sn)" by (simp add: clean_entry_def)
    with Some rest LiveSource plain preview show ?thesis
      by (cases "detail_snippets detail") (auto simp: entry_line_def)
  qed
next
  case (Commit c)
  let ?s = "case str_lines (ce_summary c) of [] \<Rightarrow> [] | l # _ \<Rightarrow> l"
  have "LF \<notin> set ?s" using str_lines_no_LF [of _ "ce_summary c"] by (cases "str_lines (ce_summary c)") simp_all
  with Commit assms show ?thesis by (intro plain) (auto simp: entry_line_def clean_entry_def)
next
  case (Change c)
  with assms show ?thesis
    by (intro plain) (auto simp: entry_line_def clean_entry_def split: option.splits)
qed

lemma split_char_head: "c \<notin> set a \<Longrightarrow> hd (split_char c (a @ c # b)) = a"
  by (simp add: split_char_append split_char_notin)

text \<open>A UUID as text has no space, so neither a preview line nor the coverage line is a handle.\<close>

lemma handle_no_space:
  assumes uuid: "\<And>v. parse_uuid v \<noteq> None \<Longrightarrow> CHR '' '' \<notin> set v"
    and "ResultHandle_parse parse_uuid h = Inr r"
  shows "CHR '' '' \<notin> set h"
proof -
  have [simp]: "\<not> is_ascii_digit (CHR '' '')" by code_simp
  have digits: "digits_value acc ds = Some n \<Longrightarrow> CHR '' '' \<notin> set ds" for acc ds n
    by (induction ds arbitrary: acc) (auto split: if_splits)
  have num: "parse_usize ord = Some n \<Longrightarrow> CHR '' '' \<notin> set ord" for ord n
    by (cases ord) (auto simp: parse_usize_def Let_def dest!: digits split: if_splits)
  obtain v ord u n where "rsplit_once (CHR '':'') h = Some (v, ord)" "parse_uuid v = Some u" "parse_usize ord = Some n"
    using assms(2) by (auto simp: ResultHandle_parse_def split: option.splits)
  with uuid [of v] num show ?thesis by (auto simp: rsplit_once_Some)
qed

text \<open>The handle a line shows, if it shows one.\<close>

definition line_handle :: "(string \<Rightarrow> 'u option) \<Rightarrow> string \<Rightarrow> string option" where
  "line_handle parse_uuid line =
     (let handle = hd (split_char TAB line)
      in case ResultHandle_parse parse_uuid handle of Inl _ \<Rightarrow> None | Inr _ \<Rightarrow> Some handle)"

lemma entry_lines_handle:
  fixes detail :: hit_detail
  assumes uuid: "\<And>v. parse_uuid v \<noteq> None \<Longrightarrow> CHR '' '' \<notin> set v"
    and clean: "clean_entry (mem, entry)" and handle: "ResultHandle_parse parse_uuid (entry_handle entry) = Inr r"
  defines "ls \<equiv> map strip_cr (split_char LF (entry_line mem detail entry))"
  shows "List.map_filter (line_handle parse_uuid) ls = [entry_handle entry]"
    and "list_all (\<lambda>l. \<not> prefix COVERAGE_KEY l) ls"
proof -
  let ?h = "entry_handle entry"
  have h: "TAB \<notin> set ?h" "LF \<notin> set ?h" using clean by (simp_all add: clean_entry_def)
  have space: "CHR '' '' \<notin> set ?h" by (rule handle_no_space [OF uuid handle])
  have first: "line_handle parse_uuid (strip_cr (?h @ TAB # rest)) = Some ?h
      \<and> \<not> prefix COVERAGE_KEY (strip_cr (?h @ TAB # rest))" for rest
  proof -
    obtain rest' where rest: "strip_cr (?h @ TAB # rest) = ?h @ TAB # rest'" using strip_cr_after_tab by blast
    have "\<not> prefix COVERAGE_KEY (?h @ TAB # rest')"
    proof
      assume "prefix COVERAGE_KEY (?h @ TAB # rest')"
      then consider "prefix COVERAGE_KEY ?h" | zs where "COVERAGE_KEY = ?h @ TAB # zs"
        by (auto simp: prefix_append prefix_Cons COVERAGE_KEY_def)
      then show False
      proof cases
        case 1
        then show ?thesis using space set_mono_prefix by (fastforce simp: COVERAGE_KEY_def)
      next
        case 2
        have "TAB \<notin> set COVERAGE_KEY" by (simp add: COVERAGE_KEY_def)
        then show ?thesis unfolding 2 by simp
      qed
    qed
    then show ?thesis unfolding rest using h(1) handle
      by (simp add: line_handle_def split_char_head)
  qed
  have second: "line_handle parse_uuid (strip_cr (''  '' @ tx)) = None
      \<and> \<not> prefix COVERAGE_KEY (strip_cr (''  '' @ tx))" for tx
  proof -
    obtain tx' where tx: "strip_cr (''  '' @ tx) = ''  '' @ tx'"
      using strip_cr_prefix [of "''  ''" tx] by auto
    have "CHR '' '' \<in> set (hd (split_char TAB (''  '' @ tx')))"
      by (cases "split_char TAB tx'") auto
    then have "\<exists>e. ResultHandle_parse parse_uuid (hd (split_char TAB (''  '' @ tx'))) = Inl e"
      using handle_no_space [OF uuid, where h = "hd (split_char TAB (''  '' @ tx'))"]
      by (cases "ResultHandle_parse parse_uuid (hd (split_char TAB (''  '' @ tx')))") blast+
    then show ?thesis unfolding tx by (auto simp: line_handle_def Let_def COVERAGE_KEY_def)
  qed
  have "List.map_filter (line_handle parse_uuid) ls = [?h] \<and> list_all (\<lambda>l. \<not> prefix COVERAGE_KEY l) ls"
    using clean
  proof (cases rule: entry_line_shape [where detail = detail])
    case (plain rest)
    then have "LF \<notin> set (?h @ TAB # rest)" using h(2) by auto
    then have "ls = [strip_cr (?h @ TAB # rest)]" by (simp add: ls_def plain split_char_notin)
    with first show ?thesis by (simp add: map_filter_def)
  next
    case (preview rest n tx)
    have parts: "LF \<notin> set (?h @ TAB # rest)" "LF \<notin> set (''  '' @ show_nat n @ '': '' @ tx)"
      using h(2) preview show_nat_no_LF by auto
    have "ls = [strip_cr (?h @ TAB # rest), strip_cr (''  '' @ show_nat n @ '': '' @ tx)]"
      unfolding ls_def preview(1) split_char_append split_char_notin [OF parts(1)] split_char_notin [OF parts(2)]
      by simp
    with first second show ?thesis by (simp add: map_filter_def)
  qed
  then show "List.map_filter (line_handle parse_uuid) ls = [?h]" "list_all (\<lambda>l. \<not> prefix COVERAGE_KEY l) ls"
    by blast+
qed

text \<open>The handles read back from a page in lines format are the handles of its entries in page order,
  for entries whose displayed fields have no newline and handles that parse.\<close>

theorem emitted_handles_of_page:
  assumes uuid: "\<And>v. parse_uuid v \<noteq> None \<Longrightarrow> CHR '' '' \<notin> set v"
    and entries: "\<And>mem entry. (mem, entry) \<in> set entries \<Longrightarrow> clean_entry (mem, entry)
      \<and> (\<exists>r. ResultHandle_parse parse_uuid (entry_handle entry) = Inr r)"
  shows "emitted_handles parse_uuid (page_text entries detail coverage nxt truncated)
    = map (\<lambda>(_, entry). entry_handle entry) entries"
proof -
  let ?tail = "COVERAGE_KEY @ coverage @ [LF] @ footer nxt truncated"
  obtain l ls where tail: "str_lines ?tail = l # ls" "prefix COVERAGE_KEY l"
  proof -
    obtain a as where a: "split_char LF (COVERAGE_KEY @ coverage) = a # as"
      by (cases "split_char LF (COVERAGE_KEY @ coverage)") auto
    have "prefix COVERAGE_KEY (strip_cr a)"
    proof -
      have "prefix k a" if "split_char LF (k @ c) = a # as" "LF \<notin> set k" for k c a as
        using that by (induction k arbitrary: a as) (auto split: list.splits if_splits)
      from this [OF a] have "prefix COVERAGE_KEY a" by (simp add: COVERAGE_KEY_def)
      then obtain r where "a = COVERAGE_KEY @ r" by (auto simp: prefix_def)
      moreover have "CHR 0x0D \<notin> set COVERAGE_KEY" by (simp add: COVERAGE_KEY_def)
      ultimately show ?thesis using strip_cr_prefix [of COVERAGE_KEY r] by auto
    qed
    moreover have "str_lines ?tail = map strip_cr (a # as) @ str_lines (footer nxt truncated)"
      using str_lines_append [of "COVERAGE_KEY @ coverage" "footer nxt truncated"] a by simp
    ultimately show ?thesis using that by simp
  qed
  have "List.map_filter (line_handle parse_uuid) (takeWhile (\<lambda>line. \<not> prefix COVERAGE_KEY line)
      (str_lines (concat (map (\<lambda>(mem, entry). entry_line mem detail entry @ [LF]) entries) @ ?tail)))
    = map (\<lambda>(_, entry). entry_handle entry) entries"
    using entries
  proof (induction entries)
    case Nil
    then show ?case using tail by (simp add: map_filter_def)
  next
    case (Cons e es)
    obtain mem entry where e: "e = (mem, entry)" by (cases e)
    with Cons.prems obtain r where clean: "clean_entry (mem, entry)"
      and r: "ResultHandle_parse parse_uuid (entry_handle entry) = Inr r" by auto
    let ?ls = "map strip_cr (split_char LF (entry_line mem detail entry))"
    let ?rest = "concat (map (\<lambda>(mem, entry). entry_line mem detail entry @ [LF]) es) @ ?tail"
    note lines = entry_lines_handle [OF uuid clean r, where detail = detail]
    have "takeWhile (\<lambda>line. \<not> prefix COVERAGE_KEY line) (?ls @ str_lines ?rest)
        = ?ls @ takeWhile (\<lambda>line. \<not> prefix COVERAGE_KEY line) (str_lines ?rest)"
      using lines(2) by (intro takeWhile_append2) (auto simp: list_all_iff)
    moreover have "List.map_filter (line_handle parse_uuid) (takeWhile (\<lambda>line. \<not> prefix COVERAGE_KEY line) (str_lines ?rest))
        = map (\<lambda>(_, entry). entry_handle entry) es"
      using Cons.prems by (intro Cons.IH) auto
    moreover have "str_lines (concat (map (\<lambda>(mem, entry). entry_line mem detail entry @ [LF]) (e # es)) @ ?tail)
        = ?ls @ str_lines ?rest"
      using str_lines_append [of "entry_line mem detail entry" ?rest] e by simp
    ultimately show ?case using lines(1) e by (simp only: map_filter_append) simp
  qed
  then show ?thesis by (simp add: emitted_handles_def page_text_def line_handle_def [abs_def])
qed

theorem emitted_handles_of_page_witness:
  "emitted_handles (\<lambda>v. if v = ''ab'' then Some () else None)
     (page_text [(None, Commit \<lparr>ce_handle = ''ab:1'', ce_repository = [], ce_commit = \<lparr>oid_hex = ''c0'', oid_len = 2\<rparr>, ce_parent = None,
        ce_summary = ''s'', ce_committer_time = 0\<rparr>)] \<lparr>detail_names = True, detail_snippets = True\<rparr> ''indexed 1/1'' None False)
   = [''ab:1'']"
proof -
  let ?pu = "\<lambda>v. if v = ''ab'' then Some () else None"
  let ?c = "Commit \<lparr>ce_handle = ''ab:1'', ce_repository = [], ce_commit = \<lparr>oid_hex = ''c0'', oid_len = 2\<rparr>, ce_parent = None,
        ce_summary = ''s'', ce_committer_time = 0\<rparr>"
  have uuid: "CHR '' '' \<notin> set v" if "?pu v \<noteq> None" for v using that by (auto split: if_splits)
  have entry: "clean_entry (mem, entry) \<and> (\<exists>r. ResultHandle_parse ?pu (entry_handle entry) = Inr r)"
    if "(mem, entry) \<in> set [(None, ?c)]" for mem entry
  proof -
    have "rsplit_once (CHR '':'') ''ab:1'' = Some (''ab'', ''1'')"
      using rsplit_once_append [of "CHR '':''" "''1''" "''ab''"] by simp
    moreover have "show_nat 1 = ''1''" by code_simp
    then have "parse_usize ''1'' = Some 1" using parse_show_nat [of 1] by (simp add: usize_max_def)
    ultimately have "ResultHandle_parse ?pu ''ab:1'' = Inr \<lparr>handle_set = (), handle_ordinal = 1\<rparr>"
      by (simp add: ResultHandle_parse_def)
    with that show ?thesis by (auto simp: clean_entry_def GitOid_as_str_def)
  qed
  show ?thesis by (subst emitted_handles_of_page [OF uuid entry]) simp_all
qed

end
