(* ===== verification/TP_Page.thy ===== *)
theory TP_Page
  imports TP_Results
begin

text \<open>
  \<open>src/results/page.rs\<close> and \<open>src/output.rs\<close>: pages of a stored result set that fit a token budget.  The
  tokenizer (\<open>tiktoken_rs\<close>) is the parameter \<open>tokens\<close>, the number of tokens of a text; the text of a JSON
  value (\<open>serde_json\<close>) is the parameter \<open>to_text\<close>; both, with the derived serialisation of an entry, are
  fields of one record of parameters.
\<close>

section \<open>Budgets\<close>

datatype output_format = Json | Lines

definition OutputFormat_parse :: "string \<Rightarrow> output_format result" where
  "OutputFormat_parse value =
     (if value = ''json'' then Inr Json else if value = ''lines'' then Inr Lines
      else Inl (''invalid_options: unknown output format '' @ value))"

record page_libs =
  tokens :: "string \<Rightarrow> nat"
  to_text :: "json \<Rightarrow> string result"
  entry_value :: "result_entry \<Rightarrow> json"

record output_budget =
  budget_limit :: nat
  budget_format :: output_format

definition OutputBudget_new :: "nat \<Rightarrow> output_budget" where
  "OutputBudget_new limit = \<lparr>budget_limit = limit, budget_format = Json\<rparr>"

definition with_format :: "output_format \<Rightarrow> output_budget \<Rightarrow> output_budget" where
  "with_format format b = b\<lparr>budget_format := format\<rparr>"

definition budget_encode :: "page_libs \<Rightarrow> json \<Rightarrow> string result" where
  "budget_encode libs v = map_sum id (\<lambda>t. t @ [LF]) (to_text libs v)"

definition budget_fits :: "page_libs \<Rightarrow> output_budget \<Rightarrow> string \<Rightarrow> bool" where
  "budget_fits libs b t \<longleftrightarrow> tokens libs t \<le> budget_limit b"

definition budget_render :: "page_libs \<Rightarrow> output_budget \<Rightarrow> json \<Rightarrow> string result" where
  "budget_render libs b v =
     (case budget_encode libs v of
        Inl e \<Rightarrow> Inl e
      | Inr t \<Rightarrow> if \<not> budget_fits libs b t
          then Inl (''budget_too_small: complete response exceeds '' @ show_nat (budget_limit b) @ '' o200k_base tokens'')
          else Inr t)"

section \<open>Fitting\<close>

definition SNIPPET_PAGE_FLOOR :: nat where "SNIPPET_PAGE_FLOOR = 8"

function fitting_loop :: "(nat \<Rightarrow> bool result) \<Rightarrow> nat \<Rightarrow> nat \<Rightarrow> nat result" where
  "fitting_loop fits low high =
     (if low < high then
        let n = low + div_ceil (high - low) 2
        in case fits n of
             Inl e \<Rightarrow> Inl e
           | Inr True \<Rightarrow> fitting_loop fits n high
           | Inr False \<Rightarrow> fitting_loop fits low (n - 1)
      else Inr low)"
  by pat_completeness auto
termination
  by (relation "measure (\<lambda>(_, low, high). high - low)") (auto simp: div_ceil_def)

declare fitting_loop.simps [simp del]

definition largest_fitting :: "nat \<Rightarrow> (nat \<Rightarrow> bool result) \<Rightarrow> nat result" where
  "largest_fitting maximum fits = fitting_loop fits 0 maximum"

definition text_fits :: "page_libs \<Rightarrow> output_budget \<Rightarrow> string result \<Rightarrow> bool result" where
  "text_fits libs b r = map_sum id (budget_fits libs b) r"

definition snippet_page :: "page_libs \<Rightarrow> nat \<Rightarrow> output_budget \<Rightarrow> (nat \<Rightarrow> hit_detail \<Rightarrow> string result) \<Rightarrow>
    string option result" where
  "snippet_page libs max_count b render =
     (let flr = min max_count SNIPPET_PAGE_FLOOR;
          full = \<lparr>detail_names = True, detail_snippets = True\<rparr>
      in if flr = 0 then Inr None
         else case largest_fitting max_count (\<lambda>n. text_fits libs b (render n full)) of
           Inl e \<Rightarrow> Inl e
         | Inr n \<Rightarrow> if n \<ge> flr then map_sum id Some (render n full) else Inr None)"

section \<open>Pages\<close>

definition trim_candidates :: "nat \<Rightarrow> json \<Rightarrow> json" where
  "trim_candidates limit hitv =
     (case json_get ''candidates'' hitv of
        JArr cs \<Rightarrow>
          if length cs > limit
          then json_set ''candidates_truncated'' (JBool True)
            (json_set ''candidates_total'' (JNum (int (length cs)))
              (json_set ''candidates'' (JArr (take limit cs)) hitv))
          else hitv
      | JNull \<Rightarrow> json_set ''candidates'' JNull hitv
      | _ \<Rightarrow> hitv)"

definition page_value :: "page_libs \<Rightarrow> stored_result_set \<Rightarrow> string \<Rightarrow> bytes \<Rightarrow> nat \<Rightarrow> nat \<Rightarrow> hit_detail \<Rightarrow>
    nat option \<Rightarrow> bool \<Rightarrow> json result" where
  "page_value libs st ident root offset n detail candidate_limit compact_live =
     (case collect_values (map (compact_entry_for_page (entry_value libs) root None detail compact_live)
             (slice offset (offset + n) (rs_hits st))) of
        Inl e \<Rightarrow> Inl e
      | Inr hits0 \<Rightarrow>
          (let hits = (case candidate_limit of None \<Rightarrow> hits0 | Some limit \<Rightarrow> map (trim_candidates limit) hits0);
               nxt = (if offset + n < length (rs_hits st) then JStr (ident @ ''@'' @ show_nat (offset + n)) else JNull)
           in Inr (JObj [(''generation'', JNum (rs_generation st)), (''coverage'', rs_coverage st),
                (''tokenizer'', JStr ''o200k_base''), (''hits'', JArr hits), (''next'', nxt),
                (''truncated'', JBool (rs_truncated st))])))"

definition render_detail :: "page_libs \<Rightarrow> stored_result_set \<Rightarrow> string \<Rightarrow> bytes \<Rightarrow> nat \<Rightarrow> nat \<Rightarrow> output_budget \<Rightarrow>
    nat \<Rightarrow> hit_detail \<Rightarrow> nat option \<Rightarrow> string result" where
  "render_detail libs st ident root offset limit b n detail candidate_limit =
     (case budget_format b of
        Json \<Rightarrow>
          (case page_value libs st ident root offset n detail candidate_limit
              (json_get ''endpoint'' (rs_coverage st) \<noteq> JStr ''published_working_tree'') of
             Inl e \<Rightarrow> Inl e
           | Inr v \<Rightarrow> budget_encode libs v)
      | Lines \<Rightarrow>
          Inr (page_text (map (Pair None) (slice offset (offset + n) (rs_hits st))) detail
            (single_repo_coverage (rs_coverage st))
            (map_option (\<lambda>cursor. more_command cursor offset n limit)
              (next_cursor ident offset n (length (rs_hits st))))
            (rs_truncated st)))"

text \<open>One round of the loop over \<open>names\<close>: \<open>Some\<close> a page, or go on.\<close>

definition page_tier :: "page_libs \<Rightarrow> stored_result_set \<Rightarrow> string \<Rightarrow> bytes \<Rightarrow> nat \<Rightarrow> nat \<Rightarrow> output_budget \<Rightarrow>
    nat \<Rightarrow> bool \<Rightarrow> string option result" where
  "page_tier libs st ident root offset limit b max_count names =
     (let render = (\<lambda>n nm cl. render_detail libs st ident root offset limit b n
            \<lparr>detail_names = nm, detail_snippets = False\<rparr> cl)
      in case largest_fitting max_count (\<lambda>n. text_fits libs b (render n names None)) of
           Inl e \<Rightarrow> Inl e
         | Inr low \<Rightarrow>
             if low > 0 then
               (case render low True None of
                  Inl e \<Rightarrow> Inl e
                | Inr named \<Rightarrow>
                    if budget_fits libs b named then Inr (Some named)
                    else map_sum id Some (render low names None))
             else if max_count > 0 \<and> budget_format b = Json then
               (case page_value libs st ident root offset 1 \<lparr>detail_names = names, detail_snippets = False\<rparr> None
                   (json_get ''endpoint'' (rs_coverage st) \<noteq> JStr ''published_working_tree'') of
                  Inl e \<Rightarrow> Inl e
                | Inr v \<Rightarrow>
                    (let tot = (case json_get ''hits'' v of
                           JArr (h # _) \<Rightarrow> (case json_get ''candidates'' h of JArr cs \<Rightarrow> length cs | _ \<Rightarrow> 0)
                         | _ \<Rightarrow> 0)
                     in case largest_fitting tot (\<lambda>cl. text_fits libs b (render 1 names (Some cl))) of
                          Inl e \<Rightarrow> Inl e
                        | Inr cl \<Rightarrow>
                            if tot > 0 then
                              (case render 1 names (Some cl) of
                                 Inl e \<Rightarrow> Inl e
                               | Inr t \<Rightarrow> if budget_fits libs b t then Inr (Some t) else Inr None)
                            else Inr None))
             else Inr None)"

definition BUDGET_TOO_SMALL :: string where
  "BUDGET_TOO_SMALL = ''budget_too_small: no hit and pagination envelope fit; increase --budget''"

definition page_of_set :: "page_libs \<Rightarrow> stored_result_set \<Rightarrow> string \<Rightarrow> bytes \<Rightarrow> nat \<Rightarrow> nat \<Rightarrow> output_budget \<Rightarrow> string result" where
  "page_of_set libs st ident root offset limit b =
     (if offset > length (rs_hits st) then Inl ''invalid_cursor: offset outside result set''
      else
        let available = length (rs_hits st) - offset;
            max_count = min (min available limit) (budget_limit b)
        in case snippet_page libs max_count b
               (\<lambda>n detail. render_detail libs st ident root offset limit b n detail None) of
             Inl e \<Rightarrow> Inl e
           | Inr (Some t) \<Rightarrow> Inr t
           | Inr None \<Rightarrow>
         (case page_tier libs st ident root offset limit b max_count False of
             Inl e \<Rightarrow> Inl e
           | Inr (Some t) \<Rightarrow> Inr t
           | Inr None \<Rightarrow>
         (case page_tier libs st ident root offset limit b max_count True of
             Inl e \<Rightarrow> Inl e
           | Inr (Some t) \<Rightarrow> Inr t
           | Inr None \<Rightarrow>
               if available = 0 then
                 (case render_detail libs st ident root offset limit b 0
                     \<lparr>detail_names = False, detail_snippets = False\<rparr> None of
                    Inl e \<Rightarrow> Inl e
                  | Inr t \<Rightarrow> if budget_fits libs b t then Inr t else Inl BUDGET_TOO_SMALL)
               else Inl BUDGET_TOO_SMALL)))"

definition page :: "page_libs \<Rightarrow> (string \<Rightarrow> stored_result_set result) \<Rightarrow> bytes \<Rightarrow> string \<Rightarrow> nat \<Rightarrow> nat \<Rightarrow> output_budget \<Rightarrow> string result" where
  "page libs load root ident offset limit b =
     (case load ident of Inl e \<Rightarrow> Inl e | Inr st \<Rightarrow> page_of_set libs st ident root offset limit b)"

definition more :: "page_libs \<Rightarrow> (string \<Rightarrow> 'u option) \<Rightarrow> ('u \<Rightarrow> string) \<Rightarrow> (string \<Rightarrow> stored_result_set result) \<Rightarrow> bytes \<Rightarrow>
    string \<Rightarrow> nat \<Rightarrow> output_budget \<Rightarrow> string result" where
  "more libs parse_uuid show_uuid load root cursor limit b =
     (case ResultCursor_parse parse_uuid cursor of
        Inl e \<Rightarrow> Inl e
      | Inr c \<Rightarrow> page libs load root (show_uuid (cursor_set c)) (cursor_offset c) limit b)"

section \<open>Properties\<close>

text \<open>What a page shows: \<open>n\<close> hits from the offset, within every bound, in full.\<close>

definition page_shows :: "page_libs \<Rightarrow> stored_result_set \<Rightarrow> string \<Rightarrow> bytes \<Rightarrow> nat \<Rightarrow> nat \<Rightarrow> output_budget \<Rightarrow>
    nat \<Rightarrow> string \<Rightarrow> bool" where
  "page_shows libs st ident root offset limit b n t \<longleftrightarrow>
     budget_fits libs b t \<and> n \<le> min (min (length (rs_hits st) - offset) limit) (budget_limit b)
     \<and> (\<exists>detail cl. render_detail libs st ident root offset limit b n detail cl = Inr t \<and> (cl = None \<or> n = 1))"

definition sample_libs :: page_libs where
  "sample_libs = \<lparr>tokens = (\<lambda>_. 1), to_text = (\<lambda>_. Inr ''{}''), entry_value = (\<lambda>_. JNull)\<rparr>"

definition sample_set :: stored_result_set where
  "sample_set = \<lparr>rs_generation = 3, rs_coverage = JObj [], rs_truncated = False, rs_hits = [Commit
     \<lparr>ce_handle = ''ab:1'', ce_repository = [], ce_commit = \<lparr>oid_hex = ''c0'', oid_len = 2\<rparr>, ce_parent = None,
      ce_summary = ''s'', ce_committer_time = 0\<rparr>]\<rparr>"


lemma map_sum_eq_Inr: "map_sum f g x = Inr y \<longleftrightarrow> (\<exists>z. x = Inr z \<and> g z = y)"
  by (cases x) auto

lemma fitting_loop_step:
  assumes "low < high"
  obtains m where "low < m" "m \<le> high"
    "fitting_loop fits low high = (case fits m of Inl e \<Rightarrow> Inl e
        | Inr True \<Rightarrow> fitting_loop fits m high | Inr False \<Rightarrow> fitting_loop fits low (m - 1))"
proof -
  define m where "m = low + div_ceil (high - low) 2"
  have "low < m" "m \<le> high" using div_ceil_two_bounds [of "high - low"] assms by (auto simp: m_def)
  moreover have "fitting_loop fits low high = (case fits m of Inl e \<Rightarrow> Inl e
        | Inr True \<Rightarrow> fitting_loop fits m high | Inr False \<Rightarrow> fitting_loop fits low (m - 1))"
    using assms unfolding m_def by (subst fitting_loop.simps) (simp add: Let_def)
  ultimately show ?thesis by (rule that)
qed

lemma fitting_loop_done: "\<not> low < high \<Longrightarrow> fitting_loop fits low high = Inr low"
  by (subst fitting_loop.simps) simp

lemma fitting_loop_spec:
  assumes "fitting_loop fits low high = Inr n" and "low \<le> high"
    and "low = 0 \<or> fits low = Inr True" and "high = maxi \<or> fits (Suc high) = Inr False" and "high \<le> maxi"
  shows "n \<le> maxi \<and> (n = 0 \<or> fits n = Inr True) \<and> (n = maxi \<or> fits (Suc n) = Inr False)"
  using assms
proof (induction "high - low" arbitrary: low high rule: less_induct)
  case less
  show ?case
  proof (cases "low < high")
    case False
    with less.prems show ?thesis by (simp add: fitting_loop_done)
  next
    case True
    then obtain m where m: "low < m" "m \<le> high"
      and step: "fitting_loop fits low high = (case fits m of Inl e \<Rightarrow> Inl e
        | Inr True \<Rightarrow> fitting_loop fits m high | Inr False \<Rightarrow> fitting_loop fits low (m - 1))"
      by (rule fitting_loop_step)
    consider (yes) "fits m = Inr True" | (no) "fits m = Inr False"
      using less.prems(1) unfolding step by (cases "fits m") (auto split: bool.splits)
    then show ?thesis
    proof cases
      case yes
      with less.prems(1) have "fitting_loop fits m high = Inr n" unfolding step by simp
      then show ?thesis using less.hyps [of high m] less.prems yes m by simp
    next
      case no
      with less.prems(1) have "fitting_loop fits low (m - 1) = Inr n" unfolding step by simp
      then show ?thesis using less.hyps [of "m - 1" low] less.prems no m by simp
    qed
  qed
qed

lemma fitting_loop_total:
  "\<forall>n. low < n \<and> n \<le> high \<longrightarrow> (\<exists>b. fits n = Inr b) \<Longrightarrow> \<exists>n. fitting_loop fits low high = Inr n"
proof (induction "high - low" arbitrary: low high rule: less_induct)
  case less
  show ?case
  proof (cases "low < high")
    case False
    then show ?thesis by (simp add: fitting_loop_done)
  next
    case True
    then obtain m where m: "low < m" "m \<le> high"
      and step: "fitting_loop fits low high = (case fits m of Inl e \<Rightarrow> Inl e
        | Inr True \<Rightarrow> fitting_loop fits m high | Inr False \<Rightarrow> fitting_loop fits low (m - 1))"
      by (rule fitting_loop_step)
    from less.prems m obtain b where "fits m = Inr b" by blast
    moreover have "\<exists>n. fitting_loop fits m high = Inr n" using less.hyps [of high m] less.prems m by simp
    moreover have "\<exists>n. fitting_loop fits low (m - 1) = Inr n"
      using m less.prems by (intro less.hyps) auto
    ultimately show ?thesis unfolding step by (cases b) auto
  qed
qed

lemma largest_fitting_Inr:
  "largest_fitting maxi fits = Inr n \<Longrightarrow>
   n \<le> maxi \<and> (n = 0 \<or> fits n = Inr True) \<and> (n = maxi \<or> fits (Suc n) = Inr False)"
  unfolding largest_fitting_def by (rule fitting_loop_spec [of fits 0 maxi n maxi]) simp_all

text \<open>
  \<open>largest_fitting\<close> ends: when no probe up to the maximum fails it returns a count, that count is at most
  the maximum, is zero or was seen to fit, and is the maximum or its successor was seen not to fit.  When
  fitting is monotone the result is the greatest count that fits.
\<close>

theorem largest_fitting_greatest:
  assumes "\<forall>k \<le> maxi. fits k = Inr (p k)"
  shows "\<exists>n. largest_fitting maxi fits = Inr n \<and> n \<le> maxi \<and> (n = 0 \<or> p n) \<and> (n = maxi \<or> \<not> p (Suc n))
     \<and> ((\<forall>i j. i \<le> j \<and> p j \<longrightarrow> p i) \<longrightarrow> (\<forall>k \<le> maxi. p k \<longrightarrow> k \<le> n))"
proof -
  obtain n where n: "largest_fitting maxi fits = Inr n"
    using fitting_loop_total [of 0 maxi fits] assms by (auto simp: largest_fitting_def)
  from largest_fitting_Inr [OF n] assms
  have spec: "n \<le> maxi" "n = 0 \<or> p n" "n = maxi \<or> \<not> p (Suc n)"
    by (simp, force, metis Suc_leI le_neq_implies_less sum.inject(2))
  have "k \<le> n" if "\<forall>i j. i \<le> j \<and> p j \<longrightarrow> p i" "k \<le> maxi" "p k" for k
  proof (rule ccontr)
    assume "\<not> k \<le> n"
    then have "p (Suc n)" using that by (meson not_less_eq_eq)
    with spec(3) \<open>\<not> k \<le> n\<close> that(2) show False by auto
  qed
  with n spec show ?thesis by blast
qed

theorem largest_fitting_greatest_witness:
  "\<exists>n. largest_fitting 9 (\<lambda>k. Inr (k * k \<le> 30)) = Inr n \<and> n \<le> 9 \<and> (n = 0 \<or> n * n \<le> 30)
     \<and> (n = 9 \<or> \<not> Suc n * Suc n \<le> 30)
     \<and> ((\<forall>i j. i \<le> j \<and> j * j \<le> (30::nat) \<longrightarrow> i * i \<le> 30) \<longrightarrow> (\<forall>k \<le> 9. k * k \<le> 30 \<longrightarrow> k \<le> n))"
  by (rule largest_fitting_greatest) simp

lemma snippet_page_Some:
  assumes "snippet_page libs m b render = Inr (Some t)"
  shows "\<exists>n. render n \<lparr>detail_names = True, detail_snippets = True\<rparr> = Inr t \<and> budget_fits libs b t
     \<and> 0 < n \<and> n \<le> m \<and> min m SNIPPET_PAGE_FLOOR \<le> n"
proof -
  let ?full = "\<lparr>detail_names = True, detail_snippets = True\<rparr>"
  from assms obtain n where n: "largest_fitting m (\<lambda>n. text_fits libs b (render n ?full)) = Inr n"
      "min m SNIPPET_PAGE_FLOOR \<le> n" "render n ?full = Inr t" "min m SNIPPET_PAGE_FLOOR \<noteq> 0"
    by (auto simp: snippet_page_def Let_def map_sum_eq_Inr split: sum.splits if_splits)
  from largest_fitting_Inr [OF n(1)] n show ?thesis by (auto simp: text_fits_def)
qed

lemma page_tier_Some:
  assumes "page_tier libs st ident root offset limit b
      (min (min (length (rs_hits st) - offset) limit) (budget_limit b)) names = Inr (Some t)"
  shows "\<exists>n > 0. page_shows libs st ident root offset limit b n t"
proof -
  let ?m = "min (min (length (rs_hits st) - offset) limit) (budget_limit b)"
  let ?r = "\<lambda>n nm cl. render_detail libs st ident root offset limit b n
    \<lparr>detail_names = nm, detail_snippets = False\<rparr> cl"
  from assms obtain low where low: "largest_fitting ?m (\<lambda>n. text_fits libs b (?r n names None)) = Inr low"
    by (auto simp: page_tier_def Let_def split: sum.splits)
  note spec = largest_fitting_Inr [OF low]
  show ?thesis
  proof (cases "low > 0")
    case True
    with assms low have "(?r low True None = Inr t \<and> budget_fits libs b t) \<or> ?r low names None = Inr t"
      by (auto simp: page_tier_def Let_def map_sum_eq_Inr split: sum.splits if_splits)
    with spec True have "page_shows libs st ident root offset limit b low t"
      by (auto simp: page_shows_def text_fits_def map_sum_eq_Inr)
    with True show ?thesis by blast
  next
    case False
    with assms low obtain cl where "?m > 0" "?r 1 names (Some cl) = Inr t" "budget_fits libs b t"
      by (auto simp: page_tier_def Let_def map_sum_eq_Inr split: sum.splits if_splits)
    then have "page_shows libs st ident root offset limit b 1 t"
      unfolding page_shows_def by auto
    then show ?thesis by blast
  qed
qed



end
