(* ===== verification/TP_Result_Store.thy ===== *)
theory TP_Result_Store
  imports TP_Page TP_Interfaces
begin

text \<open>
  \<open>src/results/result_set_store.rs\<close> and the store-facing functions of \<open>src/results.rs\<close>: result sets persisted in one
  SQLite table.  The table is the list of its rows; a statement that fails aborts the transaction, so every
  error leaves the table as it was.  \<open>serde_json\<close> (\<open>to_string\<close>, \<open>from_str\<close>) and \<open>uuid\<close> are parameters; the fresh
  identifier and the clock are arguments.
\<close>

section \<open>Rows\<close>

definition MAX_BYTES :: nat where "MAX_BYTES = 32 * 1024 * 1024"
definition MAX_SETS :: nat where "MAX_SETS = 50"
definition TTL_SECONDS :: int where "TTL_SECONDS = 600"

record result_row =
  row_id :: string
  row_created :: int
  row_expires :: int
  row_payload :: string

type_synonym result_db = "result_row list"

record live_result_set =
  ls_generation :: int
  ls_coverage :: json
  ls_truncated :: bool
  ls_hits :: "hit list"

section \<open>Saving\<close>

definition assign_handles :: "string \<Rightarrow> result_entry list \<Rightarrow> result_entry list" where
  "assign_handles ident hits =
     map (\<lambda>(ordinal, h). set_entry_handle (ident @ '':'' @ show_nat (ordinal + 1)) h) (enumerate 0 hits)"

definition truncate_hits :: "nat \<Rightarrow> stored_result_set \<Rightarrow> stored_result_set" where
  "truncate_hits n st = st\<lparr>rs_hits := take n (rs_hits st), rs_truncated := True\<rparr>"

lemma keep_less: "MAX_BYTES < p \<Longrightarrow> n \<noteq> 0 \<Longrightarrow> n * MAX_BYTES div p - 1 < n"
proof -
  assume "MAX_BYTES < p" "n \<noteq> 0"
  then have "n * MAX_BYTES div p < n" by (intro less_mult_imp_div_less) simp
  then show ?thesis by linarith
qed

function bound_payload :: "(stored_result_set \<Rightarrow> string result) \<Rightarrow> stored_result_set \<Rightarrow> string \<Rightarrow>
    (stored_result_set \<times> string) result" where
  "bound_payload to_string st payload =
     (if length payload > MAX_BYTES \<and> rs_hits st \<noteq> [] then
        let keep = length (rs_hits st) * MAX_BYTES div length payload - 1;
            st' = truncate_hits keep st
        in case to_string st' of
             Inl e \<Rightarrow> Inl e
           | Inr payload' \<Rightarrow> bound_payload to_string st' payload'
      else Inr (st, payload))"
  by pat_completeness auto

termination
proof (relation "measure (\<lambda>(_, st, _). length (rs_hits st))", goal_cases)
  case (2 to_string st payload keep st' payload')
  then show ?case using keep_less [of "length payload" "length (rs_hits st)"]
    by (simp add: truncate_hits_def)
qed simp

declare bound_payload.simps [simp del]

definition row_le :: "result_row \<Rightarrow> result_row \<Rightarrow> bool" where
  "row_le a b \<longleftrightarrow> row_created a < row_created b \<or> (row_created a = row_created b \<and> row_id a \<le> row_id b)"

definition over_limits :: "result_db \<Rightarrow> bool" where
  "over_limits db \<longleftrightarrow> \<not> (length db \<le> MAX_SETS \<and> sum_list (map (length \<circ> row_payload) db) \<le> MAX_BYTES)"

definition evict_oldest :: "string \<Rightarrow> result_db \<Rightarrow> result_db" where
  "evict_oldest ident db =
     (case sort_by row_le (filter (\<lambda>r. row_id r \<noteq> ident) db) of
        [] \<Rightarrow> db
      | oldest # _ \<Rightarrow> filter (\<lambda>r. row_id r \<noteq> row_id oldest) db)"

definition new_row :: "string \<Rightarrow> int \<Rightarrow> string \<Rightarrow> result_row" where
  "new_row ident time payload = \<lparr>row_id = ident, row_created = time, row_expires = time + TTL_SECONDS, row_payload = payload\<rparr>"

text \<open>The transaction: expired rows go, the new row is added, and the oldest other rows go while a limit is
  exceeded.  \<open>None\<close> would be a loop that never ends.\<close>

definition store_row :: "string \<Rightarrow> int \<Rightarrow> string \<Rightarrow> result_db \<Rightarrow> (result_db \<times> string result) option" where
  "store_row ident time payload db =
     (let live = filter (\<lambda>r. \<not> row_expires r \<le> time) db
      in if ident \<in> set (map row_id live) then Some (db, Inl ''UNIQUE constraint failed: result_sets.id'')
         else map_option (\<lambda>db'. (db', Inr ident))
           (while_option over_limits (evict_oldest ident)
             (live @ [new_row ident time payload])))"

definition store_save :: "(stored_result_set \<Rightarrow> string result) \<Rightarrow> string \<Rightarrow> int \<Rightarrow> stored_result_set \<Rightarrow> result_db \<Rightarrow>
    (result_db \<times> string result) option" where
  "store_save to_string ident time st db =
     (let st1 = (if length (rs_hits st) > MAX_HITS then truncate_hits MAX_HITS st else st);
          st2 = st1\<lparr>rs_hits := assign_handles ident (rs_hits st1)\<rparr>
      in case to_string st2 of
           Inl e \<Rightarrow> Some (db, Inl e)
         | Inr payload0 \<Rightarrow>
             (case bound_payload to_string st2 payload0 of
                Inl e \<Rightarrow> Some (db, Inl e)
              | Inr (st3, payload) \<Rightarrow>
                  if length payload > MAX_BYTES
                  then Some (db, Inl ''result_cache_unavailable: metadata exceeds cache capacity'')
                  else store_row ident time payload db))"

definition save_entries where
  "save_entries to_string ident time generation coverage entries truncated =
     store_save to_string ident time \<lparr>rs_generation = generation, rs_coverage = coverage, rs_truncated = truncated, rs_hits = entries\<rparr>"

definition save :: "(stored_result_set \<Rightarrow> string result) \<Rightarrow> string \<Rightarrow> int \<Rightarrow> live_result_set \<Rightarrow> result_db \<Rightarrow>
    (result_db \<times> string result) option" where
  "save to_string ident time s =
     save_entries to_string ident time (ls_generation s) (ls_coverage s) (map LiveSource (ls_hits s)) (ls_truncated s)"

section \<open>Loading\<close>

definition load_entries :: "(string \<Rightarrow> stored_result_set result) \<Rightarrow> (string \<Rightarrow> 'u option) \<Rightarrow> int \<Rightarrow> result_db \<Rightarrow> string \<Rightarrow>
    stored_result_set result" where
  "load_entries from_str parse_uuid time db ident =
     (case parse_uuid ident of
        None \<Rightarrow> Inl ''invalid_handle: expected immutable result-set identifier''
      | Some _ \<Rightarrow>
          (case find (\<lambda>r. row_id r = ident) db of
             None \<Rightarrow> Inl ''expired_result: result set expired or was evicted; search again''
           | Some r \<Rightarrow>
               if row_expires r \<le> time then Inl ''expired_result: result set expired; search again''
               else case from_str (row_payload r) of
                 Inl _ \<Rightarrow> Inl ''result_unavailable: stored result format is invalid; search again''
               | Inr st \<Rightarrow> Inr st))"

fun live_hits :: "result_entry list \<Rightarrow> hit list result" where
  "live_hits [] = Inr []"
| "live_hits (LiveSource h # es) = map_sum id ((#) h) (live_hits es)"
| "live_hits (_ # es) = Inl ''historical_result: expected live-source result set''"

definition load :: "(string \<Rightarrow> stored_result_set result) \<Rightarrow> (string \<Rightarrow> 'u option) \<Rightarrow> int \<Rightarrow> result_db \<Rightarrow> string \<Rightarrow>
    live_result_set result" where
  "load from_str parse_uuid time db ident =
     (case load_entries from_str parse_uuid time db ident of
        Inl e \<Rightarrow> Inl e
      | Inr st \<Rightarrow> map_sum id (\<lambda>hits. \<lparr>ls_generation = rs_generation st, ls_coverage = rs_coverage st,
          ls_truncated = rs_truncated st, ls_hits = hits\<rparr>) (live_hits (rs_hits st)))"

definition entry :: "(string \<Rightarrow> stored_result_set result) \<Rightarrow> (string \<Rightarrow> 'u option) \<Rightarrow> ('u \<Rightarrow> string) \<Rightarrow> int \<Rightarrow> result_db \<Rightarrow>
    string \<Rightarrow> (int \<times> result_entry) result" where
  "entry from_str parse_uuid show_uuid time db hdl =
     (case ResultHandle_parse parse_uuid hdl of
        Inl e \<Rightarrow> Inl e
      | Inr h \<Rightarrow>
          (case load_entries from_str parse_uuid time db (show_uuid (handle_set h)) of
             Inl e \<Rightarrow> Inl e
           | Inr st \<Rightarrow>
               (case nth_opt (rs_hits st) (handle_ordinal h - 1) of
                  None \<Rightarrow> Inl ''invalid_handle: ordinal outside result set''
                | Some e \<Rightarrow> Inr (rs_generation st, e))))"

definition handle :: "(string \<Rightarrow> stored_result_set result) \<Rightarrow> (string \<Rightarrow> 'u option) \<Rightarrow> ('u \<Rightarrow> string) \<Rightarrow> int \<Rightarrow> result_db \<Rightarrow>
    string \<Rightarrow> (int \<times> hit) result" where
  "handle from_str parse_uuid show_uuid time db hdl =
     (case entry from_str parse_uuid show_uuid time db hdl of
        Inl e \<Rightarrow> Inl e
      | Inr (generation, LiveSource h) \<Rightarrow> Inr (generation, h)
      | Inr _ \<Rightarrow> Inl ''historical_result: historical entries are invalid for live context'')"

section \<open>Retention\<close>

text \<open>The table has one row per identifier; during a save the new row is there and within the limit alone.\<close>

definition db_ok :: "result_db \<Rightarrow> bool" where
  "db_ok db \<longleftrightarrow> distinct (map row_id db)"

definition saving_ok :: "string \<Rightarrow> result_db \<Rightarrow> bool" where
  "saving_ok ident db \<longleftrightarrow> db_ok db \<and> (\<exists>r \<in> set db. row_id r = ident \<and> length (row_payload r) \<le> MAX_BYTES)"

text \<open>What the eviction loop keeps: the survivors come from the table, the saved row survives, and what went is
  no newer than any other survivor.\<close>

definition evicted_oldest :: "string \<Rightarrow> result_db \<Rightarrow> result_db \<Rightarrow> bool" where
  "evicted_oldest ident before db \<longleftrightarrow> saving_ok ident db \<and> set db \<subseteq> set before
     \<and> (\<forall>r \<in> set before. row_id r = ident \<longrightarrow> r \<in> set db)
     \<and> (\<forall>gone \<in> set before - set db. \<forall>r \<in> set db. row_id r \<noteq> ident \<longrightarrow> row_le gone r)"

text \<open>The set that is serialised first.\<close>

definition bounded_set :: "string \<Rightarrow> stored_result_set \<Rightarrow> stored_result_set" where
  "bounded_set ident st =
     (let st1 = (if length (rs_hits st) > MAX_HITS then truncate_hits MAX_HITS st else st)
      in st1\<lparr>rs_hits := assign_handles ident (rs_hits st1)\<rparr>)"

interpretation rows: comparison row_le
  by unfold_locales (auto simp: row_le_def)

lemma evict_oldest_cases:
  assumes "\<exists>r \<in> set db. row_id r \<noteq> ident"
  obtains oldest where "oldest \<in> set db" "row_id oldest \<noteq> ident"
    "evict_oldest ident db = filter (\<lambda>r. row_id r \<noteq> row_id oldest) db"
    "\<And>r. r \<in> set db \<Longrightarrow> row_id r \<noteq> ident \<Longrightarrow> row_le oldest r"
proof -
  let ?c = "filter (\<lambda>r. row_id r \<noteq> ident) db"
  from assms obtain r0 where "r0 \<in> set (sort_by row_le ?c)" by auto
  then obtain oldest rest where s: "sort_by row_le ?c = oldest # rest" by (cases "sort_by row_le ?c") auto
  then have mem: "set (oldest # rest) = set ?c" by (metis set_sort_by)
  have "sorted_wrt row_le (oldest # rest)" using rows.sorted_sort_by [of ?c] s by simp
  have "row_le oldest r" if "r \<in> set db" "row_id r \<noteq> ident" for r
  proof -
    from that mem have "r = oldest \<or> r \<in> set rest" by auto
    with \<open>sorted_wrt row_le (oldest # rest)\<close> show ?thesis by (auto simp: rows.le_refl)
  qed
  moreover have "oldest \<in> set db" "row_id oldest \<noteq> ident" using mem by auto
  ultimately show ?thesis using that [of oldest] s by (simp add: evict_oldest_def)
qed

lemma over_limits_other:
  assumes "saving_ok ident db" "over_limits db"
  shows "\<exists>r \<in> set db. row_id r \<noteq> ident"
proof (rule ccontr)
  assume a: "\<not> ?thesis"
  from assms(1) obtain r where r: "r \<in> set db" "length (row_payload r) \<le> MAX_BYTES"
    and d: "distinct (map row_id db)" by (auto simp: saving_ok_def db_ok_def)
  from a have "set (map row_id db) \<subseteq> {ident}" by auto
  with d have "length db \<le> 1"
    by (metis card_mono card_1_singleton_iff distinct_card finite.emptyI finite.insertI is_singletonI is_singleton_altdef length_map)
  with r have "db = [r]" by (cases db) auto
  with r assms(2) show False by (simp add: over_limits_def MAX_SETS_def)
qed

lemma evict_saving_ok:
  assumes "saving_ok ident db" "over_limits db"
  shows "saving_ok ident (evict_oldest ident db)" "length (evict_oldest ident db) < length db"
proof -
  obtain oldest where o: "oldest \<in> set db" "row_id oldest \<noteq> ident"
    "evict_oldest ident db = filter (\<lambda>r. row_id r \<noteq> row_id oldest) db"
    using evict_oldest_cases [OF over_limits_other [OF assms]] by metis
  show "saving_ok ident (evict_oldest ident db)"
    using assms(1) o(2) unfolding o(3) by (auto simp: saving_ok_def db_ok_def distinct_map inj_on_def)
  show "length (evict_oldest ident db) < length db"
    unfolding o(3) using o(1) by (intro length_filter_less) auto
qed

interpretation retention: eviction over_limits "evict_oldest ident" length "saving_ok ident" for ident
  by unfold_locales (simp_all add: evict_saving_ok)

lemma evict_step:
  assumes ok: "evicted_oldest ident before db" and over: "over_limits db"
  shows "evicted_oldest ident before (evict_oldest ident db)"
proof -
  from ok have s: "saving_ok ident db" by (simp add: evicted_oldest_def)
  obtain oldest where o: "oldest \<in> set db" "row_id oldest \<noteq> ident"
    "evict_oldest ident db = filter (\<lambda>r. row_id r \<noteq> row_id oldest) db"
    "\<And>r. r \<in> set db \<Longrightarrow> row_id r \<noteq> ident \<Longrightarrow> row_le oldest r"
    using evict_oldest_cases [OF over_limits_other [OF s over]] by metis
  from s have inj: "inj_on row_id (set db)" by (simp add: saving_ok_def db_ok_def distinct_map)
  have gone: "row_le g r" if "g \<in> set before" "g \<notin> set (evict_oldest ident db)"
      "r \<in> set (evict_oldest ident db)" "row_id r \<noteq> ident" for g r
  proof (cases "g \<in> set db")
    case True
    with that(2) o(3) inj o(1) have "g = oldest" by (auto dest: inj_onD)
    with that o show ?thesis by auto
  next
    case False
    with that o(3) ok show ?thesis by (auto simp: evicted_oldest_def)
  qed
  with ok o evict_saving_ok(1) [OF s over] show ?thesis by (auto simp: evicted_oldest_def)
qed

lemma evict_loop_oldest:
  assumes "saving_ok ident before"
  shows "\<exists>db. while_option over_limits (evict_oldest ident) before = Some db
     \<and> evicted_oldest ident before db \<and> \<not> over_limits db"
proof -
  obtain db where db: "while_option over_limits (evict_oldest ident) before = Some db" "\<not> over_limits db"
    using retention.evict_loop [OF assms] by blast
  have "evicted_oldest ident before db"
    by (rule while_option_rule [OF _ db(1)]) (use assms in \<open>auto simp: evict_step evicted_oldest_def [of ident before before]\<close>)
  with db show ?thesis by blast
qed

lemma store_row_spec:
  assumes ok: "db_ok db" and fresh: "ident \<notin> row_id ` set db" and small: "length payload \<le> MAX_BYTES"
  shows "\<exists>db'. store_row ident time payload db = Some (db', Inr ident) \<and> \<not> over_limits db'
     \<and> evicted_oldest ident (filter (\<lambda>r. \<not> row_expires r \<le> time) db @ [new_row ident time payload]) db'"
proof -
  let ?before = "filter (\<lambda>r. \<not> row_expires r \<le> time) db @ [new_row ident time payload]"
  have "distinct (map row_id (filter (\<lambda>r. \<not> row_expires r \<le> time) db))"
    using ok by (simp add: db_ok_def distinct_map_filter)
  with fresh small have "saving_ok ident ?before"
    by (auto simp: saving_ok_def db_ok_def new_row_def)
  from evict_loop_oldest [OF this] fresh show ?thesis
    by (auto simp: store_row_def Let_def new_row_def image_iff)
qed

lemma bound_payload_Inr:
  "bound_payload to_string st payload = Inr (st', payload') \<Longrightarrow> to_string st = Inr payload \<Longrightarrow>
   to_string st' = Inr payload' \<and> rs_generation st' = rs_generation st \<and> rs_coverage st' = rs_coverage st
   \<and> rs_hits st' = take (length (rs_hits st')) (rs_hits st)
   \<and> (rs_truncated st' \<longleftrightarrow> rs_truncated st \<or> length (rs_hits st') < length (rs_hits st))"
proof (induction to_string st payload rule: bound_payload.induct)
  case (1 to_string st payload)
  show ?case
  proof (cases "length payload > MAX_BYTES \<and> rs_hits st \<noteq> []")
    case False
    with "1.prems" show ?thesis by (subst (asm) bound_payload.simps) auto
  next
    case True
    define keep where "keep = length (rs_hits st) * MAX_BYTES div length payload - 1"
    have less: "keep < length (rs_hits st)" using True keep_less unfolding keep_def by simp
    from "1.prems"(1) True obtain p1 where p1: "to_string (truncate_hits keep st) = Inr p1"
      and rec: "bound_payload to_string (truncate_hits keep st) p1 = Inr (st', payload')"
      by (subst (asm) bound_payload.simps) (auto simp: keep_def Let_def split: sum.splits)
    from "1.IH" [OF True keep_def refl p1 rec p1] less show ?thesis
      by (auto simp: truncate_hits_def) (metis length_take min.absorb2 nat_less_le take_take min.commute)+
  qed
qed

lemma length_assign_handles [simp]: "length (assign_handles ident hits) = length hits"
  by (simp add: assign_handles_def)

lemma nth_assign_handles: "k < length hits \<Longrightarrow>
   assign_handles ident hits ! k = set_entry_handle (ident @ '':'' @ show_nat (Suc k)) (hits ! k)"
  by (simp add: assign_handles_def nth_enumerate_eq)

lemma assign_handles_take: "assign_handles ident (take n hits) = take n (assign_handles ident hits)"
  by (rule nth_equalityI) (auto simp: nth_assign_handles)

lemma bounded_set_fields:
  "rs_generation (bounded_set ident st) = rs_generation st" "rs_coverage (bounded_set ident st) = rs_coverage st"
  "rs_hits (bounded_set ident st) = take MAX_HITS (assign_handles ident (rs_hits st))"
  "rs_truncated (bounded_set ident st) \<longleftrightarrow> rs_truncated st \<or> MAX_HITS < length (rs_hits st)"
  by (simp_all add: bounded_set_def truncate_hits_def assign_handles_take)

lemma store_save_cases:
  obtains (error) e where "store_save to_string ident time st db = Some (db, Inl e)"
  | (saved) st' payload where "store_save to_string ident time st db = store_row ident time payload db"
      "length payload \<le> MAX_BYTES" "to_string st' = Inr payload" "length (rs_hits st') \<le> MAX_HITS"
      "rs_generation st' = rs_generation st" "rs_coverage st' = rs_coverage st"
      "rs_hits st' = take (length (rs_hits st')) (assign_handles ident (rs_hits st))"
      "rs_truncated st' \<longleftrightarrow> rs_truncated st \<or> length (rs_hits st') < length (rs_hits st)"
proof (cases "to_string (bounded_set ident st)")
  case (Inl e)
  then show ?thesis by (intro error [of e]) (simp add: store_save_def bounded_set_def Let_def)
next
  case (Inr payload0)
  have save: "store_save to_string ident time st db =
     (case bound_payload to_string (bounded_set ident st) payload0 of
        Inl e \<Rightarrow> Some (db, Inl e)
      | Inr (st3, payload) \<Rightarrow> if length payload > MAX_BYTES
          then Some (db, Inl ''result_cache_unavailable: metadata exceeds cache capacity'')
          else store_row ident time payload db)"
    using Inr by (simp add: store_save_def bounded_set_def Let_def)
  show ?thesis
  proof (cases "bound_payload to_string (bounded_set ident st) payload0")
    case (Inl e)
    then show ?thesis using save by (intro error [of e]) simp
  next
    case bp: (Inr a)
    obtain st' payload where a: "a = (st', payload)" by (cases a)
    note b = bound_payload_Inr [OF bp [unfolded a] Inr, unfolded bounded_set_fields]
    have len: "length (rs_hits st') \<le> min MAX_HITS (length (rs_hits st))"
      using b by (metis length_assign_handles length_take min.cobounded2 min.commute)
    show ?thesis
    proof (cases "length payload > MAX_BYTES")
      case True
      then show ?thesis using save bp a by (intro error) simp
    next
      case False
      have "rs_hits st' = take (length (rs_hits st')) (assign_handles ident (rs_hits st))"
        using b len by (simp add: min_absorb1)
      moreover have "rs_truncated st' \<longleftrightarrow> rs_truncated st \<or> length (rs_hits st') < length (rs_hits st)"
        using b len by auto
      ultimately show ?thesis using False save bp a b len by (intro saved [of payload st']) simp_all
    qed
  qed
qed

text \<open>
  C21.  Saving always ends.  An error leaves the table untouched; a success returns the new identifier and a table
  with one row per identifier, at most 50 rows and 32 MiB of payload, holding the new row with its expiry; every
  other row was there before and had not expired, and a live row that was evicted is no newer than any that stayed.
\<close>

theorem save_keeps_retention_limits:
  assumes "db_ok db" and "ident \<notin> row_id ` set db"
  shows "\<exists>db' r. store_save to_string ident time st db = Some (db', r)
     \<and> (case r of
          Inl e \<Rightarrow> db' = db
        | Inr i \<Rightarrow> i = ident \<and> db_ok db' \<and> length db' \<le> MAX_SETS
            \<and> sum_list (map (length \<circ> row_payload) db') \<le> MAX_BYTES
            \<and> (\<exists>own \<in> set db'. row_id own = ident \<and> row_created own = time \<and> row_expires own = time + TTL_SECONDS)
            \<and> (\<forall>r \<in> set db'. row_id r \<noteq> ident \<longrightarrow> r \<in> set db \<and> time < row_expires r)
            \<and> (\<forall>gone \<in> set db - set db'. time < row_expires gone \<longrightarrow>
                 (\<forall>r \<in> set db'. row_id r \<noteq> ident \<longrightarrow> row_le gone r)))"
proof (cases rule: store_save_cases [of to_string ident time st db])
  case (error e)
  then show ?thesis by auto
next
  case (saved st' payload)
  from store_row_spec [OF assms saved(2), where time = time] obtain db' where
    "store_row ident time payload db = Some (db', Inr ident)" "\<not> over_limits db'"
    "evicted_oldest ident (filter (\<lambda>r. \<not> row_expires r \<le> time) db
       @ [new_row ident time payload]) db'"
    by blast
  with saved(1) show ?thesis
    by (intro exI [of _ db'] exI [of _ "Inr ident"]) (fastforce simp: over_limits_def evicted_oldest_def saving_ok_def new_row_def)
qed

theorem save_keeps_retention_limits_witness:
  "\<exists>db' r. store_save (\<lambda>_. Inr ''{}'') ''b'' 7 sample_set [new_row ''a'' 5 ''{}''] = Some (db', r)
     \<and> r = Inr ''b'' \<and> length db' \<le> MAX_SETS"
proof -
  have st: "store_save (\<lambda>_. Inr ''{}'') ''b'' 7 sample_set [new_row ''a'' 5 ''{}'']
      = store_row ''b'' 7 ''{}'' [new_row ''a'' 5 ''{}'']"
    by (simp add: store_save_def bound_payload.simps MAX_BYTES_def)
  have ok: "db_ok [new_row ''a'' 5 ''{}'']" "''b'' \<notin> row_id ` set [new_row ''a'' 5 ''{}'']"
    by (simp_all add: db_ok_def new_row_def)
  obtain db' where "store_row ''b'' 7 ''{}'' [new_row ''a'' 5 ''{}''] = Some (db', Inr ''b'')"
    using store_row_spec [OF ok, where payload = "''{}''" and time = 7] by (auto simp: MAX_BYTES_def)
  with save_keeps_retention_limits [OF ok, of "\<lambda>_. Inr ''{}''" 7 sample_set] st show ?thesis by auto
qed

lemma db_ok_find: "db_ok db \<Longrightarrow> r \<in> set db \<Longrightarrow> find (\<lambda>x. row_id x = row_id r) db = Some r"
  by (induction db) (auto simp: db_ok_def)

text \<open>
  C17.  What was saved is what is loaded.  With a JSON library that reads back what it wrote and a UUID library that
  parses what it prints: until the expiry, loading the returned identifier gives the set with the same generation
  and coverage whose hits are a prefix of the given ones, numbered from 1 under that identifier, flagged truncated
  exactly when hits were dropped (or it was before); every handle of it resolves to its hit; and from the expiry
  on the set is refused as expired.
\<close>

theorem saved_result_set_roundtrip:
  assumes json: "\<And>s p. to_string s = Inr p \<Longrightarrow> from_str p = Inr s"
    and uuid: "\<And>u. parse_uuid (show_uuid u) = Some u"
    and db: "db_ok db" "show_uuid u \<notin> row_id ` set db"
    and saved: "store_save to_string (show_uuid u) time st db = Some (db', Inr i)"
  shows "\<exists>st'. i = show_uuid u
     \<and> (\<forall>t < time + TTL_SECONDS. load_entries from_str parse_uuid t db' i = Inr st'
          \<and> (\<forall>k < length (rs_hits st'). entry from_str parse_uuid show_uuid t db'
                (ResultHandle_display show_uuid \<lparr>handle_set = u, handle_ordinal = Suc k\<rparr>)
              = Inr (rs_generation st, set_entry_handle
                  (ResultHandle_display show_uuid \<lparr>handle_set = u, handle_ordinal = Suc k\<rparr>) (rs_hits st ! k))))
     \<and> (\<forall>t \<ge> time + TTL_SECONDS. load_entries from_str parse_uuid t db' i
          = Inl ''expired_result: result set expired; search again'')
     \<and> rs_generation st' = rs_generation st \<and> rs_coverage st' = rs_coverage st
     \<and> length (rs_hits st') \<le> MAX_HITS
     \<and> rs_hits st' = take (length (rs_hits st')) (assign_handles i (rs_hits st))
     \<and> (rs_truncated st' \<longleftrightarrow> rs_truncated st \<or> length (rs_hits st') < length (rs_hits st))"
proof (cases rule: store_save_cases [of to_string "show_uuid u" time st db])
  case (error e)
  with saved show ?thesis by simp
next
  case (saved st' payload)
  let ?own = "new_row (show_uuid u) time payload"
  from store_row_spec [OF db saved(2), where time = time] saved(1) \<open>store_save _ _ _ _ _ = Some (db', Inr i)\<close>
  have i: "i = show_uuid u" and own: "?own \<in> set db'" "db_ok db'"
    by (auto simp: evicted_oldest_def saving_ok_def new_row_def)
  have "find (\<lambda>x. row_id x = show_uuid u) db' = Some ?own"
    using db_ok_find [OF own(2,1)] by (simp add: new_row_def)
  then have load: "load_entries from_str parse_uuid t db' (show_uuid u) =
      (if time + TTL_SECONDS \<le> t then Inl ''expired_result: result set expired; search again'' else Inr st')" for t
    using json [OF saved(3)] by (simp add: load_entries_def uuid new_row_def)
  have "entry from_str parse_uuid show_uuid t db' (ResultHandle_display show_uuid \<lparr>handle_set = u, handle_ordinal = Suc k\<rparr>)
      = Inr (rs_generation st, set_entry_handle
          (ResultHandle_display show_uuid \<lparr>handle_set = u, handle_ordinal = Suc k\<rparr>) (rs_hits st ! k))"
    if "t < time + TTL_SECONDS" "k < length (rs_hits st')" for t k
  proof -
    have "Suc k \<le> usize_max" using that(2) saved(4) by (simp add: MAX_HITS_def usize_max_def)
    then have "ResultHandle_parse parse_uuid (ResultHandle_display show_uuid \<lparr>handle_set = u, handle_ordinal = Suc k\<rparr>)
        = Inr \<lparr>handle_set = u, handle_ordinal = Suc k\<rparr>"
      using rsplit_once_append [OF colon_not_in_show_nat, of "show_uuid u"]
      by (simp add: ResultHandle_parse_def ResultHandle_display_def uuid parse_show_nat)
    moreover have "rs_hits st' ! k = set_entry_handle (show_uuid u @ '':'' @ show_nat (Suc k)) (rs_hits st ! k)"
      using that(2) saved(7) by (metis length_assign_handles length_take min_less_iff_conj nth_assign_handles nth_take)
    ultimately show ?thesis using that load saved(5)
      by (simp add: entry_def nth_opt_def ResultHandle_display_def)
  qed
  with load i saved show ?thesis by (intro exI [of _ st']) auto
qed

theorem saved_result_set_roundtrip_witness:
  "\<exists>db' i st'. store_save (\<lambda>s. if s = sample_set then Inr ''{}'' else Inl ''unsupported'') ''ab'' 7 sample_set []
       = Some (db', Inr i)
     \<and> load_entries (\<lambda>_. Inr sample_set) Some 8 db' i = Inr st' \<and> rs_generation st' = 3"
proof -
  let ?ts = "\<lambda>s. if s = sample_set then Inr ''{}'' else Inl ''unsupported''"
  have "show_nat (Suc 0) = ''1''" by code_simp
  then have same: "bounded_set ''ab'' sample_set = sample_set"
    by (simp add: bounded_set_def sample_set_def MAX_HITS_def assign_handles_def)
  have "store_save ?ts ''ab'' 7 sample_set [] = store_row ''ab'' 7 ''{}'' []"
    using same by (simp add: store_save_def bounded_set_def bound_payload.simps MAX_BYTES_def Let_def)
  moreover obtain db' where "store_row ''ab'' 7 ''{}'' [] = Some (db', Inr ''ab'')"
    using store_row_spec [of "[]" "''ab''" "''{}''" 7] by (auto simp: db_ok_def MAX_BYTES_def)
  ultimately have saved: "store_save ?ts ''ab'' 7 sample_set [] = Some (db', Inr ''ab'')" by simp
  have json: "from_str p = Inr s" if "?ts s = Inr p" "from_str = (\<lambda>_. Inr sample_set)"
    for s p and from_str :: "string \<Rightarrow> stored_result_set result" using that by (auto split: if_splits)
  have "\<exists>st'. load_entries (\<lambda>_. Inr sample_set) Some 8 db' ''ab'' = Inr st' \<and> rs_generation st' = rs_generation sample_set"
    using saved_result_set_roundtrip [of ?ts "\<lambda>_. Inr sample_set" Some "\<lambda>x. x" "[]" "''ab''", OF json [OF _ refl] refl _ _ saved] by (fastforce simp: db_ok_def TTL_SECONDS_def)
  with saved show ?thesis by (auto simp: sample_set_def)
qed

end
