(* ===== verification/TP_Pool.thy ===== *)
theory TP_Pool
  imports TP_Interfaces
begin

text \<open>
  \<open>src/daemon/pool.rs\<close>: worker threads draining one bounded queue.  A state is what the threads share (the channel,
  the sender slot, the \<open>pending\<close> counter, the shutdown flag) with the program counter of every thread; a step is one
  action another thread can observe.  \<open>submit\<close> holds the sender lock from its check to its \<open>try_send\<close>, so one submission
  is under way at most; the receiver lock is held while a worker blocks in \<open>recv\<close> and while \<open>shutdown\<close> drains.  A job
  that panics is caught, so running a job always ends in its worker's decrement.  \<open>accepted\<close>, \<open>ran\<close> and \<open>discarded\<close>
  are ghost fields: the jobs a submission returned \<open>Ok\<close> for, those that ran, and those dropped unrun.  The flag check
  of \<open>submit\<close> and its increment of the counter are one step, and the pool starts with all its workers: that a thread
  cannot be spawned is not modelled.
\<close>

section \<open>State\<close>

record pool_size =
  size_workers :: nat
  size_queue :: nat

definition ROUTER_POOL :: pool_size where "ROUTER_POOL = \<lparr>size_workers = 16, size_queue = 64\<rparr>"
definition COORDINATOR_POOL :: pool_size where "COORDINATOR_POOL = \<lparr>size_workers = 8, size_queue = 64\<rparr>"
definition ROOT_POOL :: pool_size where "ROOT_POOL = \<lparr>size_workers = 4, size_queue = 64\<rparr>"

text \<open>Where a worker is in its loop: before the flag check, before the receiver lock, in \<open>recv\<close>, with a job before the
  second check, running it, done with it (run or dropped) before the decrement, or returned.\<close>

datatype 'j worker_pc = AtCheck | AtLock | AtRecv | GotJob 'j | Running 'j | Ran | Dropped | Exited

text \<open>Where the thread that shuts down is: not called, flag set, sender dropped, draining under the receiver lock, a
  dropped job before its decrement, returned.\<close>

datatype shutdown_pc = Idle | FlagSet | SenderTaken | Draining | DrainedJob | ShutDone

record 'j pool =
  queue :: "'j list"
  capacity :: nat
  sender_open :: bool
  pending :: nat
  shutting_down :: bool
  workers :: "'j worker_pc list"
  submitting :: "'j option"
  shutdown_at :: shutdown_pc
  accepted :: "'j multiset"
  ran :: "'j multiset"
  discarded :: "'j multiset"

section \<open>Operations\<close>

definition RequestPool_new :: "pool_size \<Rightarrow> 'j pool" where
  "RequestPool_new sz = \<lparr>queue = [], capacity = size_queue sz, sender_open = True, pending = 0,
     shutting_down = False, workers = replicate (max (size_workers sz) 1) AtCheck, submitting = None,
     shutdown_at = Idle, accepted = {#}, ran = {#}, discarded = {#}\<rparr>"

text \<open>\<open>submit\<close> up to the increment: \<open>None\<close> hands the job back.\<close>

definition submit_begin :: "'j \<Rightarrow> 'j pool \<Rightarrow> 'j pool option" where
  "submit_begin job s =
     (if shutting_down s then None
      else if \<not> sender_open s then None
      else Some (s\<lparr>pending := pending s + 1, submitting := Some job\<rparr>))"

text \<open>\<open>try_send\<close> and what follows it: \<open>True\<close> is \<open>Ok\<close>, \<open>False\<close> hands the job back.\<close>

definition submit_send :: "'j \<Rightarrow> 'j pool \<Rightarrow> bool \<times> 'j pool" where
  "submit_send job s =
     (if length (queue s) < capacity s
      then (True, s\<lparr>queue := queue s @ [job], submitting := None, accepted := add_mset job (accepted s)\<rparr>)
      else (False, s\<lparr>pending := pending s - 1, submitting := None\<rparr>))"

definition receiver_free :: "'j pool \<Rightarrow> bool" where
  "receiver_free s \<longleftrightarrow> AtRecv \<notin> set (workers s) \<and> shutdown_at s \<noteq> Draining \<and> shutdown_at s \<noteq> DrainedJob"

definition set_worker :: "nat \<Rightarrow> 'j worker_pc \<Rightarrow> 'j pool \<Rightarrow> 'j pool" where
  "set_worker i pc s = s\<lparr>workers := (workers s)[i := pc]\<rparr>"

text \<open>One action of worker \<open>i\<close>; \<open>None\<close> when it is blocked or has returned.\<close>

definition worker_step :: "nat \<Rightarrow> 'j pool \<Rightarrow> 'j pool option" where
  "worker_step i s =
     (case workers s ! i of
        AtCheck \<Rightarrow> Some (set_worker i (if shutting_down s then Exited else AtLock) s)
      | AtLock \<Rightarrow> if receiver_free s then Some (set_worker i AtRecv s) else None
      | AtRecv \<Rightarrow>
          (case queue s of
             job # rest \<Rightarrow> Some (set_worker i (GotJob job) (s\<lparr>queue := rest\<rparr>))
           | [] \<Rightarrow> if sender_open s then None else Some (set_worker i Exited s))
      | GotJob job \<Rightarrow>
          Some (if shutting_down s then set_worker i Dropped (s\<lparr>discarded := add_mset job (discarded s)\<rparr>)
                else set_worker i (Running job) s)
      | Running job \<Rightarrow> Some (set_worker i Ran (s\<lparr>ran := add_mset job (ran s)\<rparr>))
      | Ran \<Rightarrow> Some (set_worker i AtCheck (s\<lparr>pending := pending s - 1\<rparr>))
      | Dropped \<Rightarrow> Some (set_worker i Exited (s\<lparr>pending := pending s - 1\<rparr>))
      | Exited \<Rightarrow> None)"

definition shutdown_call :: "'j pool \<Rightarrow> 'j pool" where
  "shutdown_call s = s\<lparr>shutting_down := True, shutdown_at := FlagSet\<rparr>"

text \<open>One action of the thread inside \<open>shutdown\<close>; \<open>None\<close> when it waits for a lock.\<close>

definition shutdown_step :: "'j pool \<Rightarrow> 'j pool option" where
  "shutdown_step s =
     (case shutdown_at s of
        FlagSet \<Rightarrow> if submitting s = None then Some (s\<lparr>sender_open := False, shutdown_at := SenderTaken\<rparr>) else None
      | SenderTaken \<Rightarrow> if receiver_free s then Some (s\<lparr>shutdown_at := Draining\<rparr>) else None
      | Draining \<Rightarrow>
          Some (case queue s of
             job # rest \<Rightarrow> s\<lparr>queue := rest, discarded := add_mset job (discarded s), shutdown_at := DrainedJob\<rparr>
           | [] \<Rightarrow> s\<lparr>shutdown_at := ShutDone\<rparr>)
      | DrainedJob \<Rightarrow> Some (s\<lparr>pending := pending s - 1, shutdown_at := Draining\<rparr>)
      | _ \<Rightarrow> None)"

text \<open>One test of \<open>drain\<close>'s loop: it returns \<open>true\<close> when the counter is zero.\<close>

definition drain_done :: "'j pool \<Rightarrow> bool" where
  "drain_done s \<longleftrightarrow> \<not> pending s > 0"

text \<open>The steps the pool takes by itself, and those its callers add.\<close>

inductive internal_step :: "'j pool \<Rightarrow> 'j pool \<Rightarrow> bool" where
  send: "submitting s = Some job \<Longrightarrow> internal_step s (snd (submit_send job s))"
| work: "i < length (workers s) \<Longrightarrow> worker_step i s = Some s' \<Longrightarrow> internal_step s s'"
| shut: "shutdown_step s = Some s' \<Longrightarrow> internal_step s s'"

inductive pool_step :: "'j pool \<Rightarrow> 'j pool \<Rightarrow> bool" where
  internal: "internal_step s s' \<Longrightarrow> pool_step s s'"
| submit: "submitting s = None \<Longrightarrow> submit_begin job s = Some s' \<Longrightarrow> pool_step s s'"
| call: "shutdown_at s = Idle \<or> shutdown_at s = ShutDone \<Longrightarrow> pool_step s (shutdown_call s)"

inductive_cases internal_stepE: "internal_step s s'"
inductive_cases pool_stepE: "pool_step s s'"

section \<open>Accounting\<close>

fun holds :: "'j worker_pc \<Rightarrow> nat" where
  "holds (GotJob _) = 1"
| "holds (Running _) = 1"
| "holds Ran = 1"
| "holds Dropped = 1"
| "holds _ = 0"

fun job_of :: "'j worker_pc \<Rightarrow> 'j multiset" where
  "job_of (GotJob j) = {#j#}"
| "job_of (Running j) = {#j#}"
| "job_of _ = {#}"

definition held :: "'j pool \<Rightarrow> nat" where
  "held s = sum_list (map holds (workers s))"

definition in_hand :: "'j pool \<Rightarrow> 'j multiset" where
  "in_hand s = sum_list (map job_of (workers s))"

definition in_progress :: "'j pool \<Rightarrow> nat" where
  "in_progress s = (if submitting s = None then 0 else 1) + (if shutdown_at s = DrainedJob then 1 else 0)"

definition pool_inv :: "'j pool \<Rightarrow> bool" where
  "pool_inv s \<longleftrightarrow>
     pending s = length (queue s) + held s + in_progress s
     \<and> accepted s = mset (queue s) + in_hand s + ran s + discarded s
     \<and> length (queue s) \<le> capacity s
     \<and> (shutdown_at s \<noteq> Idle \<longrightarrow> shutting_down s)
     \<and> (\<not> sender_open s \<longrightarrow> shutting_down s \<and> submitting s = None)
     \<and> (shutdown_at s \<in> {SenderTaken, Draining, DrainedJob, ShutDone} \<longrightarrow> \<not> sender_open s)
     \<and> (shutdown_at s = ShutDone \<longrightarrow> queue s = [])
     \<and> (shutdown_at s = Idle \<longrightarrow> sender_open s)
     \<and> (discarded s \<noteq> {#} \<longrightarrow> shutting_down s)"

lemma sum_list_worker:
  fixes f :: "'p \<Rightarrow> 'b :: cancel_comm_monoid_add"
  assumes "i < length ws"
  shows "sum_list (map f (ws[i := pc])) + f (ws ! i) = sum_list (map f ws) + f pc"
  using assms
proof (induction ws arbitrary: i)
  case Nil
  then show ?case by simp
next
  case (Cons w ws)
  then show ?case by (cases i) (simp_all add: ac_simps)
qed

lemma held_set_worker: "i < length (workers s) \<Longrightarrow> held (set_worker i pc s) + holds (workers s ! i) = held s + holds pc"
  by (simp add: held_def set_worker_def sum_list_worker)

lemma in_hand_set_worker:
  "i < length (workers s) \<Longrightarrow> in_hand (set_worker i pc s) + job_of (workers s ! i) = in_hand s + job_of pc"
  by (simp add: in_hand_def set_worker_def sum_list_worker)

lemma set_worker_fields [simp]:
  "queue (set_worker i pc s) = queue s" "capacity (set_worker i pc s) = capacity s"
  "sender_open (set_worker i pc s) = sender_open s" "pending (set_worker i pc s) = pending s"
  "shutting_down (set_worker i pc s) = shutting_down s" "submitting (set_worker i pc s) = submitting s"
  "shutdown_at (set_worker i pc s) = shutdown_at s" "accepted (set_worker i pc s) = accepted s"
  "ran (set_worker i pc s) = ran s" "discarded (set_worker i pc s) = discarded s"
  "workers (set_worker i pc s) = (workers s)[i := pc]"
  by (simp_all add: set_worker_def)

lemma held_in_hand_cong: "workers s = workers t \<Longrightarrow> held s = held t" "workers s = workers t \<Longrightarrow> in_hand s = in_hand t"
  by (simp_all add: held_def in_hand_def)

lemma in_progress_set_worker [simp]: "in_progress (set_worker i pc s) = in_progress s"
  by (simp add: in_progress_def)

lemma worker_step_inv:
  assumes inv: "pool_inv s" and i: "i < length (workers s)" and step: "worker_step i s = Some s'"
  shows "pool_inv s'"
proof -
  have *: "held s' + holds (workers s ! i) = held s + holds pc \<and> in_hand s' + job_of (workers s ! i) = in_hand s + job_of pc"
    if "s' = set_worker i pc t" "workers t = workers s" for t pc
    using that i held_set_worker [of i t pc] in_hand_set_worker [of i t pc] held_in_hand_cong [of t s] by simp
  have quiet: "pool_inv s'" if s': "s' = set_worker i pc s" and "holds pc = 0" "holds (workers s ! i) = 0"
    "job_of pc = {#}" "job_of (workers s ! i) = {#}" for pc
    using * [OF s' refl] that inv by (simp add: pool_inv_def)
  show ?thesis
  proof (cases "workers s ! i")
    case AtCheck
    with step have "s' = set_worker i (if shutting_down s then Exited else AtLock) s" by (simp add: worker_step_def)
    from quiet [OF this] AtCheck show ?thesis by simp
  next
    case AtLock
    with step have "s' = set_worker i AtRecv s" by (simp add: worker_step_def split: if_splits)
    from quiet [OF this] AtLock show ?thesis by simp
  next
    case AtRecv
    show ?thesis
    proof (cases "queue s")
      case Nil
      with AtRecv step have "s' = set_worker i Exited s" by (simp add: worker_step_def split: if_splits)
      from quiet [OF this] AtRecv show ?thesis by simp
    next
      case (Cons job rest)
      with AtRecv step have s': "s' = set_worker i (GotJob job) (s\<lparr>queue := rest\<rparr>)" by (simp add: worker_step_def)
      with AtRecv * [OF s'] inv Cons show ?thesis by (auto simp: pool_inv_def in_progress_def)
    qed
  next
    case (GotJob job)
    show ?thesis
    proof (cases "shutting_down s")
      case True
      with GotJob step have s': "s' = set_worker i Dropped (s\<lparr>discarded := add_mset job (discarded s)\<rparr>)"
        by (simp add: worker_step_def)
      from GotJob * [OF s'] have "in_hand s = add_mset job (in_hand s')" "held s' = held s" by simp_all
      with s' inv True show ?thesis by (auto simp: pool_inv_def in_progress_def)
    next
      case False
      with GotJob step have s': "s' = set_worker i (Running job) s" by (simp add: worker_step_def)
      from GotJob * [OF s'] have "in_hand s' = in_hand s" "held s' = held s" by simp_all
      with s' inv show ?thesis by (auto simp: pool_inv_def)
    qed
  next
    case (Running job)
    with step have s': "s' = set_worker i Ran (s\<lparr>ran := add_mset job (ran s)\<rparr>)" by (simp add: worker_step_def)
    from Running * [OF s'] have "in_hand s = add_mset job (in_hand s')" "held s' = held s" by simp_all
    with s' inv show ?thesis by (auto simp: pool_inv_def in_progress_def)
  next
    case Ran
    with step have s': "s' = set_worker i AtCheck (s\<lparr>pending := pending s - 1\<rparr>)" by (simp add: worker_step_def)
    from Ran * [OF s'] have "in_hand s' = in_hand s" "held s = held s' + 1" by simp_all
    with s' inv show ?thesis by (auto simp: pool_inv_def in_progress_def)
  next
    case Dropped
    with step have s': "s' = set_worker i Exited (s\<lparr>pending := pending s - 1\<rparr>)" by (simp add: worker_step_def)
    from Dropped * [OF s'] have "in_hand s' = in_hand s" "held s = held s' + 1" by simp_all
    with s' inv show ?thesis by (auto simp: pool_inv_def in_progress_def)
  next
    case Exited
    with step show ?thesis by (simp add: worker_step_def)
  qed
qed

lemma shutdown_step_inv:
  assumes inv: "pool_inv s" and step: "shutdown_step s = Some s'"
  shows "pool_inv s'"
proof -
  have ws: "workers s' = workers s"
    using step by (auto simp: shutdown_step_def split: shutdown_pc.splits if_splits list.splits)
  note same = held_in_hand_cong [OF ws]
  show ?thesis
  proof (cases "shutdown_at s")
    case Draining
    with step inv same show ?thesis
      by (cases "queue s") (auto simp: shutdown_step_def pool_inv_def in_progress_def)
  qed (use step inv same in \<open>auto simp: shutdown_step_def pool_inv_def in_progress_def split: if_splits\<close>)
qed

lemma submit_send_inv:
  assumes "pool_inv s" and "submitting s = Some job"
  shows "pool_inv (snd (submit_send job s))"
proof -
  have ws: "workers (snd (submit_send job s)) = workers s" by (simp add: submit_send_def)
  note same = held_in_hand_cong [OF ws]
  from assms same show ?thesis
    by (auto simp: submit_send_def pool_inv_def in_progress_def)
qed

lemma internal_step_inv: "internal_step s s' \<Longrightarrow> pool_inv s \<Longrightarrow> pool_inv s'"
  by (induction rule: internal_step.induct) (auto intro: submit_send_inv worker_step_inv shutdown_step_inv)

lemma pool_step_inv: "pool_step s s' \<Longrightarrow> pool_inv s \<Longrightarrow> pool_inv s'"
proof (induction rule: pool_step.induct)
  case (internal s s')
  then show ?case by (blast intro: internal_step_inv)
next
  case (submit s job s')
  then have s': "s' = s\<lparr>pending := pending s + 1, submitting := Some job\<rparr>" "sender_open s" "\<not> shutting_down s"
    by (auto simp: submit_begin_def split: if_splits)
  with held_in_hand_cong [of s' s] submit show ?case by (auto simp: pool_inv_def in_progress_def)
next
  case (call s)
  with held_in_hand_cong [of "shutdown_call s" s] show ?case
    by (auto simp: pool_inv_def in_progress_def shutdown_call_def)
qed

lemma sum_list_replicate_empty: "sum_list (replicate n {#}) = {#}"
  by (induction n) simp_all

lemma new_pool_inv: "pool_inv (RequestPool_new sz)"
  by (simp add: pool_inv_def RequestPool_new_def held_def in_hand_def in_progress_def sum_list_replicate_empty sum_list_replicate)

interpretation request_pool: machine "\<lambda>s. s = RequestPool_new sz" pool_step pool_inv for sz
  by unfold_locales (auto simp: new_pool_inv intro: pool_step_inv)

lemma internal_shape:
  "internal_step s t \<Longrightarrow> length (workers t) = length (workers s) \<and> capacity t = capacity s \<and> (sender_open t \<longrightarrow> sender_open s)"
  by (induction rule: internal_step.induct)
     (auto simp: submit_send_def worker_step_def shutdown_step_def set_worker_def
       split: worker_pc.splits shutdown_pc.splits if_splits list.splits)

lemma pool_shape: "pool_step s t \<Longrightarrow> length (workers t) = length (workers s) \<and> capacity t = capacity s"
  by (induction rule: pool_step.induct)
     (auto simp: internal_shape submit_begin_def shutdown_call_def split: if_splits)

lemma pool_shape_reachable:
  "pool_step\<^sup>*\<^sup>* (RequestPool_new sz) s \<Longrightarrow>
   length (workers s) = max (size_workers sz) 1 \<and> capacity s = size_queue sz"
  by (induction rule: rtranclp_induct) (auto simp: RequestPool_new_def dest: pool_shape)

section \<open>Shutting down\<close>

fun worker_rank :: "'j worker_pc \<Rightarrow> nat" where
  "worker_rank Exited = 0"
| "worker_rank AtCheck = 1"
| "worker_rank Dropped = 1"
| "worker_rank Ran = 2"
| "worker_rank (Running _) = 3"
| "worker_rank (GotJob _) = 4"
| "worker_rank AtRecv = 5"
| "worker_rank AtLock = 6"

fun shutdown_rank :: "shutdown_pc \<Rightarrow> nat" where
  "shutdown_rank Idle = 0"
| "shutdown_rank ShutDone = 0"
| "shutdown_rank Draining = 1"
| "shutdown_rank DrainedJob = 2"
| "shutdown_rank SenderTaken = 2"
| "shutdown_rank FlagSet = 3"

definition pool_rank :: "'j pool \<Rightarrow> nat" where
  "pool_rank s = sum_list (map worker_rank (workers s)) + 2 * length (queue s) + shutdown_rank (shutdown_at s)"

lemma worker_step_rank:
  assumes i: "i < length (workers s)" and step: "worker_step i s = Some s'" and flag: "shutting_down s"
  shows "pool_rank s' < pool_rank s"
proof -
  from step flag obtain pc where ws: "workers s' = (workers s)[i := pc]" and less: "worker_rank pc < worker_rank (workers s ! i)"
    and q: "length (queue s') \<le> length (queue s)" and sh: "shutdown_at s' = shutdown_at s"
    by (auto simp: worker_step_def split: worker_pc.splits if_splits list.splits)
  have "sum_list (map worker_rank (workers s')) + worker_rank (workers s ! i) = sum_list (map worker_rank (workers s)) + worker_rank pc"
    unfolding ws by (rule sum_list_worker [OF i])
  with less q sh show ?thesis by (simp add: pool_rank_def)
qed

lemma shutdown_step_rank: "shutdown_step s = Some s' \<Longrightarrow> pool_rank s' < pool_rank s"
  by (auto simp: shutdown_step_def pool_rank_def split: shutdown_pc.splits if_splits list.splits)

lemma internal_step_rank:
  assumes "internal_step s t" "pool_inv s" "\<not> sender_open s"
  shows "pool_rank t < pool_rank s"
  using assms(1)
proof (cases rule: internal_step.cases)
  case (send job)
  with assms show ?thesis by (simp add: pool_inv_def)
next
  case (work i)
  with assms show ?thesis by (intro worker_step_rank) (auto simp: pool_inv_def)
next
  case shut
  then show ?thesis by (rule shutdown_step_rank)
qed

lemma receiver_holder_moves:
  assumes "AtRecv \<in> set (workers s)" "\<not> sender_open s"
  shows "\<exists>t. internal_step s t"
proof -
  from assms(1) obtain i where i: "i < length (workers s)" "workers s ! i = AtRecv" by (auto simp: in_set_conv_nth)
  with assms(2) obtain t where "worker_step i s = Some t"
    by (cases "queue s") (auto simp: worker_step_def)
  with i show ?thesis by (blast intro: internal_step.work)
qed

lemma blocked_is_quiescent:
  assumes inv: "pool_inv s" and closed: "\<not> sender_open s" and blocked: "\<nexists>t. internal_step s t"
  shows "set (workers s) \<subseteq> {Exited} \<and> shutdown_at s = ShutDone"
proof -
  have idle: "AtRecv \<notin> set (workers s)" using receiver_holder_moves closed blocked by blast
  have "shutdown_step s = None" using blocked by (metis internal_step.shut not_None_eq)
  then have sh: "shutdown_at s = ShutDone"
    using inv closed idle by (cases "shutdown_at s") (auto simp: shutdown_step_def pool_inv_def receiver_free_def split: if_splits)
  have "workers s ! i = Exited" if "i < length (workers s)" for i
  proof -
    have "worker_step i s = None" using blocked that by (metis internal_step.work not_None_eq)
    moreover have "workers s ! i \<noteq> AtRecv" using idle that by (metis nth_mem)
    ultimately show ?thesis using idle sh
      by (cases "workers s ! i") (auto simp: worker_step_def receiver_free_def split: if_splits)
  qed
  with sh show ?thesis by (auto simp: in_set_conv_nth)
qed

lemma quiescent_accounts:
  assumes inv: "pool_inv s" and fin: "set (workers s) \<subseteq> {Exited}" "shutdown_at s = ShutDone"
  shows "pending s = 0 \<and> queue s = [] \<and> accepted s = ran s + discarded s"
proof -
  have "workers s = replicate (length (workers s)) Exited"
    using fin(1) by (intro replicate_length_same [symmetric]) auto
  then have "map holds (workers s) = replicate (length (workers s)) 0"
    "map job_of (workers s) = replicate (length (workers s)) {#}"
    by (metis holds.simps(8) map_replicate, metis job_of.simps(8) map_replicate)
  then have "held s = 0" "in_hand s = {#}"
    by (simp_all add: held_def in_hand_def sum_list_replicate sum_list_replicate_empty)
  with inv fin(2) show ?thesis by (auto simp: pool_inv_def in_progress_def)
qed

lemma internal_run:
  "(internal_step ^^ n) s t \<Longrightarrow> pool_inv s \<Longrightarrow> \<not> sender_open s \<Longrightarrow>
   pool_inv t \<and> \<not> sender_open t \<and> n + pool_rank t \<le> pool_rank s"
proof (induction n arbitrary: t)
  case 0
  then show ?case by simp
next
  case (Suc n)
  then obtain u where u: "(internal_step ^^ n) s u" "internal_step u t" by auto
  with Suc internal_step_rank [of u t] internal_step_inv [of u t] internal_shape [of u t] show ?case by fastforce
qed

lemma pool_rank_bound:
  assumes "pool_inv s" shows "pool_rank s \<le> 6 * length (workers s) + 2 * capacity s + 3"
proof -
  have "worker_rank w \<le> 6" for w :: "'a worker_pc" by (cases w) auto
  then have "sum_list (map worker_rank ws) \<le> 6 * length ws" for ws :: "'a worker_pc list"
    by (induction ws) (auto simp: add_mono)
  moreover have "shutdown_rank (shutdown_at s) \<le> 3" by (cases "shutdown_at s") auto
  ultimately show ?thesis using assms unfolding pool_rank_def pool_inv_def by (smt (verit) add_mono mult_le_mono2)
qed

text \<open>
  C5.  Under every interleaving of submissions, workers and shutdown: the pending counter is exactly the jobs queued
  or in a worker's hands and the submission and drained job under way, so no decrement ever wraps; every job a
  submission accepted is in exactly one place (queued, in hand, run or discarded), so none is lost or run twice; the
  queue never exceeds its capacity; a job is discarded unrun only once shutdown has begun; and when \<open>drain\<close> reads zero
  nothing is queued, in hand or being submitted, and every accepted job has been run or discarded.
\<close>

theorem pool_accounting:
  assumes "pool_step\<^sup>*\<^sup>* (RequestPool_new sz) s"
  shows "pending s = length (queue s) + held s + in_progress s
     \<and> accepted s = mset (queue s) + in_hand s + ran s + discarded s
     \<and> length (queue s) \<le> size_queue sz
     \<and> (discarded s \<noteq> {#} \<longrightarrow> shutting_down s)
     \<and> (drain_done s \<longrightarrow> queue s = [] \<and> in_hand s = {#} \<and> submitting s = None \<and> accepted s = ran s + discarded s)"
proof -
  have inv: "pool_inv s" by (rule request_pool.inv_reachable [OF refl assms])
  have "in_hand s = {#}" if "held s = 0"
  proof -
    have "holds w = 0 \<Longrightarrow> job_of w = {#}" for w :: "'a worker_pc" by (cases w) auto
    with that have "map job_of (workers s) = replicate (length (workers s)) {#}"
      by (auto intro!: nth_equalityI simp: held_def)
    then show ?thesis by (simp add: in_hand_def sum_list_replicate_empty)
  qed
  with inv pool_shape_reachable [OF assms] show ?thesis
    by (auto simp: pool_inv_def drain_done_def in_progress_def split: if_splits)
qed

theorem pool_accounting_witness:
  "let s = snd (submit_send (7::nat) (the (submit_begin 7 (RequestPool_new ROOT_POOL))))
   in pending s = 1 \<and> accepted s = {#7#} \<and> length (queue s) \<le> 64 \<and> \<not> drain_done s"
proof -
  let ?n = "RequestPool_new ROOT_POOL :: nat pool"
  let ?b = "the (submit_begin 7 ?n)"
  have b: "submit_begin 7 ?n = Some ?b" by (simp add: submit_begin_def RequestPool_new_def)
  have "pool_step ?n ?b" by (rule pool_step.submit [OF _ b]) (simp add: RequestPool_new_def)
  moreover have "internal_step ?b (snd (submit_send 7 ?b))"
    by (rule internal_step.send) (simp add: submit_begin_def RequestPool_new_def)
  ultimately have reach: "pool_step\<^sup>*\<^sup>* ?n (snd (submit_send 7 ?b))"
    by (metis pool_step.internal rtranclp.simps)
  have "queue (snd (submit_send 7 ?b)) = [7]" "accepted (snd (submit_send 7 ?b)) = {#7#}" "pending (snd (submit_send 7 ?b)) = 1"
    by (simp_all add: submit_send_def submit_begin_def RequestPool_new_def ROOT_POOL_def)
  with pool_accounting [OF reach] show ?thesis by (auto simp: Let_def ROOT_POOL_def)
qed

text \<open>
  C35.  Shutdown ends.  Once the sender is dropped, whatever order the threads run in, they take at most six steps per
  worker, two per queue slot and three more (a job counts as one step); they are never deadlocked before every worker
  has returned; and then the queue is empty, the counter is zero, and every accepted job was run or discarded.
\<close>

theorem pool_shutdown_terminates:
  assumes "pool_step\<^sup>*\<^sup>* (RequestPool_new sz) s" and "\<not> sender_open s" and "(internal_step ^^ n) s t"
  shows "n \<le> 6 * max (size_workers sz) 1 + 2 * size_queue sz + 3
     \<and> ((\<nexists>u. internal_step t u) \<longrightarrow>
          set (workers t) \<subseteq> {Exited} \<and> pending t = 0 \<and> queue t = [] \<and> accepted t = ran t + discarded t)"
proof -
  have inv: "pool_inv s" by (rule request_pool.inv_reachable [OF refl assms(1)])
  note run = internal_run [OF assms(3) inv assms(2)]
  have "n \<le> 6 * max (size_workers sz) 1 + 2 * size_queue sz + 3"
    using run pool_rank_bound [OF inv] pool_shape_reachable [OF assms(1)] by simp
  with run blocked_is_quiescent [of t] quiescent_accounts [of t] show ?thesis by blast
qed

theorem pool_shutdown_terminates_witness:
  "\<exists>s t. pool_step\<^sup>*\<^sup>* (RequestPool_new ROOT_POOL :: nat pool) s \<and> \<not> sender_open s \<and> (internal_step ^^ 1) s t
     \<and> (1::nat) \<le> 6 * max (size_workers ROOT_POOL) 1 + 2 * size_queue ROOT_POOL + 3"
proof -
  let ?n = "RequestPool_new ROOT_POOL :: nat pool"
  let ?s = "?n\<lparr>shutting_down := True, sender_open := False, shutdown_at := SenderTaken\<rparr>"
  let ?t = "?s\<lparr>shutdown_at := Draining\<rparr>"
  have "pool_step ?n (shutdown_call ?n)" by (rule pool_step.call) (simp add: RequestPool_new_def)
  moreover have "internal_step (shutdown_call ?n) ?s"
    by (rule internal_step.shut) (simp add: shutdown_step_def shutdown_call_def RequestPool_new_def)
  ultimately have reach: "pool_step\<^sup>*\<^sup>* ?n ?s" by (metis pool_step.internal rtranclp.simps)
  have "internal_step ?s ?t"
    by (rule internal_step.shut)
       (simp add: shutdown_step_def receiver_free_def RequestPool_new_def)
  then have step: "(internal_step ^^ 1) ?s ?t" by auto
  have closed: "\<not> sender_open ?s" by simp
  from pool_shutdown_terminates [OF reach closed step] reach step closed show ?thesis by blast
qed

end
