(* ===== verification/TP_Text.thy ===== *)
theory TP_Text
  imports TP_Prelude
begin

text \<open>
  Text as Unicode characters, for the code that splits and trims \<open>&str\<close> by \<open>char\<close>.  A character of a UTF-8 string is the
  list of its bytes; the character classes and the case mapping of the Unicode tables are the record \<open>unicode\<close>, an
  argument of the definitions that use them.
\<close>

record unicode =
  u_alphanumeric :: "string \<Rightarrow> bool"
  u_alphabetic :: "string \<Rightarrow> bool"
  u_lowercase :: "string \<Rightarrow> bool"
  u_uppercase :: "string \<Rightarrow> bool"
  u_whitespace :: "string \<Rightarrow> bool"
  u_control :: "string \<Rightarrow> bool"
  u_lower :: "string \<Rightarrow> string"

definition utf8_width :: "char \<Rightarrow> nat" where
  "utf8_width b = (if byte b < 0xC0 then 1 else if byte b < 0xE0 then 2 else if byte b < 0xF0 then 3 else 4)"

function chars_of :: "string \<Rightarrow> string list" where
  "chars_of [] = []"
| "chars_of (b # bs) = (b # take (utf8_width b - 1) bs) # chars_of (drop (utf8_width b - 1) bs)"
  by pat_completeness auto
termination
  by (relation "measure length") auto

lemma concat_chars_of [simp]: "concat (chars_of s) = s"
  by (induction s rule: chars_of.induct) auto

text \<open>\<open>str::split\<close> with a predicate on characters.\<close>

fun split_list :: "('a \<Rightarrow> bool) \<Rightarrow> 'a list \<Rightarrow> 'a list list" where
  "split_list p [] = [[]]"
| "split_list p (x # xs) =
     (if p x then [] # split_list p xs
      else case split_list p xs of [] \<Rightarrow> [[x]] | q # qs \<Rightarrow> (x # q) # qs)"

definition split_where :: "(string \<Rightarrow> bool) \<Rightarrow> string \<Rightarrow> string list" where
  "split_where p s = map concat (split_list p (chars_of s))"

definition trim_start :: "unicode \<Rightarrow> string \<Rightarrow> string" where
  "trim_start u s = concat (dropWhile (u_whitespace u) (chars_of s))"

definition trim_end :: "unicode \<Rightarrow> string \<Rightarrow> string" where
  "trim_end u s = concat (rev (dropWhile (u_whitespace u) (rev (chars_of s))))"

definition str_trim :: "unicode \<Rightarrow> string \<Rightarrow> string" where
  "str_trim u s = trim_end u (trim_start u s)"

definition split_whitespace :: "unicode \<Rightarrow> string \<Rightarrow> string list" where
  "split_whitespace u s = filter (\<lambda>w. w \<noteq> []) (split_where (u_whitespace u) s)"

text \<open>\<open>str::split\<close> with a string, left to right; \<open>str::rsplit\<close>'s first piece; \<open>str::trim_start_matches\<close> of a string;
  \<open>str::split_once\<close> with a string; \<open>str::replace\<close> of one byte.\<close>

function split_str :: "string \<Rightarrow> string \<Rightarrow> string list" where
  "split_str sep s =
     (case find_sub sep s of
        None \<Rightarrow> [s]
      | Some i \<Rightarrow> if sep = [] then [s] else take i s # split_str sep (drop (i + length sep) s))"
  by pat_completeness auto
termination
  by (relation "measure (length \<circ> snd)")
     (auto dest!: find_sub_Some simp: length_greater_0_conv [symmetric] simp del: length_greater_0_conv)

declare split_str.simps [simp del]

definition last_piece :: "string \<Rightarrow> string \<Rightarrow> string" where
  "last_piece sep s = (case find_sub (rev sep) (rev s) of None \<Rightarrow> s | Some i \<Rightarrow> rev (take i (rev s)))"

function trim_start_str :: "string \<Rightarrow> string \<Rightarrow> string" where
  "trim_start_str p s = (if p \<noteq> [] \<and> prefix p s then trim_start_str p (drop (length p) s) else s)"
  by pat_completeness auto
termination
  by (relation "measure (length \<circ> snd)")
     (auto dest: prefix_length_le simp: length_greater_0_conv [symmetric] simp del: length_greater_0_conv)

declare trim_start_str.simps [simp del]

definition split_once_str :: "string \<Rightarrow> string \<Rightarrow> (string \<times> string) option" where
  "split_once_str sep s = map_option (\<lambda>i. (take i s, drop (i + length sep) s)) (find_sub sep s)"

definition replace_char :: "char \<Rightarrow> char \<Rightarrow> string \<Rightarrow> string" where
  "replace_char a b s = map (\<lambda>c. if c = a then b else c) s"

definition rfind_sub :: "string \<Rightarrow> string \<Rightarrow> nat option" where
  "rfind_sub p s = map_option (\<lambda>i. length s - i - length p) (find_sub (rev p) (rev s))"

text \<open>The tables restricted to ASCII, on which Rust's agree.\<close>

definition ascii_class :: "(char \<Rightarrow> bool) \<Rightarrow> string \<Rightarrow> bool" where
  "ascii_class p s = (case s of [c] \<Rightarrow> p c | _ \<Rightarrow> False)"

definition ascii_unicode :: unicode where
  "ascii_unicode =
     \<lparr>u_alphanumeric = ascii_class is_ascii_alphanumeric, u_alphabetic = ascii_class is_ascii_alphabetic,
      u_lowercase = ascii_class is_ascii_lowercase, u_uppercase = ascii_class is_ascii_uppercase,
      u_whitespace = ascii_class (\<lambda>c. is_ascii_whitespace c \<or> c = CHR 0x0B),
      u_control = ascii_class (\<lambda>c. byte c < 32 \<or> byte c = 127), u_lower = ascii_lower\<rparr>"

lemma split_list_nonempty [simp]: "split_list p xs \<noteq> []"
  by (induction xs) (auto split: list.splits)

lemma split_where_nonempty [simp]: "split_where p s \<noteq> []"
  by (simp add: split_where_def)

lemma split_str_nonempty [simp]: "split_str sep s \<noteq> []"
  by (subst split_str.simps) (auto split: option.splits)

section \<open>Pieces are parts\<close>

lemmas sublist_trans = sublist_order.order_trans

lemma sublist_concat_mono: "sublist xs ys \<Longrightarrow> sublist (concat xs) (concat ys)"
  unfolding sublist_def by (metis concat_append)

lemma sublist_concat_elem: "x \<in> set xs \<Longrightarrow> sublist x (concat xs)"
  by (metis concat.simps(2) concat_append in_set_conv_decomp sublist_def)

lemma split_list_sublist: "q \<in> set (split_list p xs) \<Longrightarrow> sublist q xs"
proof (induction xs arbitrary: q)
  case (Cons x xs)
  have hd: "prefix (hd (split_list p ys)) ys" for ys
    by (induction ys) (auto split: list.splits)
  obtain r rs where r: "split_list p xs = r # rs" by (cases "split_list p xs") auto
  with hd [of xs] have "prefix r xs" by simp
  with Cons r show ?case
    by (auto simp: sublist_Cons_right split: if_splits)
qed simp

lemma split_char_split_list: "split_char c xs = split_list (\<lambda>x. x = c) xs"
  by (induction xs) auto

lemma split_char_sublist: "q \<in> set (split_char c xs) \<Longrightarrow> sublist q xs"
  by (simp add: split_char_split_list split_list_sublist)

lemma split_str_sublist: "q \<in> set (split_str sep s) \<Longrightarrow> sublist q s"
proof (induction sep s rule: split_str.induct)
  case (1 sep s)
  from 1(2) show ?case
    by (subst (asm) split_str.simps)
       (auto split: option.splits if_splits dest!: 1(1) intro: sublist_trans [OF _ sublist_drop] sublist_take)
qed

lemma dropWhile_sublist: "sublist (dropWhile p xs) xs"
  by (metis sublist_def append.right_neutral takeWhile_dropWhile_id)

lemma trim_start_sublist: "sublist (trim_start u s) s"
  unfolding trim_start_def using sublist_concat_mono [OF dropWhile_sublist [of _ "chars_of s"]] by simp

lemma trim_end_sublist: "sublist (trim_end u s) s"
proof -
  have "sublist (rev (dropWhile (u_whitespace u) (rev (chars_of s)))) (chars_of s)"
    using sublist_rev [of "dropWhile (u_whitespace u) (rev (chars_of s))" "rev (chars_of s)"] dropWhile_sublist by fastforce
  from sublist_concat_mono [OF this] show ?thesis by (simp add: trim_end_def)
qed

lemma str_trim_sublist: "sublist (str_trim u s) s"
  unfolding str_trim_def using sublist_trans [OF trim_end_sublist trim_start_sublist] .

lemma last_piece_sublist: "sublist (last_piece sep s) s"
  using sublist_rev [of "take i (rev s)" "rev s" for i] by (auto simp: last_piece_def split: option.splits)

lemma trim_start_str_sublist: "sublist (trim_start_str p s) s"
proof (induction p s rule: trim_start_str.induct)
  case (1 p s)
  then show ?case by (subst trim_start_str.simps) (auto intro: sublist_trans [OF _ sublist_drop])
qed

lemma replace_char_sublist: "sublist p s \<Longrightarrow> sublist (replace_char a b p) (replace_char a b s)"
proof -
  assume "sublist p s"
  then obtain x y where "s = x @ p @ y" by (auto simp: sublist_def)
  then have "replace_char a b s = replace_char a b x @ replace_char a b p @ replace_char a b y" by (simp add: replace_char_def)
  then show ?thesis by (simp add: sublist_appendI)
qed


end
