(* ===== verification/TP_Qualified_Name.thy ===== *)
theory TP_Qualified_Name
  imports TP_Text
begin

text \<open>
  \<open>src/search/qualified_name.rs\<close>: \<open>A::b\<close> lookups.  The last segment names a definition; the qualifier must be found in
  the definition's owner path, the module segments of its file followed by a scope its container names.  The bytes
  that delimit (\<open>:\<close>, \<open><\<close>, \<open>/\<close> and so on) are ASCII and never part of a longer UTF-8 character, so scanning bytes is scanning
  characters.
\<close>

section \<open>Names\<close>

record qualified_name =
  qualifier :: "string list"
  qn_name :: string

datatype qualifier_match = Suffix | Subsequence

text \<open>The \<open>super\<close> prefix: each removes a segment of the module.\<close>

fun pop_super :: "string list \<Rightarrow> string list \<Rightarrow> string list \<times> string list" where
  "pop_super q (seg # rest) = (if seg = ''super'' then pop_super (butlast q) rest else (q, seg # rest))"
| "pop_super q [] = (q, [])"

definition parse_in :: "unicode \<Rightarrow> string \<Rightarrow> string list \<Rightarrow> string list \<Rightarrow> qualified_name" where
  "parse_in u txt module crate_root =
     (let segments = filter (\<lambda>s. s \<noteq> []) (map (str_trim u) (split_str ''::'' txt));
          name = (if segments = [] then [] else last segments);
          rest0 = butlast segments;
          (base, rest) =
            (case rest0 of
               seg # tail \<Rightarrow>
                 if seg = ''crate'' then (crate_root, tail)
                 else if seg = ''self'' then pop_super module tail
                 else if seg = ''super'' then pop_super module rest0
                 else ([], rest0)
             | [] \<Rightarrow> ([], []))
      in \<lparr>qualifier = base @ filter (\<lambda>s. s \<notin> {''crate'', ''self'', ''super''}) rest, qn_name = name\<rparr>)"

definition parse_name :: "unicode \<Rightarrow> string \<Rightarrow> qualified_name" where
  "parse_name u txt = parse_in u txt [] []"

definition owner_hint :: "qualified_name \<Rightarrow> string" where
  "owner_hint q = (if qualifier q = [] then [] else last (qualifier q))"

definition is_qualified :: "qualified_name \<Rightarrow> bool" where
  "is_qualified q \<longleftrightarrow> qualifier q \<noteq> []"

section \<open>Owner paths\<close>

definition module_segments :: "string \<Rightarrow> string list" where
  "module_segments path =
     (let stem = (case rsplit_once (CHR ''.'') path of
            None \<Rightarrow> path
          | Some (stem, extension) \<Rightarrow> if CHR ''/'' \<in> set extension then path else stem)
      in map (replace_char (CHR ''-'') (CHR ''_''))
           (filter (\<lambda>part. part \<notin> {[], ''src'', ''mod'', ''lib'', ''main'', ''index''}) (split_char (CHR ''/'') stem)))"

definition crate_root_segments :: "string \<Rightarrow> string list" where
  "crate_root_segments path =
     (case rfind_sub ''src/'' path of
        None \<Rightarrow> []
      | Some index \<Rightarrow>
          if index = 0 \<or> path ! (index - 1) = CHR ''/''
          then module_segments (trim_end_matches (\<lambda>c. c = CHR ''/'') (take index path))
          else [])"

text \<open>The offset just past the \<open>>\<close> that closes an opened \<open><\<close>.\<close>

fun closing_angle :: "nat \<Rightarrow> string \<Rightarrow> nat" where
  "closing_angle depth [] = 0"
| "closing_angle depth (c # cs) =
     (if c = CHR ''<'' then Suc (closing_angle (depth + 1) cs)
      else if c = CHR ''>'' then (if depth = 1 then 1 else Suc (closing_angle (depth - 1) cs))
      else Suc (closing_angle depth cs))"

definition impl_header :: "unicode \<Rightarrow> string \<Rightarrow> string option" where
  "impl_header u container =
     (case strip_prefix ''impl'' (case strip_prefix ''unsafe '' container of Some r \<Rightarrow> r | None \<Rightarrow> container) of
        None \<Rightarrow> None
      | Some rest \<Rightarrow>
          if rest = [] \<or> hd rest \<notin> {CHR ''<'', CHR '' '', LF, TAB} then None
          else
            let rest = trim_start u rest
            in Some (case strip_prefix ''<'' rest of
                 Some generics \<Rightarrow> trim_start u (drop (closing_angle 1 generics) generics)
               | None \<Rightarrow> rest))"

fun split_top_level_for :: "int \<Rightarrow> string \<Rightarrow> string \<Rightarrow> (string \<times> string) option" where
  "split_top_level_for depth seen [] = None"
| "split_top_level_for depth seen (c # cs) =
     (if c \<in> {CHR ''<'', CHR ''('', CHR ''[''} then split_top_level_for (depth + 1) (seen @ [c]) cs
      else if c \<in> {CHR ''>'', CHR '')'', CHR '']''} then split_top_level_for (depth - 1) (seen @ [c]) cs
      else if depth = 0 \<and> prefix '' for '' (c # cs) then Some (seen, drop 5 (c # cs))
      else split_top_level_for depth (seen @ [c]) cs)"

definition identifier_char :: "unicode \<Rightarrow> string \<Rightarrow> bool" where
  "identifier_char u ch \<longleftrightarrow> u_alphanumeric u ch \<or> ch = ''_''"

definition type_name :: "unicode \<Rightarrow> string \<Rightarrow> string option" where
  "type_name u txt =
     (let txt = hd (split_str '' where'' txt);
          txt = str_trim u (hd (split_char (CHR ''<'') txt));
          txt = trim_start_str ''!'' (trim_start_str ''dyn '' (trim_start_str ''mut '' (trim_start_str ''&'' txt)));
          name = str_trim u (last_piece ''::'' txt)
      in if name \<noteq> [] \<and> list_all (identifier_char u) (chars_of name) then Some name else None)"

definition container_scopes :: "unicode \<Rightarrow> string option \<Rightarrow> string list list" where
  "container_scopes u container =
     (case map_option (str_trim u) container of
        None \<Rightarrow> [[]]
      | Some c \<Rightarrow>
          if c = [] then [[]]
          else case impl_header u c of
            Some header \<Rightarrow>
              (let (trait_part, type_part) =
                     (case split_top_level_for 0 [] header of
                        Some (tr, ty) \<Rightarrow> (Some tr, ty)
                      | None \<Rightarrow> (None, header));
                   scopes =
                     (case type_name u type_part of Some n \<Rightarrow> [[n]] | None \<Rightarrow> [])
                     @ (case Option.bind trait_part (type_name u) of Some n \<Rightarrow> [[n]] | None \<Rightarrow> [])
               in if scopes = [] then [[]] else scopes)
          | None \<Rightarrow>
              [filter (\<lambda>part. part \<noteq> [])
                 (concat (map (split_list (\<lambda>b. b \<in> {CHR 0x5C, CHR ''.'', CHR ''/''})) (split_str ''::'' c)))])"

section \<open>Matching\<close>

text \<open>\<open>remaining.any\<close> advances a shared iterator past the first match.\<close>

fun is_subsequence :: "'a list \<Rightarrow> 'a list \<Rightarrow> bool" where
  "is_subsequence [] haystack = True"
| "is_subsequence (x # xs) haystack =
     (case dropWhile (\<lambda>y. y \<noteq> x) haystack of [] \<Rightarrow> False | _ # rest \<Rightarrow> is_subsequence xs rest)"

definition best_match :: "qualifier_match option \<Rightarrow> qualifier_match option \<Rightarrow> qualifier_match option" where
  "best_match old new =
     (case (old, new) of
        (Some a, Some b) \<Rightarrow> Some (if a = Suffix \<or> b = Suffix then Suffix else Subsequence)
      | (Some a, None) \<Rightarrow> Some a
      | (None, b) \<Rightarrow> b)"

definition scope_match :: "string list \<Rightarrow> string list \<Rightarrow> qualifier_match option" where
  "scope_match q owner =
     (if suffix q owner then Some Suffix else if is_subsequence q owner then Some Subsequence else None)"

definition name_matches :: "unicode \<Rightarrow> qualified_name \<Rightarrow> string \<Rightarrow> string option \<Rightarrow> qualifier_match option" where
  "name_matches u q path container =
     (if qualifier q = [] then Some Suffix
      else fold (\<lambda>scope best. best_match best (scope_match (qualifier q) (module_segments path @ scope)))
             (container_scopes u container) None)"

definition import_spelling :: "unicode \<Rightarrow> string \<Rightarrow> (string \<times> string) option" where
  "import_spelling u txt =
     (let txt = join_with '' '' (split_whitespace u txt);
          (path, alias) =
            (case split_once_str '' as '' txt of
               Some (path, alias) \<Rightarrow> (str_trim u path, str_trim u alias)
             | None \<Rightarrow> (txt, last_piece ''::'' txt));
          valid = (\<lambda>part. part \<noteq> [] \<and> list_all (\<lambda>ch. u_alphanumeric u ch \<or> ch \<in> {''_'', '':'', ''$''}) (chars_of part))
      in if valid path \<and> valid alias then Some (path, alias) else None)"

section \<open>Properties\<close>

lemma subseq_dropWhile: "subseq (x # xs) ys \<longleftrightarrow> (case dropWhile (\<lambda>y. y \<noteq> x) ys of [] \<Rightarrow> False | _ # rest \<Rightarrow> subseq xs rest)"
  by (induction ys) auto

lemma is_subsequence_subseq: "is_subsequence xs ys \<longleftrightarrow> subseq xs ys"
proof (induction xs arbitrary: ys)
  case Nil
  then show ?case by simp
next
  case (Cons x xs)
  show ?case by (cases "dropWhile (\<lambda>y. y \<noteq> x) ys") (simp_all add: Cons subseq_dropWhile del: dropWhile_eq_Nil_conv)
qed

lemma fold_best_match:
  "fold (\<lambda>s best. best_match best (f s)) ss b =
     (if b = Some Suffix \<or> Some Suffix \<in> f ` set ss then Some Suffix
      else if b = Some Subsequence \<or> Some Subsequence \<in> f ` set ss then Some Subsequence else None)"
proof (induction ss arbitrary: b)
  case Nil
  then show ?case by (cases b) (auto intro: qualifier_match.exhaust)
next
  case (Cons s ss)
  have "best_match b (f s) = (if b = Some Suffix \<or> f s = Some Suffix then Some Suffix
      else if b = Some Subsequence \<or> f s = Some Subsequence then Some Subsequence else None)"
    by (cases b; cases "f s") (auto simp: best_match_def intro: qualifier_match.exhaust)
  with Cons show ?case by auto
qed

subsection \<open>The segments of an owner are written in its container or path\<close>

lemma type_name_sublist: "type_name u s = Some n \<Longrightarrow> sublist n s"
proof -
  assume n: "type_name u s = Some n"
  let ?a = "hd (split_str '' where'' s)" and ?b = "\<lambda>x. str_trim u (hd (split_char (CHR ''<'') x))"
  let ?c = "\<lambda>x. trim_start_str ''!'' (trim_start_str ''dyn '' (trim_start_str ''mut '' (trim_start_str ''&'' x)))"
  have "n = str_trim u (last_piece ''::'' (?c (?b ?a)))" using n by (simp add: type_name_def Let_def split: if_splits)
  moreover have "sublist ?a s" by (rule split_str_sublist [OF hd_in_set]) simp
  moreover have "sublist (?b x) x" for x by (meson split_char_nonempty hd_in_set split_char_sublist str_trim_sublist sublist_trans)
  moreover have "sublist (?c x) x" for x by (meson trim_start_str_sublist sublist_trans)
  ultimately show ?thesis by (meson last_piece_sublist str_trim_sublist sublist_trans)
qed

lemma split_top_level_for_parts:
  "split_top_level_for d seen s = Some (a, b) \<Longrightarrow> seen @ s = a @ '' for '' @ b"
proof (induction d seen s rule: split_top_level_for.induct)
  case (2 depth seen c cs)
  have "c # cs = '' for '' @ drop 5 (c # cs)" if "prefix '' for '' (c # cs)"
    using that by (auto simp: prefix_def)
  with 2 show ?case by (auto split: if_splits)
qed simp

lemma split_top_level_for_sublist:
  "split_top_level_for d [] s = Some (a, b) \<Longrightarrow> sublist a s \<and> sublist b s"
  using split_top_level_for_parts [of d "[]" s a b] by (metis append_Nil append_Nil2 append_assoc sublist_appendI)

lemma strip_prefix_sublist: "strip_prefix p s = Some r \<Longrightarrow> sublist r s"
  by (auto simp: strip_prefix_def sublist_drop split: if_splits)

lemma impl_header_sublist: "impl_header u s = Some h \<Longrightarrow> sublist h s"
proof -
  assume h: "impl_header u s = Some h"
  define r0 where "r0 = (case strip_prefix ''unsafe '' s of Some r \<Rightarrow> r | None \<Rightarrow> s)"
  have r0: "sublist r0 s" by (auto simp: r0_def strip_prefix_sublist split: option.splits)
  from h obtain r where r: "strip_prefix ''impl'' r0 = Some r"
    by (auto simp: impl_header_def r0_def split: option.splits)
  with h have "h = (case strip_prefix ''<'' (trim_start u r) of
      Some g \<Rightarrow> trim_start u (drop (closing_angle 1 g) g) | None \<Rightarrow> trim_start u r)"
    by (simp add: impl_header_def r0_def [symmetric] Let_def split: if_splits)
  then have "sublist h (trim_start u r)"
    by (auto split: option.splits intro: sublist_trans [OF trim_start_sublist] sublist_trans [OF sublist_drop]
        dest: strip_prefix_sublist)
  then show ?thesis using r0 strip_prefix_sublist [OF r] trim_start_sublist by (meson sublist_trans)
qed

lemma container_scopes_sublist:
  assumes "scope \<in> set (container_scopes u container)" "seg \<in> set scope"
  obtains c where "container = Some c" "sublist seg c"
proof (cases container)
  case None
  with assms show ?thesis by (simp add: container_scopes_def)
next
  case (Some c)
  have "sublist seg (str_trim u c)"
  proof (cases "impl_header u (str_trim u c)")
    case None
    with Some assms show ?thesis
      by (auto simp: container_scopes_def split: if_splits dest!: split_list_sublist split_str_sublist
          intro: sublist_trans)
  next
    case h: (Some h)
    with Some assms have "\<exists>part. (part = h \<or> (\<exists>a b. split_top_level_for 0 [] h = Some (a, b) \<and> part \<in> {a, b}))
        \<and> type_name u part = Some seg"
      by (auto simp: container_scopes_def Let_def split: if_splits option.splits prod.splits bind_splits)
    then show ?thesis
      by (metis h impl_header_sublist insertE singletonD split_top_level_for_sublist sublist_trans type_name_sublist)
  qed
  then show ?thesis using Some str_trim_sublist sublist_trans that by blast
qed

lemma module_segments_sublist: "seg \<in> set (module_segments path) \<Longrightarrow> sublist seg (replace_char (CHR ''-'') (CHR ''_'') path)"
proof -
  assume seg: "seg \<in> set (module_segments path)"
  define stem where "stem = (case rsplit_once (CHR ''.'') path of None \<Rightarrow> path
    | Some (stem, extension) \<Rightarrow> if CHR ''/'' \<in> set extension then path else stem)"
  have "prefix stem path" by (auto simp: stem_def rsplit_once_Some split: option.splits)
  moreover from seg obtain part where "part \<in> set (split_char (CHR ''/'') stem)" "seg = replace_char (CHR ''-'') (CHR ''_'') part"
    unfolding module_segments_def Let_def stem_def [symmetric] by auto
  ultimately show ?thesis by (metis split_char_sublist prefix_imp_sublist sublist_trans replace_char_sublist)
qed

lemma name_matches_owner:
  "name_matches u q path container \<noteq> None \<Longrightarrow> qualifier q \<noteq> [] \<Longrightarrow>
   \<exists>scope \<in> set (container_scopes u container). set (qualifier q) \<subseteq> set (module_segments path @ scope)"
proof -
  have sub: "set q' \<subseteq> set owner" if "scope_match q' owner \<noteq> None" for q' owner :: "string list"
    using that by (auto simp: scope_match_def is_subsequence_subseq split: if_splits
        dest: set_mono_suffix elim: list_emb_set)
  assume "name_matches u q path container \<noteq> None" "qualifier q \<noteq> []"
  then have "\<exists>scope \<in> set (container_scopes u container). scope_match (qualifier q) (module_segments path @ scope) \<noteq> None"
    unfolding name_matches_def fold_best_match image_iff by (metis (no_types, lifting) option.distinct(1))
  with sub show ?thesis by metis
qed

lemma owner_hint_sound:
  assumes "name_matches u q path container \<noteq> None"
  shows "sublist (owner_hint q) ((case container of Some c \<Rightarrow> c | None \<Rightarrow> []) @ ''/'' @ replace_char (CHR ''-'') (CHR ''_'') path)"
proof (cases "qualifier q = []")
  case False
  with name_matches_owner [OF assms] obtain scope where scope: "scope \<in> set (container_scopes u container)"
      "set (qualifier q) \<subseteq> set (module_segments path @ scope)" by metis
  have "last (qualifier q) \<in> set (module_segments path) \<union> set scope" using False scope(2) last_in_set by fastforce
  then show ?thesis
  proof
    assume "last (qualifier q) \<in> set (module_segments path)"
    with False show ?thesis using module_segments_sublist
      by (metis append_assoc append_Nil2 owner_hint_def sublist_appendI sublist_trans)
  next
    assume "last (qualifier q) \<in> set scope"
    with scope(1) obtain c where "container = Some c" "sublist (last (qualifier q)) c" by (rule container_scopes_sublist)
    with False show ?thesis by (auto simp: owner_hint_def intro: sublist_trans)
  qed
qed (simp add: owner_hint_def)

text \<open>
  What a qualified lookup accepts: an unqualified name matches every definition; a qualified one is a suffix match
  exactly when, for some scope its container names, the qualifier ends the owner path (module segments, then scope),
  a subsequence match exactly when it is no suffix but its segments occur there in order, and rejects otherwise.
\<close>

theorem name_matches_spec:
  "name_matches u q path container =
     (let owners = (\<lambda>scope. module_segments path @ scope) ` set (container_scopes u container)
      in if qualifier q = [] \<or> (\<exists>owner \<in> owners. suffix (qualifier q) owner) then Some Suffix
         else if \<exists>owner \<in> owners. subseq (qualifier q) owner then Some Subsequence
         else None)"
proof -
  have "Some Suffix = scope_match q' owner \<longleftrightarrow> suffix q' owner" for q' owner
    by (auto simp: scope_match_def)
  moreover have "Some Subsequence = scope_match q' owner \<longleftrightarrow> \<not> suffix q' owner \<and> subseq q' owner" for q' owner
    by (auto simp: scope_match_def is_subsequence_subseq)
  ultimately show ?thesis
    by (auto simp: name_matches_def fold_best_match image_iff Let_def)
qed

end
