(* ===== verification/TP_Query.thy ===== *)
theory TP_Query
  imports TP_Qualified_Name TP_Path_Filter TP_Path_Class
begin

text \<open>
  \<open>Query::parse\<close>, \<open>fts_terms\<close>, \<open>query_terms\<close> and \<open>filename_score\<close> of \<open>src/search.rs\<close>, the query shapes of
  \<open>src/search/concept_query.rs\<close> and the path prior of \<open>src/search/path_prior.rs\<close>.  Weights are in tenths.
\<close>

section \<open>Queries\<close>

record query =
  q_text :: string
  q_path :: path_filter
  q_language :: string
  q_kind :: string
  q_exact :: bool
  q_regex :: bool

definition Query_default :: query where
  "Query_default = \<lparr>q_text = [], q_path = PathFilter_default, q_language = [], q_kind = [], q_exact = False, q_regex = False\<rparr>"

text \<open>\<open>str::split_inclusive\<close>: every piece but the last ends with its separator.\<close>

fun split_inclusive :: "('a \<Rightarrow> bool) \<Rightarrow> 'a list \<Rightarrow> 'a list list" where
  "split_inclusive p [] = []"
| "split_inclusive p (x # xs) =
     (if p x then [x] # split_inclusive p xs
      else case split_inclusive p xs of [] \<Rightarrow> [[x]] | q # qs \<Rightarrow> (x # q) # qs)"

definition query_chunks :: "unicode \<Rightarrow> string \<Rightarrow> string list" where
  "query_chunks u input = map concat (split_inclusive (u_whitespace u) (chars_of input))"

definition parse_chunk :: "unicode \<Rightarrow> string \<Rightarrow> query \<times> string \<Rightarrow> (query \<times> string) result" where
  "parse_chunk u chunk = (\<lambda>(q, txt).
     let word = trim_end u chunk
     in case strip_prefix ''file:'' word of
          Some v \<Rightarrow> Inr (q\<lparr>q_path := PathFilter_include (q_path q) v\<rparr>, txt)
        | None \<Rightarrow>
            (case strip_prefix ''-file:'' word of
               Some v \<Rightarrow> Inr (q\<lparr>q_path := PathFilter_exclude (q_path q) v\<rparr>, txt)
             | None \<Rightarrow>
                 (case strip_prefix ''lang:'' word of
                    Some v \<Rightarrow> (case canonical_language v of
                       Inl e \<Rightarrow> Inl e | Inr l \<Rightarrow> Inr (q\<lparr>q_language := l\<rparr>, txt))
                  | None \<Rightarrow>
                      (case strip_prefix ''kind:'' word of
                         Some v \<Rightarrow> Inr (q\<lparr>q_kind := v\<rparr>, txt)
                       | None \<Rightarrow> Inr (q, txt @ chunk)))))"

fun parse_chunks :: "unicode \<Rightarrow> string list \<Rightarrow> query \<times> string \<Rightarrow> (query \<times> string) result" where
  "parse_chunks u [] st = Inr st"
| "parse_chunks u (chunk # chunks) st =
     (case parse_chunk u chunk st of Inl e \<Rightarrow> Inl e | Inr st' \<Rightarrow> parse_chunks u chunks st')"

definition Query_parse :: "unicode \<Rightarrow> string \<Rightarrow> query result" where
  "Query_parse u input =
     (case parse_chunks u (query_chunks u input) (Query_default, []) of
        Inl e \<Rightarrow> Inl e
      | Inr (q0, txt) \<Rightarrow>
          (let q1 = q0\<lparr>q_text := str_trim u txt\<rparr>;
               q2 = (case strip_prefix ''sym:'' (q_text q1) of Some t \<Rightarrow> q1\<lparr>q_exact := True, q_text := t\<rparr> | None \<Rightarrow> q1);
               q3 = (case strip_prefix ''re:'' (q_text q2) of Some t \<Rightarrow> q2\<lparr>q_regex := True, q_text := t\<rparr> | None \<Rightarrow> q2)
           in if q_text q3 = [] \<and> (q_exact q3 \<or> q_regex q3) then Inl ''invalid_query: empty prefixed query''
              else Inr q3))"

section \<open>Terms\<close>

definition word_terms :: "unicode \<Rightarrow> string \<Rightarrow> string list" where
  "word_terms u txt = filter (\<lambda>t. t \<noteq> []) (split_where (\<lambda>ch. \<not> u_alphanumeric u ch \<and> ch \<noteq> ''_'') txt)"

fun double_quotes :: "string \<Rightarrow> string" where
  "double_quotes [] = []"
| "double_quotes (c # cs) = (if c = CHR 0x22 then [c, c] else [c]) @ double_quotes cs"

definition quoted :: "string \<Rightarrow> string" where
  "quoted t = [CHR 0x22] @ t @ [CHR 0x22]"

definition fts_terms :: "unicode \<Rightarrow> string \<Rightarrow> string" where
  "fts_terms u txt = join_with '' OR '' (map (quoted \<circ> double_quotes) (word_terms u txt))"

definition query_terms :: "unicode \<Rightarrow> string \<Rightarrow> string list" where
  "query_terms u txt = map (u_lower u) (filter (\<lambda>t. t \<noteq> []) (split_where (\<lambda>ch. \<not> u_alphanumeric u ch) txt))"

definition filename_score :: "unicode \<Rightarrow> string \<Rightarrow> string list \<Rightarrow> nat" where
  "filename_score u path terms =
     (if terms = [] then 1
      else
        let basename = last (split_char (CHR ''/'') path);
            lower_basename = u_lower u basename;
            lower_path = u_lower u path;
            stem = (case rsplit_once (CHR ''.'') basename of Some (stem, _) \<Rightarrow> stem | None \<Rightarrow> basename)
        in if query_terms u stem = terms then 3
           else if list_all (\<lambda>term. contains_sub term lower_basename) terms then 2
           else if list_ex (\<lambda>term. contains_sub term lower_path) terms then 1
           else 0)"

section \<open>Query shapes\<close>

record identifier_token =
  it_name :: string
  it_qualifier :: "string option"

record concept_query =
  any_terms :: "string option"
  phrase :: "string option"
  all_terms :: "string option"
  cq_identifier :: "identifier_token option"
  literal :: bool

fun camel_pair :: "unicode \<Rightarrow> string list \<Rightarrow> bool" where
  "camel_pair u (a # b # cs) \<longleftrightarrow> (u_lowercase u a \<and> u_uppercase u b) \<or> camel_pair u (b # cs)"
| "camel_pair u _ \<longleftrightarrow> False"

definition IdentifierToken_parse :: "unicode \<Rightarrow> string \<Rightarrow> identifier_token option" where
  "IdentifierToken_parse u txt =
     (let segments = split_str ''::'' txt;
          ok = (\<lambda>segment. segment \<noteq> [] \<and> list_all (\<lambda>ch. u_alphanumeric u ch \<or> ch = ''_'') (chars_of segment));
          chs = chars_of txt
      in if \<not> list_all ok segments \<or> \<not> list_ex (u_alphabetic u) chs then None
         else
           let camel = camel_pair u chs;
               digits = list_ex (\<lambda>ch. case ch of [c] \<Rightarrow> is_ascii_digit c | _ \<Rightarrow> False) chs
           in if length segments = 1 \<and> CHR ''_'' \<notin> set txt \<and> \<not> camel \<and> \<not> digits then None
              else Some \<lparr>it_name = last segments,
                it_qualifier = (if length segments > 1 then Some (segments ! (length segments - 2)) else None)\<rparr>)"

definition ConceptQuery_parse :: "unicode \<Rightarrow> string \<Rightarrow> concept_query" where
  "ConceptQuery_parse u txt0 =
     (let txt = str_trim u txt0;
          lit = (length txt \<ge> 2 \<and> prefix [CHR 0x22] txt \<and> suffix [CHR 0x22] txt
                 \<and> CHR 0x22 \<notin> set (slice 1 (length txt - 1) txt));
          body = (if lit then slice 1 (length txt - 1) txt else txt);
          terms = word_terms u body;
          empty = \<lparr>any_terms = None, phrase = None, all_terms = None, cq_identifier = None, literal = lit\<rparr>
      in if terms = [] then empty
         else
           let phr = (if lit \<or> length terms > 1 then Some (quoted (join_with '' '' terms)) else None)
           in if lit then empty\<lparr>phrase := phr\<rparr>
              else \<lparr>any_terms = Some (fts_terms u body), phrase = phr,
                    all_terms = (if length terms > 1 then Some (join_with '' AND '' (map quoted terms)) else None),
                    cq_identifier = IdentifierToken_parse u txt, literal = lit\<rparr>)"

section \<open>Path prior\<close>

definition DEMOTED_PATH_WEIGHT :: nat where "DEMOTED_PATH_WEIGHT = 7"

definition TEST_TERMS :: "string list" where
  "TEST_TERMS = [''test'', ''tests'', ''testing'', ''spec'', ''fixture'', ''fixtures'']"

definition DOC_TERMS :: "string list" where
  "DOC_TERMS = [''doc'', ''docs'', ''documentation'', ''readme'', ''markdown'', ''md'', ''agents'', ''claude'', ''guide'']"

record path_prior =
  demote_tests :: bool
  demote_docs :: bool
  exempt_named :: bool
  prior_terms :: "string list"

definition selects_tests :: "string \<Rightarrow> bool" where
  "selects_tests v \<longleftrightarrow> is_test_path v \<or> list_ex (\<lambda>part. part \<noteq> [] \<and> is_test_path (part @ ''/x'')) (split_char (CHR ''/'') v)"

definition selects_docs :: "string \<Rightarrow> bool" where
  "selects_docs v \<longleftrightarrow> is_doc_pointer_path v \<or> list_ex (\<lambda>part. part \<in> {''doc'', ''docs''}) (split_char (CHR ''/'') v)"

definition PathPrior_for_query :: "unicode \<Rightarrow> query \<Rightarrow> path_prior" where
  "PathPrior_for_query u q =
     (let terms = query_terms u (q_text q);
          names = (\<lambda>cls. list_ex (\<lambda>term. term \<in> set cls) terms);
          filters = map ascii_lower (include_values (q_path q));
          selects = (\<lambda>cls. list_ex cls filters);
          listing = (q_kind q = ''file'')
      in \<lparr>demote_tests = (\<not> listing \<and> \<not> names TEST_TERMS \<and> \<not> selects selects_tests),
          demote_docs = (\<not> listing \<and> \<not> names DOC_TERMS \<and> q_language q \<noteq> ''text'' \<and> \<not> selects selects_docs),
          exempt_named = (cq_identifier (ConceptQuery_parse u (q_text q)) = None),
          prior_terms = terms\<rparr>)"

definition prior_names :: "unicode \<Rightarrow> path_prior \<Rightarrow> string \<Rightarrow> bool" where
  "prior_names u p path \<longleftrightarrow> prior_terms p \<noteq> [] \<and> filename_score u path (prior_terms p) \<ge> 2"

definition names_exactly :: "unicode \<Rightarrow> path_prior \<Rightarrow> string \<Rightarrow> bool" where
  "names_exactly u p path \<longleftrightarrow> prior_terms p \<noteq> [] \<and> filename_score u path (prior_terms p) = 3"

definition prior_weight :: "unicode \<Rightarrow> path_prior \<Rightarrow> string \<Rightarrow> nat" where
  "prior_weight u p path =
     (let demoted = (demote_tests p \<and> is_test_path path) \<or> (demote_docs p \<and> is_doc_pointer_path path)
      in if demoted \<and> \<not> (exempt_named p \<and> prior_names u p path) then DEMOTED_PATH_WEIGHT else 10)"

section \<open>Properties\<close>

text \<open>A query the parser builds: its filters are encoded values, its language is one the index records.\<close>

definition query_ok :: "query \<Rightarrow> bool" where
  "query_ok q \<longleftrightarrow> wf_filter (q_path q) \<and> (q_language q = [] \<or> q_language q \<in> set INDEXED_LANGUAGES)"

lemma canonical_language_recorded: "canonical_language v = Inr l \<Longrightarrow> l = [] \<or> l \<in> set INDEXED_LANGUAGES"
  using canonical_language_known [of v l] by (cases "v = []") (auto simp: canonical_language_def)

lemma parse_chunk_ok: "parse_chunk u chunk (q, t) = Inr (q', t') \<Longrightarrow> query_ok q \<Longrightarrow> query_ok q'"
  by (auto simp: parse_chunk_def query_ok_def Let_def wf_include wf_exclude dest: canonical_language_recorded
      split: option.splits sum.splits)

lemma parse_chunks_ok: "parse_chunks u cs (q, t) = Inr (q', t') \<Longrightarrow> query_ok q \<Longrightarrow> query_ok q'"
proof (induction cs arbitrary: q t)
  case Nil
  then show ?case by simp
next
  case (Cons c cs)
  then obtain q1 t1 where "parse_chunk u c (q, t) = Inr (q1, t1)" "parse_chunks u cs (q1, t1) = Inr (q', t')"
    by (auto split: sum.splits)
  with Cons parse_chunk_ok show ?case by blast
qed

lemma Query_parse_ok:
  assumes "Query_parse u input = Inr q"
  shows "query_ok q" "q_exact q \<or> q_regex q \<Longrightarrow> q_text q \<noteq> []"
proof -
  from assms obtain q0 t where c: "parse_chunks u (query_chunks u input) (Query_default, []) = Inr (q0, t)"
    by (auto simp: Query_parse_def split: sum.splits)
  have "query_ok Query_default" by (simp add: query_ok_def Query_default_def)
  with parse_chunks_ok [OF c] have "query_ok q0" .
  with assms c show "query_ok q" "q_exact q \<or> q_regex q \<Longrightarrow> q_text q \<noteq> []"
    by (auto simp: Query_parse_def Let_def query_ok_def split: option.splits if_splits)
qed

text \<open>
  C40.  Every query the parser accepts is well typed: its path filters are encoded values, so for any index the SQL
  predicate they become selects exactly the paths the in-memory matcher accepts; its language is none or one the index
  records; and a \<open>sym:\<close> or \<open>re:\<close> query has text.
\<close>

theorem parsed_query_well_typed:
  assumes "Query_parse u input = Inr q"
  shows "wf_filter (q_path q) \<and> (q_language q = [] \<or> q_language q \<in> set INDEXED_LANGUAGES)
     \<and> (q_exact q \<or> q_regex q \<longrightarrow> q_text q \<noteq> [])
     \<and> (\<forall>files path. sql_clause_holds (PathFilter_bind (q_path q) files) path
          = BoundPathFilter_matches (PathFilter_bind (q_path q) files) path)"
  using Query_parse_ok [OF assms] clause_matches wf_bind by (auto simp: query_ok_def)

theorem parsed_query_well_typed_witness:
  "\<exists>q. Query_parse ascii_unicode ''sym:Store file:src lang:rs'' = Inr q \<and> wf_filter (q_path q)
     \<and> q_exact q \<and> q_text q \<noteq> [] \<and> q_language q = ''rust''"
proof -
  have q: "Query_parse ascii_unicode ''sym:Store file:src lang:rs'' = Inr \<lparr>q_text = ''Store'',
      q_path = \<lparr>include_values = [''src''], exclude_values = []\<rparr>, q_language = ''rust'', q_kind = [],
      q_exact = True, q_regex = False\<rparr>"
    by code_simp
  from parsed_query_well_typed [OF this] q show ?thesis by auto
qed

end
