(* ===== verification/TP_Fusion.thy ===== *)
theory TP_Fusion
  imports TP_Query TP_Results TP_Interfaces
begin

text \<open>
  \<open>src/search/file_ranking.rs\<close>: reciprocal-rank fusion of ranked lanes into one hit per file.  A \<open>BTreeMap\<close> is its list of
  entries in key order.  Scores are \<open>f64\<close> values: the type \<open>'f\<close>, ordered by \<open>total_cmp\<close> (a total order); its zero, its
  rounded sum and the rounded value of \<open>weight * prior / (60 + rank + 1)\<close>, for weights given in tenths, are arguments.
\<close>

section \<open>Evidence\<close>

datatype identifier_evidence = IAbsent | IUsed | IDefined | INamed

fun identifier_rank :: "identifier_evidence \<Rightarrow> nat" where
  "identifier_rank IAbsent = 0"
| "identifier_rank IUsed = 1"
| "identifier_rank IDefined = 2"
| "identifier_rank INamed = 3"

lemma identifier_rank_inject: "identifier_rank a = identifier_rank b \<longleftrightarrow> a = b"
  by (cases a; cases b) simp_all

instantiation identifier_evidence :: linorder
begin

definition less_eq_identifier_evidence :: "identifier_evidence \<Rightarrow> identifier_evidence \<Rightarrow> bool" where
  "less_eq_identifier_evidence a b \<longleftrightarrow> identifier_rank a \<le> identifier_rank b"

definition less_identifier_evidence :: "identifier_evidence \<Rightarrow> identifier_evidence \<Rightarrow> bool" where
  "less_identifier_evidence a b \<longleftrightarrow> identifier_rank a < identifier_rank b"

instance
  by standard (auto simp: less_eq_identifier_evidence_def less_identifier_evidence_def identifier_rank_inject)

end

lemma IAbsent_least [simp]: "IAbsent \<le> e"
  by (simp add: less_eq_identifier_evidence_def)

datatype file_evidence = FAbsent | FUsed | FDefined | FNamed | FPhrase

record fusion_policy =
  lane_weights :: bool
  identifier_tier :: bool
  fp_prior :: path_prior
  prior_from_lane :: nat

definition FILE_CANDIDATE_LIMIT :: nat where "FILE_CANDIDATE_LIMIT = 1000"

definition is_local_kind :: "string \<Rightarrow> bool" where
  "is_local_kind kind \<longleftrightarrow> kind \<in> {''variable'', ''parameter'', ''import''}"

definition FileEvidence_of :: "unicode \<Rightarrow> fusion_policy \<Rightarrow> hit \<Rightarrow> file_evidence" where
  "FileEvidence_of u policy h =
     (if identifier_tier policy \<and> names_exactly u (fp_prior policy) (hit_path h) then FNamed
      else if hit_provenance h = Some ''phrase'' then FPhrase
      else if \<not> identifier_tier policy then FAbsent
      else if hit_provenance h = Some ''exact_identifier'' \<and> \<not> is_local_kind (hit_kind h) then FDefined
      else if hit_provenance h \<in> {Some ''exact_identifier'', Some ''identifier_occurrence''} then FUsed
      else FAbsent)"

fun evidence_identifier :: "file_evidence \<Rightarrow> identifier_evidence" where
  "evidence_identifier FUsed = IUsed"
| "evidence_identifier FDefined = IDefined"
| "evidence_identifier FNamed = INamed"
| "evidence_identifier FAbsent = IAbsent"
| "evidence_identifier FPhrase = IAbsent"

fun evidence_tier :: "file_evidence \<Rightarrow> nat" where
  "evidence_tier FNamed = 0"
| "evidence_tier FDefined = 0"
| "evidence_tier FPhrase = 0"
| "evidence_tier FUsed = 1"
| "evidence_tier FAbsent = 2"

definition lane_weight :: "fusion_policy \<Rightarrow> hit \<Rightarrow> nat" where
  "lane_weight policy h =
     (if hit_provenance h = Some ''exact_identifier'' \<and> identifier_tier policy \<and> \<not> is_local_kind (hit_kind h) then 30
      else if hit_provenance h \<in> {Some ''phrase'', Some ''filename_exact''} then 20
      else if hit_provenance h = Some ''filename_partial'' then 5
      else 10)"

section \<open>Fusion\<close>

record 'f float_ops =
  f_zero :: 'f
  f_add :: "'f \<Rightarrow> 'f \<Rightarrow> 'f"
  f_contribution :: "nat \<Rightarrow> nat \<Rightarrow> nat \<Rightarrow> 'f"

record 'f file_score =
  fs_score :: 'f
  fs_identifier :: identifier_evidence
  fs_evidence :: file_evidence
  fs_representative :: hit
  fs_lane :: nat
  fs_rank :: nat

definition rep_insert :: "nat \<times> hit \<Rightarrow> (string \<times> nat \<times> hit) list \<Rightarrow> (string \<times> nat \<times> hit) list" where
  "rep_insert = (\<lambda>(rank, h) m. case map_of m (hit_path h) of
     None \<Rightarrow> bt_insert (hit_path h) (rank, h) m
   | Some _ \<Rightarrow> m)"

definition rep_le :: "nat \<times> hit \<Rightarrow> nat \<times> hit \<Rightarrow> bool" where
  "rep_le = (\<lambda>(r1, a) (r2, b). r1 < r2 \<or> r1 = r2 \<and> (hit_path a < hit_path b \<or> hit_path a = hit_path b \<and>
     (hit_start a < hit_start b \<or> hit_start a = hit_start b \<and> hit_end a \<le> hit_end b)))"

definition representatives :: "hit list \<Rightarrow> (nat \<times> hit) list" where
  "representatives lane =
     take FILE_CANDIDATE_LIMIT (sort_by rep_le (map snd (fold rep_insert (enumerate 0 lane) [])))"

definition hit_contribution :: "unicode \<Rightarrow> 'f float_ops \<Rightarrow> fusion_policy \<Rightarrow> nat \<Rightarrow> nat \<Rightarrow> hit \<Rightarrow> 'f" where
  "hit_contribution u ops policy lane_index file_rank h =
     f_contribution ops (if lane_weights policy then lane_weight policy h else 10)
       (if lane_index \<ge> prior_from_lane policy then prior_weight u (fp_prior policy) (hit_path h) else 10) file_rank"

definition score_hit :: "unicode \<Rightarrow> 'f float_ops \<Rightarrow> fusion_policy \<Rightarrow> nat \<times> nat \<times> hit \<Rightarrow>
    (string \<times> 'f file_score) list \<Rightarrow> (string \<times> 'f file_score) list" where
  "score_hit u ops policy = (\<lambda>(lane_index, file_rank, h) files.
     let evidence = FileEvidence_of u policy h;
         old = (case map_of files (hit_path h) of
                  Some s \<Rightarrow> s
                | None \<Rightarrow> \<lparr>fs_score = f_zero ops, fs_identifier = IAbsent, fs_evidence = evidence,
                            fs_representative = h, fs_lane = lane_index, fs_rank = file_rank\<rparr>);
         s1 = old\<lparr>fs_score := f_add ops (fs_score old) (hit_contribution u ops policy lane_index file_rank h),
                  fs_identifier := max (fs_identifier old) (evidence_identifier evidence)\<rparr>;
         better = evidence_tier evidence < evidence_tier (fs_evidence old);
         tied = (evidence_tier evidence = evidence_tier (fs_evidence old));
         earlier = (lane_index < fs_lane old \<or> lane_index = fs_lane old \<and> file_rank < fs_rank old);
         s2 = (if better \<or> tied \<and> earlier
               then s1\<lparr>fs_evidence := evidence, fs_representative := h, fs_lane := lane_index, fs_rank := file_rank\<rparr>
               else s1)
     in bt_insert (hit_path h) s2 files)"

definition lane_contributions :: "nat \<times> hit list \<Rightarrow> (nat \<times> nat \<times> hit) list" where
  "lane_contributions = (\<lambda>(lane_index, lane).
     map (\<lambda>(file_rank, _, h). (lane_index, file_rank, h)) (enumerate 0 (representatives lane)))"

definition file_le :: "'f::linorder file_score \<Rightarrow> 'f file_score \<Rightarrow> bool" where
  "file_le a b \<longleftrightarrow>
     (let l = fs_representative a; r = fs_representative b in
      fs_identifier b < fs_identifier a \<or> fs_identifier b = fs_identifier a \<and>
      (fs_score b < fs_score a \<or> fs_score b = fs_score a \<and>
       (hit_path l < hit_path r \<or> hit_path l = hit_path r \<and>
        (hit_start l < hit_start r \<or> hit_start l = hit_start r \<and>
         (hit_end l < hit_end r \<or> hit_end l = hit_end r \<and> hit_kind l \<le> hit_kind r)))))"

definition fuse_search_file_lanes :: "unicode \<Rightarrow> 'f::linorder float_ops \<Rightarrow> fusion_policy \<Rightarrow> hit list list \<Rightarrow> hit list" where
  "fuse_search_file_lanes u ops policy lanes =
     map fs_representative (sort_by file_le (map snd
       (fold (\<lambda>lane files. fold (score_hit u ops policy) (lane_contributions lane) files) (enumerate 0 lanes) [])))"

section \<open>Reference\<close>

text \<open>The contributions of all lanes in order: each lane's first hit per file, at most 1000 of them; what one file's
  contributions prove and sum up to.\<close>

definition contributions :: "hit list list \<Rightarrow> (nat \<times> nat \<times> hit) list" where
  "contributions lanes = concat (map (\<lambda>(l, lane). map (\<lambda>(r, h). (l, r, h))
     (enumerate 0 (take FILE_CANDIDATE_LIMIT (first_by hit_path lane)))) (enumerate 0 lanes))"

definition contribution_path :: "nat \<times> nat \<times> hit \<Rightarrow> string" where
  "contribution_path = (\<lambda>(_, _, h). hit_path h)"

definition file_contributions :: "string \<Rightarrow> hit list list \<Rightarrow> (nat \<times> nat \<times> hit) list" where
  "file_contributions path lanes = filter (\<lambda>c. contribution_path c = path) (contributions lanes)"

definition file_identifier :: "unicode \<Rightarrow> fusion_policy \<Rightarrow> (nat \<times> nat \<times> hit) list \<Rightarrow> identifier_evidence" where
  "file_identifier u policy cs = fold (\<lambda>(_, _, h) e. max e (evidence_identifier (FileEvidence_of u policy h))) cs IAbsent"

definition file_total :: "unicode \<Rightarrow> 'f float_ops \<Rightarrow> fusion_policy \<Rightarrow> (nat \<times> nat \<times> hit) list \<Rightarrow> 'f" where
  "file_total u ops policy cs = fold (\<lambda>(l, r, h) s. f_add ops s (hit_contribution u ops policy l r h)) cs (f_zero ops)"

definition choice_key :: "unicode \<Rightarrow> fusion_policy \<Rightarrow> nat \<times> nat \<times> hit \<Rightarrow> nat \<times> nat \<times> nat" where
  "choice_key u policy = (\<lambda>(l, r, h). (evidence_tier (FileEvidence_of u policy h), l, r))"

definition key_le :: "nat \<times> nat \<times> nat \<Rightarrow> nat \<times> nat \<times> nat \<Rightarrow> bool" where
  "key_le = (\<lambda>(a, b, c) (x, y, z). a < x \<or> a = x \<and> (b < y \<or> b = y \<and> c \<le> z))"

interpretation reps: comparison rep_le
  by unfold_locales (auto simp: rep_le_def split: prod.splits)

interpretation fused: comparison "file_le :: 'f::linorder file_score \<Rightarrow> 'f file_score \<Rightarrow> bool"
  by unfold_locales (auto simp: file_le_def Let_def)

section \<open>Representatives\<close>

lemma mset_bt_insert_new: "k \<notin> fst ` set al \<Longrightarrow> mset (bt_insert k v al) = add_mset (k, v) (mset al)"
  by (induction al) (auto split: prod.splits)

lemma rep_insert_present: "hit_path (snd x) \<in> fst ` set m \<Longrightarrow> rep_insert x m = m"
  by (auto simp: rep_insert_def split: prod.splits option.splits) (metis map_of_eq_None_iff option.distinct(1) fst_conv rev_image_eqI)

lemma rep_insert_new: "hit_path (snd x) \<notin> fst ` set m \<Longrightarrow> rep_insert x m = bt_insert (hit_path (snd x)) x m"
  by (auto simp: rep_insert_def map_of_eq_None_iff split: prod.splits option.splits) (metis map_of_eq_None_iff option.distinct(1))

lemma rep_fold:
  "mset (map snd (fold rep_insert ps m)) =
     mset (map snd m) + mset (first_by (hit_path \<circ> snd) (filter (\<lambda>x. hit_path (snd x) \<notin> fst ` set m) ps))"
proof (induction ps arbitrary: m)
  case Nil
  then show ?case by simp
next
  case (Cons x ps)
  show ?case
  proof (cases "hit_path (snd x) \<in> fst ` set m")
    case True
    with Cons show ?thesis by (simp add: rep_insert_present)
  next
    case False
    let ?m = "bt_insert (hit_path (snd x)) x m"
    have "filter (\<lambda>y. hit_path (snd y) \<notin> fst ` set ?m) ps =
        filter (\<lambda>y. hit_path (snd y) \<noteq> hit_path (snd x)) (filter (\<lambda>y. hit_path (snd y) \<notin> fst ` set m) ps)"
      by (auto intro!: filter_cong)
    moreover have "mset (map snd ?m) = add_mset x (mset (map snd m))"
      using mset_bt_insert_new [OF False, of x] by (metis image_mset_add_mset mset_map snd_conv)
    ultimately show ?thesis using Cons [of ?m] False by (simp add: rep_insert_new)
  qed
qed

lemma enumerate_sorted: "sorted_wrt (\<lambda>a b. fst a < fst b) (enumerate n xs)"
  by (simp add: sorted_wrt_iff_nth_less nth_enumerate_eq)

lemma representatives_first_by: "representatives lane = take FILE_CANDIDATE_LIMIT (first_by (hit_path \<circ> snd) (enumerate 0 lane))"
proof -
  let ?f = "first_by (hit_path \<circ> snd) (enumerate 0 lane)"
  have sorted: "sorted_wrt (\<lambda>a b. fst a < fst b) ?f" by (intro sorted_wrt_first_by enumerate_sorted)
  have "sort_by rep_le (map snd (fold rep_insert (enumerate 0 lane) [])) = ?f"
  proof (rule reps.sort_by_unique)
    show "sorted_wrt rep_le ?f" by (rule sorted_wrt_mono_rel [OF _ sorted]) (auto simp: rep_le_def)
    show "mset (map snd (fold rep_insert (enumerate 0 lane) [])) = mset ?f" using rep_fold [of "enumerate 0 lane" "[]"] by simp
    show "x = y" if "x \<in> set ?f" "y \<in> set ?f" "rep_le x y" "rep_le y x" for x y
    proof -
      have "fst x = fst y" using that by (auto simp: rep_le_def)
      moreover have "x \<in> set (enumerate 0 lane)" "y \<in> set (enumerate 0 lane)"
        using that set_first_by_subset [of "hit_path \<circ> snd" "enumerate 0 lane"] by auto
      ultimately show ?thesis by (auto simp: in_set_enumerate_eq prod_eq_iff)
    qed
  qed
  then show ?thesis by (simp add: representatives_def)
qed

lemma representatives_hits: "map snd (representatives lane) = take FILE_CANDIDATE_LIMIT (first_by hit_path lane)"
  by (simp add: representatives_first_by take_map [symmetric] map_first_by [of hit_path snd] comp_def)

lemma enumerate_map: "enumerate n (map f xs) = map (\<lambda>(i, x). (i, f x)) (enumerate n xs)"
  by (induction xs arbitrary: n) auto

lemma contributions_lanes: "contributions lanes = concat (map lane_contributions (enumerate 0 lanes))"
  by (auto simp: contributions_def lane_contributions_def representatives_hits [symmetric] enumerate_map comp_def
      intro!: arg_cong [where f = concat] map_cong split: prod.splits)

lemma fold_concat_fold: "fold f (concat xss) s = fold (fold f) xss s"
  by (induction xss arbitrary: s) simp_all

lemma fuse_contributions:
  "fuse_search_file_lanes u ops policy lanes =
     map fs_representative (sort_by file_le (map snd (fold (score_hit u ops policy) (contributions lanes) [])))"
proof -
  have "fold (\<lambda>lane files. fold (score_hit u ops policy) (lane_contributions lane) files) ls m
      = fold (score_hit u ops policy) (concat (map lane_contributions ls)) m" for ls m
    by (induction ls arbitrary: m) simp_all
  then show ?thesis by (simp add: fuse_search_file_lanes_def contributions_lanes)
qed

section \<open>Scores\<close>

definition entry_step :: "unicode \<Rightarrow> 'f float_ops \<Rightarrow> fusion_policy \<Rightarrow> nat \<times> nat \<times> hit \<Rightarrow> 'f file_score option \<Rightarrow> 'f file_score" where
  "entry_step u ops policy c old = (case score_hit u ops policy c (case old of None \<Rightarrow> [] | Some s \<Rightarrow> [(contribution_path c, s)]) of
     (_, s) # _ \<Rightarrow> s)"

lemma score_hit_entry:
  "score_hit u ops policy c files =
     bt_insert (contribution_path c) (entry_step u ops policy c (map_of files (contribution_path c))) files"
  by (cases c; cases "map_of files (contribution_path c)")
     (auto simp: entry_step_def score_hit_def contribution_path_def Let_def)

lemma score_fold_lookup:
  "map_of (fold (score_hit u ops policy) cs m) p =
     fold (\<lambda>c old. Some (entry_step u ops policy c old)) (filter (\<lambda>c. contribution_path c = p) cs) (map_of m p)"
  by (induction cs arbitrary: m) (auto simp: score_hit_entry)

lemma score_fold_keys: "fst ` set (fold (score_hit u ops policy) cs m) = contribution_path ` set cs \<union> fst ` set m"
  by (induction cs arbitrary: m) (auto simp: score_hit_entry)

lemma score_fold_ok: "bt_ok m \<Longrightarrow> bt_ok (fold (score_hit u ops policy) cs m)"
  by (induction cs arbitrary: m) (auto simp: score_hit_entry bt_ok_insert)

definition summarises :: "unicode \<Rightarrow> 'f float_ops \<Rightarrow> fusion_policy \<Rightarrow> (nat \<times> nat \<times> hit) list \<Rightarrow> 'f file_score \<Rightarrow> bool" where
  "summarises u ops policy cs s \<longleftrightarrow>
     fs_score s = file_total u ops policy cs \<and> fs_identifier s = file_identifier u policy cs
     \<and> fs_evidence s = FileEvidence_of u policy (fs_representative s)
     \<and> (fs_lane s, fs_rank s, fs_representative s) \<in> set cs
     \<and> (\<forall>c \<in> set cs. key_le (choice_key u policy (fs_lane s, fs_rank s, fs_representative s)) (choice_key u policy c))"

lemma key_le_trans: "key_le a b \<Longrightarrow> key_le b c \<Longrightarrow> key_le a c"
  by (auto simp: key_le_def split: prod.splits)

lemma key_le_refl: "key_le a a"
  by (auto simp: key_le_def split: prod.splits)

lemma entry_first:
  "summarises u ops policy [c] (entry_step u ops policy c None)"
  by (cases c)
     (simp add: summarises_def entry_step_def score_hit_def Let_def file_total_def file_identifier_def key_le_refl max_def)

lemma entry_next:
  assumes "summarises u ops policy cs s"
  shows "summarises u ops policy (cs @ [c]) (entry_step u ops policy c (Some s))"
proof -
  obtain l r h where c: "c = (l, r, h)" by (cases c)
  let ?new = "choice_key u policy c" and ?old = "choice_key u policy (fs_lane s, fs_rank s, fs_representative s)"
  let ?t = "entry_step u ops policy c (Some s)"
  have ev: "fs_evidence s = FileEvidence_of u policy (fs_representative s)" using assms by (simp add: summarises_def)
  have sums: "fs_score ?t = file_total u ops policy (cs @ [c])" "fs_identifier ?t = file_identifier u policy (cs @ [c])"
    using assms c by (simp_all add: summarises_def entry_step_def score_hit_def Let_def contribution_path_def
        file_total_def file_identifier_def)
  show ?thesis
  proof (cases "key_le ?old ?new")
    case True
    then have "fs_evidence ?t = fs_evidence s" "fs_representative ?t = fs_representative s" "fs_lane ?t = fs_lane s" "fs_rank ?t = fs_rank s"
      using c ev by (auto simp: entry_step_def score_hit_def Let_def contribution_path_def choice_key_def key_le_def)
    with sums assms True show ?thesis by (auto simp: summarises_def)
  next
    case False
    then have t: "fs_evidence ?t = FileEvidence_of u policy h" "fs_representative ?t = h" "fs_lane ?t = l" "fs_rank ?t = r"
      using c ev by (auto simp: entry_step_def score_hit_def Let_def contribution_path_def choice_key_def key_le_def)
    from False have "key_le ?new ?old" by (auto simp: key_le_def split: prod.splits)
    with assms have "\<forall>d \<in> set cs. key_le ?new (choice_key u policy d)"
      by (auto simp: summarises_def intro: key_le_trans)
    with sums t c key_le_refl show ?thesis by (auto simp: summarises_def)
  qed
qed

lemma entry_fold:
  "cs \<noteq> [] \<Longrightarrow> \<exists>s. fold (\<lambda>c old. Some (entry_step u ops policy c old)) cs None = Some s \<and> summarises u ops policy cs s"
proof (induction cs rule: rev_induct)
  case Nil
  then show ?case by simp
next
  case (snoc c cs)
  show ?case
  proof (cases "cs = []")
    case True
    then show ?thesis using entry_first by simp
  next
    case False
    with snoc obtain s where "fold (\<lambda>c old. Some (entry_step u ops policy c old)) cs None = Some s" "summarises u ops policy cs s"
      by blast
    then show ?thesis using entry_next by simp
  qed
qed

lemma fused_entry:
  assumes "(p, s) \<in> set (fold (score_hit u ops policy) (contributions lanes) [])"
  shows "summarises u ops policy (file_contributions p lanes) s" "hit_path (fs_representative s) = p"
proof -
  let ?m = "fold (score_hit u ops policy) (contributions lanes) []"
  have ok: "bt_ok ?m" by (rule score_fold_ok) (simp add: bt_ok_def)
  have look: "map_of ?m p = Some s" using assms bt_ok_distinct [OF ok] by simp
  have "file_contributions p lanes \<noteq> []"
    using look by (auto simp: score_fold_lookup file_contributions_def)
  from entry_fold [OF this, of u ops policy] look
  show sums: "summarises u ops policy (file_contributions p lanes) s" by (auto simp: score_fold_lookup file_contributions_def)
  then show "hit_path (fs_representative s) = p"
    by (auto simp: summarises_def file_contributions_def contribution_path_def)
qed

definition fused_before :: "unicode \<Rightarrow> 'f::linorder float_ops \<Rightarrow> fusion_policy \<Rightarrow> hit list list \<Rightarrow> hit \<Rightarrow> hit \<Rightarrow> bool" where
  "fused_before u ops policy lanes a b \<longleftrightarrow>
     (let ev = (\<lambda>h. file_identifier u policy (file_contributions (hit_path h) lanes));
          tot = (\<lambda>h. file_total u ops policy (file_contributions (hit_path h) lanes))
      in ev b < ev a \<or> ev b = ev a \<and> (tot b < tot a \<or> tot b = tot a \<and> hit_path a < hit_path b))"

lemma sorted_wrt_distinct_keys:
  assumes "sorted_wrt P xs" "distinct (map f xs)" "\<And>x y. x \<in> set xs \<Longrightarrow> y \<in> set xs \<Longrightarrow> P x y \<Longrightarrow> f x \<noteq> f y \<Longrightarrow> Q (g x) (g y)"
  shows "sorted_wrt Q (map g xs)"
  using assms by (induction xs) (auto simp: image_iff)

text \<open>Fusion invents no hit.\<close>

lemma fuse_from_lanes: "h \<in> set (fuse_search_file_lanes u ops policy lanes) \<Longrightarrow> \<exists>lane \<in> set lanes. h \<in> set lane"
proof -
  assume "h \<in> set (fuse_search_file_lanes u ops policy lanes)"
  then obtain p s where ps: "(p, s) \<in> set (fold (score_hit u ops policy) (contributions lanes) [])" "h = fs_representative s"
    by (force simp: fuse_contributions)
  from fused_entry(1) [OF ps(1)] ps(2) have "\<exists>l r. (l, r, h) \<in> set (contributions lanes)"
    by (auto simp: summarises_def file_contributions_def)
  then obtain i lane r where "(i, lane) \<in> set (enumerate 0 lanes)" "(r, h) \<in> set (enumerate 0 (take FILE_CANDIDATE_LIMIT (first_by hit_path lane)))"
    by (auto simp: contributions_def)
  then have "lane \<in> set lanes" "h \<in> set (first_by hit_path lane)"
    by (auto simp: in_set_enumerate_eq dest: in_set_takeD [OF nth_mem] intro: nth_mem)
  then show ?thesis using set_first_by_subset by fast
qed

text \<open>
  C23.  Fusing lanes gives every file that some lane ranks among its first thousand files exactly one hit.  That hit is
  the one of strongest evidence among the lanes' first hits in the file, the earliest lane and rank breaking ties.
  Files come in order of identifier evidence, then of the sum of their contributions, then of path, strictly, so the
  ranking is determined.
\<close>

theorem fusion_ranks_files:
  "let out = fuse_search_file_lanes u ops policy lanes
   in distinct (map hit_path out)
     \<and> set (map hit_path out) = (\<Union>lane \<in> set lanes. hit_path ` set (take FILE_CANDIDATE_LIMIT (first_by hit_path lane)))
     \<and> (\<forall>h \<in> set out. \<exists>l r. (l, r, h) \<in> set (file_contributions (hit_path h) lanes)
          \<and> (\<forall>c \<in> set (file_contributions (hit_path h) lanes). key_le (choice_key u policy (l, r, h)) (choice_key u policy c)))
     \<and> sorted_wrt (fused_before u ops policy lanes) out"
proof -
  let ?m = "fold (score_hit u ops policy) (contributions lanes) []"
  let ?s = "sort_by file_le (map snd ?m)"
  have out: "fuse_search_file_lanes u ops policy lanes = map fs_representative ?s" by (rule fuse_contributions)
  have ok: "distinct (map fst ?m)" by (rule bt_ok_distinct, rule score_fold_ok) (simp add: bt_ok_def)
  have path: "hit_path (fs_representative (snd e)) = fst e" if "e \<in> set ?m" for e
    using fused_entry(2) [of "fst e" "snd e"] that by simp
  have keys: "map (hit_path \<circ> fs_representative) (map snd ?m) = map fst ?m" using path by auto
  have "mset (map (hit_path \<circ> fs_representative) ?s) = mset (map fst ?m)"
    by (metis keys mset_map mset_sort_by)
  then have dist: "distinct (map (hit_path \<circ> fs_representative) ?s)" and set1: "set (map (hit_path \<circ> fs_representative) ?s) = set (map fst ?m)"
    using ok by (metis mset_eq_imp_distinct_iff, metis mset_eq_setD)
  have sum: "summarises u ops policy (file_contributions (hit_path (fs_representative s)) lanes) s" if "s \<in> set ?s" for s
  proof -
    from that obtain p where "(p, s) \<in> set ?m" by auto
    with fused_entry [of p s u ops policy lanes] show ?thesis by simp
  qed
  have "set (map fst ?m) = contribution_path ` set (contributions lanes)" using score_fold_keys [of u ops policy "contributions lanes" "[]"] by simp
  also have "\<dots> = (\<Union>lane \<in> set lanes. hit_path ` set (take FILE_CANDIDATE_LIMIT (first_by hit_path lane)))"
  proof -
    have "contribution_path ` set (map (\<lambda>(r, h). (l, r, h)) (enumerate 0 hs)) = hit_path ` set hs" for l hs
    proof -
      have "contribution_path \<circ> (\<lambda>(r, h). (l, r, h)) = hit_path \<circ> snd" by (auto simp: contribution_path_def)
      then have "map contribution_path (map (\<lambda>(r, h). (l, r, h)) (enumerate 0 hs)) = map hit_path (map snd (enumerate 0 hs))"
        by (metis map_map)
      then show ?thesis by (metis map_snd_enumerate set_map)
    qed
    then have "contribution_path ` set (contributions lanes) = (\<Union>e \<in> set (enumerate 0 lanes). hit_path ` set (take FILE_CANDIDATE_LIMIT (first_by hit_path (snd e))))"
      by (simp add: contributions_def image_UN case_prod_unfold)
    also have "\<dots> = (\<Union>lane \<in> snd ` set (enumerate 0 lanes). hit_path ` set (take FILE_CANDIDATE_LIMIT (first_by hit_path lane)))" by simp
    also have "snd ` set (enumerate 0 lanes) = set lanes" by (metis map_snd_enumerate set_map)
    finally show ?thesis .
  qed
  finally have paths: "set (map fst ?m) = \<dots>" .
  have "sorted_wrt (fused_before u ops policy lanes) (map fs_representative ?s)"
  proof (rule sorted_wrt_distinct_keys [OF fused.sorted_sort_by dist])
    fix x y assume "x \<in> set ?s" "y \<in> set ?s" "file_le x y" "(hit_path \<circ> fs_representative) x \<noteq> (hit_path \<circ> fs_representative) y"
    with sum [of x] sum [of y] show "fused_before u ops policy lanes (fs_representative x) (fs_representative y)"
      by (auto simp: fused_before_def file_le_def Let_def summarises_def)
  qed
  moreover have "\<exists>l r. (l, r, h) \<in> set (file_contributions (hit_path h) lanes)
      \<and> (\<forall>c \<in> set (file_contributions (hit_path h) lanes). key_le (choice_key u policy (l, r, h)) (choice_key u policy c))"
    if h: "h \<in> set (map fs_representative ?s)" for h
  proof -
    from h obtain s where "s \<in> set ?s" "h = fs_representative s" by auto
    with sum [of s] show ?thesis unfolding summarises_def by blast
  qed
  ultimately show ?thesis using dist set1 paths by (simp add: out Let_def image_image)
qed

definition sample_hit :: "string \<Rightarrow> string \<Rightarrow> hit" where
  "sample_hit path provenance = \<lparr>hit_handle = [], hit_path = path, hit_revision = None, hit_start = 0, hit_end = 0,
     hit_start_line = 1, hit_end_line = 1, hit_name = path, hit_kind = ''file'', hit_container = None,
     hit_provenance = Some provenance, hit_resolution = None, hit_candidates = [], hit_target = None,
     hit_snippet = None, hit_repeats = None\<rparr>"

definition sample_ops :: "nat float_ops" where
  "sample_ops = \<lparr>f_zero = 0, f_add = (+), f_contribution = (\<lambda>w p r. w + p - r)\<rparr>"

definition sample_policy :: fusion_policy where
  "sample_policy = \<lparr>lane_weights = True, identifier_tier = False, fp_prior = \<lparr>demote_tests = True, demote_docs = False,
     exempt_named = True, prior_terms = []\<rparr>, prior_from_lane = 0\<rparr>"

theorem fusion_ranks_files_witness:
  "let lanes = [[sample_hit ''b'' ''lexical'', sample_hit ''a'' ''lexical''], [sample_hit ''a'' ''filename_exact'']];
       out = fuse_search_file_lanes ascii_unicode sample_ops sample_policy lanes
   in distinct (map hit_path out) \<and> map hit_path out = [''a'', ''b'']
      \<and> sorted_wrt (fused_before ascii_unicode sample_ops sample_policy lanes) out"
proof -
  let ?lanes = "[[sample_hit ''b'' ''lexical'', sample_hit ''a'' ''lexical''], [sample_hit ''a'' ''filename_exact'']]"
  have "map hit_path (fuse_search_file_lanes ascii_unicode sample_ops sample_policy ?lanes) = [''a'', ''b'']" by code_simp
  with fusion_ranks_files [of ascii_unicode sample_ops sample_policy ?lanes] show ?thesis by (simp add: Let_def)
qed

end
