(* ===== verification/TP_Index.thy ===== *)
theory TP_Index
  imports TP_Fusion "HOL-Library.Product_Lexorder"
begin

text \<open>
  The published index as the search lanes read it: the tables of \<open>src/store/schema.rs\<close> as lists of rows, \<open>hit_row\<close> of
  \<open>src/search.rs\<close> and the line numbers of \<open>src/source.rs\<close>.  A SQL query is the list of its rows: a join is a lookup by the
  primary key of the joined table, \<open>ORDER BY\<close> a stable sort of the table order, \<open>ROW_NUMBER() = 1\<close> the first row of each
  partition in that order.  \<open>JOIN contents\<close> drops a file without a revision.
\<close>

section \<open>Tables\<close>

record file_entry =
  fe_id :: int
  fe_path :: string
  fe_revision :: "string option"
  fe_language :: string

record definition_entry =
  de_id :: int
  de_file :: int
  de_name :: string
  de_kind :: string
  de_start :: nat
  de_end :: nat
  de_container :: "string option"

record occurrence_entry =
  oe_id :: int
  oe_file :: int
  oe_name :: string
  oe_start :: nat
  oe_end :: nat
  oe_role :: string
  oe_target :: "int option"
  oe_candidates :: string
  oe_provenance :: string

record region_entry =
  re_id :: int
  re_file :: int
  re_start :: nat
  re_end :: nat
  re_name :: string
  re_kind :: string
  re_body :: string

record index_db =
  db_generation :: int
  db_coverage :: json
  db_contents :: "(string \<times> bytes) list"
  db_files :: "file_entry list"
  db_definitions :: "definition_entry list"
  db_occurrences :: "occurrence_entry list"
  db_regions :: "region_entry list"

definition file_of :: "index_db \<Rightarrow> int \<Rightarrow> file_entry option" where
  "file_of db i = find (\<lambda>f. fe_id f = i) (db_files db)"

definition definition_of :: "index_db \<Rightarrow> int \<Rightarrow> definition_entry option" where
  "definition_of db i = find (\<lambda>d. de_id d = i) (db_definitions db)"

definition content_of :: "index_db \<Rightarrow> file_entry \<Rightarrow> bytes option" where
  "content_of db f = (case fe_revision f of None \<Rightarrow> None | Some r \<Rightarrow> map_of (db_contents db) r)"

text \<open>\<open>JOIN files f ON f.id = file_id JOIN contents c ON c.revision = f.revision\<close>.\<close>

definition located :: "index_db \<Rightarrow> int \<Rightarrow> (file_entry \<times> bytes) option" where
  "located db i = (case file_of db i of None \<Rightarrow> None | Some f \<Rightarrow> map_option (Pair f) (content_of db f))"

section \<open>Hits\<close>

definition line_at :: "bytes \<Rightarrow> nat \<Rightarrow> nat" where
  "line_at bs offset = 1 + length (filter (\<lambda>c. c = LF) (take (min offset (length bs)) bs))"

definition line_span :: "bytes \<Rightarrow> nat \<Rightarrow> nat \<Rightarrow> nat \<times> nat" where
  "line_span bs start stop = (line_at bs start, line_at bs (if stop > start then stop - 1 else start))"

definition hit_row :: "file_entry \<Rightarrow> bytes \<Rightarrow> nat \<Rightarrow> nat \<Rightarrow> string \<Rightarrow> string \<Rightarrow> string option \<Rightarrow> string \<Rightarrow> hit" where
  "hit_row f bs start stop name kind container provenance =
     (let (first, lst) = line_span bs start stop
      in \<lparr>hit_handle = [], hit_path = fe_path f, hit_revision = fe_revision f, hit_start = start, hit_end = stop,
          hit_start_line = first, hit_end_line = lst, hit_name = name, hit_kind = kind, hit_container = container,
          hit_provenance = Some provenance, hit_resolution = None, hit_candidates = [], hit_target = None,
          hit_snippet = None, hit_repeats = None\<rparr>)"

record lane_hits =
  lh_hits :: "hit list"
  lh_truncated :: bool

definition cap_hits :: "nat \<Rightarrow> hit list \<Rightarrow> lane_hits" where
  "cap_hits limit hits = \<lparr>lh_hits = take limit hits, lh_truncated = (length hits > limit)\<rparr>"

definition cap_lane :: "hit list \<Rightarrow> lane_hits" where
  "cap_lane hits = cap_hits FILE_CANDIDATE_LIMIT hits"

text \<open>The filters every lane's \<open>WHERE\<close> clause has: the bound path predicate, \<open>?='' OR language=?\<close>, \<open>?='' OR kind=?\<close>.\<close>

definition passes :: "bound_path_filter \<Rightarrow> string \<Rightarrow> file_entry \<Rightarrow> bool" where
  "passes paths language f \<longleftrightarrow> sql_clause_holds paths (fe_path f) \<and> (language = [] \<or> fe_language f = language)"

definition kind_passes :: "string \<Rightarrow> string \<Rightarrow> bool" where
  "kind_passes wanted kind \<longleftrightarrow> wanted = [] \<or> kind = wanted"

text \<open>\<open>FROM definitions d JOIN files f JOIN contents c\<close> under those filters.\<close>

definition definition_rows :: "index_db \<Rightarrow> bound_path_filter \<Rightarrow> string \<Rightarrow> string \<Rightarrow>
    (definition_entry \<times> file_entry \<times> bytes) list" where
  "definition_rows db paths language kind =
     List.map_filter (\<lambda>d. case located db (de_file d) of
         Some (f, bs) \<Rightarrow> if passes paths language f \<and> kind_passes kind (de_kind d) then Some (d, f, bs) else None
       | None \<Rightarrow> None) (db_definitions db)"

definition definition_key :: "definition_entry \<times> file_entry \<times> bytes \<Rightarrow> string \<times> nat \<times> nat \<times> int" where
  "definition_key = (\<lambda>(d, f, _). (fe_path f, de_start d, de_end d, de_id d))"

definition definition_hit :: "definition_entry \<times> file_entry \<times> bytes \<Rightarrow> hit" where
  "definition_hit = (\<lambda>(d, f, bs). hit_row f bs (de_start d) (de_end d) (de_name d) (de_kind d) (de_container d) ''exact_identifier'')"

text \<open>A hit the index vouches for: its kind passes, and it lies in an indexed file that passes the filters.\<close>

definition hit_in_scope :: "index_db \<Rightarrow> bound_path_filter \<Rightarrow> string \<Rightarrow> string \<Rightarrow> hit \<Rightarrow> bool" where
  "hit_in_scope db paths language kind h \<longleftrightarrow>
     kind_passes kind (hit_kind h) \<and>
     (\<exists>f \<in> set (db_files db). passes paths language f \<and> hit_path h = fe_path f \<and> hit_revision h = fe_revision f)"

lemma hit_row_fields [simp]:
  "hit_path (hit_row f bs a b n k c p) = fe_path f" "hit_revision (hit_row f bs a b n k c p) = fe_revision f"
  "hit_kind (hit_row f bs a b n k c p) = k" "hit_provenance (hit_row f bs a b n k c p) = Some p"
  "hit_start (hit_row f bs a b n k c p) = a" "hit_end (hit_row f bs a b n k c p) = b"
  "hit_container (hit_row f bs a b n k c p) = c" "hit_name (hit_row f bs a b n k c p) = n"
  by (simp_all add: hit_row_def split: prod.splits)

lemma file_of_mem: "file_of db i = Some f \<Longrightarrow> f \<in> set (db_files db)"
  by (auto simp: file_of_def find_Some_iff)

lemma located_mem: "located db i = Some (f, bs) \<Longrightarrow> f \<in> set (db_files db)"
  by (auto simp: located_def dest: file_of_mem split: option.splits)

lemma hit_row_in_scope:
  "located db i = Some (f, bs) \<Longrightarrow> passes paths language f \<Longrightarrow> kind_passes kind k \<Longrightarrow>
   hit_in_scope db paths language kind (hit_row f bs a b n k c p)"
  by (auto simp: hit_in_scope_def dest: located_mem)

lemma line_at_mono: "a \<le> b \<Longrightarrow> line_at bs a \<le> line_at bs b"
proof -
  assume "a \<le> b"
  then have "take (min a (length bs)) bs = take (min a (length bs)) (take (min b (length bs)) bs)" by (simp add: min_def)
  then show ?thesis unfolding line_at_def by (metis append_take_drop_id filter_append le_add1 length_append nat_add_left_cancel_le)
qed

lemma line_span_ordered: "line_span bs a b = (x, y) \<Longrightarrow> 1 \<le> x \<and> x \<le> y"
  by (auto simp: line_span_def Let_def intro!: line_at_mono) (simp_all add: line_at_def)

lemma definition_rows_mem:
  "(d, f, bs) \<in> set (definition_rows db paths language kind) \<longleftrightarrow>
   d \<in> set (db_definitions db) \<and> located db (de_file d) = Some (f, bs) \<and> passes paths language f \<and> kind_passes kind (de_kind d)"
  unfolding definition_rows_def map_filter_mem
  by (auto split: option.splits prod.splits if_splits intro!: bexI [of _ d])

lemma length_definition_rows: "length (definition_rows db paths language kind) \<le> length (db_definitions db)"
  unfolding definition_rows_def by (rule length_map_filter)

lemma definition_hit_fields [simp]:
  "hit_path (definition_hit (d, f, bs)) = fe_path f" "hit_kind (definition_hit (d, f, bs)) = de_kind d"
  "hit_name (definition_hit (d, f, bs)) = de_name d" "hit_container (definition_hit (d, f, bs)) = de_container d"
  "hit_start (definition_hit (d, f, bs)) = de_start d" "hit_end (definition_hit (d, f, bs)) = de_end d"
  by (simp_all add: definition_hit_def)

end
