(* ===== verification/TP_Extraction.thy ===== *)
theory TP_Extraction
  imports TP_Prelude
begin

text \<open>
  The facts that every language extractor of \<open>src/extract.rs\<close> produces: definitions, occurrences and relationships, which
  refer to definitions by their index.
\<close>

record extracted_definition =
  ed_name :: string
  ed_kind :: string
  ed_start :: nat
  ed_end :: nat
  ed_container :: "string option"

record extracted_occurrence =
  eo_name :: string
  eo_start :: nat
  eo_end :: nat
  eo_role :: string
  eo_target :: "nat option"
  eo_candidates :: "nat list"
  eo_provenance :: string

record extracted_relationship =
  er_source :: nat
  er_target :: "nat option"
  er_kind :: string
  er_evidence_start :: nat
  er_evidence_end :: nat
  er_provenance :: string

record file_extraction =
  ex_language :: string
  ex_status :: string
  ex_definitions :: "extracted_definition list"
  ex_occurrences :: "extracted_occurrence list"
  ex_relationships :: "extracted_relationship list"

definition fact_count :: "file_extraction \<Rightarrow> nat" where
  "fact_count r = length (ex_definitions r) + length (ex_occurrences r) + length (ex_relationships r)"

text \<open>What a stored extraction must satisfy: spans inside the source and references to definitions that exist.\<close>

definition definition_fits :: "nat \<Rightarrow> extracted_definition \<Rightarrow> bool" where
  "definition_fits len d \<longleftrightarrow> ed_start d < ed_end d \<and> ed_end d \<le> len"

definition occurrence_fits :: "nat \<Rightarrow> nat \<Rightarrow> extracted_occurrence \<Rightarrow> bool" where
  "occurrence_fits len n o' \<longleftrightarrow> eo_start o' < eo_end o' \<and> eo_end o' \<le> len
     \<and> (\<forall>i \<in> set_option (eo_target o'). i < n) \<and> (\<forall>i \<in> set (eo_candidates o'). i < n)"

definition relationship_fits :: "nat \<Rightarrow> nat \<Rightarrow> extracted_relationship \<Rightarrow> bool" where
  "relationship_fits len n r \<longleftrightarrow> er_source r < n \<and> er_evidence_start r < er_evidence_end r \<and> er_evidence_end r \<le> len
     \<and> (\<forall>i \<in> set_option (er_target r). i < n)"

definition well_formed_extraction :: "nat \<Rightarrow> file_extraction \<Rightarrow> bool" where
  "well_formed_extraction len r \<longleftrightarrow>
     list_all (definition_fits len) (ex_definitions r)
     \<and> list_all (occurrence_fits len (length (ex_definitions r))) (ex_occurrences r)
     \<and> list_all (relationship_fits len (length (ex_definitions r))) (ex_relationships r)"

lemma occurrence_fits_mono: "occurrence_fits len n o' \<Longrightarrow> n \<le> m \<Longrightarrow> occurrence_fits len m o'"
  by (fastforce simp: occurrence_fits_def)

lemma relationship_fits_mono: "relationship_fits len n r \<Longrightarrow> n \<le> m \<Longrightarrow> relationship_fits len m r"
  by (fastforce simp: relationship_fits_def)

end
