(* ===== verification/TP_Declarations.thy ===== *)
theory TP_Declarations
  imports TP_Index TP_Qualified_Name TP_Paths TP_Extraction
begin

text \<open>
  \<open>src/search/declarations.rs\<close>, with \<open>names_definition\<close> and \<open>rank_definitions\<close> of \<open>src/search.rs\<close>: exact-name lookup of
  declarations.  A root and an invocation directory are canonical paths, lists of components.  The SQL query narrows
  the rows by the last qualifier segment before the loop matches the whole qualifier.
\<close>

section \<open>Ranking\<close>

definition InvocationDirectory_root :: string where
  "InvocationDirectory_root = []"

definition InvocationDirectory_within :: "bytes list \<Rightarrow> bytes list \<Rightarrow> string" where
  "InvocationDirectory_within root invocation =
     (case strip_prefix root invocation of
        Some relative \<Rightarrow> trim_end_matches (\<lambda>c. c = CHR ''/'') (dropWhile (\<lambda>c. c = CHR ''/'') (encode_path (join_with ''/'' relative)))
      | None \<Rightarrow> [])"

definition shared_depth :: "string \<Rightarrow> string \<Rightarrow> nat" where
  "shared_depth origin path =
     (if origin = [] then 0
      else
        let directory = (case rsplit_once (CHR ''/'') path of Some (dir, _) \<Rightarrow> dir | None \<Rightarrow> [])
        in length (takeWhile (\<lambda>(l, r). l = r) (zip (split_char (CHR ''/'') origin) (split_char (CHR ''/'') directory))))"

definition declaration_rank :: "string \<Rightarrow> nat" where
  "declaration_rank kind =
     (if kind = ''module'' then 1
      else if kind \<in> {''variant'', ''field'', ''constructor''} then 2
      else if kind \<in> {''variable'', ''parameter'', ''import''} then 3
      else 0)"

definition is_test_site :: "hit \<Rightarrow> bool" where
  "is_test_site h \<longleftrightarrow>
     is_test_path (hit_path h)
     \<or> (case hit_container h of None \<Rightarrow> False
        | Some c \<Rightarrow> list_ex (\<lambda>segment. segment \<in> {''tests'', ''test''}) (split_str ''::'' c))"

text \<open>\<open>Reverse\<close> of the depth is its negation.\<close>

definition rank_key :: "string \<Rightarrow> hit \<Rightarrow> nat \<times> bool \<times> int" where
  "rank_key origin h = (declaration_rank (hit_kind h), is_test_site h, - int (shared_depth origin (hit_path h)))"

definition rank_declarations :: "string \<Rightarrow> hit list \<Rightarrow> hit list" where
  "rank_declarations origin hits = sort_by (by_key (rank_key origin)) hits"

definition position_key :: "hit \<Rightarrow> string \<times> nat \<times> nat" where
  "position_key h = (hit_path h, hit_start h, hit_end h)"

definition rank_definitions :: "string \<Rightarrow> hit list \<Rightarrow> hit list" where
  "rank_definitions origin hits = rank_declarations origin (sort_by (by_key position_key) hits)"

section \<open>Lookup\<close>

instantiation qualifier_match :: linorder
begin

definition less_eq_qualifier_match :: "qualifier_match \<Rightarrow> qualifier_match \<Rightarrow> bool" where
  "less_eq_qualifier_match a b \<longleftrightarrow> a = Suffix \<or> b = Subsequence"

definition less_qualifier_match :: "qualifier_match \<Rightarrow> qualifier_match \<Rightarrow> bool" where
  "less_qualifier_match a b \<longleftrightarrow> a = Suffix \<and> b = Subsequence"

instance
  by standard (auto simp: less_eq_qualifier_match_def less_qualifier_match_def intro: qualifier_match.exhaust)

end

definition i64_max :: nat where "i64_max = 2 ^ 63 - 1"

definition sql_replace_dash :: "string \<Rightarrow> string" where
  "sql_replace_dash path = replace_char (CHR ''-'') (CHR ''_'') path"

definition owner_hint_holds :: "string \<Rightarrow> definition_entry \<times> file_entry \<times> bytes \<Rightarrow> bool" where
  "owner_hint_holds hint = (\<lambda>(d, f, _).
     hint = [] \<or> contains_sub hint ((case de_container d of Some c \<Rightarrow> c | None \<Rightarrow> []) @ ''/'' @ sql_replace_dash (fe_path f)))"

definition declaration_rows :: "index_db \<Rightarrow> qualified_name \<Rightarrow> bound_path_filter \<Rightarrow> string \<Rightarrow> string \<Rightarrow> nat \<Rightarrow> hit list" where
  "declaration_rows db name paths language kind limit =
     map definition_hit (take limit (sort_by (by_key definition_key)
       (filter (\<lambda>r. de_name (fst r) = qn_name name \<and> owner_hint_holds (owner_hint name) r)
         (definition_rows db paths language kind))))"

fun collect_rows :: "unicode \<Rightarrow> qualified_name \<Rightarrow> nat \<Rightarrow> hit list \<Rightarrow> hit list \<times> qualifier_match option \<times> bool \<Rightarrow> hit list \<times> bool" where
  "collect_rows u name result_cap [] (hits, best, truncated) = (hits, truncated)"
| "collect_rows u name result_cap (h # rows) (hits, best, truncated) =
     (case name_matches u name (hit_path h) (hit_container h) of
        None \<Rightarrow> collect_rows u name result_cap rows (hits, best, truncated)
      | Some tier \<Rightarrow>
          (case best of
             Some previous \<Rightarrow>
               if tier > previous then collect_rows u name result_cap rows (hits, best, truncated)
               else
                 let (hits, truncated, best) =
                       (if tier < previous then ([], False, Some tier) else (hits, truncated, best))
                 in if length hits = result_cap
                    then if \<not> is_qualified name \<or> tier = Suffix then (hits, True)
                         else collect_rows u name result_cap rows (hits, best, True)
                    else collect_rows u name result_cap rows (hits @ [h], best, truncated)
           | None \<Rightarrow>
               if length hits = result_cap
               then if \<not> is_qualified name \<or> tier = Suffix then (hits, True)
                    else collect_rows u name result_cap rows (hits, Some tier, True)
               else collect_rows u name result_cap rows (hits @ [h], Some tier, truncated)))"

definition qualified_hits_with_limit :: "unicode \<Rightarrow> index_db \<Rightarrow> qualified_name \<Rightarrow> bound_path_filter \<Rightarrow> string \<Rightarrow> string \<Rightarrow>
    nat \<Rightarrow> lane_hits" where
  "qualified_hits_with_limit u db name paths language kind max_hits =
     (let limit = (if is_qualified name then i64_max else min (saturating_add max_hits 1) i64_max);
          rows = declaration_rows db name paths language kind limit;
          (hits, truncated) = collect_rows u name (saturating_add max_hits 1) rows ([], None, False)
      in \<lparr>lh_hits = take max_hits hits, lh_truncated = (truncated \<or> length hits > max_hits)\<rparr>)"

definition qualified_hits :: "unicode \<Rightarrow> index_db \<Rightarrow> qualified_name \<Rightarrow> bound_path_filter \<Rightarrow> string \<Rightarrow> string \<Rightarrow> lane_hits" where
  "qualified_hits u db name paths language kind = qualified_hits_with_limit u db name paths language kind MAX_HITS"

definition declaration_hits :: "unicode \<Rightarrow> index_db \<Rightarrow> query \<Rightarrow> bound_path_filter \<Rightarrow> lane_hits" where
  "declaration_hits u db q paths = qualified_hits u db (parse_name u (q_text q)) paths (q_language q) (q_kind q)"

text \<open>Whether an extracted definition answers a \<open>sym:\<close> query.\<close>

definition names_definition :: "unicode \<Rightarrow> query \<Rightarrow> string \<Rightarrow> extracted_definition \<Rightarrow> bool" where
  "names_definition u q path d \<longleftrightarrow>
     (let name = parse_name u (q_text q)
      in ed_name d = qn_name name
         \<and> (q_kind q = [] \<or> ed_kind d = q_kind q)
         \<and> (\<not> is_qualified name \<or> name_matches u name path (ed_container d) \<noteq> None))"

section \<open>Specification\<close>

text \<open>The rows a lookup is about, without the owner hint and the limit; those of one match tier; those of the closest.\<close>

definition named_rows :: "index_db \<Rightarrow> string \<Rightarrow> bound_path_filter \<Rightarrow> string \<Rightarrow> string \<Rightarrow> hit list" where
  "named_rows db name paths language kind =
     map definition_hit (sort_by (by_key definition_key)
       (filter (\<lambda>r. de_name (fst r) = name) (definition_rows db paths language kind)))"

definition matched :: "unicode \<Rightarrow> qualified_name \<Rightarrow> qualifier_match \<Rightarrow> hit list \<Rightarrow> hit list" where
  "matched u name tier rows = filter (\<lambda>h. name_matches u name (hit_path h) (hit_container h) = Some tier) rows"

definition closest :: "unicode \<Rightarrow> qualified_name \<Rightarrow> hit list \<Rightarrow> hit list" where
  "closest u name rows = (if matched u name Suffix rows \<noteq> [] then matched u name Suffix rows else matched u name Subsequence rows)"

definition closest_tier :: "unicode \<Rightarrow> qualified_name \<Rightarrow> hit list \<Rightarrow> qualifier_match option" where
  "closest_tier u name rows =
     (if matched u name Suffix rows \<noteq> [] then Some Suffix
      else if matched u name Subsequence rows \<noteq> [] then Some Subsequence else None)"

lemma matched_append [simp]: "matched u name t (xs @ ys) = matched u name t xs @ matched u name t ys"
  by (simp add: matched_def)

lemma unqualified_tier: "\<not> is_qualified name \<Longrightarrow> name_matches u name p c = Some Suffix"
  by (simp add: is_qualified_def name_matches_def)

text \<open>One more row: the closest rows and their tier.\<close>

lemma closest_none:
  "name_matches u name (hit_path h) (hit_container h) = None \<Longrightarrow>
   closest u name (seen @ [h]) = closest u name seen \<and> closest_tier u name (seen @ [h]) = closest_tier u name seen"
  by (simp add: closest_def closest_tier_def matched_def)

lemma closest_some:
  assumes "name_matches u name (hit_path h) (hit_container h) = Some tier"
  shows "closest u name (seen @ [h]) =
     (case closest_tier u name seen of None \<Rightarrow> [h]
      | Some previous \<Rightarrow> if tier > previous then closest u name seen
          else if tier < previous then [h] else closest u name seen @ [h])"
    and "closest_tier u name (seen @ [h]) =
     (case closest_tier u name seen of None \<Rightarrow> Some tier | Some previous \<Rightarrow> Some (min tier previous))"
  using assms
  by (cases tier; auto simp: closest_def closest_tier_def matched_def less_qualifier_match_def less_eq_qualifier_match_def min_def)+

lemma closest_extends:
  "closest_tier u name seen = Some Suffix \<Longrightarrow> prefix (closest u name seen) (closest u name (seen @ rows))"
  by (auto simp: closest_def closest_tier_def split: if_splits)

lemma closest_tier_None: "closest_tier u name seen = None \<longleftrightarrow> closest u name seen = []"
  by (auto simp: closest_def closest_tier_def)

definition collected :: "unicode \<Rightarrow> qualified_name \<Rightarrow> nat \<Rightarrow> hit list \<Rightarrow> hit list \<times> qualifier_match option \<times> bool" where
  "collected u name cap seen = (take cap (closest u name seen), closest_tier u name seen, length (closest u name seen) > cap)"

text \<open>The loop either goes on with the rows seen so far collected, or stops with a full page of suffix matches.\<close>

lemma collect_step:
  "collect_rows u name cap (h # rows) (collected u name cap seen) = collect_rows u name cap rows (collected u name cap (seen @ [h]))
   \<or> collect_rows u name cap (h # rows) (collected u name cap seen) = (take cap (closest u name (seen @ [h])), True)
     \<and> closest_tier u name (seen @ [h]) = Some Suffix \<and> length (closest u name (seen @ [h])) > cap"
proof (cases "name_matches u name (hit_path h) (hit_container h)")
  case None
  then show ?thesis by (simp add: collected_def closest_none)
next
  case (Some tier)
  note closest = closest_some [OF Some, of seen]
  have suffix: "tier = Suffix" if "\<not> is_qualified name" using that unqualified_tier Some by simp
  show ?thesis
  proof (cases "closest_tier u name seen")
    case None
    with Some suffix closest closest_tier_None [of u name seen] show ?thesis by (auto simp: collected_def)
  next
    case (Some previous)
    note best = this
    consider "tier > previous" | "tier < previous" | "tier = previous" by fastforce
    then show ?thesis
    proof cases
      case 1
      then show ?thesis using best closest \<open>name_matches u name (hit_path h) (hit_container h) = Some tier\<close>
        by (simp add: collected_def)
    next
      case 2
      then have "tier = Suffix" by (simp add: less_qualifier_match_def)
      with 2 show ?thesis using best closest \<open>name_matches u name (hit_path h) (hit_container h) = Some tier\<close>
        by (auto simp: collected_def Let_def)
    next
      case 3
      then show ?thesis using best closest suffix \<open>name_matches u name (hit_path h) (hit_container h) = Some tier\<close>
        by (auto simp: collected_def Let_def min_def)
    qed
  qed
qed

lemma collect_rows_closest:
  "collect_rows u name cap rows (collected u name cap seen)
   = (take cap (closest u name (seen @ rows)), length (closest u name (seen @ rows)) > cap)"
proof (induction rows arbitrary: seen)
  case Nil
  then show ?case by (simp add: collected_def)
next
  case (Cons h rows)
  from collect_step [of u name cap h rows seen] show ?case
  proof
    assume stop: "collect_rows u name cap (h # rows) (collected u name cap seen) = (take cap (closest u name (seen @ [h])), True)
     \<and> closest_tier u name (seen @ [h]) = Some Suffix \<and> length (closest u name (seen @ [h])) > cap"
    with closest_extends [of u name "seen @ [h]" rows] show ?thesis by (auto simp: prefix_def)
  qed (use Cons.IH [of "seen @ [h]"] in simp)
qed

section \<open>Lookups are complete\<close>

lemma owner_hint_of_match:
  "name_matches u name (hit_path (definition_hit r)) (hit_container (definition_hit r)) \<noteq> None \<Longrightarrow>
   owner_hint_holds (owner_hint name) r"
  using owner_hint_sound [of u name] by (cases r) (auto simp: owner_hint_holds_def sql_replace_dash_def contains_sub_sublist)

lemma matched_rows:
  "matched u name t (map definition_hit (sort_by (by_key definition_key) rs)) =
   map definition_hit (sort_by (by_key definition_key)
     (filter (\<lambda>r. name_matches u name (hit_path (definition_hit r)) (hit_container (definition_hit r)) = Some t) rs))"
  by (simp add: matched_def filter_map comp_def by_key.filter_sort_by)

lemma matched_hint:
  assumes "length (definition_rows db paths language kind) \<le> limit"
  shows "matched u name t (declaration_rows db name paths language kind limit) =
    matched u name t (named_rows db (qn_name name) paths language kind)"
proof -
  have "filter (\<lambda>r. name_matches u name (hit_path (definition_hit r)) (hit_container (definition_hit r)) = Some t)
      (filter (\<lambda>r. de_name (fst r) = qn_name name \<and> owner_hint_holds (owner_hint name) r) rs)
    = filter (\<lambda>r. name_matches u name (hit_path (definition_hit r)) (hit_container (definition_hit r)) = Some t)
      (filter (\<lambda>r. de_name (fst r) = qn_name name) rs)" for rs
    using owner_hint_of_match [of u name] by (auto intro!: filter_cong)
  moreover have "length (filter P (definition_rows db paths language kind)) \<le> limit" for P
    using assms length_filter_le le_trans by blast
  ultimately show ?thesis by (simp add: declaration_rows_def named_rows_def matched_rows)
qed

lemma closest_unqualified: "\<not> is_qualified name \<Longrightarrow> closest u name rows = rows"
  by (simp add: closest_def matched_def unqualified_tier)

lemma declaration_rows_unqualified:
  "\<not> is_qualified name \<Longrightarrow>
   declaration_rows db name paths language kind limit = take limit (named_rows db (qn_name name) paths language kind)"
  by (simp add: declaration_rows_def named_rows_def owner_hint_holds_def owner_hint_def is_qualified_def take_map)

lemma length_named_rows: "length (named_rows db name paths language kind) \<le> length (db_definitions db)"
  unfolding named_rows_def using length_filter_le length_definition_rows le_trans by (metis length_map length_sort_by)

lemma qualified_hits_closest:
  assumes "length (db_definitions db) \<le> i64_max" and "n \<le> usize_max"
  shows "qualified_hits_with_limit u db name paths language kind n =
    cap_hits n (closest u name (named_rows db (qn_name name) paths language kind))"
proof -
  define cap where "cap = saturating_add n 1"
  have cap: "n < cap \<or> n = cap \<and> i64_max < n" using assms(2) by (auto simp: cap_def saturating_add_def i64_max_def usize_max_def)
  let ?all = "closest u name (named_rows db (qn_name name) paths language kind)"
  define limit where "limit = (if is_qualified name then i64_max else min cap i64_max)"
  have len: "length (named_rows db (qn_name name) paths language kind) \<le> i64_max"
    using assms(1) length_named_rows le_trans by blast
  have rows: "take cap (closest u name (declaration_rows db name paths language kind limit)) = take cap ?all
      \<and> (length (closest u name (declaration_rows db name paths language kind limit)) > cap \<longrightarrow> length ?all > cap)"
  proof (cases "is_qualified name")
    case True
    with assms have "length (definition_rows db paths language kind) \<le> limit"
      using length_definition_rows [of db paths language kind] by (simp add: limit_def)
    then show ?thesis by (simp add: closest_def matched_hint)
  next
    case False
    then show ?thesis using len by (auto simp: closest_unqualified declaration_rows_unqualified limit_def min_def)
  qed
  let ?some = "closest u name (declaration_rows db name paths language kind limit)"
  have all: "length ?all \<le> i64_max" using len by (auto simp: closest_def matched_def intro: le_trans [OF length_filter_le])
  have lens: "min (length ?some) cap = min (length ?all) cap" using arg_cong [OF conjunct1 [OF rows], of length] by (simp add: min.commute)
  have "take n ?some = take n ?all" using arg_cong [OF conjunct1 [OF rows], of "take n"] cap by (auto simp: min_def)
  moreover have start: "([], None, False) = collected u name cap []"
    by (simp add: collected_def closest_def closest_tier_def matched_def)
  ultimately show ?thesis
    unfolding qualified_hits_with_limit_def cap_def [symmetric] limit_def [symmetric] Let_def start collect_rows_closest cap_hits_def
    using rows lens all cap by (auto simp: min_def)
qed

lemma rank_definitions_sorted:
  "mset (rank_definitions origin hits) = mset hits"
  "sorted_wrt (\<lambda>a b. rank_key origin a < rank_key origin b
     \<or> rank_key origin a = rank_key origin b \<and> position_key a \<le> position_key b) (rank_definitions origin hits)"
  using sort_by_twice [of "rank_key origin" position_key hits] by (simp_all add: rank_definitions_def rank_declarations_def)

text \<open>
  C19.  A \<open>sym:\<close> lookup is complete.  Among the indexed definitions of that name that pass the path, language and kind
  filters, in order of path, start, end and id, the answers are those whose owner path ends with the qualifier, or, when
  there is none, those whose owner path has its segments in order; the result is the first \<open>MAX_HITS\<close> answers, and it is
  marked truncated exactly when there are more.  Neither the owner hint the SQL query filters by nor its limit loses an
  answer.  Ranking permutes the answers into order of kind tier, test site, nearness and position.  (Definition ids
  are 64-bit row ids, so the table has at most \<open>i64::MAX\<close> rows.)
\<close>

theorem declaration_lookup_complete:
  assumes "length (db_definitions db) \<le> i64_max"
  shows "let name = parse_name u (q_text q);
             rows = named_rows db (qn_name name) paths (q_language q) (q_kind q);
             of_tier = (\<lambda>t. filter (\<lambda>h. name_matches u name (hit_path h) (hit_container h) = Some t) rows);
             answers = (if of_tier Suffix \<noteq> [] then of_tier Suffix else of_tier Subsequence);
             result = declaration_hits u db q paths;
             ranked = rank_definitions origin (lh_hits result)
         in lh_hits result = take MAX_HITS answers
          \<and> (lh_truncated result \<longleftrightarrow> length answers > MAX_HITS)
          \<and> mset ranked = mset (lh_hits result)
          \<and> sorted_wrt (\<lambda>a b. rank_key origin a < rank_key origin b
               \<or> rank_key origin a = rank_key origin b \<and> position_key a \<le> position_key b) ranked"
  using assms qualified_hits_closest [OF assms, of MAX_HITS]
  unfolding Let_def declaration_hits_def qualified_hits_def
  by (simp add: rank_definitions_sorted closest_def matched_def cap_hits_def MAX_HITS_def usize_max_def)

definition sample_index :: index_db where
  "sample_index = \<lparr>db_generation = 1, db_coverage = JNull, db_contents = [(''r1'', ''ab'')],
     db_files = [\<lparr>fe_id = 1, fe_path = ''a'', fe_revision = Some ''r1'', fe_language = ''rust''\<rparr>],
     db_definitions =
       [\<lparr>de_id = 1, de_file = 1, de_name = ''new'', de_kind = ''function'', de_start = 0, de_end = 1, de_container = Some ''B''\<rparr>,
        \<lparr>de_id = 2, de_file = 1, de_name = ''new'', de_kind = ''function'', de_start = 1, de_end = 2, de_container = Some ''A''\<rparr>],
     db_occurrences = [], db_regions = []\<rparr>"

definition sample_query :: query where
  "sample_query = Query_default\<lparr>q_text := ''A::new'', q_exact := True\<rparr>"

theorem declaration_lookup_complete_witness:
  "map hit_container (lh_hits (declaration_hits ascii_unicode sample_index sample_query (PathFilter_bind PathFilter_default [])))
     = [Some ''A'']"
proof -
  let ?name = "parse_name ascii_unicode (q_text sample_query)" and ?paths = "PathFilter_bind PathFilter_default []"
  have small: "length (db_definitions sample_index) \<le> i64_max" by (simp add: sample_index_def i64_max_def)
  define rows where "rows = named_rows sample_index (qn_name ?name) ?paths (q_language sample_query) (q_kind sample_query)"
  have "map hit_container (filter (\<lambda>h. name_matches ascii_unicode ?name (hit_path h) (hit_container h) = Some Suffix) rows)
      = [Some ''A'']" unfolding rows_def by code_simp
  with declaration_lookup_complete [OF small, of ascii_unicode sample_query ?paths "[]", unfolded Let_def rows_def [symmetric]]
  show ?thesis by (auto simp: MAX_HITS_def take_map [symmetric])
qed

end
