(* ===== verification/TP_Lanes.thy ===== *)
theory TP_Lanes
  imports TP_Declarations
begin

text \<open>
  The lexical lanes: \<open>exact_hits\<close>, \<open>lexical_hits\<close> and \<open>file_hits\<close> of \<open>src/search.rs\<close>, and \<open>occurrence_hits\<close>, \<open>relabeled\<close> and
  \<open>concept_lanes\<close> of \<open>src/search/concept_query.rs\<close>.  The full-text index is the argument \<open>fts\<close>: for a match expression, the
  relevance of every region that matches, or SQLite's error.  Rows that the \<open>ORDER BY\<close> of a query ties keep table order.
  Telemetry only observes the lanes.
\<close>

section \<open>Lanes\<close>

definition exact_hits :: "unicode \<Rightarrow> index_db \<Rightarrow> query \<Rightarrow> bound_path_filter \<Rightarrow> lane_hits" where
  "exact_hits u db q paths =
     (if q_exact q then declaration_hits u db q paths
      else
        let rows = filter (\<lambda>(d, _). q_text q = [] \<or> de_name d = q_text q) (definition_rows db paths (q_language q) (q_kind q));
            ranked = sort_by (by_key (\<lambda>(d, _). (de_start d, de_end d, de_id d))) rows;
            first = first_by (\<lambda>(_, f, _). fe_path f) ranked
        in cap_lane (map definition_hit (take (FILE_CANDIDATE_LIMIT + 1) (sort_by (by_key definition_key) first))))"

definition region_rows :: "index_db \<Rightarrow> bound_path_filter \<Rightarrow> string \<Rightarrow> string \<Rightarrow> (int \<Rightarrow> 'r option) \<Rightarrow>
    ('r \<times> region_entry \<times> file_entry \<times> bytes) list" where
  "region_rows db paths language kind relevance =
     List.map_filter (\<lambda>r. case (relevance (re_id r), located db (re_file r)) of
         (Some rel, Some (f, bs)) \<Rightarrow>
           if passes paths language f \<and> kind_passes kind (re_kind r) then Some (rel, r, f, bs) else None
       | _ \<Rightarrow> None) (db_regions db)"

definition region_hit :: "string \<Rightarrow> region_entry \<Rightarrow> file_entry \<Rightarrow> bytes \<Rightarrow> hit" where
  "region_hit provenance r f bs = hit_row f bs (re_start r) (re_end r) (re_name r) (re_kind r) None provenance"

definition lexical_hits :: "(string \<Rightarrow> (int \<Rightarrow> 'r::linorder option) result) \<Rightarrow> index_db \<Rightarrow> query \<Rightarrow> bound_path_filter \<Rightarrow>
    string \<Rightarrow> lane_hits result" where
  "lexical_hits fts db q paths terms =
     (case fts terms of
        Inl e \<Rightarrow> Inl e
      | Inr relevance \<Rightarrow>
          let rows = region_rows db paths (q_language q) (q_kind q) relevance;
              ranked = sort_by (by_key (\<lambda>(rel, r, _). (rel, re_start r, re_end r, re_id r))) rows;
              first = first_by (\<lambda>(_, _, f, _). fe_path f) ranked;
              ordered = sort_by (by_key (\<lambda>(rel, r, f, _). (rel, fe_path f, re_start r, re_end r, re_id r))) first
          in Inr (cap_lane (map (\<lambda>(_, r, f, bs). region_hit ''lexical'' r f bs) (take (FILE_CANDIDATE_LIMIT + 1) ordered))))"

text \<open>The occurrence lane: matched rows pair an occurrence with the regions around it; each file is represented by its
  first declaration, then use, then import, and files with more rows come first.\<close>

definition role_rank :: "string \<Rightarrow> nat" where
  "role_rank role = (if role = ''declaration'' then 0 else if role \<in> {''import'', ''import_path''} then 2 else 1)"

definition occurrence_rows :: "index_db \<Rightarrow> query \<Rightarrow> bound_path_filter \<Rightarrow> identifier_token \<Rightarrow> (occurrence_entry \<times> region_entry) list" where
  "occurrence_rows db q paths token =
     concat (map (\<lambda>o1. case file_of db (oe_file o1) of
         None \<Rightarrow> []
       | Some f \<Rightarrow>
           if oe_name o1 = it_name token \<and> passes paths (q_language q) f
              \<and> (case it_qualifier token of None \<Rightarrow> True
                 | Some n \<Rightarrow> list_ex (\<lambda>o2. oe_file o2 = oe_file o1 \<and> oe_name o2 = n) (db_occurrences db))
           then map (Pair o1) (filter (\<lambda>r. re_file r = oe_file o1 \<and> re_start r \<le> oe_start o1 \<and> oe_end o1 \<le> re_end r
                  \<and> kind_passes (q_kind q) (re_kind r)) (db_regions db))
           else []) (db_occurrences db))"

definition occurrence_hits :: "index_db \<Rightarrow> query \<Rightarrow> bound_path_filter \<Rightarrow> identifier_token \<Rightarrow> lane_hits" where
  "occurrence_hits db q paths token =
     (let rows = occurrence_rows db q paths token;
          uses = (\<lambda>file. length (filter (\<lambda>(o1, _). oe_file o1 = file) rows));
          ranked = sort_by (by_key (\<lambda>(o1, _). (role_rank (oe_role o1), oe_start o1, oe_id o1))) rows;
          first = first_by (\<lambda>(o1, _). oe_file o1) ranked;
          joined = List.map_filter (\<lambda>(o1, r). map_option (\<lambda>(f, bs). (uses (oe_file o1), r, f, bs)) (located db (oe_file o1))) first;
          ordered = sort_by (by_key (\<lambda>(n, r, f, _). (- int n, fe_path f, re_start r))) joined
      in cap_hits FILE_CANDIDATE_LIMIT
           (map (\<lambda>(_, r, f, bs). region_hit ''identifier_occurrence'' r f bs) (take (FILE_CANDIDATE_LIMIT + 1) ordered)))"

section \<open>Filenames\<close>

text \<open>The heap is the list of its candidates in the order of \<open>Ord for FilenameCandidate\<close>; \<open>pop\<close> removes the greatest,
  the least useful.\<close>

record filename_candidate =
  fc_score :: nat
  fc_hit :: hit

definition candidate_le :: "filename_candidate \<Rightarrow> filename_candidate \<Rightarrow> bool" where
  "candidate_le = by_key (\<lambda>c. (- int (fc_score c), hit_path (fc_hit c), hit_start (fc_hit c), hit_end (fc_hit c)))"

definition filename_hit :: "file_entry \<Rightarrow> nat \<Rightarrow> hit" where
  "filename_hit f score =
     \<lparr>hit_handle = [], hit_path = fe_path f, hit_revision = fe_revision f, hit_start = 0, hit_end = 0,
      hit_start_line = 1, hit_end_line = 1, hit_name = fe_path f, hit_kind = ''file'', hit_container = None,
      hit_provenance = Some (if score = 3 then ''filename_exact'' else if score = 2 then ''filename_tokens'' else ''filename_partial''),
      hit_resolution = None, hit_candidates = [], hit_target = None, hit_snippet = None, hit_repeats = None\<rparr>"

definition filename_step :: "unicode \<Rightarrow> string list \<Rightarrow> file_entry \<Rightarrow> filename_candidate list \<times> bool \<Rightarrow>
    filename_candidate list \<times> bool" where
  "filename_step u terms f = (\<lambda>(candidates, truncated).
     let score = filename_score u (fe_path f) terms
     in if score = 0 then (candidates, truncated)
        else
          let candidates = insert_by candidate_le \<lparr>fc_score = score, fc_hit = filename_hit f score\<rparr> candidates
          in if length candidates > FILE_CANDIDATE_LIMIT then (butlast candidates, True) else (candidates, truncated))"

definition file_hits :: "unicode \<Rightarrow> index_db \<Rightarrow> query \<Rightarrow> bound_path_filter \<Rightarrow> lane_hits" where
  "file_hits u db q paths =
     (if q_kind q \<noteq> [] \<and> q_kind q \<noteq> ''file'' then \<lparr>lh_hits = [], lh_truncated = False\<rparr>
      else
        let rows = sort_by (by_key fe_path) (filter (passes paths (q_language q)) (db_files db));
            (candidates, truncated) = fold (filename_step u (query_terms u (q_text q))) rows ([], False)
        in \<lparr>lh_hits = map fc_hit (sort_by (by_key (\<lambda>c. (- int (fc_score c), hit_path (fc_hit c)))) candidates),
            lh_truncated = truncated\<rparr>)"

section \<open>Composition\<close>

definition relabeled :: "string \<Rightarrow> lane_hits result \<Rightarrow> lane_hits result" where
  "relabeled provenance lane = map_sum id (\<lambda>l. l\<lparr>lh_hits := map (\<lambda>h. h\<lparr>hit_provenance := Some provenance\<rparr>) (lh_hits l)\<rparr>) lane"

text \<open>The lanes after \<open>exact\<close>, in fusion order; the first that fails stops the query.\<close>

definition lane_plan :: "unicode \<Rightarrow> (string \<Rightarrow> (int \<Rightarrow> 'r::linorder option) result) \<Rightarrow> index_db \<Rightarrow> query \<Rightarrow> bound_path_filter \<Rightarrow>
    concept_query \<Rightarrow> lane_hits result list" where
  "lane_plan u fts db q paths concept =
     (case cq_identifier concept of
        Some token \<Rightarrow>
          (if it_qualifier token \<noteq> None
           then [Inr (qualified_hits u db (parse_name u (q_text q)) paths (q_language q) (q_kind q))] else [])
          @ [Inr (occurrence_hits db q paths token)]
      | None \<Rightarrow> [])
     @ (case phrase concept of Some p \<Rightarrow> [relabeled ''phrase'' (lexical_hits fts db q paths p)] | None \<Rightarrow> [])
     @ (case all_terms concept of Some t \<Rightarrow> [relabeled ''all_terms'' (lexical_hits fts db q paths t)] | None \<Rightarrow> [])
     @ (case any_terms concept of
          Some t \<Rightarrow> [lexical_hits fts db q paths t]
            @ (if q_kind q = [] \<or> q_kind q = ''file'' then [Inr (file_hits u db q paths)] else [])
        | None \<Rightarrow> [])"

fun add_lanes :: "lane_hits result list \<Rightarrow> hit list list \<times> bool \<Rightarrow> (hit list list \<times> bool) result" where
  "add_lanes [] st = Inr st"
| "add_lanes (lane # rest) (lanes, truncated) =
     (case lane of Inl e \<Rightarrow> Inl e | Inr l \<Rightarrow> add_lanes rest (lanes @ [lh_hits l], truncated \<or> lh_truncated l))"

definition concept_lanes :: "unicode \<Rightarrow> (string \<Rightarrow> (int \<Rightarrow> 'r::linorder option) result) \<Rightarrow> index_db \<Rightarrow> query \<Rightarrow> bound_path_filter \<Rightarrow>
    concept_query \<Rightarrow> lane_hits \<Rightarrow> (hit list list \<times> bool) result" where
  "concept_lanes u fts db q paths concept exact =
     add_lanes (lane_plan u fts db q paths concept) ([lh_hits exact], lh_truncated exact)"

section \<open>The filename lane keeps the best candidates\<close>

definition filename_candidates :: "unicode \<Rightarrow> string list \<Rightarrow> file_entry list \<Rightarrow> filename_candidate list" where
  "filename_candidates u terms rows =
     List.map_filter (\<lambda>f. let score = filename_score u (fe_path f) terms
       in if score = 0 then None else Some \<lparr>fc_score = score, fc_hit = filename_hit f score\<rparr>) rows"

definition push_candidate :: "filename_candidate \<Rightarrow> filename_candidate list \<times> bool \<Rightarrow> filename_candidate list \<times> bool" where
  "push_candidate c = (\<lambda>(heap, truncated). let heap = insert_by candidate_le c heap
     in if length heap > FILE_CANDIDATE_LIMIT then (butlast heap, True) else (heap, truncated))"

lemma length_insert_by [simp]: "length (insert_by le x xs) = Suc (length xs)"
  by (metis mset_insert_by size_add_mset size_mset)

lemma push_candidate_take:
  "push_candidate c (take FILE_CANDIDATE_LIMIT h, FILE_CANDIDATE_LIMIT < length h) =
   (take FILE_CANDIDATE_LIMIT (insert_by candidate_le c h), FILE_CANDIDATE_LIMIT < length (insert_by candidate_le c h))"
proof (cases "FILE_CANDIDATE_LIMIT \<le> length h")
  case True
  let ?l = "insert_by candidate_le c (take FILE_CANDIDATE_LIMIT h)"
  have "length ?l = Suc FILE_CANDIDATE_LIMIT" using True by simp
  then have "butlast ?l = take FILE_CANDIDATE_LIMIT ?l" by (simp add: butlast_conv_take)
  with True show ?thesis by (simp add: push_candidate_def Let_def take_insert_by)
next
  case False
  then show ?thesis by (simp add: push_candidate_def Let_def)
qed

lemma push_candidates:
  "fold push_candidate cs (take FILE_CANDIDATE_LIMIT h, FILE_CANDIDATE_LIMIT < length h) =
   (take FILE_CANDIDATE_LIMIT (fold (insert_by candidate_le) cs h), FILE_CANDIDATE_LIMIT < length h + length cs)"
proof (induction cs arbitrary: h)
  case (Cons c cs)
  from Cons [of "insert_by candidate_le c h"] show ?case by (simp add: push_candidate_take)
qed simp

lemma filename_fold: "fold (filename_step u terms) rows st = fold push_candidate (filename_candidates u terms rows) st"
  by (induction rows arbitrary: st)
     (simp_all add: filename_candidates_def map_filter_simps filename_step_def push_candidate_def Let_def case_prod_beta)

lemma filename_loop:
  "fold (filename_step u terms) rows ([], False) =
   (let cs = filename_candidates u terms rows
    in (take FILE_CANDIDATE_LIMIT (sort_by candidate_le (rev cs)), length cs > FILE_CANDIDATE_LIMIT))"
  using push_candidates [of "filename_candidates u terms rows" "[]"] by (simp add: filename_fold fold_insert_by_sort Let_def)

definition usefulness :: "filename_candidate \<Rightarrow> int \<times> string" where
  "usefulness c = (- int (fc_score c), hit_path (fc_hit c))"

lemma usefulness_sorted: "sorted_wrt (by_key usefulness) (sort_by candidate_le cs)"
  unfolding candidate_le_def
  by (rule sorted_wrt_mono_rel [OF _ by_key.sorted_sort_by]) (auto simp: by_key_def usefulness_def)

lemma candidate_paths_distinct:
  "distinct (map fe_path rows) \<Longrightarrow> distinct (map (hit_path \<circ> fc_hit) (filename_candidates u terms rows))"
proof (induction rows)
  case (Cons f rows)
  have "hit_path (fc_hit c) \<in> fe_path ` set rows" if "c \<in> set (filename_candidates u terms rows)" for c
    using that by (auto simp: filename_candidates_def map_filter_mem filename_hit_def Let_def split: if_splits)
  with Cons show ?case
    by (auto simp: filename_candidates_def map_filter_simps filename_hit_def Let_def split: option.splits)
qed (simp add: filename_candidates_def map_filter_simps)

lemma filename_order:
  assumes "distinct (map (hit_path \<circ> fc_hit) cs)"
  shows "sort_by (by_key usefulness) (take n (sort_by candidate_le (rev cs))) = take n (sort_by (by_key usefulness) cs)"
proof -
  have inj: "x = y" if "x \<in> set cs" "y \<in> set cs" "usefulness x = usefulness y" for x y
    using that assms by (auto simp: distinct_map usefulness_def inj_on_def)
  have "sort_by (by_key usefulness) cs = sort_by candidate_le (rev cs)"
    by (rule by_key.sort_by_unique [OF usefulness_sorted]) (auto simp: by_key_def intro: inj)
  then show ?thesis by (simp add: by_key.sort_by_sorted sorted_wrt_take usefulness_sorted)
qed

section \<open>Every lane stays in scope\<close>

text \<open>What the fusion and the final page rely on: a lane's hits pass the query's filters.\<close>

locale search_lane =
  fixes lane :: "index_db \<Rightarrow> query \<Rightarrow> bound_path_filter \<Rightarrow> lane_hits"
  assumes lane_scope: "h \<in> set (lh_hits (lane db q paths)) \<Longrightarrow> hit_in_scope db paths (q_language q) (q_kind q) h"
begin

lemma relabeled_scope:
  assumes "relabeled p (Inr (lane db q paths)) = Inr l" "h \<in> set (lh_hits l)"
  shows "hit_in_scope db paths (q_language q) (q_kind q) h"
  using assms lane_scope by (auto simp: relabeled_def hit_in_scope_def)

end

lemma cap_hits_mem: "h \<in> set (lh_hits (cap_hits n hits)) \<Longrightarrow> h \<in> set hits"
  by (auto simp: cap_hits_def dest: in_set_takeD)

lemma definition_hit_scope:
  "r \<in> set (definition_rows db paths language kind) \<Longrightarrow> hit_in_scope db paths language kind (definition_hit r)"
  by (cases r) (auto simp: definition_rows_mem definition_hit_def intro: hit_row_in_scope)

lemma declaration_rows_scope:
  "h \<in> set (declaration_rows db name paths language kind limit) \<Longrightarrow> hit_in_scope db paths language kind h"
  by (auto simp: declaration_rows_def dest!: in_set_takeD intro: definition_hit_scope)

lemma collect_rows_subset: "set (fst (collect_rows u name cap rows st)) \<subseteq> set rows \<union> set (fst st)"
proof (induction rows arbitrary: cap st)
  case Nil
  then show ?case by (cases st) simp
next
  case (Cons h rows)
  obtain hits best tr where st: "st = (hits, best, tr)" by (cases st)
  have IH: "x \<in> set rows \<or> x \<in> set hs" if "x \<in> set (fst (collect_rows u name n rows (hs, b, t)))" for x n hs b t
    using Cons [of n "(hs, b, t)"] that by auto
  show ?case
    by (cases "name_matches u name (hit_path h) (hit_container h)"; cases best)
       (auto simp: st Let_def dest!: IH split: if_splits)
qed

lemma qualified_hits_scope:
  "h \<in> set (lh_hits (qualified_hits u db name paths language kind)) \<Longrightarrow> hit_in_scope db paths language kind h"
proof -
  assume h: "h \<in> set (lh_hits (qualified_hits u db name paths language kind))"
  have "h \<in> set (fst (collect_rows u name cap (declaration_rows db name paths language kind limit) ([], None, False)))
      \<Longrightarrow> ?thesis" for cap limit
    using collect_rows_subset [of u name cap _ "([], None, False)"] by (fastforce intro: declaration_rows_scope)
  with h show ?thesis
    by (auto simp: qualified_hits_def qualified_hits_with_limit_def Let_def case_prod_beta dest!: in_set_takeD split: if_splits)
qed

lemma exact_hits_scope:
  "h \<in> set (lh_hits (exact_hits u db q paths)) \<Longrightarrow> hit_in_scope db paths (q_language q) (q_kind q) h"
proof (cases "q_exact q")
  case False
  assume "h \<in> set (lh_hits (exact_hits u db q paths))"
  with False obtain r where "r \<in> set (definition_rows db paths (q_language q) (q_kind q))" "h = definition_hit r"
    by (auto simp: exact_hits_def cap_lane_def Let_def dest!: cap_hits_mem in_set_takeD subsetD [OF set_first_by_subset])
  then show ?thesis by (simp add: definition_hit_scope)
qed (simp add: exact_hits_def declaration_hits_def qualified_hits_scope)

interpretation exact_lane: search_lane "exact_hits u" for u
  by unfold_locales (rule exact_hits_scope)

lemma region_rows_mem:
  "(rel, r, f, bs) \<in> set (region_rows db paths language kind relevance) \<Longrightarrow>
   located db (re_file r) = Some (f, bs) \<and> passes paths language f \<and> kind_passes kind (re_kind r)"
  by (auto simp: region_rows_def map_filter_mem split: option.splits prod.splits if_splits)

lemma lexical_hits_scope:
  fixes fts :: "string \<Rightarrow> (int \<Rightarrow> 'r::linorder option) result"
  assumes "lexical_hits fts db q paths terms = Inr l" "h \<in> set (lh_hits l)"
  shows "hit_in_scope db paths (q_language q) (q_kind q) h"
proof -
  from assms obtain relevance :: "int \<Rightarrow> 'r option" and rel r f bs
    where row: "(rel, r, f, bs) \<in> set (region_rows db paths (q_language q) (q_kind q) relevance)" "h = region_hit ''lexical'' r f bs"
    by (auto simp: lexical_hits_def cap_lane_def Let_def split: sum.splits
        dest!: cap_hits_mem in_set_takeD subsetD [OF set_first_by_subset])
  from region_rows_mem [OF row(1)] row(2) show ?thesis by (auto simp: region_hit_def intro: hit_row_in_scope)
qed

text \<open>A failed full-text query contributes no hits.\<close>

definition lane_or_none :: "lane_hits result \<Rightarrow> lane_hits" where
  "lane_or_none l = (case l of Inr l \<Rightarrow> l | Inl _ \<Rightarrow> \<lparr>lh_hits = [], lh_truncated = False\<rparr>)"

interpretation lexical_lane: search_lane "\<lambda>db q paths. lane_or_none (lexical_hits fts db q paths terms)" for fts terms
  by unfold_locales (auto simp: lane_or_none_def split: sum.splits intro: lexical_hits_scope)

lemma occurrence_rows_mem:
  "(o1, r) \<in> set (occurrence_rows db q paths token) \<Longrightarrow>
   \<exists>f. file_of db (oe_file o1) = Some f \<and> passes paths (q_language q) f \<and> kind_passes (q_kind q) (re_kind r)"
  by (auto simp: occurrence_rows_def split: if_splits)
     (auto split: option.splits if_splits dest!: sym [of "Some _"])

lemma located_file: "located db i = Some (f, bs) \<Longrightarrow> file_of db i = Some f"
  by (auto simp: located_def split: option.splits)

interpretation occurrence_lane: search_lane "\<lambda>db q paths. occurrence_hits db q paths token" for token
proof
  fix h db q paths
  assume "h \<in> set (lh_hits (occurrence_hits db q paths token))"
  then obtain o1 r f bs where "(o1, r) \<in> set (occurrence_rows db q paths token)" "located db (oe_file o1) = Some (f, bs)"
      "h = region_hit ''identifier_occurrence'' r f bs"
    by (auto simp: occurrence_hits_def Let_def map_filter_mem dest!: cap_hits_mem in_set_takeD subsetD [OF set_first_by_subset])
  then show "hit_in_scope db paths (q_language q) (q_kind q) h"
    using occurrence_rows_mem located_file by (fastforce simp: region_hit_def intro: hit_row_in_scope)
qed

lemma filename_candidates_scope:
  "c \<in> set (filename_candidates u terms rows) \<Longrightarrow> \<exists>f \<in> set rows. hit_path (fc_hit c) = fe_path f
    \<and> hit_revision (fc_hit c) = fe_revision f \<and> hit_kind (fc_hit c) = ''file''"
  by (auto simp: filename_candidates_def map_filter_mem filename_hit_def Let_def split: if_splits)

interpretation file_lane: search_lane "file_hits u" for u
proof
  fix h db q paths
  assume "h \<in> set (lh_hits (file_hits u db q paths))"
  then show "hit_in_scope db paths (q_language q) (q_kind q) h"
    by (auto simp: file_hits_def filename_loop Let_def hit_in_scope_def kind_passes_def split: if_splits
        dest!: in_set_takeD filename_candidates_scope) blast+
qed

lemma add_lanes_mem:
  "add_lanes ls (lanes, t) = Inr (out, t') \<Longrightarrow> lane \<in> set out \<Longrightarrow> lane \<in> set lanes \<or> (\<exists>l. Inr l \<in> set ls \<and> lane = lh_hits l)"
proof (induction ls arbitrary: lanes t)
  case (Cons l ls)
  then obtain r where r: "l = Inr r" by (cases l) auto
  with Cons.IH [of "lanes @ [lh_hits r]"] Cons.prems show ?case by auto
qed simp

lemma relabeled_Inr: "relabeled p l = Inr r \<Longrightarrow> \<exists>l'. l = Inr l'"
  by (cases l) (simp_all add: relabeled_def)

lemma lane_plan_scope:
  assumes "Inr l \<in> set (lane_plan u fts db q paths concept)" "h \<in> set (lh_hits l)"
  shows "hit_in_scope db paths (q_language q) (q_kind q) h"
proof -
  have rel: "hit_in_scope db paths (q_language q) (q_kind q) h" if "Inr l = relabeled p (lexical_hits fts db q paths t)" for p t
  proof -
    from that [symmetric] obtain l' where "lexical_hits fts db q paths t = Inr l'" by (auto dest: relabeled_Inr)
    with that [symmetric] assms(2) show ?thesis
      using lexical_lane.relabeled_scope [where fts = fts and terms = t and p = p and l = l] by (auto simp: lane_or_none_def)
  qed
  from assms show ?thesis
    by (auto simp: lane_plan_def split: option.splits if_splits
        dest: rel lexical_hits_scope [OF sym] intro: qualified_hits_scope occurrence_lane.lane_scope file_lane.lane_scope)
qed

lemma concept_lanes_scope:
  assumes "concept_lanes u fts db q paths concept exact = Inr (lanes, t)" "lane \<in> set lanes" "h \<in> set lane"
    and "\<And>h. h \<in> set (lh_hits exact) \<Longrightarrow> hit_in_scope db paths (q_language q) (q_kind q) h"
  shows "hit_in_scope db paths (q_language q) (q_kind q) h"
  using add_lanes_mem [OF assms(1) [unfolded concept_lanes_def] assms(2)] assms(3,4) lane_plan_scope by fastforce

text \<open>
  The filename lane, which keeps a bounded heap while it scans, returns the best candidates: of the indexed files
  that pass the filters and whose name scores, the first thousand in order of score, highest first, then path; it is
  marked truncated exactly when more files scored.  (Paths are unique in the index.)
\<close>

theorem filename_lane_selects_best:
  assumes "distinct (map fe_path (db_files db))" and "q_kind q = [] \<or> q_kind q = ''file''"
  shows "let scored = filter (\<lambda>f. filename_score u (fe_path f) (query_terms u (q_text q)) \<noteq> 0)
               (filter (passes paths (q_language q)) (db_files db));
             ordered = sort_by (by_key (\<lambda>f. (- int (filename_score u (fe_path f) (query_terms u (q_text q))), fe_path f))) scored
         in lh_hits (file_hits u db q paths) =
              map (\<lambda>f. filename_hit f (filename_score u (fe_path f) (query_terms u (q_text q)))) (take 1000 ordered)
            \<and> (lh_truncated (file_hits u db q paths) \<longleftrightarrow> length scored > 1000)"
proof -
  let ?terms = "query_terms u (q_text q)"
  let ?score = "\<lambda>f. filename_score u (fe_path f) ?terms"
  let ?mk = "\<lambda>f. \<lparr>fc_score = ?score f, fc_hit = filename_hit f (?score f)\<rparr>"
  let ?key = "\<lambda>f. (- int (?score f), fe_path f)"
  define files where "files = filter (passes paths (q_language q)) (db_files db)"
  have files: "distinct (map fe_path files)" using assms(1) by (simp add: files_def distinct_map_filter)
  have cs: "filename_candidates u ?terms (sort_by (by_key fe_path) files) = map ?mk (filter (\<lambda>f. ?score f \<noteq> 0) (sort_by (by_key fe_path) files))"
    by (auto simp: filename_candidates_def map_filter_def Let_def intro!: filter_cong)
  have "distinct (map fe_path (sort_by (by_key fe_path) files))"
    using files by (simp add: distinct_map)
  note order = filename_order [OF candidate_paths_distinct [OF this, of u ?terms], of FILE_CANDIDATE_LIMIT]
  have inj: "x = y" if "x \<in> set files" "y \<in> set files" "fe_path x = fe_path y" for x y
    using that files by (simp add: distinct_map inj_on_def)
  have "sort_by (by_key ?key) (filter (\<lambda>f. ?score f \<noteq> 0) (sort_by (by_key fe_path) files))
      = sort_by (by_key ?key) (filter (\<lambda>f. ?score f \<noteq> 0) files)"
    by (rule by_key.sort_by_perm) (auto simp: mset_filter dest: by_key_antisym intro: inj)
  moreover have "length (filter (\<lambda>f. ?score f \<noteq> 0) (sort_by (by_key fe_path) files)) = length (filter (\<lambda>f. ?score f \<noteq> 0) files)"
    by (simp add: by_key.filter_sort_by)
  ultimately show ?thesis
    using assms(2) order
    unfolding Let_def file_hits_def filename_loop files_def [symmetric] usefulness_def [symmetric, abs_def] cs
    by (auto simp: FILE_CANDIDATE_LIMIT_def sort_by_map usefulness_def filename_hit_def take_map)
qed

definition sample_files :: index_db where
  "sample_files = sample_index\<lparr>db_files :=
     [\<lparr>fe_id = 1, fe_path = ''a'', fe_revision = None, fe_language = ''text''\<rparr>,
      \<lparr>fe_id = 2, fe_path = ''b'', fe_revision = None, fe_language = ''text''\<rparr>]\<rparr>"

theorem filename_lane_selects_best_witness:
  "map hit_path (lh_hits (file_hits ascii_unicode sample_files (Query_default\<lparr>q_text := ''b''\<rparr>) (PathFilter_bind PathFilter_default [])))
   = [''b'']"
proof -
  let ?q = "Query_default\<lparr>q_text := ''b''\<rparr>" and ?paths = "PathFilter_bind PathFilter_default []"
  have paths: "distinct (map fe_path (db_files sample_files))" by (simp add: sample_files_def)
  have kind: "q_kind ?q = [] \<or> q_kind ?q = ''file''" by (simp add: Query_default_def)
  have "filter (\<lambda>f. filename_score ascii_unicode (fe_path f) (query_terms ascii_unicode (q_text ?q)) \<noteq> 0)
      (filter (passes ?paths (q_language ?q)) (db_files sample_files))
    = [\<lparr>fe_id = 2, fe_path = ''b'', fe_revision = None, fe_language = ''text''\<rparr>]" by code_simp
  with filename_lane_selects_best [OF paths kind, of ascii_unicode ?paths] show ?thesis
    by (simp add: Let_def filename_hit_def)
qed

end
