(* ===== verification/TP_Utf8.thy ===== *)
theory TP_Utf8
  imports TP_Text
begin

text \<open>
  Rust's UTF-8 validation, which several components use on file contents: \<open>std::str::from_utf8\<close> with the error's
  \<open>valid_up_to\<close>, and \<open>String::from_utf8_lossy\<close>, which replaces each maximal invalid sequence by U+FFFD.
\<close>

section \<open>Validation\<close>

definition continuation_byte :: "char \<Rightarrow> bool" where
  "continuation_byte b \<longleftrightarrow> 0x80 \<le> byte b \<and> byte b \<le> 0xBF"

definition sequence_width :: "char \<Rightarrow> nat" where
  "sequence_width b =
     (if byte b < 0x80 then 1
      else if 0xC2 \<le> byte b \<and> byte b \<le> 0xDF then 2
      else if 0xE0 \<le> byte b \<and> byte b \<le> 0xEF then 3
      else if 0xF0 \<le> byte b \<and> byte b \<le> 0xF4 then 4
      else 0)"

definition second_ok :: "char \<Rightarrow> char \<Rightarrow> bool" where
  "second_ok b0 b1 \<longleftrightarrow> continuation_byte b1
     \<and> (byte b0 = 0xE0 \<longrightarrow> 0xA0 \<le> byte b1) \<and> (byte b0 = 0xED \<longrightarrow> byte b1 \<le> 0x9F)
     \<and> (byte b0 = 0xF0 \<longrightarrow> 0x90 \<le> byte b1) \<and> (byte b0 = 0xF4 \<longrightarrow> byte b1 \<le> 0x8F)"

text \<open>The sequence at the head of \<open>b # rest\<close>: \<open>Inr n\<close> a character of \<open>n\<close> bytes, \<open>Inl n\<close> an invalid or incomplete sequence.\<close>

definition utf8_head :: "char \<Rightarrow> bytes \<Rightarrow> nat + nat" where
  "utf8_head b rest =
     (let w = sequence_width b in
      if w = 1 then Inr 1
      else if w = 0 then Inl 1
      else case rest of
        [] \<Rightarrow> Inl 1
      | b1 # rest1 \<Rightarrow>
          if \<not> second_ok b b1 then Inl 1 else if w = 2 then Inr 2
          else case rest1 of
            [] \<Rightarrow> Inl 2
          | b2 # rest2 \<Rightarrow>
              if \<not> continuation_byte b2 then Inl 2 else if w = 3 then Inr 3
              else case rest2 of
                [] \<Rightarrow> Inl 3
              | b3 # _ \<Rightarrow> if \<not> continuation_byte b3 then Inl 3 else Inr 4)"

lemma utf8_head_bounds:
  "utf8_head b rest = Inr n \<Longrightarrow> 1 \<le> n \<and> n \<le> 4 \<and> n \<le> Suc (length rest)"
  "utf8_head b rest = Inl n \<Longrightarrow> 1 \<le> n \<and> n \<le> Suc (length rest)"
  by (auto simp: utf8_head_def sequence_width_def Let_def split: list.splits if_splits)

function valid_up_to :: "bytes \<Rightarrow> nat" where
  "valid_up_to [] = 0"
| "valid_up_to (b # rest) =
     (case utf8_head b rest of Inr n \<Rightarrow> n + valid_up_to (drop (n - 1) rest) | Inl _ \<Rightarrow> 0)"
  by pat_completeness auto
termination
  by (relation "measure length") auto

text \<open>U+FFFD in UTF-8.\<close>

definition REPLACEMENT :: string where
  "REPLACEMENT = [CHR 0xEF, CHR 0xBF, CHR 0xBD]"

function from_utf8_lossy :: "bytes \<Rightarrow> string" where
  "from_utf8_lossy [] = []"
| "from_utf8_lossy (b # rest) =
     (case utf8_head b rest of
        Inr n \<Rightarrow> b # take (n - 1) rest @ from_utf8_lossy (drop (n - 1) rest)
      | Inl n \<Rightarrow> REPLACEMENT @ from_utf8_lossy (drop (n - 1) rest))"
  by pat_completeness auto
termination
  by (relation "measure length") auto

definition well_formed_utf8 :: "bytes \<Rightarrow> bool" where
  "well_formed_utf8 s \<longleftrightarrow> valid_up_to s = length s"

section \<open>Laws\<close>

lemma utf8_head_append: "utf8_head b rest = Inr n \<Longrightarrow> utf8_head b (take (n - 1) rest @ tail) = Inr n"
  by (auto simp: utf8_head_def Let_def split: list.splits if_splits)

lemma valid_up_to_le: "valid_up_to s \<le> length s"
proof (induction s rule: valid_up_to.induct)
  case (2 b rest)
  then show ?case using utf8_head_bounds(1) [of b rest] by (fastforce split: sum.splits)
qed simp

lemma valid_append: "utf8_head b rest = Inr n \<Longrightarrow> valid_up_to (b # take (n - 1) rest @ tail) = n + valid_up_to tail"
  using utf8_head_append [of b rest n tail] utf8_head_bounds(1) [of b rest n] by (simp add: min_def)

lemma valid_take: "well_formed_utf8 (take (valid_up_to s) s)"
proof (induction s rule: valid_up_to.induct)
  case (2 b rest)
  show ?case
  proof (cases "utf8_head b rest")
    case (Inr n)
    note bounds = utf8_head_bounds(1) [OF Inr]
    have "take (n + valid_up_to (drop (n - 1) rest)) (b # rest)
        = b # take (n - 1) rest @ take (valid_up_to (drop (n - 1) rest)) (drop (n - 1) rest)"
      using bounds by (cases n) (simp_all add: take_add)
    then show ?thesis using 2 [OF Inr] Inr bounds valid_append [OF Inr] by (auto simp: well_formed_utf8_def min_def)
  qed (simp add: well_formed_utf8_def)
qed (simp add: well_formed_utf8_def)

lemma lossy_valid_prefix: "from_utf8_lossy (take (valid_up_to s) s) = take (valid_up_to s) s"
proof (induction s rule: valid_up_to.induct)
  case (2 b rest)
  show ?case
  proof (cases "utf8_head b rest")
    case (Inr n)
    note bounds = utf8_head_bounds(1) [OF Inr]
    have split: "take (n + valid_up_to (drop (n - 1) rest)) (b # rest)
        = b # take (n - 1) rest @ take (valid_up_to (drop (n - 1) rest)) (drop (n - 1) rest)"
      using bounds by (cases n) (simp_all add: take_add)
    then show ?thesis using 2 [OF Inr] Inr bounds utf8_head_append [OF Inr] by (simp add: min_def)
  qed simp
qed simp

lemma lossy_id: "well_formed_utf8 s \<Longrightarrow> from_utf8_lossy s = s"
  using lossy_valid_prefix [of s] by (simp add: well_formed_utf8_def)

end
