(* ===== verification/TP_Rerank.thy ===== *)
theory TP_Rerank
  imports TP_Lanes TP_Utf8
begin

text \<open>
  \<open>src/search/rerank_window.rs\<close>: the first 32 fused hits are scored by a cross-encoder and permuted in place, tier by
  tier.  The scorer is an argument, with the type \<open>'f\<close> of its scores ordered by \<open>total_cmp\<close> and the predicate \<open>is_finite\<close>;
  so is the error \<open>rusqlite\<close> reports when a column holds \<open>NULL\<close> where bytes are expected.  SQLite's \<open>substr\<close> of an empty
  blob is \<open>NULL\<close>, and with a negative length it takes the bytes before the start.
\<close>

section \<open>Bodies\<close>

definition RERANK_MAX_DOCUMENTS :: nat where "RERANK_MAX_DOCUMENTS = 32"
definition RERANK_MAX_DOCUMENT_BYTES :: nat where "RERANK_MAX_DOCUMENT_BYTES = 4096"
definition RERANK_WINDOW :: nat where "RERANK_WINDOW = RERANK_MAX_DOCUMENTS"
definition BODY_CLAMP_BYTES :: nat where "BODY_CLAMP_BYTES = RERANK_MAX_DOCUMENT_BYTES"

definition clamp_document :: "bytes \<Rightarrow> string option" where
  "clamp_document bs =
     (let clamped = take (min (length bs) BODY_CLAMP_BYTES) bs;
          stop = valid_up_to clamped
      in if stop = 0 then None else Some (from_utf8_lossy (take stop clamped)))"

definition window_body :: "string \<Rightarrow> index_db \<Rightarrow> hit \<Rightarrow> bytes option result" where
  "window_body null_error db h =
     (let (start, stop) = (if hit_start h = hit_end h then (0, BODY_CLAMP_BYTES) else (hit_start h, hit_end h))
      in case Option.bind (find (\<lambda>f. fe_path f = hit_path h) (db_files db)) (content_of db) of
           None \<Rightarrow> Inr None
         | Some bs \<Rightarrow> if bs = [] then Inl null_error else Inr (Some (slice (min start stop) (max start stop) bs)))"

fun fetch_bodies :: "string \<Rightarrow> index_db \<Rightarrow> (nat \<times> hit) list \<Rightarrow> string list \<times> nat list \<Rightarrow> (string list \<times> nat list) result" where
  "fetch_bodies null_error db [] st = Inr st"
| "fetch_bodies null_error db ((position, h) # rest) (documents, positions) =
     (case window_body null_error db h of
        Inl e \<Rightarrow> Inl e
      | Inr body \<Rightarrow>
          fetch_bodies null_error db rest
            (case Option.bind body clamp_document of
               Some txt \<Rightarrow> (documents @ [txt], positions @ [position])
             | None \<Rightarrow> (documents, positions)))"

definition fetch_window_bodies :: "string \<Rightarrow> index_db \<Rightarrow> hit list \<Rightarrow> nat \<Rightarrow> (string list \<times> nat list) result" where
  "fetch_window_bodies null_error db hits window =
     fetch_bodies null_error db (enumerate 0 (take window hits)) ([], [])"

section \<open>Permutation\<close>

definition swap_at :: "nat \<Rightarrow> nat \<Rightarrow> 'a list \<Rightarrow> 'a list" where
  "swap_at i j xs = xs[i := xs ! j, j := xs ! i]"

definition misplaced :: "nat \<Rightarrow> 'a list \<times> nat list \<Rightarrow> bool" where
  "misplaced i = (\<lambda>(xs, ds). ds ! i \<noteq> i)"

definition place :: "nat \<Rightarrow> 'a list \<times> nat list \<Rightarrow> 'a list \<times> nat list" where
  "place i = (\<lambda>(xs, ds). let j = ds ! i in (swap_at i j xs, swap_at i j ds))"

text \<open>\<open>None\<close> is a cycle that never closes.\<close>

definition permute_in_place :: "'a list \<Rightarrow> nat list \<Rightarrow> 'a list option" where
  "permute_in_place xs ds =
     map_option fst (fold (\<lambda>i st. Option.bind st (while_option (misplaced i) (place i))) [0..<length ds] (Some (xs, ds)))"

section \<open>Reranking\<close>

definition assign_scores :: "('f \<Rightarrow> bool) \<Rightarrow> nat \<Rightarrow> nat list \<Rightarrow> 'f list \<Rightarrow> 'f option list" where
  "assign_scores is_finite window positions scores =
     fold (\<lambda>(position, score) ws. ws[position := if is_finite score then Some score else None])
       (zip positions scores) (replicate window None)"

definition score_before :: "'f::linorder option \<Rightarrow> 'f option \<Rightarrow> bool" where
  "score_before a b \<longleftrightarrow> (case (a, b) of (Some x, Some y) \<Rightarrow> y < x | (Some _, None) \<Rightarrow> True | _ \<Rightarrow> False)"

definition source_le :: "(nat \<Rightarrow> nat) \<Rightarrow> (nat \<Rightarrow> 'f::linorder option) \<Rightarrow> nat \<Rightarrow> nat \<Rightarrow> bool" where
  "source_le tier score l r \<longleftrightarrow>
     tier l < tier r \<or> tier l = tier r \<and>
     (score_before (score l) (score r) \<or> \<not> score_before (score r) (score l) \<and> l \<le> r)"

definition destinations_of :: "nat list \<Rightarrow> nat list" where
  "destinations_of sources = fold (\<lambda>(target, source) ds. ds[source := target]) (enumerate 0 sources) (replicate (length sources) 0)"

definition skipped :: "json \<Rightarrow> json" where
  "skipped coverage = json_set ''rerank_status'' (JStr ''skipped'') coverage"

definition unavailable :: "string \<Rightarrow> json \<Rightarrow> json" where
  "unavailable reason coverage = json_set ''rerank_reason'' (JStr reason) (json_set ''rerank_status'' (JStr ''unavailable'') coverage)"

definition window_sources :: "unicode \<Rightarrow> fusion_policy \<Rightarrow> hit list \<Rightarrow> 'f::linorder option list \<Rightarrow> nat list" where
  "window_sources u policy hits window_scores =
     sort_by (source_le (\<lambda>i. evidence_tier (FileEvidence_of u policy (hits ! i))) (\<lambda>i. window_scores ! i))
       [0..<length window_scores]"

definition rerank_apply :: "unicode \<Rightarrow> string \<Rightarrow> index_db \<Rightarrow> string \<Rightarrow> fusion_policy \<Rightarrow> ('f::linorder \<Rightarrow> bool) \<Rightarrow>
    (string \<Rightarrow> string list \<Rightarrow> 'f list result) \<Rightarrow> hit list \<Rightarrow> json \<Rightarrow> (hit list \<times> json) option" where
  "rerank_apply u null_error db query_text policy is_finite scorer hits coverage =
     (if query_text = [] \<or> hits = [] then Some (hits, skipped coverage)
      else
        let window = min (length hits) RERANK_WINDOW
        in case fetch_window_bodies null_error db hits window of
             Inl e \<Rightarrow> Some (hits, unavailable e coverage)
           | Inr (documents, positions) \<Rightarrow>
               if documents = [] then Some (hits, skipped coverage)
               else case scorer query_text documents of
                 Inl e \<Rightarrow> Some (hits, unavailable e coverage)
               | Inr scores \<Rightarrow>
                   if length scores \<noteq> length documents then
                     Some (hits, unavailable (''rerank_worker: score count mismatch: '' @ show_nat (length scores)
                       @ '' scores for '' @ show_nat (length documents) @ '' documents'') coverage)
                   else
                     let window_scores = assign_scores is_finite window positions scores;
                         sources = window_sources u policy hits window_scores;
                         scored = length (filter (\<lambda>s. s \<noteq> None) window_scores)
                     in map_option (\<lambda>front. (front @ drop window hits,
                          json_set ''rerank_window'' (JNum (int scored)) (json_set ''rerank_status'' (JStr ''ready'') coverage)))
                          (permute_in_place (take window hits) (destinations_of sources)))"

section \<open>In-place permutation\<close>

text \<open>The state of the walk: destinations are a permutation, those before \<open>k\<close> are placed, and the pairs of a destination
  and its element are the initial ones.\<close>

definition walk_inv :: "nat \<Rightarrow> (nat \<times> 'a) set \<Rightarrow> nat \<Rightarrow> 'a list \<times> nat list \<Rightarrow> bool" where
  "walk_inv n pairs k = (\<lambda>(xs, ds). length xs = n \<and> length ds = n \<and> distinct ds \<and> set ds = {..<n}
     \<and> (\<forall>m < k. ds ! m = m) \<and> set (zip ds xs) = pairs)"

definition unplaced :: "'a list \<times> nat list \<Rightarrow> nat" where
  "unplaced = (\<lambda>(xs, ds). card {m. m < length ds \<and> ds ! m \<noteq> m})"

lemma zip_swap_at:
  "i < length ds \<Longrightarrow> j < length ds \<Longrightarrow> length xs = length ds \<Longrightarrow> zip (swap_at i j ds) (swap_at i j xs) = swap_at i j (zip ds xs)"
  by (simp add: swap_at_def zip_update [symmetric] nth_list_update)

lemma swap_at_props:
  "i < length xs \<Longrightarrow> j < length xs \<Longrightarrow> set (swap_at i j xs) = set xs"
  "i < length xs \<Longrightarrow> j < length xs \<Longrightarrow> distinct (swap_at i j xs) = distinct xs"
  "length (swap_at i j xs) = length xs"
  by (simp_all add: swap_at_def)

lemma walk_place:
  assumes inv: "walk_inv n pairs k st" and mis: "misplaced i st" and i: "i < n" "k \<le> i"
  shows "walk_inv n pairs k (place i st)" "unplaced (place i st) < unplaced st"
proof -
  obtain xs ds where st: "st = (xs, ds)" by (cases st)
  define j where "j = ds ! i"
  note inv' = inv [unfolded st walk_inv_def, simplified]
  have j: "j < n" "j \<noteq> i" using inv' mis i nth_mem [of i ds] by (auto simp: st misplaced_def j_def)
  have dj: "ds ! j \<noteq> j" using inv' i j by (metis j_def nth_eq_iff_index_eq)
  have placed: "j \<ge> k" using inv' dj by (meson not_le)
  have step: "place i st = (swap_at i j xs, swap_at i j ds)" by (simp add: place_def st j_def Let_def)
  have nth: "swap_at i j ds ! m = (if m = j then j else if m = i then ds ! j else ds ! m)" if "m < n" for m
    using that inv' i j by (simp add: swap_at_def nth_list_update j_def)
  have "set (zip (swap_at i j ds) (swap_at i j xs)) = pairs"
    using inv' i j by (simp add: zip_swap_at swap_at_props)
  then show "walk_inv n pairs k (place i st)"
    using inv' i j placed by (auto simp: step walk_inv_def swap_at_props nth)
  have di: "ds ! i \<noteq> i" using mis by (simp add: st misplaced_def)
  have "j \<in> {m. m < n \<and> ds ! m \<noteq> m}" "j \<notin> {m. m < n \<and> swap_at i j ds ! m \<noteq> m}" using j dj nth [of j] by simp_all
  moreover have "{m. m < n \<and> swap_at i j ds ! m \<noteq> m} \<subseteq> {m. m < n \<and> ds ! m \<noteq> m}"
  proof
    fix m assume m: "m \<in> {m. m < n \<and> swap_at i j ds ! m \<noteq> m}"
    then have "swap_at i j ds ! m = ds ! m \<or> m = i \<or> m = j" using nth [of m] by simp
    then show "m \<in> {m. m < n \<and> ds ! m \<noteq> m}" using m di dj by auto
  qed
  ultimately have "{m. m < n \<and> swap_at i j ds ! m \<noteq> m} \<subset> {m. m < n \<and> ds ! m \<noteq> m}" by blast
  then show "unplaced (place i st) < unplaced st"
    using inv' by (simp add: step [unfolded st] unplaced_def st swap_at_props psubset_card_mono)
qed

text \<open>Each cycle is a loop that ends: every swap places one more element.\<close>

interpretation cycle: eviction "misplaced i" "place i" unplaced "\<lambda>st. walk_inv n pairs i st \<and> i < n" for i n pairs
  using walk_place by unfold_locales blast+

lemma walk_prefix:
  "k \<le> n \<Longrightarrow> walk_inv n pairs 0 st \<Longrightarrow>
   \<exists>t. fold (\<lambda>i st. Option.bind st (while_option (misplaced i) (place i))) [0..<k] (Some st) = Some t \<and> walk_inv n pairs k t"
proof (induction k)
  case (Suc k)
  then obtain t where t: "fold (\<lambda>i st. Option.bind st (while_option (misplaced i) (place i))) [0..<k] (Some st) = Some t"
      "walk_inv n pairs k t" by auto
  with cycle.evict_loop [of n pairs k t] Suc.prems obtain t' where
    t': "while_option (misplaced k) (place k) t = Some t'" "walk_inv n pairs k t'" "\<not> misplaced k t'" by auto
  from t'(2,3) have "walk_inv n pairs (Suc k) t'" by (auto simp: walk_inv_def misplaced_def less_Suc_eq)
  with t(1) t'(1) show ?case by simp
qed simp

lemma permute_in_place_correct:
  assumes "length xs = length ds" "distinct ds" "set ds = {..<length ds}"
  shows "\<exists>out. permute_in_place xs ds = Some out \<and> length out = length ds \<and> (\<forall>i < length ds. out ! (ds ! i) = xs ! i)"
proof -
  let ?n = "length ds" and ?pairs = "set (zip ds xs)"
  have "walk_inv ?n ?pairs 0 (xs, ds)" using assms by (simp add: walk_inv_def)
  from walk_prefix [OF order_refl this] obtain out es where out:
    "fold (\<lambda>i st. Option.bind st (while_option (misplaced i) (place i))) [0..<?n] (Some (xs, ds)) = Some (out, es)"
    "walk_inv ?n ?pairs ?n (out, es)" by auto
  then have es: "es = [0..<?n]" by (auto simp: walk_inv_def intro: nth_equalityI)
  have "out ! (ds ! i) = xs ! i" if "i < ?n" for i
  proof -
    have "(ds ! i, xs ! i) \<in> set (zip ds xs)" using that assms(1) by (auto simp: set_zip)
    then have "(ds ! i, xs ! i) \<in> set (zip es out)" using out(2) by (simp add: walk_inv_def)
    then show ?thesis using es out(2) by (auto simp: walk_inv_def set_zip)
  qed
  with out show ?thesis by (simp add: permute_in_place_def walk_inv_def)
qed

lemma destinations_length: "length (destinations_of sources) = length sources"
proof -
  have "length (fold (\<lambda>(target, source) ds. ds[source := target]) ps ds) = length ds" for ps and ds :: "nat list"
    by (induction ps arbitrary: ds) auto
  then show ?thesis by (simp add: destinations_of_def)
qed

lemma destinations_fold:
  "distinct sources \<Longrightarrow> set sources \<subseteq> {..<length ds} \<Longrightarrow> t < length sources \<Longrightarrow>
   fold (\<lambda>(target, source) ds. ds[source := target]) (enumerate n sources) ds ! (sources ! t) = n + t"
proof (induction sources arbitrary: n ds t)
  case (Cons s sources)
  have keep: "fold (\<lambda>(target, source) ds. ds[source := target]) (enumerate n sources) ds ! s = ds ! s"
    if "s \<notin> set sources" for n and ds :: "nat list"
    using that by (induction sources arbitrary: n ds) auto
  with Cons show ?case by (cases t) auto
qed simp

lemma destinations_inverse:
  assumes "mset sources = mset [0..<length sources]"
  shows "t < length sources \<Longrightarrow> destinations_of sources ! (sources ! t) = t"
    and "distinct (destinations_of sources)" and "set (destinations_of sources) = {..<length sources}"
proof -
  let ?n = "length sources" and ?ds = "destinations_of sources"
  have src: "distinct sources" using mset_eq_imp_distinct_iff [OF assms] by simp
  have range: "set sources = {..<?n}" using mset_eq_setD [OF assms] by (simp add: atLeast0LessThan)
  show inv: "?ds ! (sources ! t) = t" if "t < ?n" for t
    using destinations_fold [of sources "replicate ?n 0" t 0] src range that by (simp add: destinations_of_def)
  have sub: "{..<?n} \<subseteq> set ?ds"
  proof
    fix t assume "t \<in> {..<?n}"
    then have t: "t < ?n" by simp
    then have "sources ! t < ?n" using range nth_mem by blast
    then show "t \<in> set ?ds" using inv [OF t] by (metis destinations_length nth_mem)
  qed
  have "card (set ?ds) \<le> ?n" using card_length [of ?ds] by (simp add: destinations_length)
  with sub show set: "set ?ds = {..<?n}"
    by (metis List.finite_set card_lessThan card_seteq)
  then show "distinct ?ds" by (intro card_distinct) (simp add: destinations_length)
qed

text \<open>Inverting an order of the positions and permuting in place puts the elements in that order.\<close>

lemma permute_by_sources:
  assumes "mset sources = mset [0..<length xs]"
  shows "permute_in_place xs (destinations_of sources) = Some (map ((!) xs) sources)"
proof -
  have len: "length sources = length xs" using arg_cong [OF assms, of size] by simp
  note inv = destinations_inverse [of sources, unfolded len, OF assms]
  have src: "set sources = {..<length xs}" using mset_eq_setD [OF assms] by (simp add: atLeast0LessThan)
  from permute_in_place_correct [of xs "destinations_of sources"] inv(2,3) len obtain out where
    out: "permute_in_place xs (destinations_of sources) = Some out" "length out = length xs"
      "\<And>i. i < length xs \<Longrightarrow> out ! (destinations_of sources ! i) = xs ! i"
    by (auto simp: destinations_length)
  have "out ! t = xs ! (sources ! t)" if t: "t < length xs" for t
  proof -
    have "sources ! t < length xs" using src t len nth_mem [of t sources] by simp
    from out(3) [OF this] inv(1) [OF t] show ?thesis by simp
  qed
  then have "out = map ((!) xs) sources" using out(2) len by (simp add: list_eq_iff_nth_eq)
  with out(1) show ?thesis by simp
qed

section \<open>The reranked window\<close>

lemma score_before_trans: "score_before a b \<Longrightarrow> score_before b c \<Longrightarrow> score_before a c"
  by (auto simp: score_before_def split: option.splits prod.splits)

lemma score_before_cotrans: "score_before a c \<Longrightarrow> score_before a b \<or> score_before b c"
  by (auto simp: score_before_def split: option.splits prod.splits)

lemma score_before_irrefl: "\<not> score_before a a"
  by (auto simp: score_before_def split: option.splits)

interpretation sources: comparison "source_le tier score" for tier :: "nat \<Rightarrow> nat" and score :: "nat \<Rightarrow> 'f::linorder option"
proof
  show "source_le tier score x y \<or> source_le tier score y x" for x y
    unfolding source_le_def using score_before_irrefl score_before_trans by (metis linorder_cases nat_le_linear)
  show "source_le tier score x y \<Longrightarrow> source_le tier score y z \<Longrightarrow> source_le tier score x z" for x y z
    unfolding source_le_def using score_before_cotrans score_before_trans by (smt (verit) le_trans less_trans)
qed

lemma length_assign_scores [simp]: "length (assign_scores is_finite w positions scores) = w"
proof -
  have "length (fold (\<lambda>(p, s) ws. ws[p := if is_finite s then Some s else None]) ps ws) = length ws"
    for ps and ws :: "'a option list"
    by (induction ps arbitrary: ws) auto
  then show ?thesis by (simp add: assign_scores_def)
qed

lemma window_sources_perm: "mset (window_sources u policy hits ws) = mset [0..<length ws]"
  by (simp add: window_sources_def)



lemma status_fields:
  "json_get ''rerank_status'' (skipped (JObj kvs)) = JStr ''skipped''"
  "json_get ''rerank_status'' (unavailable e (JObj kvs)) = JStr ''unavailable''"
  "json_get ''rerank_status'' (json_set ''rerank_window'' n (json_set ''rerank_status'' (JStr ''ready'') (JObj kvs))) = JStr ''ready''"
proof -
  have keep: "json_get k (json_set k' w (json_set k v (JObj kvs))) = v" if "k \<noteq> k'" for k k' v w
  proof -
    obtain a where a: "json_set k v (JObj kvs) = JObj a" using json_set_obj by blast
    have "json_get k (JObj a) = v" using json_get_set [of k k v kvs] by (simp add: a)
    with that show ?thesis by (simp add: a)
  qed
  show "json_get ''rerank_status'' (skipped (JObj kvs)) = JStr ''skipped''" by (simp add: skipped_def)
  show "json_get ''rerank_status'' (unavailable e (JObj kvs)) = JStr ''unavailable''"
    unfolding unavailable_def by (rule keep) simp
  show "json_get ''rerank_status'' (json_set ''rerank_window'' n (json_set ''rerank_status'' (JStr ''ready'') (JObj kvs))) = JStr ''ready''"
    by (rule keep) simp
qed

lemma permuted_window:
  "\<exists>front. permute_in_place (take w hits) (destinations_of (window_sources u policy hits ws)) = Some front \<and> mset front = mset (take w hits)"
  if "length ws = w" "w \<le> length hits"
proof -
  let ?order = "window_sources u policy hits ws"
  have perm: "mset ?order = mset [0..<length (take w hits)]" using that by (simp add: window_sources_perm)
  have "mset (map ((!) (take w hits)) ?order) = image_mset ((!) (take w hits)) (mset [0..<length (take w hits)])"
    using perm by simp
  also have "\<dots> = mset (map ((!) (take w hits)) [0..<length (take w hits)])" by simp
  also have "\<dots> = mset (take w hits)" by (simp only: map_nth)
  finally show ?thesis using permute_by_sources [OF perm] by simp
qed

lemma rerank_total:
  "\<exists>out coverage'. rerank_apply u null_error db query_text policy is_finite scorer hits coverage = Some (out, coverage')
     \<and> mset out = mset hits"
proof -
  let ?w = "min (length hits) 32"
  have front: "\<exists>front. permute_in_place (take ?w hits) (destinations_of (window_sources u policy hits
      (assign_scores is_finite ?w positions scores))) = Some front \<and> mset front = mset (take ?w hits)" for positions scores
    by (rule permuted_window) simp_all
  have whole: "mset (take ?w hits) + mset (drop ?w hits) = mset hits" by (metis append_take_drop_id mset_append)
  show ?thesis
    using front whole
    by (auto simp: rerank_apply_def RERANK_WINDOW_def RERANK_MAX_DOCUMENTS_def Let_def split: sum.splits prod.splits)
       (metis (no_types, lifting) mset_append option.simps(9))
qed

text \<open>What a window offers to the scorer, from the tables alone: the contents of a hit's file, its text, and the status that
  follows from the texts and the scorer.\<close>

definition indexed_content :: "index_db \<Rightarrow> hit \<Rightarrow> bytes option" where
  "indexed_content db h = Option.bind (find (\<lambda>f. fe_path f = hit_path h) (db_files db)) (content_of db)"

definition body_text :: "index_db \<Rightarrow> hit \<Rightarrow> string option" where
  "body_text db h =
     (let (start, stop) = (if hit_start h = hit_end h then (0, BODY_CLAMP_BYTES) else (hit_start h, hit_end h))
      in Option.bind (indexed_content db h) (\<lambda>bs. clamp_document (slice (min start stop) (max start stop) bs)))"

definition window_texts :: "index_db \<Rightarrow> hit list \<Rightarrow> string list" where
  "window_texts db hits = List.map_filter (body_text db) (take 32 hits)"

definition expected_status :: "index_db \<Rightarrow> string \<Rightarrow> (string \<Rightarrow> string list \<Rightarrow> 'f list result) \<Rightarrow> hit list \<Rightarrow> string" where
  "expected_status db query_text scorer hits =
     (if query_text = [] \<or> hits = [] then ''skipped''
      else if list_ex (\<lambda>h. indexed_content db h = Some []) (take 32 hits) then ''unavailable''
      else if window_texts db hits = [] then ''skipped''
      else case scorer query_text (window_texts db hits) of
             Inl _ \<Rightarrow> ''unavailable''
           | Inr scores \<Rightarrow> if length scores = length (window_texts db hits) then ''ready'' else ''unavailable'')"

lemma window_body_text:
  "window_body null_error db h = (if indexed_content db h = Some [] then Inl null_error else
     Inr (map_option (\<lambda>bs. let (start, stop) = (if hit_start h = hit_end h then (0, BODY_CLAMP_BYTES) else (hit_start h, hit_end h))
       in slice (min start stop) (max start stop) bs) (indexed_content db h)))"
  by (auto simp: window_body_def indexed_content_def Let_def split: option.splits)

lemma fetch_bodies_texts:
  "\<exists>positions'. fetch_bodies null_error db ps (documents, positions) =
     (if list_ex (\<lambda>(_, h). indexed_content db h = Some []) ps then Inl null_error
      else Inr (documents @ List.map_filter (\<lambda>q. body_text db (snd q)) ps, positions'))"
proof (induction ps arbitrary: documents positions)
  case (Cons p ps)
  obtain i h where p: "p = (i, h)" by (cases p)
  show ?case
  proof (cases "indexed_content db h = Some []")
    case True
    with p show ?thesis by (simp add: window_body_text)
  next
    case False
    let ?body = "map_option (\<lambda>bs. let (start, stop) = (if hit_start h = hit_end h then (0, BODY_CLAMP_BYTES) else (hit_start h, hit_end h))
       in slice (min start stop) (max start stop) bs) (indexed_content db h)"
    have body: "Option.bind ?body clamp_document = body_text db h"
      by (cases "indexed_content db h") (auto simp: body_text_def Let_def split: prod.splits)
    have kept: "window_body null_error db h = Inr ?body" using False by (simp add: window_body_text)
    show ?thesis
    proof (cases "body_text db h")
      case None
      with body kept have "fetch_bodies null_error db (p # ps) (documents, positions) = fetch_bodies null_error db ps (documents, positions)"
        by (cases ?body) (simp_all add: p)
      moreover obtain positions' where "fetch_bodies null_error db ps (documents, positions) =
         (if list_ex (\<lambda>(_, h). indexed_content db h = Some []) ps then Inl null_error
          else Inr (documents @ List.map_filter (\<lambda>q. body_text db (snd q)) ps, positions'))"
        using Cons by blast
      ultimately show ?thesis using None False by (simp only: p list_ex_Cons_iff map_filter_simps snd_conv option.case prod.case) auto
    next
      case (Some t)
      with body kept have "fetch_bodies null_error db (p # ps) (documents, positions)
          = fetch_bodies null_error db ps (documents @ [t], positions @ [i])"
        by (cases ?body) (simp_all add: p)
      moreover obtain positions' where "fetch_bodies null_error db ps (documents @ [t], positions @ [i]) =
         (if list_ex (\<lambda>(_, h). indexed_content db h = Some []) ps then Inl null_error
          else Inr ((documents @ [t]) @ List.map_filter (\<lambda>q. body_text db (snd q)) ps, positions'))"
        using Cons by blast
      ultimately show ?thesis using Some False by (simp only: p list_ex_Cons_iff map_filter_simps snd_conv option.case prod.case) auto
    qed
  qed
qed (simp add: map_filter_simps)

lemma fetch_window_texts:
  "\<exists>positions. fetch_window_bodies null_error db hits (min (length hits) 32) =
     (if list_ex (\<lambda>h. indexed_content db h = Some []) (take 32 hits) then Inl null_error
      else Inr (window_texts db hits, positions))"
proof -
  have w: "take (min (length hits) 32) hits = take 32 hits" by (simp add: min_def)
  have snd: "map snd (enumerate 0 (take 32 hits)) = take 32 hits" by simp
  have "list_ex (\<lambda>(_, h). indexed_content db h = Some []) (enumerate 0 (take 32 hits))
      = list_ex (\<lambda>h. indexed_content db h = Some []) (map snd (enumerate 0 (take 32 hits)))"
    by (simp add: list_ex_iff split_beta del: map_snd_enumerate)
  moreover have "List.map_filter (\<lambda>q. body_text db (snd q)) (enumerate 0 (take 32 hits))
      = List.map_filter (body_text db) (map snd (enumerate 0 (take 32 hits)))"
    by (simp add: List.map_filter_def filter_map comp_def del: map_snd_enumerate)
  moreover obtain positions where "fetch_bodies null_error db (enumerate 0 (take 32 hits)) ([], []) =
     (if list_ex (\<lambda>(_, h). indexed_content db h = Some []) (enumerate 0 (take 32 hits)) then Inl null_error
      else Inr ([] @ List.map_filter (\<lambda>q. body_text db (snd q)) (enumerate 0 (take 32 hits)), positions))"
    using fetch_bodies_texts by blast
  ultimately have "fetch_window_bodies null_error db hits (min (length hits) 32) =
     (if list_ex (\<lambda>h. indexed_content db h = Some []) (take 32 hits) then Inl null_error else Inr (window_texts db hits, positions))"
    by (simp only: fetch_window_bodies_def w snd window_texts_def append_Nil)
  then show ?thesis by blast
qed


text \<open>An empty file is indexed with empty contents, whose \<open>substr\<close> is \<open>NULL\<close>: its body read fails instead of being left
  out, and with one such file among the first 32 hits nothing is reranked.\<close>

lemma fetch_bodies_error:
  "(p, h) \<in> set ps \<Longrightarrow> window_body null_error db h = Inl null_error \<Longrightarrow> fetch_bodies null_error db ps st = Inl null_error"
proof (induction ps arbitrary: st)
  case (Cons q ps)
  have "window_body null_error db h' = Inl e \<Longrightarrow> e = null_error" for h' e
    by (auto simp: window_body_def Let_def split: option.splits if_splits prod.splits)
  with Cons show ?case by (cases q; cases st) (auto split: sum.splits option.splits)
qed simp

theorem empty_file_disables_rerank:
  assumes "h \<in> set (take 32 hits)" "query_text \<noteq> []"
    and "find (\<lambda>f. fe_path f = hit_path h) (db_files db) = Some f" "content_of db f = Some []"
  shows "rerank_apply u null_error db query_text policy is_finite scorer hits coverage = Some (hits, unavailable null_error coverage)"
proof -
  have "\<exists>p. (p, h) \<in> set (enumerate 0 (take (min (length hits) 32) hits))"
  proof -
    have "h \<in> snd ` set (enumerate 0 (take 32 hits))" using assms(1) by (simp add: set_map [symmetric] del: set_map)
    then show ?thesis by (auto simp: min_def)
  qed
  moreover have "window_body null_error db h = Inl null_error" using assms(3,4) by (simp add: window_body_def Let_def)
  ultimately have "fetch_window_bodies null_error db hits (min (length hits) 32) = Inl null_error"
    using fetch_bodies_error by (fastforce simp: fetch_window_bodies_def)
  moreover have "hits \<noteq> []" using assms(1) by auto
  ultimately show ?thesis using assms(2) by (simp add: rerank_apply_def RERANK_WINDOW_def RERANK_MAX_DOCUMENTS_def Let_def)
qed

end
