(* ===== verification/TP_Semantic_Lane.thy ===== *)
theory TP_Semantic_Lane
  imports TP_Rerank
begin

text \<open>
  \<open>src/search/semantic_lane.rs\<close> with \<open>SemanticHit\<close> of \<open>src/semantic.rs\<close>: cached vectors rank the regions that pass the
  filters, one region per file.  The vector cache is an argument: opening it, the cosine of the cached vector of a body
  with the query (\<open>None\<close> when it is not cached), and its count of corrupt entries.  Scores have the type \<open>'g\<close>, ordered by
  \<open>total_cmp\<close>; the comparisons \<open>>\<close> and \<open>==\<close> of \<open>f32\<close> are arguments of their own, because they differ from it on zeros and NaN.
\<close>

record 'g vector_cache =
  vc_cosine :: "string \<Rightarrow> 'g option result"
  vc_corrupt_misses :: nat
  vc_gt :: "'g \<Rightarrow> 'g \<Rightarrow> bool"
  vc_eq :: "'g \<Rightarrow> 'g \<Rightarrow> bool"

record 'g semantic_hit =
  sh_id :: int
  sh_score :: 'g

section \<open>Retrieval\<close>

definition SEMANTIC_FILE_LIMIT :: nat where "SEMANTIC_FILE_LIMIT = 1000"

text \<open>The heap is the list of its elements in the order of \<open>Ord for SemanticHit\<close>; \<open>pop\<close> removes the greatest.\<close>

definition semantic_le :: "'g::linorder semantic_hit \<Rightarrow> 'g semantic_hit \<Rightarrow> bool" where
  "semantic_le a b \<longleftrightarrow> sh_score b < sh_score a \<or> sh_score b = sh_score a \<and> sh_id a \<le> sh_id b"

definition retain_hit :: "'g::linorder semantic_hit \<Rightarrow> 'g semantic_hit list \<Rightarrow> 'g semantic_hit list" where
  "retain_hit h heap =
     (let heap = insert_by semantic_le h heap in if length heap > SEMANTIC_FILE_LIMIT then butlast heap else heap)"

record 'g retrieval =
  rt_heap :: "'g semantic_hit list"
  rt_previous :: "int option"
  rt_best :: "'g semantic_hit option"
  rt_embedded :: nat
  rt_pending :: nat
  rt_complete :: nat
  rt_ranked :: nat
  rt_missing :: bool

definition retrieval_start :: "'g retrieval" where
  "retrieval_start = \<lparr>rt_heap = [], rt_previous = None, rt_best = None, rt_embedded = 0, rt_pending = 0,
     rt_complete = 0, rt_ranked = 0, rt_missing = False\<rparr>"

definition finish_file :: "'g::linorder retrieval \<Rightarrow> 'g retrieval" where
  "finish_file s =
     (let s = (if rt_previous s \<noteq> None \<and> \<not> rt_missing s then s\<lparr>rt_complete := rt_complete s + 1\<rparr> else s)
      in case rt_best s of
           None \<Rightarrow> s
         | Some h \<Rightarrow> s\<lparr>rt_heap := retain_hit h (rt_heap s), rt_ranked := rt_ranked s + 1, rt_best := None\<rparr>)"

definition retrieve_row :: "'g::linorder vector_cache \<Rightarrow> region_entry \<Rightarrow> 'g retrieval \<Rightarrow> 'g retrieval result" where
  "retrieve_row vc r s =
     (let s = (if rt_previous s \<noteq> Some (re_file r)
               then (finish_file s)\<lparr>rt_previous := Some (re_file r), rt_missing := False\<rparr> else s)
      in case vc_cosine vc (re_body r) of
           Inl e \<Rightarrow> Inl e
         | Inr None \<Rightarrow> Inr (s\<lparr>rt_pending := rt_pending s + 1, rt_missing := True\<rparr>)
         | Inr (Some score) \<Rightarrow>
             let h = \<lparr>sh_id = re_id r, sh_score = score\<rparr>;
                 better = (case rt_best s of None \<Rightarrow> True
                   | Some old \<Rightarrow> vc_gt vc score (sh_score old) \<or> vc_eq vc score (sh_score old) \<and> re_id r < sh_id old)
             in Inr (s\<lparr>rt_embedded := rt_embedded s + 1, rt_best := (if better then Some h else rt_best s)\<rparr>))"

fun retrieve_rows :: "'g::linorder vector_cache \<Rightarrow> region_entry list \<Rightarrow> 'g retrieval \<Rightarrow> 'g retrieval result" where
  "retrieve_rows vc [] s = Inr s"
| "retrieve_rows vc (r # rs) s = (case retrieve_row vc r s of Inl e \<Rightarrow> Inl e | Inr s' \<Rightarrow> retrieve_rows vc rs s')"

definition candidate_regions :: "index_db \<Rightarrow> query \<Rightarrow> bound_path_filter \<Rightarrow> region_entry list" where
  "candidate_regions db q paths =
     sort_by (by_key (\<lambda>r. (re_file r, re_id r)))
       (filter (\<lambda>r. case file_of db (re_file r) of
            None \<Rightarrow> False
          | Some f \<Rightarrow> fe_revision f \<noteq> None \<and> passes paths (q_language q) f \<and> kind_passes (q_kind q) (re_kind r))
         (db_regions db))"

text \<open>The row of one ranked region; \<open>no_rows\<close> is \<open>rusqlite\<close>'s error for a query without a row.\<close>

definition semantic_row :: "string \<Rightarrow> index_db \<Rightarrow> 'g semantic_hit \<Rightarrow> hit result" where
  "semantic_row no_rows db h =
     (case find (\<lambda>r. re_id r = sh_id h) (db_regions db) of
        None \<Rightarrow> Inl no_rows
      | Some r \<Rightarrow>
          (case located db (re_file r) of
             None \<Rightarrow> Inl no_rows
           | Some (f, bs) \<Rightarrow> Inr (region_hit ''semantic'' r f bs)))"

fun semantic_rows :: "string \<Rightarrow> index_db \<Rightarrow> 'g semantic_hit list \<Rightarrow> hit list result" where
  "semantic_rows no_rows db [] = Inr []"
| "semantic_rows no_rows db (h # hs) =
     (case semantic_row no_rows db h of
        Inl e \<Rightarrow> Inl e
      | Inr row \<Rightarrow> (case semantic_rows no_rows db hs of Inl e \<Rightarrow> Inl e | Inr rows \<Rightarrow> Inr (row # rows)))"

definition retrieve :: "string \<Rightarrow> 'g::linorder vector_cache result \<Rightarrow> index_db \<Rightarrow> query \<Rightarrow> bound_path_filter \<Rightarrow> json \<Rightarrow>
    (hit list \<times> json \<times> bool) result" where
  "retrieve no_rows opened db q paths coverage =
     (case opened of
        Inl e \<Rightarrow> Inl e
      | Inr vc \<Rightarrow>
          (case retrieve_rows vc (candidate_regions db q paths) retrieval_start of
             Inl e \<Rightarrow> Inl e
           | Inr s0 \<Rightarrow>
               (let s = finish_file s0;
                    ranked = sort_by semantic_le (rt_heap s)
                in case semantic_rows no_rows db ranked of
                     Inl e \<Rightarrow> Inl e
                   | Inr hits \<Rightarrow>
                       Inr (hits,
                         json_set ''semantic_status'' (JStr (if rt_pending s = 0 then ''ready'' else ''partial''))
                         (json_set ''semantic_scope'' (JStr ''query_filters'')
                         (json_set ''semantic_failures'' (JNum (int (vc_corrupt_misses vc)))
                         (json_set ''semantic_pending'' (JNum (int (rt_pending s)))
                         (json_set ''semantic_regions'' (JNum (int (rt_embedded s)))
                         (json_set ''semantic_total_regions'' (JNum (int (rt_embedded s + rt_pending s)))
                         (json_set ''semantic_files'' (JNum (int (rt_complete s))) coverage)))))),
                         rt_ranked s > SEMANTIC_FILE_LIMIT))))"

section \<open>Fusion with the lexical order\<close>

definition semantic_append :: "unicode \<Rightarrow> 'f::linorder float_ops \<Rightarrow> string \<Rightarrow> 'g::linorder vector_cache result \<Rightarrow> index_db \<Rightarrow> query \<Rightarrow>
    bound_path_filter \<Rightarrow> fusion_policy \<Rightarrow> hit list \<Rightarrow> json \<Rightarrow> hit list \<times> json \<times> bool" where
  "semantic_append u ops no_rows opened db q paths policy hits coverage =
     (case retrieve no_rows opened db q paths coverage of
        Inr (semantic_hits, semantic_coverage, truncated) \<Rightarrow>
          (fuse_search_file_lanes u ops policy [hits, semantic_hits], semantic_coverage, truncated)
      | Inl e \<Rightarrow>
          (hits,
           json_set ''semantic_failures'' (JNum (int (saturating_add
               (case as_u64 (json_get ''semantic_failures'' coverage) of Some n \<Rightarrow> n | None \<Rightarrow> 0) 1)))
             (json_set ''semantic_reason'' (JStr e) (json_set ''semantic_status'' (JStr ''partial'') coverage)),
           False))"

section \<open>Scope\<close>

definition retrieval_from :: "region_entry list \<Rightarrow> 'g retrieval \<Rightarrow> bool" where
  "retrieval_from rs s \<longleftrightarrow> (\<forall>h \<in> set (rt_heap s) \<union> set_option (rt_best s). sh_id h \<in> re_id ` set rs)"

lemma retain_hit_subset: "set (retain_hit h heap) \<subseteq> insert h (set heap)"
  by (auto simp: retain_hit_def Let_def dest: in_set_butlastD split: if_splits)

lemma finish_file_from: "retrieval_from rs s \<Longrightarrow> retrieval_from rs (finish_file s)"
  using retain_hit_subset [of _ "rt_heap s"] by (fastforce simp: retrieval_from_def finish_file_def Let_def split: option.splits)

lemma retrieve_rows_from:
  "retrieve_rows vc rs s = Inr s' \<Longrightarrow> set rs \<subseteq> set all \<Longrightarrow> retrieval_from all s \<Longrightarrow> retrieval_from all s'"
proof (induction rs arbitrary: s)
  case (Cons r rs)
  obtain t where t: "retrieve_row vc r s = Inr t" using Cons.prems(1) by (cases "retrieve_row vc r s") auto
  define s1 where "s1 = (if rt_previous s \<noteq> Some (re_file r)
     then (finish_file s)\<lparr>rt_previous := Some (re_file r), rt_missing := False\<rparr> else s)"
  have "retrieval_from all s1" using finish_file_from [OF Cons.prems(3)] Cons.prems(3) by (auto simp: s1_def retrieval_from_def)
  with t Cons.prems(2) have "retrieval_from all t"
    unfolding retrieve_row_def s1_def [symmetric] Let_def
    by (auto simp: retrieval_from_def split: sum.splits option.splits if_splits)
  with Cons t show ?case by auto
qed simp

lemma semantic_rows_mem:
  "semantic_rows no_rows db hs = Inr hits \<Longrightarrow> x \<in> set hits \<Longrightarrow> \<exists>h \<in> set hs. semantic_row no_rows db h = Inr x"
  by (induction hs arbitrary: hits) (auto split: sum.splits)

text \<open>Region ids are primary keys.\<close>

lemma find_region: "distinct (map re_id rs) \<Longrightarrow> r \<in> set rs \<Longrightarrow> find (\<lambda>x. re_id x = re_id r) rs = Some r"
  by (induction rs) (auto simp: image_iff)

lemma candidate_regions_mem:
  "r \<in> set (candidate_regions db q paths) \<Longrightarrow> r \<in> set (db_regions db) \<and> kind_passes (q_kind q) (re_kind r)
     \<and> (\<exists>f. file_of db (re_file r) = Some f \<and> passes paths (q_language q) f)"
  by (auto simp: candidate_regions_def split: option.splits)

lemma retrieve_scope:
  fixes opened :: "'g::linorder vector_cache result"
  assumes "distinct (map re_id (db_regions db))"
    and "retrieve no_rows opened db q paths coverage = Inr (hits, coverage', t)" "x \<in> set hits"
  shows "hit_in_scope db paths (q_language q) (q_kind q) x"
proof -
  from assms(2) obtain vc :: "'g vector_cache" and s0 where s0: "retrieve_rows vc (candidate_regions db q paths) retrieval_start = Inr s0"
      and rows: "semantic_rows no_rows db (sort_by semantic_le (rt_heap (finish_file s0))) = Inr hits"
    by (auto simp: retrieve_def Let_def split: sum.splits)
  have "retrieval_from (candidate_regions db q paths) (finish_file s0)"
    by (rule finish_file_from) (rule retrieve_rows_from [OF s0 order_refl], simp add: retrieval_from_def retrieval_start_def)
  with semantic_rows_mem [OF rows assms(3)] obtain h :: "'g semantic_hit" and r where h: "semantic_row no_rows db h = Inr x"
      "r \<in> set (candidate_regions db q paths)" "sh_id h = re_id r"
    by (fastforce simp: retrieval_from_def)
  from candidate_regions_mem [OF h(2)] obtain f where r: "r \<in> set (db_regions db)" "kind_passes (q_kind q) (re_kind r)"
      "file_of db (re_file r) = Some f" "passes paths (q_language q) f" by blast
  from find_region [OF assms(1) r(1)] h(1,3) obtain f' bs where "located db (re_file r) = Some (f', bs)"
      "x = region_hit ''semantic'' r f' bs"
    by (auto simp: semantic_row_def split: option.splits)
  with located_file [of db "re_file r" f' bs] r show ?thesis by (auto simp: region_hit_def intro: hit_row_in_scope)
qed

lemma semantic_append_scope:
  assumes "distinct (map re_id (db_regions db))"
    and "\<And>x. x \<in> set hits \<Longrightarrow> hit_in_scope db paths (q_language q) (q_kind q) x"
    and "semantic_append u ops no_rows opened db q paths policy hits coverage = (hits', coverage', t)" "x \<in> set hits'"
  shows "hit_in_scope db paths (q_language q) (q_kind q) x"
  using assms retrieve_scope [OF assms(1)] fuse_from_lanes by (fastforce simp: semantic_append_def split: sum.splits)

end
