(* ===== verification/TP_Snippets.thy ===== *)
theory TP_Snippets
  imports TP_Index TP_Utf8
begin

text \<open>
  \<open>src/search/snippets.rs\<close>: the one-line preview of a hit.  At most 2000 lines of the span are scanned; the best line has
  the most term evidence, then the best class, then comes first.
\<close>

section \<open>Terms\<close>

definition SNIPPET_HITS :: nat where "SNIPPET_HITS = 200"
definition SNIPPET_CHARS :: nat where "SNIPPET_CHARS = 120"
definition SCAN_LINES :: nat where "SCAN_LINES = 2000"

definition preview_terms :: "unicode \<Rightarrow> string \<Rightarrow> string list" where
  "preview_terms u txt =
     fold (\<lambda>term terms. if term \<in> set terms then terms else terms @ [term])
       (map (u_lower u) (filter (\<lambda>t. length t \<ge> 2) (split_where (\<lambda>ch. \<not> u_alphanumeric u ch \<and> ch \<noteq> ''_'') txt))) []"

section \<open>Choosing a line\<close>

text \<open>The evidence (negated, so that more comes first) and the class of a line; \<open>None\<close> for a blank one.\<close>

type_synonym preview_rank = "int \<times> nat"

definition comment_markers :: "string list" where
  "comment_markers = [''//'', ''/*'', ''*'', ''#'', ''--'', '';'']"

definition line_matches :: "unicode \<Rightarrow> string list \<Rightarrow> bytes \<Rightarrow> nat" where
  "line_matches u terms line = length (filter (\<lambda>term. contains_sub term (u_lower u (from_utf8_lossy line))) terms)"

definition line_rank :: "unicode \<Rightarrow> string list \<Rightarrow> string \<Rightarrow> bytes \<Rightarrow> preview_rank option" where
  "line_rank u terms name line =
     (let txt = from_utf8_lossy line;
          trimmed = trim_start u txt
      in if trimmed = [] then None
         else
           let lowered = u_lower u txt;
               matched = line_matches u terms line;
               named = (name \<noteq> [] \<and> contains_sub name lowered);
               comment = list_ex (\<lambda>marker. prefix marker trimmed) comment_markers;
               cls = (if matched > 0 then (if comment then 2 else 0)
                      else if named then (if comment then 3 else 1)
                      else (if comment then 5 else 4));
               evidence = 2 * matched + (if matched > 0 \<and> \<not> comment then 3 else 0)
           in Some (- int evidence, cls))"

type_synonym preview_choice = "preview_rank \<times> nat \<times> bytes"

fun preview_loop :: "unicode \<Rightarrow> string list \<Rightarrow> string \<Rightarrow> nat \<Rightarrow> nat \<Rightarrow> (nat \<times> bytes) list \<Rightarrow> nat \<Rightarrow> preview_choice option \<Rightarrow>
    preview_choice option" where
  "preview_loop u terms name stop first_line [] position best = best"
| "preview_loop u terms name stop first_line ((offset, line) # rest) position best =
     (if offset > 0 \<and> position \<ge> stop then best
      else case line_rank u terms name line of
        None \<Rightarrow> preview_loop u terms name stop first_line rest (position + length line + 1) best
      | Some rank \<Rightarrow>
          if (case best of None \<Rightarrow> True | Some (old, _) \<Rightarrow> rank < old)
          then if line_matches u terms line = length terms \<and> snd rank = 0 then Some (rank, first_line + offset, line)
               else preview_loop u terms name stop first_line rest (position + length line + 1) (Some (rank, first_line + offset, line))
          else preview_loop u terms name stop first_line rest (position + length line + 1) best)"

definition make_snippet :: "unicode \<Rightarrow> nat \<Rightarrow> string \<Rightarrow> snippet_text" where
  "make_snippet u line txt =
     (let clean = map (\<lambda>ch. if u_control u ch then '' '' else ch) (chars_of (str_trim u txt))
      in \<lparr>snip_line = line,
          snip_text = concat (take SNIPPET_CHARS clean)
            @ (if length clean > SNIPPET_CHARS then [CHR 0xE2, CHR 0x80, CHR 0xA6] else [])\<rparr>)"

definition preview :: "unicode \<Rightarrow> bytes \<Rightarrow> nat \<Rightarrow> nat \<Rightarrow> nat \<Rightarrow> string list \<Rightarrow> string \<Rightarrow> snippet_text option" where
  "preview u bs start stop first_line terms name =
     (let start = min start (length bs);
          begin = (case rposition_of (\<lambda>b. b = LF) (take start bs) of None \<Rightarrow> 0 | Some index \<Rightarrow> index + 1);
          stop = max start (min stop (length bs));
          name = u_lower u name
      in map_option (\<lambda>(_, number, line). make_snippet u number (from_utf8_lossy line))
           (preview_loop u terms name stop first_line
             (take SCAN_LINES (enumerate 0 (split_char LF (drop begin bs)))) begin None))"

section \<open>Attaching\<close>

definition attach_one :: "unicode \<Rightarrow> index_db \<Rightarrow> string list \<Rightarrow> hit \<Rightarrow> hit" where
  "attach_one u db terms h =
     (if hit_snippet h \<noteq> None then h
      else case hit_revision h of
        None \<Rightarrow> h
      | Some revision \<Rightarrow>
          (case map_of (db_contents db) revision of
             None \<Rightarrow> h
           | Some bs \<Rightarrow> h\<lparr>hit_snippet := preview u bs (hit_start h) (hit_end h) (hit_start_line h) terms (hit_name h)\<rparr>))"

definition attach :: "unicode \<Rightarrow> index_db \<Rightarrow> string list \<Rightarrow> hit list \<Rightarrow> hit list" where
  "attach u db terms hits = map (attach_one u db terms) (take SNIPPET_HITS hits) @ drop SNIPPET_HITS hits"

section \<open>The best line\<close>

text \<open>The lines the loop looks at: the first of the span's line, and those that start before its end.\<close>

fun scanned :: "nat \<Rightarrow> (nat \<times> bytes) list \<Rightarrow> nat \<Rightarrow> (nat \<times> bytes) list" where
  "scanned stop [] position = []"
| "scanned stop ((offset, line) # rest) position =
     (if offset > 0 \<and> position \<ge> stop then []
      else (offset, line) # scanned stop rest (position + length line + 1))"

definition improve :: "unicode \<Rightarrow> string list \<Rightarrow> string \<Rightarrow> nat \<Rightarrow> nat \<times> bytes \<Rightarrow> preview_choice option \<Rightarrow> preview_choice option" where
  "improve u terms name first_line = (\<lambda>(offset, line) best.
     case line_rank u terms name line of
       None \<Rightarrow> best
     | Some rank \<Rightarrow> if (case best of None \<Rightarrow> True | Some (old, _) \<Rightarrow> rank < old)
         then Some (rank, first_line + offset, line) else best)"

lemma line_matches_le: "line_matches u terms line \<le> length terms"
  by (simp add: line_matches_def)

lemma line_rank_bound:
  "line_rank u terms name line = Some rank \<Longrightarrow> (- int (2 * length terms + 3), 0) \<le> rank"
  using line_matches_le [of u terms line] by (auto simp: line_rank_def Let_def split: if_splits)

lemma line_rank_top:
  "line_rank u terms name line = Some rank \<Longrightarrow> line_matches u terms line = length terms \<Longrightarrow> snd rank = 0 \<Longrightarrow>
   rank = (- int (2 * length terms + 3), 0)"
  by (auto simp: line_rank_def Let_def split: if_splits)

lemma improve_top: "fold (improve u terms name first_line) ls (Some ((- int (2 * length terms + 3), 0), c)) = Some ((- int (2 * length terms + 3), 0), c)"
proof (induction ls)
  case (Cons l ls)
  obtain offset line where l: "l = (offset, line)" by (cases l)
  have "improve u terms name first_line l (Some ((- int (2 * length terms + 3), 0), c)) = Some ((- int (2 * length terms + 3), 0), c)"
    using line_rank_bound [of u terms name line] by (auto simp: improve_def l split: option.splits)
  with Cons show ?case by simp
qed simp

lemma preview_loop_fold:
  "preview_loop u terms name stop first_line ls position best = fold (improve u terms name first_line) (scanned stop ls position) best"
proof (induction ls arbitrary: position best)
  case (Cons l ls)
  obtain offset line where l: "l = (offset, line)" by (cases l)
  show ?case
  proof (cases "line_rank u terms name line")
    case (Some rank)
    then show ?thesis
      using Cons line_rank_top [OF Some] improve_top [of u terms name first_line _ "(first_line + offset, line)"]
      by (auto simp: l improve_def)
  qed (simp add: l Cons improve_def)
qed simp

text \<open>Keeping strict improvements keeps the first of the best.\<close>

lemma improve_none:
  "fold (improve u terms name first_line) ls None = None \<longleftrightarrow> (\<forall>(k, l) \<in> set ls. line_rank u terms name l = None)"
proof (induction ls rule: rev_induct)
  case (snoc x xs)
  have "improve u terms name first_line x old = None \<longleftrightarrow> old = None \<and> line_rank u terms name (snd x) = None" for old
    by (cases x) (auto simp: improve_def split: option.splits)
  with snoc show ?case by (auto simp: case_prod_beta)
qed simp

lemma improve_best:
  "fold (improve u terms name first_line) ls None = Some (rank, number, line) \<Longrightarrow>
   \<exists>before offset after. ls = before @ (offset, line) # after \<and> number = first_line + offset
     \<and> line_rank u terms name line = Some rank
     \<and> (\<forall>(k, l) \<in> set before. \<forall>r. line_rank u terms name l = Some r \<longrightarrow> rank < r)
     \<and> (\<forall>(k, l) \<in> set after. \<forall>r. line_rank u terms name l = Some r \<longrightarrow> rank \<le> r)"
proof (induction ls arbitrary: rank number line rule: rev_induct)
  case (snoc x xs)
  obtain k l where x: "x = (k, l)" by (cases x)
  let ?old = "fold (improve u terms name first_line) xs None"
  have blank: "line_rank u terms name l' = None" if "?old = None" "(k', l') \<in> set xs" for k' l'
    using improve_none [of u terms name first_line xs] that by fastforce
  show ?case
  proof (cases "?old")
    case None
    with snoc.prems have "line_rank u terms name l = Some rank" "number = first_line + k" "line = l"
      by (auto simp: x improve_def split: option.splits)
    then show ?thesis using blank [OF None] by (intro exI [of _ xs] exI [of _ k] exI [of _ "[]"]) (auto simp: x)
  next
    case (Some old)
    obtain r0 n0 l0 where old: "old = (r0, n0, l0)" by (cases old)
    from snoc.IH [of r0 n0 l0] Some old obtain before offset after where split:
      "xs = before @ (offset, l0) # after" "n0 = first_line + offset" "line_rank u terms name l0 = Some r0"
      "\<forall>(k, l) \<in> set before. \<forall>r. line_rank u terms name l = Some r \<longrightarrow> r0 < r"
      "\<forall>(k, l) \<in> set after. \<forall>r. line_rank u terms name l = Some r \<longrightarrow> r0 \<le> r" by blast
    show ?thesis
    proof (cases "\<exists>r. line_rank u terms name l = Some r \<and> r < r0")
      case True
      with snoc.prems Some old have new: "line_rank u terms name l = Some rank" "number = first_line + k" "line = l" "rank < r0"
        by (auto simp: x improve_def split: option.splits if_splits)
      have "rank < r" if "(k', l') \<in> set xs" "line_rank u terms name l' = Some r" for k' l' r
      proof -
        have "(k', l') \<in> set before \<or> l' = l0 \<or> (k', l') \<in> set after" using that(1) split(1) by auto
        then have "r0 \<le> r" using that(2) split(3) bspec [OF split(4), of "(k', l')"] bspec [OF split(5), of "(k', l')"]
          by (auto simp del: split_paired_All)
        with new(4) show ?thesis by simp
      qed
      then show ?thesis using new by (intro exI [of _ xs] exI [of _ k] exI [of _ "[]"]) (auto simp: x)
    next
      case False
      with snoc.prems Some old have keep: "rank = r0" "number = n0" "line = l0"
        by (auto simp: x improve_def simp del: split_paired_All split_paired_Ex split: option.splits if_splits)
      have "r0 \<le> r" if "line_rank u terms name l = Some r" for r using that False by (meson not_less)
      then show ?thesis using split keep by (intro exI [of _ before] exI [of _ offset] exI [of _ "after @ [x]"]) (auto simp: x)
    qed
  qed
qed simp

section \<open>Snippets are one line\<close>

lemma lossy_no_LF: "LF \<notin> set s \<Longrightarrow> LF \<notin> set (from_utf8_lossy s)"
proof (induction s rule: from_utf8_lossy.induct)
  case (2 b rest)
  then show ?case by (auto simp: REPLACEMENT_def split: sum.splits dest: in_set_dropD in_set_takeD)
qed simp

lemma chars_count: "length (chars_of s) \<le> length s"
  by (induction s rule: chars_of.induct) auto

lemma make_snippet_no_LF: "LF \<notin> set txt \<Longrightarrow> LF \<notin> set (snip_text (make_snippet u n txt))"
proof -
  assume "LF \<notin> set txt"
  then have "LF \<notin> set (str_trim u txt)" using set_mono_sublist [OF str_trim_sublist] by blast
  then have "LF \<notin> set ch" if "ch \<in> set (chars_of (str_trim u txt))" for ch
    using that sublist_concat_elem [of ch "chars_of (str_trim u txt)"] set_mono_sublist by fastforce
  then show ?thesis by (auto simp: make_snippet_def Let_def dest!: in_set_takeD split: if_splits)
qed

text \<open>
  The preview of a span is its best scanned line.  Among the lines from the one that holds the span's start, as far as
  they begin before its end and at most 2000 of them, the previewed line is the first of those of least rank (more term
  evidence, then a better class); stopping early at a code line with every term changes nothing.  There is no preview
  exactly when every scanned line is blank; and a preview is a single line.
\<close>

theorem preview_best_line:
  assumes "begin = (case rposition_of (\<lambda>b. b = LF) (take (min start (length bs)) bs) of None \<Rightarrow> 0 | Some index \<Rightarrow> index + 1)"
    and "lines = scanned (max (min start (length bs)) (min stop (length bs)))
       (take 2000 (enumerate 0 (split_char LF (drop begin bs)))) begin"
  shows "case preview u bs start stop first_line terms name of
       None \<Rightarrow> \<forall>(k, l) \<in> set lines. line_rank u terms (u_lower u name) l = None
     | Some s \<Rightarrow> LF \<notin> set (snip_text s) \<and>
         (\<exists>before offset line after rank. lines = before @ (offset, line) # after
            \<and> s = make_snippet u (first_line + offset) (from_utf8_lossy line)
            \<and> line_rank u terms (u_lower u name) line = Some rank
            \<and> (\<forall>(k, l) \<in> set before. \<forall>r. line_rank u terms (u_lower u name) l = Some r \<longrightarrow> rank < r)
            \<and> (\<forall>(k, l) \<in> set after. \<forall>r. line_rank u terms (u_lower u name) l = Some r \<longrightarrow> rank \<le> r))"
proof -
  let ?name = "u_lower u name"
  let ?best = "fold (improve u terms ?name first_line) lines None"
  have preview: "preview u bs start stop first_line terms name =
      map_option (\<lambda>(_, number, line). make_snippet u number (from_utf8_lossy line)) ?best"
    unfolding preview_def Let_def preview_loop_fold assms(2) SCAN_LINES_def assms(1) [symmetric] by simp
  have no_LF: "LF \<notin> set line" if "(offset, line) \<in> set lines" for offset line
  proof -
    have sub: "set (scanned stop ls p) \<subseteq> set ls" for stop p and ls :: "(nat \<times> bytes) list"
      by (induction stop ls p rule: scanned.induct) auto
    have "(offset, line) \<in> set (enumerate 0 (split_char LF (drop begin bs)))"
      using that sub assms(2) by (blast dest: in_set_takeD)
    then have "line \<in> set (split_char LF (drop begin bs))" by (metis in_set_zipE enumerate_eq_zip)
    then show ?thesis by (rule split_char_pieces)
  qed
  show ?thesis
  proof (cases ?best)
    case None
    with preview improve_none [of u terms ?name first_line lines] show ?thesis by simp
  next
    case (Some c)
    obtain rank number line where c: "c = (rank, number, line)" by (cases c)
    from improve_best [of u terms ?name first_line lines rank number line] Some c obtain before offset after where
      split: "lines = before @ (offset, line) # after" "number = first_line + offset"
        "line_rank u terms ?name line = Some rank"
        "\<forall>(k, l) \<in> set before. \<forall>r. line_rank u terms ?name l = Some r \<longrightarrow> rank < r"
        "\<forall>(k, l) \<in> set after. \<forall>r. line_rank u terms ?name l = Some r \<longrightarrow> rank \<le> r" by blast
    moreover have "LF \<notin> set (snip_text (make_snippet u number (from_utf8_lossy line)))"
      using split(1) no_LF [of offset line] by (simp add: make_snippet_no_LF lossy_no_LF)
    moreover have result: "preview u bs start stop first_line terms name = Some (make_snippet u number (from_utf8_lossy line))"
      using preview Some c by simp
    ultimately show ?thesis unfolding result option.case by blast
  qed
qed

theorem preview_best_line_witness:
  "case preview ascii_unicode ''a  b'' 0 4 7 [''b''] [] of
     None \<Rightarrow> False | Some s \<Rightarrow> LF \<notin> set (snip_text s)"
proof -
  have some: "preview ascii_unicode ''a  b'' 0 4 7 [''b''] [] \<noteq> None" by code_simp
  from preview_best_line [OF refl refl, where u = ascii_unicode and bs = "''a  b''" and start = 0 and stop = 4
      and first_line = 7 and terms = "[''b'']" and name = "[]"] some
  show ?thesis by (auto split: option.splits)
qed

end
