(* ===== verification/TP_Live.thy ===== *)
theory TP_Live
  imports TP_Snippets TP_Declarations
begin

text \<open>
  \<open>src/search/live.rs\<close> with \<open>extract::language\<close>: a \<open>re:\<close> query reads the working tree.  The directory walk, contained reads,
  the regular-expression engine, the content hash and declaration extraction are arguments: the entries the filtered
  walk yields in order, the bytes or the error of each read, the compiled matcher's successive matches, the digest, the
  definitions of a source.
\<close>

section \<open>Languages\<close>

definition language_of_path :: "string \<Rightarrow> string" where
  "language_of_path path =
     (let ext = last (split_char (CHR ''.'') path)
      in if ext = ''rs'' then ''rust''
         else if ext \<in> {''ts'', ''tsx'', ''mts'', ''cts''} then ''typescript''
         else if ext \<in> {''js'', ''jsx'', ''mjs'', ''cjs''} then ''javascript''
         else if ext = ''cs'' then ''csharp''
         else if ext \<in> {''php'', ''phtml''} then ''php''
         else if ext \<in> {''luau'', ''lua''} then ''luau''
         else if ext \<in> {''dm'', ''dme'', ''dmf''} then ''dreammaker''
         else ''text'')"

section \<open>Scanning\<close>

datatype walk_entry = WalkError | NotAFile | WalkFile bytes

record live_env =
  lv_compile :: "string \<Rightarrow> (bytes \<Rightarrow> (nat \<times> nat) list) result"
  lv_walk :: "walk_entry list"
  lv_read :: "bytes \<Rightarrow> bytes result"
  lv_hash :: "bytes \<Rightarrow> string"
  lv_extract :: "string \<Rightarrow> bytes \<Rightarrow> extracted_definition list"

record live_state =
  ls_hits :: "hit list"
  ls_truncated :: bool
  ls_failures :: nat
  ls_excluded :: nat
  ls_walk_failures :: nat
  ls_checked :: nat

text \<open>\<open>min_by_key\<close>: the first definition of least extent.\<close>

fun first_min :: "('a \<Rightarrow> nat) \<Rightarrow> 'a list \<Rightarrow> 'a option" where
  "first_min key [] = None"
| "first_min key (x # xs) =
     (case first_min key xs of None \<Rightarrow> Some x | Some y \<Rightarrow> if key y < key x then Some y else Some x)"

definition enclosing_definition :: "string \<Rightarrow> extracted_definition list option \<Rightarrow> nat \<Rightarrow> nat \<Rightarrow> extracted_definition option" where
  "enclosing_definition kind extraction start stop =
     (case extraction of
        None \<Rightarrow> None
      | Some defs \<Rightarrow>
          first_min (\<lambda>d. ed_end d - ed_start d)
            (filter (\<lambda>d. ed_start d \<le> start \<and> ed_end d \<ge> stop \<and> (kind = [] \<or> kind = ed_kind d)) defs))"

definition live_hit :: "unicode \<Rightarrow> string \<Rightarrow> string \<Rightarrow> bytes \<Rightarrow> nat \<times> nat \<Rightarrow> extracted_definition option \<Rightarrow> hit" where
  "live_hit u path revision source = (\<lambda>(start, stop) d.
     let (start_line, end_line) = line_span source start stop
     in \<lparr>hit_handle = [], hit_path = path, hit_revision = Some revision, hit_start = start, hit_end = stop,
         hit_start_line = start_line, hit_end_line = end_line,
         hit_name = concat (take 96 (chars_of (from_utf8_lossy (slice start stop source)))),
         hit_kind = (case d of Some d \<Rightarrow> ed_kind d | None \<Rightarrow> ''region''), hit_container = map_option ed_name d,
         hit_provenance = Some ''live_regex'', hit_resolution = None, hit_candidates = [], hit_target = None,
         hit_snippet = preview u source start stop start_line [] [], hit_repeats = None\<rparr>)"

fun live_matches :: "unicode \<Rightarrow> string \<Rightarrow> string \<Rightarrow> string \<Rightarrow> bytes \<Rightarrow> extracted_definition list option \<Rightarrow> (nat \<times> nat) list \<Rightarrow>
    nat option \<Rightarrow> hit list \<times> bool \<Rightarrow> hit list \<times> bool" where
  "live_matches u kind path revision source extraction [] previous st = st"
| "live_matches u kind path revision source extraction (m # ms) previous (hits, truncated) =
     (let start_line = fst (line_span source (fst m) (snd m));
          d = enclosing_definition kind extraction (fst m) (snd m)
      in if previous = Some start_line then live_matches u kind path revision source extraction ms previous (hits, truncated)
         else if kind \<noteq> [] \<and> d = None then live_matches u kind path revision source extraction ms previous (hits, truncated)
         else if length hits \<ge> MAX_HITS then (hits, True)
         else live_matches u kind path revision source extraction ms (Some start_line)
                (hits @ [live_hit u path revision source m d], truncated))"

definition live_file :: "unicode \<Rightarrow> live_env \<Rightarrow> query \<Rightarrow> bound_path_filter \<Rightarrow> (bytes \<Rightarrow> (nat \<times> nat) list) \<Rightarrow> bytes \<Rightarrow>
    live_state \<Rightarrow> live_state" where
  "live_file u env q paths regex relative st =
     (let path = encode_path relative
      in if \<not> BoundPathFilter_matches paths path \<or> (q_language q \<noteq> [] \<and> q_language q \<noteq> language_of_path path) then st
         else case lv_read env relative of
           Inl e \<Rightarrow> if prefix ''source_excluded'' e then st\<lparr>ls_excluded := ls_excluded st + 1\<rparr>
                    else st\<lparr>ls_failures := ls_failures st + 1\<rparr>
         | Inr source \<Rightarrow>
             if CHR 0x00 \<in> set source then st\<lparr>ls_excluded := ls_excluded st + 1\<rparr>
             else
               let extraction = (if q_kind q \<noteq> [] \<and> regex source \<noteq> [] then Some (lv_extract env path source) else None);
                   (hits, truncated) = live_matches u (q_kind q) path (lv_hash env source) source extraction (regex source)
                     None (ls_hits st, ls_truncated st)
               in st\<lparr>ls_checked := ls_checked st + 1, ls_hits := hits, ls_truncated := truncated\<rparr>)"

fun live_entry :: "unicode \<Rightarrow> live_env \<Rightarrow> query \<Rightarrow> bound_path_filter \<Rightarrow> (bytes \<Rightarrow> (nat \<times> nat) list) \<Rightarrow> walk_entry \<Rightarrow>
    live_state \<Rightarrow> live_state" where
  "live_entry u env q paths regex WalkError st = st\<lparr>ls_walk_failures := ls_walk_failures st + 1\<rparr>"
| "live_entry u env q paths regex NotAFile st = st"
| "live_entry u env q paths regex (WalkFile relative) st = live_file u env q paths regex relative st"

definition live_scan :: "unicode \<Rightarrow> live_env \<Rightarrow> query \<Rightarrow> bound_path_filter \<Rightarrow> live_state result" where
  "live_scan u env q paths =
     (case lv_compile env (q_text q) of
        Inl e \<Rightarrow> Inl e
      | Inr regex \<Rightarrow>
          Inr (fold (live_entry u env q paths regex) (lv_walk env)
            \<lparr>ls_hits = [], ls_truncated = False, ls_failures = 0, ls_excluded = 0, ls_walk_failures = 0, ls_checked = 0\<rparr>))"

section \<open>Properties\<close>

definition live_hit_ok :: "query \<Rightarrow> bound_path_filter \<Rightarrow> hit \<Rightarrow> bool" where
  "live_hit_ok q paths h \<longleftrightarrow> BoundPathFilter_matches paths (hit_path h)
     \<and> (q_language q = [] \<or> q_language q = language_of_path (hit_path h)) \<and> kind_passes (q_kind q) (hit_kind h)"

lemma first_min_mem: "first_min key xs = Some x \<Longrightarrow> x \<in> set xs"
  by (induction xs arbitrary: x) (auto split: option.splits if_splits)

lemma enclosing_kind: "enclosing_definition kind extraction a b = Some d \<Longrightarrow> kind_passes kind (ed_kind d)"
  by (auto simp: enclosing_definition_def kind_passes_def split: option.splits dest: first_min_mem)

lemma live_hit_fields:
  "hit_path (live_hit u path revision source m d) = path"
  "hit_kind (live_hit u path revision source m d) = (case d of Some d \<Rightarrow> ed_kind d | None \<Rightarrow> ''region'')"
  by (simp_all add: live_hit_def split: prod.splits)

definition live_page :: "query \<Rightarrow> bound_path_filter \<Rightarrow> hit list \<Rightarrow> bool" where
  "live_page q paths hits \<longleftrightarrow> list_all (live_hit_ok q paths) hits \<and> length hits \<le> MAX_HITS"

lemma live_matches_inv:
  assumes path: "BoundPathFilter_matches paths path" "q_language q = [] \<or> q_language q = language_of_path path"
  shows "live_page q paths (fst st) \<Longrightarrow>
   live_page q paths (fst (live_matches u (q_kind q) path revision source extraction ms previous st))"
proof (induction ms arbitrary: previous st)
  case (Cons m ms)
  obtain hits truncated where st: "st = (hits, truncated)" by (cases st)
  let ?d = "enclosing_definition (q_kind q) extraction (fst m) (snd m)"
  have ok: "live_hit_ok q paths (live_hit u path revision source m ?d)" if "q_kind q = [] \<or> ?d \<noteq> None"
    using that path enclosing_kind [of "q_kind q" extraction "fst m" "snd m"]
    by (auto simp: live_hit_ok_def live_hit_fields kind_passes_def split: option.splits)
  have more: "live_page q paths (hits @ [live_hit u path revision source m ?d])"
    if "q_kind q = [] \<or> ?d \<noteq> None" "length hits < MAX_HITS"
    using ok that Cons.prems by (simp add: live_page_def st)
  show ?case
    using Cons.IH Cons.prems more by (cases "q_kind q = []") (simp_all add: st Let_def not_le)
qed simp

lemma live_file_inv:
  "live_page q paths (ls_hits st) \<Longrightarrow> live_page q paths (ls_hits (live_file u env q paths regex relative st))"
  using live_matches_inv [of paths "encode_path relative" q "(ls_hits st, ls_truncated st)"]
  by (auto simp: live_file_def Let_def case_prod_beta split: sum.splits)

lemma live_scan_inv:
  assumes "live_scan u env q paths = Inr st"
  shows "live_page q paths (ls_hits st)"
proof -
  have "live_page q paths (ls_hits (live_entry u env q paths regex e s))" if "live_page q paths (ls_hits s)" for regex e s
    using that live_file_inv by (cases e) auto
  then have "live_page q paths (ls_hits (fold (live_entry u env q paths regex) es s))" if "live_page q paths (ls_hits s)" for regex es s
    using that by (induction es arbitrary: s) auto
  then show ?thesis using assms by (auto simp: live_scan_def live_page_def split: sum.splits)
qed

end
