(* ===== verification/TP_Search.thy ===== *)
theory TP_Search
  imports TP_Semantic_Lane TP_Live TP_Filter_Diagnosis
begin

text \<open>
  The composition in \<open>src/search.rs\<close>: \<open>search_prepared\<close> runs the lanes over one snapshot of the index, fuses them, adds the
  semantic lane, reranks, deduplicates, caps, previews and explains an empty filtered result; \<open>definitions\<close> answers exact
  lookups; \<open>search_with_session\<close> prepares the query vector first.  The external parts of the lanes are one record of
  arguments.  \<open>None\<close> would be a search that never ends.
\<close>

record ('f, 'r, 'g) search_env =
  se_unicode :: unicode
  se_ops :: "'f float_ops"
  se_fts :: "string \<Rightarrow> (int \<Rightarrow> 'r option) result"
  se_live :: live_env
  se_no_rows :: string
  se_null_error :: string
  se_finite :: "'g \<Rightarrow> bool"

record search_result =
  sr_generation :: int
  sr_coverage :: json
  sr_truncated :: bool
  sr_hits :: "hit list"

section \<open>The stages\<close>

definition bound_paths :: "index_db \<Rightarrow> query \<Rightarrow> bound_path_filter" where
  "bound_paths db q = PathFilter_bind (q_path q) (map fe_path (db_files db))"

definition search_policy :: "unicode \<Rightarrow> query \<Rightarrow> fusion_policy" where
  "search_policy u q =
     \<lparr>lane_weights = True, identifier_tier = (cq_identifier (ConceptQuery_parse u (q_text q)) \<noteq> None),
      fp_prior = PathPrior_for_query u q, prior_from_lane = 0\<rparr>"

definition live_coverage :: "live_state \<Rightarrow> json \<Rightarrow> json" where
  "live_coverage st coverage =
     json_set ''live_walk_failures'' (JNum (int (ls_walk_failures st)))
     (json_set ''live_excluded_files'' (JNum (int (ls_excluded st)))
     (json_set ''live_read_failures'' (JNum (int (ls_failures st)))
     (json_set ''live_checked_files'' (JNum (int (ls_checked st))) coverage)))"

definition lexical_stage :: "('f::linorder, 'r::linorder, 'g) search_env \<Rightarrow> index_db \<Rightarrow> query \<Rightarrow> (hit list \<times> bool \<times> json) result" where
  "lexical_stage env db q =
     (let u = se_unicode env;
          paths = bound_paths db q;
          policy = search_policy u q
      in if q_regex q then
           (case live_scan u (se_live env) q paths of
              Inl e \<Rightarrow> Inl e
            | Inr st \<Rightarrow> Inr (ls_hits st, ls_truncated st, live_coverage st (db_coverage db)))
         else
           let exact = exact_hits u db q paths
           in if \<not> q_exact q \<and> q_text q \<noteq> [] then
                (case concept_lanes u (se_fts env) db q paths (ConceptQuery_parse u (q_text q)) exact of
                   Inl e \<Rightarrow> Inl e
                 | Inr (lanes, truncated) \<Rightarrow> Inr (fuse_search_file_lanes u (se_ops env) policy lanes, truncated, db_coverage db))
              else if \<not> q_exact q \<and> (q_kind q = [] \<or> q_kind q = ''file'') then
                let files = file_hits u db q paths
                in Inr (fuse_search_file_lanes u (se_ops env) policy [lh_hits exact, lh_hits files],
                        lh_truncated exact \<or> lh_truncated files, db_coverage db)
              else Inr (if q_exact q then rank_definitions InvocationDirectory_root (lh_hits exact) else lh_hits exact,
                        lh_truncated exact, db_coverage db))"

definition semantic_stage :: "('f::linorder, 'r, 'g::linorder) search_env \<Rightarrow> index_db \<Rightarrow> query \<Rightarrow> 'g vector_cache result option \<Rightarrow>
    hit list \<times> bool \<times> json \<Rightarrow> hit list \<times> bool \<times> json" where
  "semantic_stage env db q vector = (\<lambda>(hits, truncated, coverage).
     let u = se_unicode env
     in case vector of
          Some opened \<Rightarrow>
            if \<not> q_exact q \<and> \<not> q_regex q \<and> \<not> literal (ConceptQuery_parse u (q_text q)) then
              let refusion = (search_policy u q)\<lparr>lane_weights := False, prior_from_lane := 1\<rparr>;
                  (hits', coverage', t) =
                    semantic_append u (se_ops env) (se_no_rows env) opened db q (bound_paths db q) refusion hits coverage
              in (hits', truncated \<or> t, coverage')
            else (hits, truncated, coverage)
        | None \<Rightarrow> (hits, truncated, coverage))"

definition rerank_stage :: "('f, 'r, 'g::linorder) search_env \<Rightarrow> index_db \<Rightarrow> query \<Rightarrow> (string \<Rightarrow> string list \<Rightarrow> 'g list result) option \<Rightarrow>
    hit list \<times> bool \<times> json \<Rightarrow> (hit list \<times> bool \<times> json) option" where
  "rerank_stage env db q reranker = (\<lambda>(hits, truncated, coverage).
     case reranker of
       None \<Rightarrow> Some (hits, truncated, coverage)
     | Some scorer \<Rightarrow>
         map_option (\<lambda>(hits', coverage'). (hits', truncated, coverage'))
           (rerank_apply (se_unicode env) (se_null_error env) db (q_text q) (search_policy (se_unicode env) q) (se_finite env)
             scorer hits coverage))"

definition hit_identity :: "hit \<Rightarrow> string \<times> nat \<times> nat \<times> string" where
  "hit_identity h = (hit_path h, hit_start h, hit_end h, hit_kind h)"

definition file_rows :: "index_db \<Rightarrow> file_row list" where
  "file_rows db = map (\<lambda>f. \<lparr>row_path = fe_path f, row_language = fe_language f\<rparr>) (db_files db)"

definition page_stage :: "unicode \<Rightarrow> index_db \<Rightarrow> query \<Rightarrow> hit list \<times> bool \<times> json \<Rightarrow> search_result" where
  "page_stage u db q = (\<lambda>(hits, truncated, coverage).
     let distinct_hits = first_by hit_identity hits;
         capped = take MAX_HITS distinct_hits;
         truncated' = (truncated \<or> length distinct_hits > MAX_HITS);
         shown = attach u db (preview_terms u (q_text q)) capped;
         coverage' =
           (if shown = [] then
              (case diagnose_empty_filters (file_rows db) (bound_paths db q) (q_language q) of
                 Some diagnosis \<Rightarrow> json_set ''filter_diagnosis'' (JStr diagnosis) coverage
               | None \<Rightarrow> coverage)
            else coverage)
     in \<lparr>sr_generation = db_generation db, sr_coverage = coverage', sr_truncated = truncated', sr_hits = shown\<rparr>)"

definition search_prepared :: "('f::linorder, 'r::linorder, 'g::linorder) search_env \<Rightarrow> index_db \<Rightarrow> query \<Rightarrow>
    'g vector_cache result option \<Rightarrow> (string \<Rightarrow> string list \<Rightarrow> 'g list result) option \<Rightarrow> search_result result option" where
  "search_prepared env db q vector reranker =
     (case lexical_stage env db q of
        Inl e \<Rightarrow> Some (Inl e)
      | Inr st \<Rightarrow>
          map_option (\<lambda>st'. Inr (page_stage (se_unicode env) db q st'))
            (rerank_stage env db q reranker (semantic_stage env db q vector st)))"

section \<open>Entry points\<close>

definition semantic_enabled :: "bool \<Rightarrow> query \<Rightarrow> bool" where
  "semantic_enabled semantic q \<longleftrightarrow> semantic \<and> \<not> q_exact q \<and> \<not> q_regex q"

text \<open>\<open>prepare\<close> is the session's inference of the query vector, called with whether it is wanted.\<close>

definition search_with_session :: "('f::linorder, 'r::linorder, 'g::linorder) search_env \<Rightarrow> index_db \<Rightarrow> query \<Rightarrow> bool \<Rightarrow> bool \<Rightarrow>
    (bool \<Rightarrow> string \<Rightarrow> 'g vector_cache result option result) \<Rightarrow> (string \<Rightarrow> string list \<Rightarrow> 'g list result) \<Rightarrow>
    search_result result option" where
  "search_with_session env db q semantic rerank prepare scorer =
     (let (prepared, status) =
            (case prepare (semantic_enabled semantic q) (q_text q) of Inr p \<Rightarrow> (p, None) | Inl e \<Rightarrow> (None, Some e));
          reranker = (if rerank \<and> \<not> q_exact q \<and> \<not> q_regex q then Some scorer else None)
      in map_option (\<lambda>output.
           case (status, output) of
             (Some e, Inr r) \<Rightarrow>
               Inr (r\<lparr>sr_coverage :=
                 json_set ''semantic_reason'' (JStr e)
                   (json_set ''semantic_status''
                     (JStr (if prefix ''semantic_cache_locked:'' e then ''partial'' else ''unavailable'')) (sr_coverage r))\<rparr>)
           | _ \<Rightarrow> output)
         (search_prepared env db q prepared reranker))"

definition definitions :: "unicode \<Rightarrow> index_db \<Rightarrow> query \<Rightarrow> string \<Rightarrow> search_result" where
  "definitions u db q origin =
     (let lane = declaration_hits u db q (bound_paths db q);
          hits = rank_definitions origin (lh_hits lane)
      in \<lparr>sr_generation = db_generation db, sr_coverage = db_coverage db, sr_truncated = lh_truncated lane,
          sr_hits = attach u db (preview_terms u (q_text q)) hits\<rparr>)"

section \<open>Properties\<close>

definition in_scope :: "index_db \<Rightarrow> query \<Rightarrow> hit \<Rightarrow> bool" where
  "in_scope db q h \<longleftrightarrow>
     (if q_regex q then live_hit_ok q (bound_paths db q) h
      else hit_in_scope db (bound_paths db q) (q_language q) (q_kind q) h)"

lemma rank_definitions_set: "set (rank_definitions origin hits) = set hits"
  by (simp add: rank_definitions_def rank_declarations_def)

lemma lexical_stage_scope:
  assumes "lexical_stage env db q = Inr (hits, t, c)" "h \<in> set hits"
  shows "in_scope db q h"
proof (cases "q_regex q")
  case True
  with assms show ?thesis
    by (auto simp: lexical_stage_def Let_def in_scope_def live_page_def list_all_iff split: sum.splits dest!: live_scan_inv)
next
  case False
  let ?u = "se_unicode env" and ?paths = "bound_paths db q"
  let ?exact = "exact_hits ?u db q ?paths"
  have lanes: "in_scope db q h" if "h \<in> set (fuse_search_file_lanes u ops policy ls)"
      "\<And>lane x. lane \<in> set ls \<Longrightarrow> x \<in> set lane \<Longrightarrow> hit_in_scope db ?paths (q_language q) (q_kind q) x" for u ops policy ls
    using fuse_from_lanes [OF that(1)] that(2) False by (auto simp: in_scope_def)
  consider (concept) "\<not> q_exact q \<and> q_text q \<noteq> []"
    | (listing) "\<not> (\<not> q_exact q \<and> q_text q \<noteq> [])" "\<not> q_exact q \<and> (q_kind q = [] \<or> q_kind q = ''file'')"
    | (exact) "\<not> (\<not> q_exact q \<and> q_text q \<noteq> [])" "\<not> (\<not> q_exact q \<and> (q_kind q = [] \<or> q_kind q = ''file''))" by blast
  then show ?thesis
  proof cases
    case concept
    with False assms obtain ls where "concept_lanes ?u (se_fts env) db q ?paths (ConceptQuery_parse ?u (q_text q)) ?exact = Inr (ls, t)"
        "h \<in> set (fuse_search_file_lanes ?u (se_ops env) (search_policy ?u q) ls)"
      by (auto simp: lexical_stage_def Let_def split: sum.splits prod.splits)
    then show ?thesis using lanes concept_lanes_scope exact_hits_scope by blast
  next
    case listing
    with False assms have "h \<in> set (fuse_search_file_lanes ?u (se_ops env) (search_policy ?u q) [lh_hits ?exact, lh_hits (file_hits ?u db q ?paths)])"
      by (auto simp: lexical_stage_def Let_def)
    then show ?thesis by (rule lanes) (auto intro: exact_hits_scope file_lane.lane_scope)
  next
    case exact
    with False assms have "h \<in> set (lh_hits ?exact)"
      by (auto simp: lexical_stage_def Let_def rank_definitions_set split: if_splits)
    then show ?thesis using exact_hits_scope False by (auto simp: in_scope_def)
  qed
qed

lemma semantic_stage_scope:
  assumes "distinct (map re_id (db_regions db))" "\<And>h. h \<in> set (fst st) \<Longrightarrow> in_scope db q h"
    and "h \<in> set (fst (semantic_stage env db q vector st))"
  shows "in_scope db q h"
proof -
  obtain hits t c where st: "st = (hits, t, c)" by (cases st)
  show ?thesis
  proof (cases "\<exists>opened. vector = Some opened \<and> \<not> q_exact q \<and> \<not> q_regex q \<and> \<not> literal (ConceptQuery_parse (se_unicode env) (q_text q))")
    case True
    then obtain opened where opened: "vector = Some opened" "\<not> q_exact q" "\<not> q_regex q"
        "\<not> literal (ConceptQuery_parse (se_unicode env) (q_text q))" by blast
    obtain hits' c' t' where run: "semantic_append (se_unicode env) (se_ops env) (se_no_rows env) opened db q (bound_paths db q)
        ((search_policy (se_unicode env) q)\<lparr>lane_weights := False, prior_from_lane := 1\<rparr>) hits c = (hits', c', t')"
      by (metis prod_cases3)
    with assms(3) opened st have "h \<in> set hits'" by (simp add: semantic_stage_def Let_def)
    then show ?thesis using semantic_append_scope [OF assms(1) _ run] assms(2) opened(3) st by (auto simp: in_scope_def)
  next
    case False
    then have "semantic_stage env db q vector st = st" by (cases vector) (auto simp: semantic_stage_def st Let_def)
    with assms(2,3) show ?thesis by simp
  qed
qed

lemma rerank_stage_total: "\<exists>st'. rerank_stage env db q reranker st = Some st' \<and> set (fst st') = set (fst st)"
proof -
  obtain hits t c where st: "st = (hits, t, c)" by (cases st)
  show ?thesis
  proof (cases reranker)
    case (Some scorer)
    obtain out c' where "rerank_apply (se_unicode env) (se_null_error env) db (q_text q) (search_policy (se_unicode env) q)
        (se_finite env) scorer hits c = Some (out, c')" "mset out = mset hits" using rerank_total by blast
    then show ?thesis using Some by (auto simp: rerank_stage_def st dest: mset_eq_setD)
  qed (simp add: rerank_stage_def st)
qed

lemma attach_one_fields [simp]:
  "hit_identity (attach_one u db terms h) = hit_identity h" "hit_revision (attach_one u db terms h) = hit_revision h"
  "hit_path (attach_one u db terms h) = hit_path h" "hit_kind (attach_one u db terms h) = hit_kind h"
  by (simp_all add: attach_one_def hit_identity_def split: option.splits)

lemma attach_identities: "map hit_identity (attach u db terms hits) = map hit_identity hits"
proof -
  have "map hit_identity (attach u db terms hits) = map hit_identity (take SNIPPET_HITS hits @ drop SNIPPET_HITS hits)"
    unfolding attach_def map_append by simp
  then show ?thesis by simp
qed

lemma attach_mem: "x \<in> set (attach u db terms hits) \<Longrightarrow> \<exists>h \<in> set hits. x = h \<or> x = attach_one u db terms h"
  by (auto simp: attach_def dest: in_set_takeD in_set_dropD)

lemma in_scope_attach: "in_scope db q (attach_one u db' terms h) \<longleftrightarrow> in_scope db q h"
  by (simp add: in_scope_def live_hit_ok_def hit_in_scope_def)

lemma page_stage_props:
  assumes "\<And>h. h \<in> set (fst st) \<Longrightarrow> in_scope db q h"
  shows "distinct (map hit_identity (sr_hits (page_stage u db q st)))" "length (sr_hits (page_stage u db q st)) \<le> MAX_HITS"
    "\<And>h. h \<in> set (sr_hits (page_stage u db q st)) \<Longrightarrow> in_scope db q h"
proof -
  obtain hits t c where st: "st = (hits, t, c)" by (cases st)
  let ?page = "take MAX_HITS (first_by hit_identity hits)"
  have shown: "sr_hits (page_stage u db q st) = attach u db (preview_terms u (q_text q)) ?page"
    by (simp add: page_stage_def st Let_def)
  show "distinct (map hit_identity (sr_hits (page_stage u db q st)))"
    unfolding shown attach_identities take_map [symmetric] by (rule distinct_take) (rule distinct_first_by)
  have "length (sr_hits (page_stage u db q st)) = length ?page" unfolding shown using attach_identities [THEN arg_cong [of _ _ length]] by simp
  then show "length (sr_hits (page_stage u db q st)) \<le> MAX_HITS" by simp
  fix h assume "h \<in> set (sr_hits (page_stage u db q st))"
  then obtain h' where "h' \<in> set ?page" "h = h' \<or> h = attach_one u db (preview_terms u (q_text q)) h'"
    unfolding shown using attach_mem by blast
  moreover from this(1) have "h' \<in> set hits" using set_first_by_subset by (fastforce dest: in_set_takeD)
  ultimately show "in_scope db q h" using assms st by (auto simp: in_scope_attach)
qed

lemma in_scope_parsed:
  assumes "Query_parse u input = Inr q" "in_scope db q h"
  shows "BoundPathFilter_matches (bound_paths db q) (hit_path h) \<and> kind_passes (q_kind q) (hit_kind h)
    \<and> (q_language q = [] \<or> (if q_regex q then language_of_path (hit_path h) = q_language q
        else \<exists>f \<in> set (db_files db). fe_path f = hit_path h \<and> fe_language f = q_language q))"
proof (cases "q_regex q")
  case False
  have "wf_bound (bound_paths db q)" using Query_parse_ok [OF assms(1)] by (simp add: query_ok_def bound_paths_def wf_bind)
  with False assms(2) show ?thesis by (auto simp: in_scope_def hit_in_scope_def passes_def clause_matches)
qed (use assms(2) in \<open>auto simp: in_scope_def live_hit_ok_def\<close>)

text \<open>
  C3.  Every search a parsed query runs comes to an end, with an error or a page.  The hits of a page are distinct by path,
  span and kind, there are at most \<open>MAX_HITS\<close> of them, and each passes the query's filters: its path is accepted by the
  \<open>file:\<close> and \<open>-file:\<close> values, its kind is the one asked for, and its file has the language asked for, whichever lanes,
  semantic vectors and reranker contributed.  (Region ids are primary keys.)
\<close>

theorem search_respects_filters:
  assumes parsed: "Query_parse (se_unicode env) input = Inr q"
    and ids: "distinct (map re_id (db_regions db))"
  shows "\<exists>outcome. search_prepared env db q vector reranker = Some outcome
    \<and> (case outcome of
         Inl e \<Rightarrow> True
       | Inr r \<Rightarrow> distinct (map hit_identity (sr_hits r)) \<and> length (sr_hits r) \<le> MAX_HITS
           \<and> (\<forall>h \<in> set (sr_hits r).
                BoundPathFilter_matches (PathFilter_bind (q_path q) (map fe_path (db_files db))) (hit_path h)
                \<and> kind_passes (q_kind q) (hit_kind h)
                \<and> (q_language q = [] \<or> (if q_regex q then language_of_path (hit_path h) = q_language q
                    else \<exists>f \<in> set (db_files db). fe_path f = hit_path h \<and> fe_language f = q_language q))))"
proof (cases "lexical_stage env db q")
  case (Inl e)
  then show ?thesis by (simp add: search_prepared_def)
next
  case (Inr st)
  let ?sem = "semantic_stage env db q vector st"
  obtain st' where st': "rerank_stage env db q reranker ?sem = Some st'" "set (fst st') = set (fst ?sem)"
    using rerank_stage_total by blast
  have "in_scope db q h" if "h \<in> set (fst st)" for h
    using that lexical_stage_scope [of env db q "fst st" "fst (snd st)" "snd (snd st)"] Inr by simp
  then have "in_scope db q h" if "h \<in> set (fst st')" for h
    using that semantic_stage_scope [OF ids] st'(2) by blast
  note page = page_stage_props [where u = "se_unicode env", OF this]
  have "search_prepared env db q vector reranker = Some (Inr (page_stage (se_unicode env) db q st'))"
    using Inr st'(1) by (simp add: search_prepared_def)
  then show ?thesis using page(1,2) in_scope_parsed [OF parsed page(3)] by (auto simp: bound_paths_def)
qed

definition sample_env :: "(nat, nat, nat) search_env" where
  "sample_env = \<lparr>se_unicode = ascii_unicode, se_ops = sample_ops, se_fts = (\<lambda>_. Inr (\<lambda>_. None)),
     se_live = \<lparr>lv_compile = (\<lambda>_. Inl ''regex''), lv_walk = [], lv_read = (\<lambda>_. Inl ''read''), lv_hash = id, lv_extract = (\<lambda>_ _. [])\<rparr>,
     se_no_rows = ''no rows'', se_null_error = ''null'', se_finite = (\<lambda>_. True)\<rparr>"

theorem search_respects_filters_witness:
  "\<exists>q outcome. Query_parse ascii_unicode ''sym:A::new'' = Inr q
     \<and> search_prepared sample_env sample_index q None None = Some outcome
     \<and> (case outcome of Inl e \<Rightarrow> True | Inr r \<Rightarrow> distinct (map hit_identity (sr_hits r)))"
proof -
  have parsed: "Query_parse (se_unicode sample_env) ''sym:A::new'' = Inr \<lparr>q_text = ''A::new'', q_path = PathFilter_default,
      q_language = [], q_kind = [], q_exact = True, q_regex = False\<rparr>" by code_simp
  have ids: "distinct (map re_id (db_regions sample_index))" by (simp add: sample_index_def)
  from search_respects_filters [OF parsed ids, of None None] obtain outcome where
    "search_prepared sample_env sample_index \<lparr>q_text = ''A::new'', q_path = PathFilter_default,
      q_language = [], q_kind = [], q_exact = True, q_regex = False\<rparr> None None = Some outcome"
    "case outcome of Inl e \<Rightarrow> True | Inr r \<Rightarrow> distinct (map hit_identity (sr_hits r))"
    by (fastforce split: sum.splits)
  with parsed show ?thesis by (auto simp: sample_env_def)
qed

end
