(* ===== verification/TP_Dm_Lex.thy ===== *)
theory TP_Dm_Lex
  imports TP_Utf8
begin

text \<open>
  \<open>src/extract/dreammaker/dm_lex.rs\<close>: tokens of DreamMaker source, line by line.  Comments nest and run over lines, \<open>{"\<close>
  strings run over lines, and a quoted string that its line does not close is continued; the lexer carries that state
  from line to line and remembers whether everything was understood.
\<close>

section \<open>Tokens\<close>

record dm_token =
  dt_text :: string
  dt_start :: nat
  dt_end :: nat
  dt_quoted :: bool

record dm_line =
  ln_indent :: nat
  ln_end :: nat
  ln_tokens :: "dm_token list"

text \<open>The state carried between lines: nesting of block comments, an open \<open>{"\<close> string, an open quoted string.\<close>

record dm_lexer =
  lx_comment_depth :: nat
  lx_multiline_quote :: bool
  lx_continued_quote :: "char option"
  lx_complete :: bool

definition is_identifier :: "dm_token \<Rightarrow> bool" where
  "is_identifier t \<longleftrightarrow> \<not> dt_quoted t
     \<and> (case dt_text t of [] \<Rightarrow> False | b # _ \<Rightarrow> is_ascii_alphabetic b \<or> b = CHR ''_'')"

definition is_word_byte :: "char \<Rightarrow> bool" where
  "is_word_byte b \<longleftrightarrow> is_ascii_alphanumeric b \<or> b = CHR ''_''"

definition is_quote :: "char \<Rightarrow> bool" where
  "is_quote b \<longleftrightarrow> b = CHR 0x22 \<or> b = CHR 0x27"

abbreviation (input) BACKSLASH :: char where "BACKSLASH \<equiv> CHR 0x5C"

section \<open>The lexer\<close>

text \<open>The loops of the source move an index; each is a recursion on the bytes left before the end of the line.\<close>

function indentation :: "bytes \<Rightarrow> nat \<Rightarrow> nat \<Rightarrow> nat \<Rightarrow> nat \<times> nat" where
  "indentation source line_end index indent =
     (if index < line_end \<and> (source ! index = CHR '' '' \<or> source ! index = TAB)
      then indentation source line_end (index + 1) (indent + (if source ! index = TAB then 4 else 1))
      else (index, indent))"
  by pat_completeness auto
termination
  by (relation "measure (\<lambda>(source, line_end, index, indent). line_end - index)") auto

function quoted_end :: "bytes \<Rightarrow> char \<Rightarrow> nat \<Rightarrow> nat \<Rightarrow> nat" where
  "quoted_end source quote line_end index =
     (if index < line_end \<and> source ! index \<noteq> quote \<and> source ! index \<noteq> LF
      then quoted_end source quote line_end
             (index + (if source ! index = BACKSLASH \<and> index + 1 < line_end then 2 else 1))
      else index)"
  by pat_completeness auto
termination
  by (relation "measure (\<lambda>(source, quote, line_end, index). line_end - index)") auto

function word_end :: "bytes \<Rightarrow> nat \<Rightarrow> nat \<Rightarrow> nat" where
  "word_end source line_end index =
     (if index < line_end \<and> is_word_byte (source ! index) then word_end source line_end (index + 1) else index)"
  by pat_completeness auto
termination
  by (relation "measure (\<lambda>(source, line_end, index). line_end - index)") auto

declare indentation.simps [simp del] quoted_end.simps [simp del] word_end.simps [simp del]

text \<open>
  One round of the inner loop: move on without a token, give up the rest of the line (a \<open>//\<close> comment), or a token that
  ends at the given index.
\<close>

datatype lex_step = Skip nat dm_lexer | Rest | Emit nat dm_lexer

definition lex_token :: "bytes \<Rightarrow> nat \<Rightarrow> nat \<Rightarrow> dm_lexer \<Rightarrow> nat \<times> dm_lexer" where
  "lex_token source line_end index lx =
     (let b = source ! index
      in if is_quote b then
           let stop = quoted_end source b line_end (index + 1)
           in if nth_opt source stop = Some b then (stop + 1, lx)
              else (stop, lx\<lparr>lx_complete := False, lx_continued_quote := Some b\<rparr>)
         else if is_word_byte b then (word_end source line_end (index + 1), lx)
         else (index + 1, lx))"

definition lex_round :: "bytes \<Rightarrow> nat \<Rightarrow> nat \<Rightarrow> dm_lexer \<Rightarrow> lex_step" where
  "lex_round source line_end index lx =
     (let b = source ! index; follows = nth_opt source (index + 1)
      in case lx_continued_quote lx of
        Some quote \<Rightarrow>
          if b = BACKSLASH then Skip (min (index + 2) line_end) lx
          else Skip (index + 1) (if b = quote then lx\<lparr>lx_continued_quote := None\<rparr> else lx)
      | None \<Rightarrow>
          if lx_comment_depth lx > 0 then
            if b = CHR ''/'' \<and> follows = Some (CHR ''*'')
            then Skip (index + 2) (lx\<lparr>lx_comment_depth := lx_comment_depth lx + 1\<rparr>)
            else if b = CHR ''*'' \<and> follows = Some (CHR ''/'')
            then Skip (index + 2) (lx\<lparr>lx_comment_depth := lx_comment_depth lx - 1\<rparr>)
            else Skip (index + 1) lx
          else if lx_multiline_quote lx then
            if b = BACKSLASH then Skip (min (index + 2) line_end) lx
            else if b = CHR 0x22 \<and> follows = Some (CHR ''}'')
            then Skip (index + 2) (lx\<lparr>lx_multiline_quote := False\<rparr>)
            else Skip (index + 1) lx
          else if is_ascii_whitespace b then Skip (index + 1) lx
          else if b = CHR ''/'' \<and> follows = Some (CHR ''/'') then Rest
          else if b = CHR ''/'' \<and> follows = Some (CHR ''*'') then Skip (index + 2) (lx\<lparr>lx_comment_depth := 1\<rparr>)
          else if b = CHR ''{'' \<and> follows = Some (CHR 0x22) then Skip (index + 2) (lx\<lparr>lx_multiline_quote := True\<rparr>)
          else case lex_token source line_end index lx of (stop, lx') \<Rightarrow> Emit stop lx')"

definition token_at :: "bytes \<Rightarrow> nat \<Rightarrow> nat \<Rightarrow> dm_token" where
  "token_at source start stop =
     \<lparr>dt_text = from_utf8_lossy (slice start stop source), dt_start = start, dt_end = stop,
      dt_quoted = is_quote (source ! start)\<rparr>"

lemma word_end_bounds:
  "index \<le> word_end source line_end index \<and> (index \<le> line_end \<longrightarrow> word_end source line_end index \<le> line_end)"
proof (induction source line_end index rule: word_end.induct)
  case (1 source line_end index)
  then show ?case by (subst (1 2) word_end.simps) auto
qed

lemma quoted_end_bounds:
  "index \<le> quoted_end source quote line_end index
   \<and> (index \<le> line_end \<longrightarrow> quoted_end source quote line_end index \<le> line_end)"
proof (induction source quote line_end index rule: quoted_end.induct)
  case (1 source quote line_end index)
  then show ?case by (subst (1 2) quoted_end.simps) (auto split: if_splits)
qed

lemma lex_token_advances: "lex_token source line_end index lx = (stop, lx') \<Longrightarrow> index < stop"
  using word_end_bounds [of "index + 1" source line_end]
    quoted_end_bounds [of "index + 1" source "source ! index" line_end]
  by (auto simp: lex_token_def Let_def split: if_splits)

lemma lex_round_advances:
  assumes "index < line_end"
  shows "lex_round source line_end index lx = Skip stop lx' \<Longrightarrow> index < stop"
    and "lex_round source line_end index lx = Emit stop lx' \<Longrightarrow> index < stop"
  using assms lex_token_advances [of source line_end index lx]
  by (auto simp: lex_round_def Let_def split: option.splits if_splits prod.splits)

function scan_line :: "bytes \<Rightarrow> nat \<Rightarrow> bool \<Rightarrow> nat \<Rightarrow> dm_lexer \<Rightarrow> dm_lexer \<times> dm_token list" where
  "scan_line source line_end bounded index lx =
     (if index < line_end
      then case lex_round source line_end index lx of
        Skip stop lx' \<Rightarrow> scan_line source line_end bounded stop lx'
      | Rest \<Rightarrow> (lx, [])
      | Emit stop lx' \<Rightarrow>
          let (lx'', tokens) = scan_line source line_end bounded stop lx'
          in (lx'', if bounded then token_at source index stop # tokens else tokens)
      else (lx, []))"
  by pat_completeness auto
termination
proof (relation "measure (\<lambda>(source, line_end, bounded, index, lx). line_end - index)", goal_cases)
  case (2 source line_end bounded index lx stop lx')
  with lex_round_advances(1) [of index line_end source lx stop lx'] show ?case by simp
next
  case (3 source line_end bounded index lx stop lx')
  with lex_round_advances(2) [of index line_end source lx stop lx'] show ?case by simp
qed simp

declare scan_line.simps [simp del]

definition line_end_from :: "bytes \<Rightarrow> nat \<Rightarrow> nat" where
  "line_end_from source offset =
     (case position_of (\<lambda>b. b = LF) (drop offset source) of None \<Rightarrow> length source | Some n \<Rightarrow> offset + n + 1)"

definition MAX_LINE_BYTES :: nat where "MAX_LINE_BYTES = 16 * 1024"

definition MAX_TOKENS :: nat where "MAX_TOKENS = 250000"

lemma line_end_from_bounds:
  assumes "offset < length source"
  shows "offset < line_end_from source offset" and "line_end_from source offset \<le> length source"
  using assms position_of_Some [of "\<lambda>b. b = LF" "drop offset source"]
  by (force simp: line_end_from_def split: option.splits)+

definition lex_line :: "bytes \<Rightarrow> nat \<Rightarrow> dm_lexer \<Rightarrow> dm_lexer \<times> dm_line" where
  "lex_line source offset lx =
     (let line_end = line_end_from source offset;
          (index, indent) = indentation source line_end offset 0;
          bounded = line_end - offset \<le> MAX_LINE_BYTES;
          (lx', tokens) = scan_line source line_end bounded index (lx\<lparr>lx_complete := lx_complete lx \<and> bounded\<rparr>)
      in (lx', \<lparr>ln_indent = indent, ln_end = line_end, ln_tokens = tokens\<rparr>))"

function lex_lines :: "bytes \<Rightarrow> nat \<Rightarrow> nat \<Rightarrow> dm_lexer \<Rightarrow> dm_lexer \<times> dm_line list" where
  "lex_lines source offset token_count lx =
     (if offset < length source
      then let (lx', l) = lex_line source offset lx;
               token_count' = token_count + length (ln_tokens l)
           in if token_count' > MAX_TOKENS then (lx'\<lparr>lx_complete := False\<rparr>, [])
              else let (lx'', ls) = lex_lines source (ln_end l) token_count' lx' in (lx'', l # ls)
      else (lx, []))"
  by pat_completeness auto
termination
proof (relation "measure (\<lambda>(source, offset, token_count, lx). length source - offset)", goal_cases)
  case (2 source offset token_count lx x lx' l token_count')
  then show ?case
    using line_end_from_bounds [of offset source] by (auto simp: lex_line_def Let_def split: prod.splits)
qed simp

declare lex_lines.simps [simp del]

definition lexer_start :: "bytes \<Rightarrow> nat" where
  "lexer_start source = (if take 3 source = [CHR 0xEF, CHR 0xBB, CHR 0xBF] then 3 else 0)"

definition lexer_initial :: dm_lexer where
  "lexer_initial = \<lparr>lx_comment_depth = 0, lx_multiline_quote = False, lx_continued_quote = None, lx_complete = True\<rparr>"

definition tokenize :: "bytes \<Rightarrow> dm_line list \<times> bool" where
  "tokenize source =
     (let (lx, ls) = lex_lines source (lexer_start source) 0 lexer_initial
      in (ls, lx_complete lx \<and> lx_comment_depth lx = 0 \<and> \<not> lx_multiline_quote lx \<and> lx_continued_quote lx = None))"

section \<open>Token positions\<close>

text \<open>
  Tokens between two offsets: they start before the end, in order and without overlap, and their text is the bytes they
  span.  Only a quoted token may reach past the line, by the one byte described below.
\<close>

fun tokens_in :: "bytes \<Rightarrow> nat \<Rightarrow> nat \<Rightarrow> dm_token list \<Rightarrow> bool" where
  "tokens_in source low high [] \<longleftrightarrow> True"
| "tokens_in source low high (t # ts) \<longleftrightarrow>
     low \<le> dt_start t \<and> dt_start t < high \<and> dt_start t < dt_end t \<and> dt_end t \<le> length source
     \<and> dt_end t \<le> (if dt_quoted t then high + 1 else high)
     \<and> t = token_at source (dt_start t) (dt_end t) \<and> tokens_in source (dt_end t) high ts"

fun lines_in :: "bytes \<Rightarrow> nat \<Rightarrow> dm_line list \<Rightarrow> bool" where
  "lines_in source low [] \<longleftrightarrow> True"
| "lines_in source low (l # ls) \<longleftrightarrow>
     low < ln_end l \<and> ln_end l \<le> length source \<and> tokens_in source low (ln_end l) (ln_tokens l)
     \<and> lines_in source (ln_end l) ls"

lemma tokens_in_weaken: "tokens_in source low high ts \<Longrightarrow> low' \<le> low \<Longrightarrow> tokens_in source low' high ts"
  by (cases ts) auto

lemma tokens_in_mem:
  "tokens_in source low high ts \<Longrightarrow> t \<in> set ts \<Longrightarrow>
   low \<le> dt_start t \<and> dt_start t < high \<and> dt_start t < dt_end t \<and> dt_end t \<le> length source
   \<and> (\<not> dt_quoted t \<longrightarrow> dt_end t \<le> high) \<and> t = token_at source (dt_start t) (dt_end t)"
proof (induction source low high ts rule: tokens_in.induct)
  case (2 source low high t' ts)
  show ?case
  proof (cases "t = t'")
    case True
    with 2 show ?thesis by (auto split: if_splits)
  next
    case False
    with 2 have "dt_end t' \<le> dt_start t" "low < dt_end t'" by auto
    with 2 False show ?thesis by auto
  qed
qed simp

lemma tokens_in_sorted: "tokens_in source low high ts \<Longrightarrow> sorted_wrt (\<lambda>a b. dt_end a \<le> dt_start b) ts"
proof (induction source low high ts rule: tokens_in.induct)
  case (2 source low high t ts)
  then show ?case using tokens_in_mem [of source "dt_end t" high ts] by auto
qed simp

lemma lex_token_stop:
  assumes "lex_token source line_end index lx = (stop, lx')" "index < line_end" "line_end \<le> length source"
  shows "index < stop \<and> stop \<le> length source \<and> stop \<le> (if is_quote (source ! index) then line_end + 1 else line_end)"
  using assms word_end_bounds [of "index + 1" source line_end]
    quoted_end_bounds [of "index + 1" source "source ! index" line_end]
  by (auto simp: lex_token_def Let_def nth_opt_def split: if_splits)

lemma lex_round_emit:
  "lex_round source line_end index lx = Emit stop lx' \<Longrightarrow> lex_token source line_end index lx = (stop, lx')"
  by (auto simp: lex_round_def Let_def split: option.splits if_splits prod.splits)

lemma scan_line_tokens:
  "line_end \<le> length source \<Longrightarrow> tokens_in source index line_end (snd (scan_line source line_end bounded index lx))"
proof (induction source line_end bounded index lx rule: scan_line.induct)
  case (1 source line_end bounded index lx)
  show ?case
  proof (cases "index < line_end")
    case inside: True
    show ?thesis
    proof (cases "lex_round source line_end index lx")
      case (Skip stop lx')
      with 1 inside lex_round_advances(1) [OF inside Skip] show ?thesis
        by (subst scan_line.simps) (auto intro: tokens_in_weaken)
    next
      case (Emit stop lx')
      have step: "scan_line source line_end bounded index lx =
          (let (lx'', tokens) = scan_line source line_end bounded stop lx'
           in (lx'', if bounded then token_at source index stop # tokens else tokens))"
        using inside Emit by (subst scan_line.simps) simp
      note bounds = lex_token_stop [OF lex_round_emit [OF Emit] inside 1(3)]
      with 1(2) [OF inside Emit 1(3)] inside show ?thesis
        by (auto simp: step token_at_def split: prod.splits intro: tokens_in_weaken)
    qed (use inside in \<open>subst scan_line.simps, simp\<close>)
  qed (subst scan_line.simps, simp)
qed

lemma indentation_bounds: "index \<le> fst (indentation source line_end index indent)"
proof (induction source line_end index indent rule: indentation.induct)
  case (1 source line_end index indent)
  then show ?case by (subst indentation.simps) auto
qed

lemma lex_line_in:
  assumes "offset < length source" "lex_line source offset lx = (lx', l)"
  shows "offset < ln_end l \<and> ln_end l \<le> length source \<and> tokens_in source offset (ln_end l) (ln_tokens l)"
proof -
  let ?e = "line_end_from source offset" and ?i = "indentation source (line_end_from source offset) offset 0"
  have "tokens_in source offset ?e (snd (scan_line source ?e b (fst ?i) lx''))" for b lx''
    using scan_line_tokens [OF line_end_from_bounds(2) [OF assms(1)]] indentation_bounds tokens_in_weaken by blast
  then show ?thesis
    using assms line_end_from_bounds [OF assms(1)] by (auto simp: lex_line_def Let_def split: prod.splits) (metis fst_conv snd_conv)
qed

lemma lex_lines_in: "lines_in source offset (snd (lex_lines source offset token_count lx))"
proof (induction source offset token_count lx rule: lex_lines.induct)
  case (1 source offset token_count lx)
  obtain lx' l where line: "lex_line source offset lx = (lx', l)" by fastforce
  from 1 [OF _ refl line [symmetric]] lex_line_in [OF _ line] show ?case
    by (subst lex_lines.simps) (auto simp: line Let_def split: prod.splits)
qed

lemma tokenize_lines_in: "lines_in source (lexer_start source) (fst (tokenize source))"
  using lex_lines_in [of source "lexer_start source" 0] by (auto simp: tokenize_def split: prod.splits) (metis snd_conv)

section \<open>Complete files\<close>

text \<open>A closed quoted token ends with the quote it starts with.\<close>

definition closed_token :: "bytes \<Rightarrow> dm_token \<Rightarrow> bool" where
  "closed_token source t \<longleftrightarrow>
     (dt_quoted t \<longrightarrow> dt_start t + 1 < dt_end t \<and> source ! (dt_end t - 1) = source ! dt_start t)"

lemma lex_token_closed:
  assumes "lex_token source line_end index lx = (stop, lx')" "lx_complete lx'"
  shows "closed_token source (token_at source index stop)" and "lx_complete lx"
  using assms quoted_end_bounds [of "index + 1" source "source ! index" line_end]
  by (auto simp: lex_token_def Let_def closed_token_def token_at_def nth_opt_def split: if_splits)

lemma lex_round_skip_complete:
  "lex_round source line_end index lx = Skip stop lx' \<Longrightarrow> lx_complete lx' = lx_complete lx"
  by (auto simp: lex_round_def Let_def split: option.splits if_splits prod.splits)

lemma scan_line_closed:
  "lx_complete (fst (scan_line source line_end bounded index lx)) \<Longrightarrow>
   lx_complete lx \<and> (\<forall>t \<in> set (snd (scan_line source line_end bounded index lx)). closed_token source t)"
proof (induction source line_end bounded index lx rule: scan_line.induct)
  case (1 source line_end bounded index lx)
  show ?case
  proof (cases "index < line_end")
    case inside: True
    show ?thesis
    proof (cases "lex_round source line_end index lx")
      case (Skip stop lx')
      then have "scan_line source line_end bounded index lx = scan_line source line_end bounded stop lx'"
        using inside by (subst scan_line.simps) simp
      with 1 inside Skip lex_round_skip_complete [OF Skip] show ?thesis by simp
    next
      case (Emit stop lx')
      have step: "scan_line source line_end bounded index lx =
          (let (lx'', tokens) = scan_line source line_end bounded stop lx'
           in (lx'', if bounded then token_at source index stop # tokens else tokens))"
        using inside Emit by (subst scan_line.simps) simp
      with 1(3) have "lx_complete (fst (scan_line source line_end bounded stop lx'))"
        by (auto split: prod.splits)
      from 1(2) [OF inside Emit this] lex_token_closed [OF lex_round_emit [OF Emit]] show ?thesis
        by (auto simp: step split: prod.splits)
    next
      case Rest
      then have "scan_line source line_end bounded index lx = (lx, [])" using inside by (subst scan_line.simps) simp
      with 1(3) show ?thesis by simp
    qed
  next
    case False
    then have "scan_line source line_end bounded index lx = (lx, [])" by (subst scan_line.simps) simp
    with 1(3) show ?thesis by simp
  qed
qed

lemma lex_line_closed:
  assumes "lex_line source offset lx = (lx', l)" "lx_complete lx'"
  shows "lx_complete lx \<and> (\<forall>t \<in> set (ln_tokens l). closed_token source t)"
proof -
  define e where "e = line_end_from source offset"
  define b where "b \<longleftrightarrow> e - offset \<le> MAX_LINE_BYTES"
  define i where "i = fst (indentation source e offset 0)"
  define r where "r = scan_line source e b i (lx\<lparr>lx_complete := lx_complete lx \<and> b\<rparr>)"
  have "lx' = fst r" "ln_tokens l = snd r"
    using assms(1) by (auto simp: lex_line_def Let_def e_def b_def i_def r_def split: prod.splits)
  with scan_line_closed [of source e b i "lx\<lparr>lx_complete := lx_complete lx \<and> b\<rparr>"] assms(2) show ?thesis
    by (simp add: r_def)
qed

text \<open>The last offset that the lines reach.\<close>

definition lines_end :: "nat \<Rightarrow> dm_line list \<Rightarrow> nat" where
  "lines_end low ls = (if ls = [] then low else ln_end (last ls))"

lemma lines_end_Cons [simp]: "lines_end low (l # ls) = lines_end (ln_end l) ls"
  by (simp add: lines_end_def)

lemma lex_lines_complete:
  "lx_complete (fst (lex_lines source offset token_count lx)) \<Longrightarrow> offset \<le> length source \<Longrightarrow>
   lx_complete lx \<and> lines_end offset (snd (lex_lines source offset token_count lx)) = length source
   \<and> (\<forall>l \<in> set (snd (lex_lines source offset token_count lx)). \<forall>t \<in> set (ln_tokens l). closed_token source t)"
proof (induction source offset token_count lx rule: lex_lines.induct)
  case (1 source offset token_count lx)
  obtain lx' l where line: "lex_line source offset lx = (lx', l)" by fastforce
  let ?count = "token_count + length (ln_tokens l)"
  show ?case
  proof (cases "offset < length source")
    case inside: True
    note within = lex_line_in [OF inside line]
    have fits: "\<not> ?count > MAX_TOKENS"
      using 1(2) inside by (subst (asm) lex_lines.simps) (auto simp: line Let_def split: if_splits)
    have step: "lex_lines source offset token_count lx =
        (let (lx'', ls) = lex_lines source (ln_end l) ?count lx' in (lx'', l # ls))"
      using inside fits by (subst lex_lines.simps) (simp add: line)
    then have "lx_complete (fst (lex_lines source (ln_end l) ?count lx'))"
      using 1(2) by (auto split: prod.splits)
    with 1(1) [OF inside refl line [symmetric] refl fits] within lex_line_closed [OF line] show ?thesis
      by (auto simp: step split: prod.splits)
  next
    case False
    then have "lex_lines source offset token_count lx = (lx, [])" by (subst lex_lines.simps) simp
    with 1(2,3) False show ?thesis by (simp add: lines_end_def)
  qed
qed

lemma lexer_start_le: "lexer_start source \<le> length source"
proof (cases "take 3 source = [CHR 0xEF, CHR 0xBB, CHR 0xBF]")
  case True
  then have "length (take 3 source) = 3" by simp
  then have "3 \<le> length source" by (simp add: min_def split: if_splits)
  then show ?thesis by (simp add: lexer_start_def)
qed (simp add: lexer_start_def)

text \<open>
  Every token of a DreamMaker file lies where its text says: lines and tokens come in source order without overlap
  inside a line, a token's text is the bytes of its span, and when the lexer reports the file as complete, the lines
  reach the end of the file and every quoted token is closed by the quote that opened it.
\<close>

theorem dm_tokens_positioned:
  assumes "tokenize source = (lines, complete)"
  shows "lines_in source (lexer_start source) lines
    \<and> (complete \<longrightarrow> lines_end (lexer_start source) lines = length source
        \<and> (\<forall>l \<in> set lines. \<forall>t \<in> set (ln_tokens l). closed_token source t))"
  using assms tokenize_lines_in [of source] lex_lines_complete [OF _ lexer_start_le, of source 0 lexer_initial]
  by (auto simp: tokenize_def split: prod.splits)

definition sample_dm :: bytes where
  "sample_dm = ''/obj/a // x'' @ [LF, TAB] @ ''var/n = '' @ [CHR 0x22, CHR ''s'', CHR 0x22]"

lemma short_line:
  assumes "offset < length source" "line_end_from source offset = e" "e - offset \<le> MAX_LINE_BYTES"
    "indentation source e offset 0 = (i, n)"
    "scan_line source e True i (lx\<lparr>lx_complete := lx_complete lx \<and> True\<rparr>) = (lx', ts)"
    "k + length ts \<le> MAX_TOKENS"
  shows "lex_lines source offset k lx =
    (let (lx'', ls) = lex_lines source e (k + length ts) lx' in (lx'', \<lparr>ln_indent = n, ln_end = e, ln_tokens = ts\<rparr> # ls))"
  using assms by (subst lex_lines.simps) (simp add: lex_line_def)

lemma sample_dm_tokens:
  "tokenize sample_dm = (
     [\<lparr>ln_indent = 0, ln_end = 12, ln_tokens = map (\<lambda>(a, b). token_at sample_dm a b) [(0, 1), (1, 4), (4, 5), (5, 6)]\<rparr>,
      \<lparr>ln_indent = 4, ln_end = 24,
       ln_tokens = map (\<lambda>(a, b). token_at sample_dm a b) [(13, 16), (16, 17), (17, 18), (19, 20), (21, 24)]\<rparr>],
     True)"
proof -
  let ?first = "map (\<lambda>(a, b). token_at sample_dm a b) [(0, 1), (1, 4), (4, 5), (5, 6)]"
  let ?second = "map (\<lambda>(a, b). token_at sample_dm a b) [(13, 16), (16, 17), (17, 18), (19, 20), (21, 24)]"
  have len: "length sample_dm = 24" and start: "lexer_start sample_dm = 0" by code_simp+
  have "lex_lines sample_dm 0 0 lexer_initial =
      (let (lx, ls) = lex_lines sample_dm 12 (0 + length ?first) lexer_initial
       in (lx, \<lparr>ln_indent = 0, ln_end = 12, ln_tokens = ?first\<rparr> # ls))"
    by (rule short_line [where i = 0]) ((simp add: len MAX_LINE_BYTES_def MAX_TOKENS_def; fail) | code_simp)+
  moreover have "lex_lines sample_dm 12 (0 + length ?first) lexer_initial =
      (let (lx, ls) = lex_lines sample_dm 24 (0 + length ?first + length ?second) lexer_initial
       in (lx, \<lparr>ln_indent = 4, ln_end = 24, ln_tokens = ?second\<rparr> # ls))"
    by (rule short_line [where i = 13]) ((simp add: len MAX_LINE_BYTES_def MAX_TOKENS_def; fail) | code_simp)+
  ultimately show ?thesis
    by (simp add: tokenize_def start len lex_lines.simps [of _ 24] lexer_initial_def)
qed

theorem dm_tokens_positioned_witness:
  "lines_in sample_dm (lexer_start sample_dm) (fst (tokenize sample_dm))
   \<and> lines_end (lexer_start sample_dm) (fst (tokenize sample_dm)) = length sample_dm
   \<and> list_all (\<lambda>l. list_all (closed_token sample_dm) (ln_tokens l)) (fst (tokenize sample_dm))"
  using dm_tokens_positioned [OF sample_dm_tokens] by (simp add: sample_dm_tokens)

text \<open>
  A string whose line ends in a backslash is taken to be closed when the next line starts with the quote, and that
  quote then opens another string, so the tokens after it on its line are lost.
\<close>

definition continued_sample :: bytes where
  "continued_sample = [CHR 0x22, CHR ''a'', BACKSLASH, LF, CHR 0x22, CHR '' '', CHR ''f'', LF]"

lemma closing_quote_lexed_twice:
  "map (\<lambda>l. map (\<lambda>t. (dt_start t, dt_end t)) (ln_tokens l)) (fst (tokenize continued_sample)) = [[(0, 5)], [(4, 7)]]"
proof -
  let ?lx = "lexer_initial\<lparr>lx_continued_quote := Some (CHR 0x22), lx_complete := False\<rparr>"
  have len: "length continued_sample = 8" and start: "lexer_start continued_sample = 0" by code_simp+
  have "lex_lines continued_sample 0 0 lexer_initial =
      (let (lx, ls) = lex_lines continued_sample 4 (0 + length [token_at continued_sample 0 5]) lexer_initial
       in (lx, \<lparr>ln_indent = 0, ln_end = 4, ln_tokens = [token_at continued_sample 0 5]\<rparr> # ls))"
    by (rule short_line [where i = 0]) ((simp add: len MAX_LINE_BYTES_def MAX_TOKENS_def; fail) | code_simp)+
  moreover have "lex_lines continued_sample 4 (0 + length [token_at continued_sample 0 5]) lexer_initial =
      (let (lx, ls) = lex_lines continued_sample 8
          (0 + length [token_at continued_sample 0 5] + length [token_at continued_sample 4 7]) ?lx
       in (lx, \<lparr>ln_indent = 0, ln_end = 8, ln_tokens = [token_at continued_sample 4 7]\<rparr> # ls))"
    by (rule short_line [where i = 4]) ((simp add: len MAX_LINE_BYTES_def MAX_TOKENS_def; fail) | code_simp)+
  ultimately show ?thesis
    by (simp add: tokenize_def start len lex_lines.simps [of _ 8] lexer_initial_def token_at_def)
qed

end
