(* ===== verification/TP_Dm_Extract.thy ===== *)
theory TP_Dm_Extract
  imports TP_Dm_Lex TP_Extraction
begin

text \<open>
  \<open>src/extract/dreammaker.rs\<close> and \<open>dm_declarations.rs\<close>: declarations of DreamMaker source recovered line by line.  Stacks
  that the source keeps as vectors (frames, bindings) are lists with the top first.
\<close>

section \<open>State\<close>

definition MAX_FACTS :: nat where "MAX_FACTS = 50000"

definition MAX_CANDIDATES :: nat where "MAX_CANDIDATES = 64"

record dm_definition =
  dd_path :: string
  dd_conditional :: bool
  dd_local_owner :: "nat option"
  dd_scope_end :: nat
  dd_name_start :: nat
  dd_name_end :: nat

record dm_frame =
  df_path :: string
  df_indent :: nat
  df_brace :: "nat option"
  df_definition :: "nat option"
  df_procedure :: "nat option"

record dm_evidence =
  de_tokens :: "dm_token list"
  de_procedure :: "nat option"
  de_conditional :: bool

type_synonym dm_facts = "file_extraction \<times> dm_definition list"

record dm_state =
  ds_facts :: dm_facts
  ds_frames :: "dm_frame list"
  ds_evidence :: "dm_evidence list"
  ds_parents :: "string \<rightharpoonup> string"
  ds_braces :: nat
  ds_conditional_depth :: nat
  ds_includes :: bool
  ds_bindings :: "(nat \<times> nat \<times> nat) list"

section \<open>Declarations\<close>

definition add_definition :: "dm_token \<Rightarrow> nat \<Rightarrow> nat \<Rightarrow> string \<Rightarrow> string \<Rightarrow> string option \<Rightarrow> bool \<Rightarrow> nat option \<Rightarrow> dm_facts \<Rightarrow> dm_facts" where
  "add_definition t start stop kind path container conditional local_owner = (\<lambda>(r, defs).
     (r\<lparr>ex_definitions := ex_definitions r @
          [\<lparr>ed_name = dt_text t, ed_kind = kind, ed_start = start, ed_end = stop, ed_container = container\<rparr>]\<rparr>,
      defs @ [\<lparr>dd_path = path, dd_conditional = conditional, dd_local_owner = local_owner, dd_scope_end = usize_max,
               dd_name_start = dt_start t, dd_name_end = dt_end t\<rparr>]))"

text \<open>The loop over \<open>NAME / NAME / ...\<close>: the parts with their positions, and the position after them.\<close>

fun decl_parts :: "nat \<Rightarrow> dm_token list \<Rightarrow> ((string \<times> nat) list \<times> nat) option" where
  "decl_parts index [] = None"
| "decl_parts index [t] = (if is_identifier t then Some ([(dt_text t, index)], index + 1) else None)"
| "decl_parts index (t # s # rest) =
     (if \<not> is_identifier t then None
      else if dt_text s \<noteq> ''/'' then Some ([(dt_text t, index)], index + 1)
      else map_option (\<lambda>(parts, stop). ((dt_text t, index) # parts, stop)) (decl_parts (index + 2) rest))"

definition trim_end_str :: "string \<Rightarrow> string \<Rightarrow> string" where
  "trim_end_str p s = rev (trim_start_str (rev p) (rev s))"

definition ends_with :: "string \<Rightarrow> string \<Rightarrow> bool" where
  "ends_with s p \<longleftrightarrow> suffix p s"

definition member_keywords :: "string list" where
  "member_keywords = [''proc'', ''verb'', ''var'']"

definition statement_keywords :: "string list" where
  "statement_keywords = [''return'', ''if'', ''else'', ''for'', ''while'', ''switch'', ''break'', ''continue'', ''spawn'', ''set'']"

definition dm_declaration :: "dm_token list \<Rightarrow> string \<Rightarrow> bool \<Rightarrow> (string \<times> nat \<times> nat \<times> string) option" where
  "dm_declaration tokens base in_proc =
     (case tokens of
        [] \<Rightarrow> None
      | t # _ \<Rightarrow>
        let absolute = (dt_text t = ''/''); start = (if absolute then 1 else 0)
        in case decl_parts start (drop start tokens) of
             None \<Rightarrow> None
           | Some (parts, index) \<Rightarrow>
             let follows = map_option dt_text (nth_opt tokens index);
                 names = map fst parts;
                 variable = (''var'' \<in> set names \<or> ends_with base ''/var'');
                 namespace = (last names \<in> set member_keywords);
                 callable = (follows = Some ''('')
             in if in_proc \<and> \<not> variable then None
                else if \<not> callable \<and> \<not> variable \<and> follows \<notin> {None, Some ''{'', Some ''}'', Some '';''} then None
                else if hd names \<in> set statement_keywords then None
                else
                  let kind = (if namespace then ''namespace''
                              else if variable then (if in_proc then ''binding'' else ''field'')
                              else if callable then
                                (if ''verb'' \<in> set names \<or> ends_with base ''/verb'' then ''verb'' else ''proc'')
                              else ''type'');
                      prefix = (if absolute then []
                                else trim_end_str ''/var'' (trim_end_str ''/verb'' (trim_end_str ''/proc'' base)));
                      shown = filter (\<lambda>part. namespace \<or> part \<notin> set member_keywords) names
                  in Some (prefix @ concat (map (\<lambda>part. CHR ''/'' # part) shown), snd (last parts), index, kind))"

text \<open>The identifier that names a parameter: the last one before its default value.\<close>

definition parameter_name :: "dm_token list \<Rightarrow> dm_token option" where
  "parameter_name parameter = List.find is_identifier (rev (hd (split_list (\<lambda>t. dt_text t = ''='') parameter)))"

definition add_parameter :: "nat \<Rightarrow> bool \<Rightarrow> dm_token list \<Rightarrow> dm_facts \<Rightarrow> dm_facts" where
  "add_parameter owner conditional parameter facts =
     (case parameter_name parameter of
        None \<Rightarrow> facts
      | Some name \<Rightarrow>
          let path = dd_path (snd facts ! owner)
          in add_definition name (dt_start name) (dt_end name) ''parameter'' (path @ ''/'' @ dt_text name) (Some path)
               conditional (Some owner) facts)"

definition recover_parameters :: "dm_token list \<Rightarrow> nat \<Rightarrow> nat \<Rightarrow> bool \<Rightarrow> dm_facts \<Rightarrow> dm_facts" where
  "recover_parameters tokens open_index owner conditional facts =
     (case position_of (\<lambda>t. dt_text t = '')'') (drop open_index tokens) of
        None \<Rightarrow> facts
      | Some n \<Rightarrow>
          fold (add_parameter owner conditional)
            (split_list (\<lambda>t. dt_text t = '','') (slice (open_index + 1) (n + open_index) tokens)) facts)"

section \<open>Lines\<close>

text \<open>\<open>trim_matches('"')\<close>.\<close>

definition trim_quotes :: "string \<Rightarrow> string" where
  "trim_quotes s = trim_end_matches (\<lambda>c. c = CHR 0x22) (dropWhile (\<lambda>c. c = CHR 0x22) s)"

definition close_definition :: "nat option \<Rightarrow> nat \<Rightarrow> dm_facts \<Rightarrow> dm_facts" where
  "close_definition d stop = (\<lambda>(r, defs).
     case d of
       None \<Rightarrow> (r, defs)
     | Some i \<Rightarrow> (r\<lparr>ex_definitions := (ex_definitions r)[i := (ex_definitions r ! i)\<lparr>ed_end := stop\<rparr>]\<rparr>, defs))"

definition end_scope :: "nat \<Rightarrow> nat \<Rightarrow> dm_facts \<Rightarrow> dm_facts" where
  "end_scope i stop = (\<lambda>(r, defs). (r, defs[i := (defs ! i)\<lparr>dd_scope_end := stop\<rparr>]))"

fun close_bindings :: "nat \<Rightarrow> nat \<Rightarrow> nat \<Rightarrow> (nat \<times> nat \<times> nat) list \<Rightarrow> dm_facts \<Rightarrow> (nat \<times> nat \<times> nat) list \<times> dm_facts" where
  "close_bindings indent braces at [] facts = ([], facts)"
| "close_bindings indent braces at ((i, n, depth) # bs) facts =
     (if indent < n \<or> braces < depth then close_bindings indent braces at bs (end_scope i at facts)
      else ((i, n, depth) # bs, facts))"

definition frame_ends :: "nat \<Rightarrow> nat \<Rightarrow> dm_frame \<Rightarrow> bool" where
  "frame_ends indent braces f =
     (case df_brace f of Some depth \<Rightarrow> braces < depth | None \<Rightarrow> indent \<le> df_indent f)"

fun close_frames :: "nat \<Rightarrow> nat \<Rightarrow> nat \<Rightarrow> dm_frame list \<Rightarrow> dm_facts \<Rightarrow> dm_frame list \<times> dm_facts" where
  "close_frames indent braces at [] facts = ([], facts)"
| "close_frames indent braces at (f # fs) facts =
     (if frame_ends indent braces f then close_frames indent braces at fs (close_definition (df_definition f) at facts)
      else (f # fs, facts))"

definition add_occurrence :: "extracted_occurrence \<Rightarrow> dm_facts \<Rightarrow> dm_facts" where
  "add_occurrence o' = (\<lambda>(r, defs). (r\<lparr>ex_occurrences := ex_occurrences r @ [o']\<rparr>, defs))"

definition add_relationship :: "extracted_relationship \<Rightarrow> dm_facts \<Rightarrow> dm_facts" where
  "add_relationship x = (\<lambda>(r, defs). (r\<lparr>ex_relationships := ex_relationships r @ [x]\<rparr>, defs))"

text \<open>A line that starts with \<open>#\<close>.\<close>

definition directive_of :: "dm_token list \<Rightarrow> string" where
  "directive_of tokens = (case nth_opt tokens 1 of Some t \<Rightarrow> dt_text t | None \<Rightarrow> [])"

definition include_occurrence :: "dm_token \<Rightarrow> extracted_occurrence" where
  "include_occurrence path =
     \<lparr>eo_name = trim_quotes (dt_text path), eo_start = dt_start path, eo_end = dt_end path, eo_role = ''include'',
      eo_target = None, eo_candidates = [], eo_provenance = ''dm-recovery:include;preprocessor-not-evaluated''\<rparr>"

definition directive_line :: "dm_line \<Rightarrow> dm_state \<Rightarrow> dm_state" where
  "directive_line l st =
     (let tokens = ln_tokens l; directive = directive_of tokens;
          st1 =
            (if directive \<in> {''if'', ''ifdef'', ''ifndef''}
             then st\<lparr>ds_conditional_depth := ds_conditional_depth st + 1\<rparr>
             else if directive = ''endif'' then st\<lparr>ds_conditional_depth := ds_conditional_depth st - 1\<rparr>
             else if directive = ''include'' then
               (case nth_opt tokens 2 of
                  Some path \<Rightarrow> st\<lparr>ds_includes := True, ds_facts := add_occurrence (include_occurrence path) (ds_facts st)\<rparr>
                | None \<Rightarrow> st\<lparr>ds_includes := True\<rparr>)
             else if directive = ''define'' then
               (case nth_opt tokens 2 of
                  Some name \<Rightarrow>
                    if is_identifier name
                    then st\<lparr>ds_facts := add_definition name (dt_start name) (ln_end l) ''macro'' (dt_text name) None
                                          (ds_conditional_depth st > 0) None (ds_facts st)\<rparr>
                    else st
                | None \<Rightarrow> st)
             else st)
      in if directive \<in> {''if'', ''ifdef'', ''ifndef'', ''define'', ''undef''}
         then st1\<lparr>ds_evidence := ds_evidence st1 @
                   [\<lparr>de_tokens = drop (2 + (if directive = ''define'' then 1 else 0)) tokens, de_procedure = None,
                     de_conditional = True\<rparr>]\<rparr>
         else st1)"

text \<open>A \<open>parent_type = /path\<close> line of a type.\<close>

definition parent_type_facts :: "dm_token list \<Rightarrow> nat option \<Rightarrow> dm_facts \<Rightarrow> dm_facts" where
  "parent_type_facts path owner facts =
     (let start = dt_start (hd path); stop = dt_end (last path);
          facts' = add_occurrence
            \<lparr>eo_name = concat (map dt_text path), eo_start = start, eo_end = stop, eo_role = ''parent_type'',
             eo_target = None, eo_candidates = [],
             eo_provenance = ''dm-recovery:explicit-parent-type;preprocessor-not-evaluated''\<rparr> facts
      in case owner of
           None \<Rightarrow> facts'
         | Some owner \<Rightarrow> add_relationship
             \<lparr>er_source = owner, er_target = None, er_kind = ''inheritance'', er_evidence_start = start,
              er_evidence_end = stop, er_provenance = ''dm-recovery:explicit-parent-type''\<rparr> facts')"

definition parent_type_line :: "dm_token list \<Rightarrow> string \<Rightarrow> bool \<Rightarrow> dm_state \<Rightarrow> dm_state" where
  "parent_type_line tokens base conditional st =
     (case position_of (\<lambda>t. dt_text t = ''='') tokens of
        None \<Rightarrow> st
      | Some eq \<Rightarrow>
          let path = takeWhile (\<lambda>t. is_identifier t \<or> dt_text t = ''/'') (drop (eq + 1) tokens);
              parent = concat (map dt_text path);
              owner = (case ds_frames st of [] \<Rightarrow> None | f # _ \<Rightarrow> df_definition f)
          in if \<not> prefix ''/'' parent then st
             else st\<lparr>ds_facts := parent_type_facts path owner (ds_facts st),
                     ds_parents := (if conditional then ds_parents st else (ds_parents st)(base \<mapsto> parent))\<rparr>)"

text \<open>A line that declares something.\<close>

definition container_of :: "string \<Rightarrow> string option" where
  "container_of path =
     (case rsplit_once (CHR ''/'') path of
        Some (parent, _) \<Rightarrow> if parent = [] then None else Some parent
      | None \<Rightarrow> None)"

definition count_text :: "string \<Rightarrow> dm_token list \<Rightarrow> nat" where
  "count_text s tokens = length (filter (\<lambda>t. dt_text t = s) tokens)"

definition push_frame :: "dm_line \<Rightarrow> string \<Rightarrow> nat \<Rightarrow> nat option \<Rightarrow> dm_state \<Rightarrow> dm_state" where
  "push_frame l path index procedure st =
     (let opened = count_text ''{'' (ln_tokens l); closed = count_text ''}'' (ln_tokens l)
      in if opened = 0 \<or> opened > closed
         then st\<lparr>ds_frames := \<lparr>df_path = path, df_indent = ln_indent l,
                   df_brace = (if opened > 0 then Some (ds_braces st + 1) else None), df_definition = Some index,
                   df_procedure = procedure\<rparr> # ds_frames st\<rparr>
         else st)"

definition push_evidence :: "dm_token list \<Rightarrow> nat option \<Rightarrow> bool \<Rightarrow> dm_state \<Rightarrow> dm_state" where
  "push_evidence tokens procedure conditional st =
     st\<lparr>ds_evidence := ds_evidence st @
         [\<lparr>de_tokens = tokens, de_procedure = procedure, de_conditional = conditional\<rparr>]\<rparr>"

definition declaration_line :: "dm_line \<Rightarrow> string \<times> nat \<times> nat \<times> string \<Rightarrow> nat option \<Rightarrow> bool \<Rightarrow> dm_state \<Rightarrow> dm_state" where
  "declaration_line l = (\<lambda>(path, name_index, path_end, kind) procedure conditional st.
     let tokens = ln_tokens l;
         index = length (ex_definitions (fst (ds_facts st)));
         local_owner = (if kind = ''binding'' then procedure else None);
         st1 = st\<lparr>ds_facts := add_definition (tokens ! name_index) (dt_start (hd tokens)) (ln_end l) kind path
                    (container_of path) conditional local_owner (ds_facts st),
                  ds_bindings := (if kind = ''binding'' then (index, ln_indent l, ds_braces st) # ds_bindings st
                                  else ds_bindings st)\<rparr>
     in if kind = ''proc'' \<or> kind = ''verb'' then
          let st2 = push_frame l path index (Some index) st1;
              tail = (case position_of (\<lambda>t. dt_text t = '')'') tokens of None \<Rightarrow> length tokens | Some n \<Rightarrow> n + 1)
          in push_evidence (drop tail tokens) (Some index) conditional
               (st2\<lparr>ds_facts := recover_parameters tokens path_end index conditional (ds_facts st2)\<rparr>)
        else if kind = ''type'' \<or> kind = ''namespace'' then push_frame l path index None st1
        else push_evidence (drop path_end tokens) procedure conditional st1)"

definition count_braces :: "dm_token list \<Rightarrow> nat \<Rightarrow> nat" where
  "count_braces tokens n =
     fold (\<lambda>t n. if dt_text t = ''{'' then n + 1 else if dt_text t = ''}'' then n - 1 else n) tokens n"

definition current_procedure :: "dm_frame list \<Rightarrow> nat option" where
  "current_procedure frames =
     (case List.find (\<lambda>f. df_procedure f \<noteq> None) frames of None \<Rightarrow> None | Some f \<Rightarrow> df_procedure f)"

definition current_path :: "dm_frame list \<Rightarrow> string" where
  "current_path frames = (case frames of [] \<Rightarrow> [] | f # _ \<Rightarrow> df_path f)"

definition statement_line :: "dm_line \<Rightarrow> dm_state \<Rightarrow> dm_state" where
  "statement_line l st =
     (let tokens = ln_tokens l; procedure = current_procedure (ds_frames st); base = current_path (ds_frames st);
          conditional = (ds_conditional_depth st > 0)
      in if procedure = None \<and> dt_text (hd tokens) = ''parent_type'' then parent_type_line tokens base conditional st
         else case dm_declaration tokens base (procedure \<noteq> None) of
                Some d \<Rightarrow> declaration_line l d procedure conditional st
              | None \<Rightarrow> push_evidence tokens procedure conditional st)"

definition process_line :: "dm_line \<Rightarrow> dm_state \<Rightarrow> dm_state" where
  "process_line l st =
     (let tokens = ln_tokens l;
          closing = length (takeWhile (\<lambda>t. dt_text t = ''}'') tokens);
          effective_braces = ds_braces st - closing;
          at = dt_start (hd tokens);
          (bindings, facts) = close_bindings (ln_indent l) effective_braces at (ds_bindings st) (ds_facts st);
          st1 = st\<lparr>ds_bindings := bindings, ds_facts := facts\<rparr>
      in if dt_text (hd tokens) = ''#'' then directive_line l st1
         else
           let (frames, facts') = close_frames (ln_indent l) effective_braces at (ds_frames st1) facts;
               st2 = statement_line l (st1\<lparr>ds_frames := frames, ds_facts := facts'\<rparr>)
           in st2\<lparr>ds_braces := count_braces tokens (ds_braces st2)\<rparr>)"

definition set_status :: "string \<Rightarrow> dm_facts \<Rightarrow> dm_facts" where
  "set_status s = (\<lambda>(r, defs). (r\<lparr>ex_status := s\<rparr>, defs))"

fun process_lines :: "dm_line list \<Rightarrow> dm_state \<Rightarrow> dm_state" where
  "process_lines [] st = st"
| "process_lines (l # ls) st =
     (if ln_tokens l = [] then process_lines ls st
      else if fact_count (fst (ds_facts st)) + length (ln_tokens l) + 2 > MAX_FACTS
      then st\<lparr>ds_facts := set_status ''recovered_incomplete'' (ds_facts st)\<rparr>
      else process_lines ls (process_line l st))"

definition dm_initial :: "bool \<Rightarrow> dm_state" where
  "dm_initial complete =
     \<lparr>ds_facts = (\<lparr>ex_language = ''dreammaker'',
                    ex_status = (if complete then ''recovered'' else ''recovered_incomplete''),
                    ex_definitions = [], ex_occurrences = [], ex_relationships = []\<rparr>, []),
      ds_frames = [], ds_evidence = [], ds_parents = Map.empty, ds_braces = 0, ds_conditional_depth = 0,
      ds_includes = False, ds_bindings = []\<rparr>"

definition close_all :: "nat \<Rightarrow> dm_state \<Rightarrow> dm_facts" where
  "close_all len st = fold (\<lambda>f. close_definition (df_definition f) len) (ds_frames st) (ds_facts st)"

text \<open>Everything before resolution: the state after the last line, with the frames closed at the end of the file.\<close>

definition recover :: "bytes \<Rightarrow> dm_state" where
  "recover source =
     (let (ls, complete) = tokenize source;
          st = process_lines ls (dm_initial complete);
          facts = close_all (length source) st
      in st\<lparr>ds_frames := [],
           ds_facts := (if ds_conditional_depth st > 0 then set_status ''recovered_incomplete'' facts else facts)\<rparr>)"

section \<open>The facts invariant\<close>

text \<open>
  Before offset \<open>pos\<close> of a file of \<open>len\<close> bytes: the two lists of definitions agree, spans are inside the file, names come in
  source order, owners exist, and nothing is resolved yet.
\<close>

definition pair_ok :: "nat \<Rightarrow> nat \<Rightarrow> extracted_definition \<Rightarrow> dm_definition \<Rightarrow> bool" where
  "pair_ok len n d e \<longleftrightarrow> definition_fits len d \<and> ed_start d \<le> dd_name_start e \<and> dd_name_start e < dd_name_end e
     \<and> dd_name_end e \<le> len
     \<and> (\<forall>i \<in> set_option (dd_local_owner e). i < n \<and> (ed_kind d = ''binding'' \<or> ed_kind d = ''parameter''))"

definition unresolved :: "nat \<Rightarrow> nat \<Rightarrow> file_extraction \<Rightarrow> bool" where
  "unresolved len n r \<longleftrightarrow>
     list_all (\<lambda>o'. occurrence_fits len n o' \<and> eo_target o' = None \<and> eo_candidates o' = []) (ex_occurrences r)
     \<and> list_all (\<lambda>x. relationship_fits len n x \<and> er_target x = None) (ex_relationships r)"

definition facts_inv :: "nat \<Rightarrow> nat \<Rightarrow> dm_facts \<Rightarrow> bool" where
  "facts_inv len pos facts \<longleftrightarrow> (case facts of (r, defs) \<Rightarrow>
     list_all2 (pair_ok len (length defs)) (ex_definitions r) defs
     \<and> sorted (map ed_start (ex_definitions r)) \<and> sorted_wrt (<) (map dd_name_start defs)
     \<and> (\<forall>e \<in> set defs. dd_name_start e < pos) \<and> unresolved len (length defs) r)"

definition starts_of :: "dm_facts \<Rightarrow> nat list" where
  "starts_of facts = map ed_start (ex_definitions (fst facts))"

lemma facts_inv_length: "facts_inv len pos facts \<Longrightarrow> length (starts_of facts) = length (snd facts)"
  by (auto simp: facts_inv_def starts_of_def dest: list_all2_lengthD)

lemma facts_inv_mono: "facts_inv len pos facts \<Longrightarrow> pos \<le> pos' \<Longrightarrow> facts_inv len pos' facts"
  by (fastforce simp: facts_inv_def)

lemma pair_ok_mono: "pair_ok len n d e \<Longrightarrow> n \<le> m \<Longrightarrow> pair_ok len m d e"
  by (fastforce simp: pair_ok_def)

lemma unresolved_mono: "unresolved len n r \<Longrightarrow> n \<le> m \<Longrightarrow> unresolved len m r"
  by (auto simp: unresolved_def list_all_iff intro: occurrence_fits_mono relationship_fits_mono)

lemma facts_inv_starts:
  assumes "facts_inv len pos (r, defs)" "d \<in> set (ex_definitions r)"
  shows "ed_start d < pos"
proof -
  from assms(2) obtain i where i: "i < length (ex_definitions r)" "ex_definitions r ! i = d"
    by (auto simp: in_set_conv_nth)
  with assms(1) have "pair_ok len (length defs) d (defs ! i)" "i < length defs"
    by (auto simp: facts_inv_def dest: list_all2_lengthD list_all2_nthD)
  moreover from this(2) assms(1) have "dd_name_start (defs ! i) < pos" by (auto simp: facts_inv_def)
  ultimately show ?thesis by (auto simp: pair_ok_def)
qed

lemma map_update_same: "f y = f (xs ! i) \<Longrightarrow> map f (xs[i := y]) = map f xs"
  by (cases "i < length xs") (simp_all add: list_update_beyond, metis list_update_id map_update nth_map)

lemma list_all2_update1: "list_all2 P xs ys \<Longrightarrow> P x (ys ! i) \<Longrightarrow> list_all2 P (xs[i := x]) ys"
  by (metis list_all2_update_cong list_update_id)

lemma facts_inv_add_definition:
  assumes inv: "facts_inv len pos facts" and place: "pos \<le> start" "start \<le> dt_start t" "start < stop" "stop \<le> len"
    "dt_start t < dt_end t" "dt_end t \<le> len" "dt_start t < pos'"
    and owner: "\<forall>i \<in> set_option local_owner. i < length (snd facts) \<and> (kind = ''binding'' \<or> kind = ''parameter'')"
  shows "facts_inv len pos' (add_definition t start stop kind path container conditional local_owner facts)"
    and "starts_of (add_definition t start stop kind path container conditional local_owner facts) = starts_of facts @ [start]"
proof -
  obtain r defs where facts: "facts = (r, defs)" by fastforce
  have before: "\<forall>e \<in> set defs. dd_name_start e < pos" "\<forall>d \<in> set (ex_definitions r). ed_start d < pos"
    using inv facts facts_inv_starts by (auto simp: facts_inv_def)
  have "list_all2 (pair_ok len (Suc (length defs))) (ex_definitions r) defs"
    using inv facts by (auto simp: facts_inv_def elim!: list_all2_mono intro: pair_ok_mono)
  moreover have "unresolved len (Suc (length defs)) r"
    using inv facts by (auto simp: facts_inv_def intro: unresolved_mono)
  moreover have "\<forall>e \<in> set defs. dd_name_start e < dt_start t \<and> dd_name_start e < pos'"
    "\<forall>d \<in> set (ex_definitions r). ed_start d \<le> start"
    using before place by fastforce+
  ultimately show "facts_inv len pos' (add_definition t start stop kind path container conditional local_owner facts)"
    using inv place owner
    by (auto simp: facts facts_inv_def add_definition_def pair_ok_def definition_fits_def
        sorted_append sorted_wrt_append unresolved_def intro!: list_all2_appendI)
qed (simp add: starts_of_def add_definition_def split: prod.splits)

lemma facts_inv_close:
  assumes "facts_inv len pos facts" "pos \<le> stop" "stop \<le> len"
  shows "facts_inv len pos (close_definition d stop facts)" and "starts_of (close_definition d stop facts) = starts_of facts"
    and "snd (close_definition d stop facts) = snd facts"
proof -
  obtain r defs where facts: "facts = (r, defs)" by fastforce
  show starts: "starts_of (close_definition d stop facts) = starts_of facts"
    by (auto simp: facts starts_of_def close_definition_def map_update_same split: option.splits)
  show "snd (close_definition d stop facts) = snd facts" by (simp add: facts close_definition_def split: option.splits)
  have "list_all2 (pair_ok len (length defs)) ((ex_definitions r)[i := (ex_definitions r ! i)\<lparr>ed_end := stop\<rparr>]) defs" for i
  proof (cases "i < length (ex_definitions r)")
    case True
    with assms facts have "pair_ok len (length defs) (ex_definitions r ! i) (defs ! i)" "dd_name_start (defs ! i) < pos"
      by (auto simp: facts_inv_def dest: list_all2_lengthD list_all2_nthD)
    then have "pair_ok len (length defs) ((ex_definitions r ! i)\<lparr>ed_end := stop\<rparr>) (defs ! i)"
      using assms(2,3) by (auto simp: pair_ok_def definition_fits_def)
    with assms(1) facts show ?thesis by (auto simp: facts_inv_def intro: list_all2_update1)
  qed (use assms facts in \<open>simp add: facts_inv_def list_update_beyond\<close>)
  with assms(1) starts show "facts_inv len pos (close_definition d stop facts)"
    by (auto simp: facts facts_inv_def close_definition_def starts_of_def unresolved_def split: option.splits)
qed

lemma facts_inv_end_scope:
  assumes "facts_inv len pos facts"
  shows "facts_inv len pos (end_scope i stop facts)" and "starts_of (end_scope i stop facts) = starts_of facts"
    and "length (snd (end_scope i stop facts)) = length (snd facts)"
proof -
  obtain r defs where facts: "facts = (r, defs)" by fastforce
  let ?defs = "defs[i := (defs ! i)\<lparr>dd_scope_end := stop\<rparr>]"
  have names: "map dd_name_start ?defs = map dd_name_start defs"
    by (simp add: map_update_same)
  have "list_all2 (pair_ok len (length defs)) (ex_definitions r) ?defs"
  proof (rule list_all2_all_nthI)
    show "length (ex_definitions r) = length ?defs" using assms facts by (auto simp: facts_inv_def dest: list_all2_lengthD)
    fix j assume "j < length (ex_definitions r)"
    with assms facts have "pair_ok len (length defs) (ex_definitions r ! j) (defs ! j)" "j < length defs"
      by (auto simp: facts_inv_def dest: list_all2_lengthD list_all2_nthD)
    then show "pair_ok len (length defs) (ex_definitions r ! j) (?defs ! j)"
      by (cases "i = j") (auto simp: pair_ok_def)
  qed
  moreover have "\<forall>e \<in> set ?defs. dd_name_start e < pos"
    using assms facts arg_cong [OF names, of set] by (auto simp: facts_inv_def) (metis (mono_tags, lifting) image_iff)
  ultimately show "facts_inv len pos (end_scope i stop facts)"
    using assms names by (simp add: facts facts_inv_def end_scope_def)
qed (simp_all add: starts_of_def end_scope_def split: prod.splits)

lemma facts_inv_add_occurrence:
  assumes "facts_inv len pos facts" "eo_start o' < eo_end o'" "eo_end o' \<le> len" "eo_target o' = None" "eo_candidates o' = []"
  shows "facts_inv len pos (add_occurrence o' facts)" and "starts_of (add_occurrence o' facts) = starts_of facts"
    and "snd (add_occurrence o' facts) = snd facts"
  using assms
  by (auto simp: facts_inv_def add_occurrence_def unresolved_def starts_of_def occurrence_fits_def split: prod.splits)

lemma facts_inv_add_relationship:
  assumes "facts_inv len pos facts" "er_source x < length (snd facts)" "er_evidence_start x < er_evidence_end x"
    "er_evidence_end x \<le> len" "er_target x = None"
  shows "facts_inv len pos (add_relationship x facts)" and "starts_of (add_relationship x facts) = starts_of facts"
    and "snd (add_relationship x facts) = snd facts"
  using assms
  by (auto simp: facts_inv_def add_relationship_def unresolved_def starts_of_def relationship_fits_def split: prod.splits)

lemma facts_inv_status: "facts_inv len pos (set_status s facts) = facts_inv len pos facts"
  "starts_of (set_status s facts) = starts_of facts" "snd (set_status s facts) = snd facts"
  by (auto simp: facts_inv_def set_status_def unresolved_def starts_of_def split: prod.splits)

lemma decl_parts_bounds:
  "decl_parts index ts = Some (parts, stop) \<Longrightarrow>
   parts \<noteq> [] \<and> index \<le> snd (last parts) \<and> snd (last parts) < stop \<and> stop \<le> index + length ts
   \<and> is_identifier (ts ! (snd (last parts) - index))"
proof (induction index ts arbitrary: parts rule: decl_parts.induct)
  case (3 index t s rest)
  show ?case
  proof (cases "is_identifier t \<and> dt_text s = ''/''")
    case True
    with 3(2) obtain ps where ps: "decl_parts (index + 2) rest = Some (ps, stop)" "parts = (dt_text t, index) # ps"
      by auto
    from True 3(1) [OF _ _ ps(1)] have "ps \<noteq> []" "index + 2 \<le> snd (last ps)" "snd (last ps) < stop"
      "stop \<le> index + 2 + length rest" "is_identifier (rest ! (snd (last ps) - (index + 2)))" by auto
    moreover from this(2) have "(t # s # rest) ! (snd (last ps) - index) = rest ! (snd (last ps) - (index + 2))"
      by (simp add: nth_Cons' )
    ultimately show ?thesis using ps by auto
  next
    case False
    with 3(2) show ?thesis by (auto split: if_splits)
  qed
qed (auto split: if_splits)

lemma dm_declaration_bounds:
  assumes "dm_declaration tokens base in_proc = Some (path, name_index, path_end, kind)"
  shows "name_index < path_end" "path_end \<le> length tokens" "is_identifier (tokens ! name_index)"
    "kind = ''proc'' \<or> kind = ''verb'' \<Longrightarrow> path_end < length tokens"
    "kind \<in> {''namespace'', ''binding'', ''field'', ''verb'', ''proc'', ''type''}"
proof -
  obtain t rest where tokens: "tokens = t # rest" using assms by (cases tokens) (auto simp: dm_declaration_def)
  define start where "start = (if dt_text t = ''/'' then 1 else 0 :: nat)"
  obtain parts where parts: "decl_parts start (drop start tokens) = Some (parts, path_end)"
    "name_index = snd (last parts)"
    using assms by (auto simp: dm_declaration_def tokens start_def Let_def split: option.splits if_splits)
  note bounds = decl_parts_bounds [OF parts(1)]
  have "start \<le> length tokens" by (simp add: tokens start_def)
  with bounds parts(2) show "name_index < path_end" "path_end \<le> length tokens" "is_identifier (tokens ! name_index)"
    by auto
  show "kind = ''proc'' \<or> kind = ''verb'' \<Longrightarrow> path_end < length tokens"
    "kind \<in> {''namespace'', ''binding'', ''field'', ''verb'', ''proc'', ''type''}"
    using assms parts by (auto simp: dm_declaration_def tokens start_def Let_def nth_opt_def split: option.splits if_splits)
qed

lemma concat_split_list: "concat (split_list p xs) = filter (\<lambda>x. \<not> p x) xs"
  by (induction xs) (auto split: list.splits)

lemma parameter_name_mem:
  assumes "parameter_name p = Some t"
  shows "t \<in> set p" "is_identifier t"
proof -
  have "set (hd (split_list (\<lambda>t. dt_text t = ''='') p)) \<subseteq> set p"
    using concat_split_list [of "\<lambda>t. dt_text t = ''=''" p] split_list_nonempty [of "\<lambda>t. dt_text t = ''=''" p]
    by (metis (no_types, lifting) UN_upper filter_is_subset hd_in_set set_concat subset_trans)
  moreover have "t \<in> set (hd (split_list (\<lambda>t. dt_text t = ''='') p))" and "is_identifier t"
    using assms by (auto simp: parameter_name_def find_Some_iff) (metis length_rev nth_mem set_rev)
  ultimately show "t \<in> set p" "is_identifier t" by auto
qed

abbreviation (input) before :: "dm_token \<Rightarrow> dm_token \<Rightarrow> bool" where
  "before a b \<equiv> dt_end a \<le> dt_start b"

definition token_fits :: "nat \<Rightarrow> dm_token \<Rightarrow> bool" where
  "token_fits len t \<longleftrightarrow> dt_start t < dt_end t \<and> dt_end t \<le> len"

lemma facts_inv_parameters:
  assumes "facts_inv len pos facts" "owner < length (snd facts)" "pos \<le> high"
    "\<forall>t \<in> set (concat ps). token_fits len t \<and> pos \<le> dt_start t \<and> dt_start t < high"
    "sorted_wrt before (concat ps)"
  shows "facts_inv len high (fold (add_parameter owner conditional) ps facts)
    \<and> (\<exists>ys. starts_of (fold (add_parameter owner conditional) ps facts) = starts_of facts @ ys
        \<and> length ys \<le> length (concat ps))"
  using assms
proof (induction ps arbitrary: pos facts)
  case Nil
  then show ?case by (auto intro: facts_inv_mono)
next
  case (Cons p ps)
  show ?case
  proof (cases "parameter_name p")
    case None
    with Cons.IH [OF Cons.prems(1-3)] Cons.prems(4,5) show ?thesis
      by (force simp: add_parameter_def sorted_wrt_append)
  next
    case (Some name)
    let ?next = "add_parameter owner conditional p facts"
    note mem = parameter_name_mem(1) [OF Some]
    have name: "token_fits len name" "pos \<le> dt_start name" "dt_start name < high"
      using Cons.prems(4) mem by auto
    have later: "\<forall>t \<in> set (concat ps). dt_start name + 1 \<le> dt_start t"
      using Cons.prems(5) mem name(1) by (auto simp: sorted_wrt_append token_fits_def) fastforce
    have inv: "facts_inv len (dt_start name + 1) ?next" "starts_of ?next = starts_of facts @ [dt_start name]"
      using Cons.prems(1,2) name facts_inv_add_definition [of len pos facts "dt_start name" name "dt_end name"]
      by (auto simp: add_parameter_def Some Let_def token_fits_def)
    have "owner < length (snd ?next)"
      using Cons.prems(2) by (auto simp: add_parameter_def Some Let_def add_definition_def split: prod.splits)
    from Cons.IH [OF inv(1) this] Cons.prems(4,5) later name
    have "facts_inv len high (fold (add_parameter owner conditional) ps ?next)"
      and ys: "\<exists>ys. starts_of (fold (add_parameter owner conditional) ps ?next) = starts_of ?next @ ys
        \<and> length ys \<le> length (concat ps)"
      by (auto simp: sorted_wrt_append)
    moreover have "Suc n \<le> length p + m" if "n \<le> m" for n m using mem that by (cases p) auto
    ultimately show ?thesis by (auto simp: inv(2))
  qed
qed

section \<open>The state invariant\<close>

definition below :: "nat \<Rightarrow> nat option \<Rightarrow> bool" where
  "below n i \<longleftrightarrow> (\<forall>k \<in> set_option i. k < n)"

definition evidence_ok :: "nat \<Rightarrow> nat list \<Rightarrow> dm_evidence \<Rightarrow> bool" where
  "evidence_ok len starts e \<longleftrightarrow> list_all (token_fits len) (de_tokens e) \<and> sorted_wrt before (de_tokens e) \<and> below (length starts) (de_procedure e)
     \<and> (\<forall>i \<in> set_option (de_procedure e). \<forall>t \<in> set (de_tokens e). starts ! i \<le> dt_start t)"

definition refs_ok :: "nat \<Rightarrow> nat list \<Rightarrow> dm_state \<Rightarrow> bool" where
  "refs_ok len starts st \<longleftrightarrow>
     list_all (\<lambda>f. below (length starts) (df_definition f) \<and> below (length starts) (df_procedure f)) (ds_frames st)
     \<and> list_all (\<lambda>b. fst b < length starts) (ds_bindings st) \<and> list_all (evidence_ok len starts) (ds_evidence st)"

definition state_inv :: "nat \<Rightarrow> nat \<Rightarrow> dm_state \<Rightarrow> bool" where
  "state_inv len pos st \<longleftrightarrow> facts_inv len pos (ds_facts st) \<and> refs_ok len (starts_of (ds_facts st)) st"

text \<open>The tokens of one line that starts at or after \<open>pos\<close>.\<close>

definition line_ok :: "nat \<Rightarrow> nat \<Rightarrow> dm_line \<Rightarrow> bool" where
  "line_ok len pos l \<longleftrightarrow> ln_tokens l \<noteq> [] \<and> pos < ln_end l \<and> ln_end l \<le> len \<and> sorted_wrt before (ln_tokens l)
     \<and> (\<forall>t \<in> set (ln_tokens l). token_fits len t \<and> pos \<le> dt_start t \<and> dt_start t < ln_end l)"

lemma below_mono: "below n i \<Longrightarrow> n \<le> m \<Longrightarrow> below m i"
  by (fastforce simp: below_def)

lemma evidence_ok_extend: "evidence_ok len starts e \<Longrightarrow> evidence_ok len (starts @ ys) e"
  by (auto simp: evidence_ok_def nth_append below_def)

lemma refs_ok_extend: "refs_ok len starts st \<Longrightarrow> refs_ok len (starts @ ys) st"
  unfolding refs_ok_def by (auto simp: list_all_iff intro: evidence_ok_extend below_mono trans_less_add1)

lemma line_ok_lines:
  "lines_in source pos (l # ls) \<Longrightarrow> ln_tokens l \<noteq> [] \<Longrightarrow> line_ok (length source) pos l"
  using tokens_in_sorted [of source pos "ln_end l" "ln_tokens l"] tokens_in_mem [of source pos "ln_end l" "ln_tokens l"]
  by (auto simp: line_ok_def token_fits_def)

lemma line_ok_hd:
  assumes "line_ok len pos l"
  shows "hd (ln_tokens l) \<in> set (ln_tokens l)" "pos \<le> dt_start (hd (ln_tokens l))" "dt_start (hd (ln_tokens l)) < ln_end l"
    "t \<in> set (ln_tokens l) \<Longrightarrow> dt_start (hd (ln_tokens l)) \<le> dt_start t"
  using assms
  by (cases "ln_tokens l"; fastforce simp: line_ok_def token_fits_def)+

lemma close_bindings_inv:
  assumes "facts_inv len pos facts"
  shows "facts_inv len pos (snd (close_bindings indent braces at bs facts))
    \<and> starts_of (snd (close_bindings indent braces at bs facts)) = starts_of facts
    \<and> fact_count (fst (snd (close_bindings indent braces at bs facts))) = fact_count (fst facts)
    \<and> set (fst (close_bindings indent braces at bs facts)) \<subseteq> set bs"
  using assms
proof (induction indent braces at bs facts rule: close_bindings.induct)
  case (2 indent braces at i n depth bs facts)
  have "fact_count (fst (end_scope i at facts)) = fact_count (fst facts)" by (simp add: end_scope_def split: prod.splits)
  with 2 facts_inv_end_scope [OF 2(2), of i at] show ?case by auto
qed simp

lemma close_frames_inv:
  assumes "facts_inv len pos facts" "pos \<le> at" "at \<le> len"
  shows "facts_inv len pos (snd (close_frames indent braces at fs facts))
    \<and> starts_of (snd (close_frames indent braces at fs facts)) = starts_of facts
    \<and> fact_count (fst (snd (close_frames indent braces at fs facts))) = fact_count (fst facts)
    \<and> set (fst (close_frames indent braces at fs facts)) \<subseteq> set fs"
  using assms
proof (induction indent braces at fs facts rule: close_frames.induct)
  case (2 indent braces at f fs facts)
  have "fact_count (fst (close_definition (df_definition f) at facts)) = fact_count (fst facts)"
    by (auto simp: close_definition_def fact_count_def split: prod.splits option.splits)
  with 2 facts_inv_close [OF 2(2-4), of "df_definition f"] show ?case by auto
qed simp

lemma fact_count_add [simp]:
  "fact_count (fst (add_definition t start stop kind path container conditional local_owner facts)) = Suc (fact_count (fst facts))"
  "fact_count (fst (add_occurrence o' facts)) = Suc (fact_count (fst facts))"
  "fact_count (fst (add_relationship x facts)) = Suc (fact_count (fst facts))"
  by (auto simp: fact_count_def add_definition_def add_occurrence_def add_relationship_def split: prod.splits)

lemma push_evidence_inv:
  assumes "state_inv len pos st" "\<forall>t \<in> set tokens. token_fits len t" "sorted_wrt before tokens"
    "below (length (starts_of (ds_facts st))) procedure"
    "\<forall>i \<in> set_option procedure. \<forall>t \<in> set tokens. starts_of (ds_facts st) ! i \<le> dt_start t"
  shows "state_inv len pos (push_evidence tokens procedure conditional st)"
  using assms by (auto simp: state_inv_def refs_ok_def push_evidence_def evidence_ok_def list_all_iff)

lemma state_inv_mono: "state_inv len pos st \<Longrightarrow> pos \<le> pos' \<Longrightarrow> state_inv len pos' st"
  by (auto simp: state_inv_def intro: facts_inv_mono)

lemma starts_before: "state_inv len pos st \<Longrightarrow> i < length (starts_of (ds_facts st)) \<Longrightarrow> starts_of (ds_facts st) ! i < pos"
  by (cases "ds_facts st") (auto simp: state_inv_def starts_of_def intro: facts_inv_starts)

lemma directive_line_inv:
  assumes inv: "state_inv len pos st" and line: "line_ok len pos l"
  shows "state_inv len (ln_end l) (directive_line l st)"
    and "fact_count (fst (ds_facts (directive_line l st))) \<le> fact_count (fst (ds_facts st)) + 1"
proof -
  have third: "nth_opt (ln_tokens l) 2 = Some t \<Longrightarrow>
      token_fits len t \<and> pos \<le> dt_start t \<and> dt_start t < ln_end l \<and> ln_end l \<le> len" for t
    using line by (auto simp: line_ok_def nth_opt_def split: if_splits)
  have later: "state_inv len (ln_end l) st" using inv line by (auto simp: line_ok_def intro: state_inv_mono)
  have refs: "refs_ok len (starts_of (ds_facts st) @ ys) st" for ys
    using inv by (auto simp: state_inv_def intro: refs_ok_extend)
  have fits: "(\<forall>t \<in> set (drop n (ln_tokens l)). token_fits len t) \<and> sorted_wrt before (drop n (ln_tokens l))" for n
    using line by (auto simp: line_ok_def sorted_wrt_drop dest: in_set_dropD)
  have included: "facts_inv len (ln_end l) (add_occurrence (include_occurrence t) (ds_facts st))"
      "starts_of (add_occurrence (include_occurrence t) (ds_facts st)) = starts_of (ds_facts st)"
    if "nth_opt (ln_tokens l) 2 = Some t" for t
    using third [OF that] later facts_inv_add_occurrence [of len "ln_end l" "ds_facts st" "include_occurrence t"]
    by (auto simp: state_inv_def include_occurrence_def token_fits_def)
  have defined: "facts_inv len (ln_end l) (add_definition t (dt_start t) (ln_end l) ''macro'' (dt_text t) None c None (ds_facts st))"
      "starts_of (add_definition t (dt_start t) (ln_end l) ''macro'' (dt_text t) None c None (ds_facts st)) =
        starts_of (ds_facts st) @ [dt_start t]"
    if "nth_opt (ln_tokens l) 2 = Some t" for t c
    using third [OF that] inv
      facts_inv_add_definition [of len pos "ds_facts st" "dt_start t" t "ln_end l" "ln_end l" None "''macro''"]
    by (auto simp: state_inv_def token_fits_def)
  show "state_inv len (ln_end l) (directive_line l st)"
    using later refs refs [of "[]"] included defined fits
    by (auto simp: directive_line_def Let_def state_inv_def refs_ok_def evidence_ok_def below_def list_all_iff
        split: option.splits)
  show "fact_count (fst (ds_facts (directive_line l st))) \<le> fact_count (fst (ds_facts st)) + 1"
    by (auto simp: directive_line_def Let_def split: option.splits)
qed

lemma span_of_tokens:
  assumes "sorted_wrt before ts" "ts \<noteq> []" "\<forall>t \<in> set ts. token_fits len t"
  shows "dt_start (hd ts) < dt_end (last ts)" "dt_end (last ts) \<le> len"
proof -
  obtain t rest where ts: "ts = t # rest" using assms(2) by (cases ts) auto
  show "dt_end (last ts) \<le> len" using assms(2,3) by (simp add: token_fits_def)
  have "before t (last rest)" if "rest \<noteq> []" using assms(1) that by (simp add: ts)
  moreover have "token_fits len t" "token_fits len (last ts)" using assms(2,3) by (simp_all add: ts)
  ultimately show "dt_start (hd ts) < dt_end (last ts)" by (cases "rest = []") (simp_all add: ts token_fits_def)
qed

lemma parent_type_facts_inv:
  assumes inv: "facts_inv len pos facts" and path: "dt_start (hd path) < dt_end (last path)" "dt_end (last path) \<le> len"
    and owner: "below (length (starts_of facts)) owner"
  shows "facts_inv len pos (parent_type_facts path owner facts)" "starts_of (parent_type_facts path owner facts) = starts_of facts"
    "fact_count (fst (parent_type_facts path owner facts)) \<le> fact_count (fst facts) + 2"
proof -
  define occ where "occ = \<lparr>eo_name = concat (map dt_text path), eo_start = dt_start (hd path), eo_end = dt_end (last path),
    eo_role = ''parent_type'', eo_target = None, eo_candidates = [],
    eo_provenance = ''dm-recovery:explicit-parent-type;preprocessor-not-evaluated''\<rparr>"
  have 1: "facts_inv len pos (add_occurrence occ facts)" "starts_of (add_occurrence occ facts) = starts_of facts"
    "snd (add_occurrence occ facts) = snd facts"
    using facts_inv_add_occurrence [OF inv, of occ] path by (simp_all add: occ_def)
  have "facts_inv len pos (parent_type_facts path owner facts) \<and> starts_of (parent_type_facts path owner facts) = starts_of facts"
  proof (cases owner)
    case (Some i)
    then have "i < length (snd facts)" using owner facts_inv_length [OF inv] by (simp add: below_def)
    with facts_inv_add_relationship [OF 1(1)] 1 path show ?thesis
      by (simp add: parent_type_facts_def Let_def Some flip: occ_def)
  qed (use 1 in \<open>simp add: parent_type_facts_def Let_def flip: occ_def\<close>)
  then show "facts_inv len pos (parent_type_facts path owner facts)"
    "starts_of (parent_type_facts path owner facts) = starts_of facts" by simp_all
qed (simp add: parent_type_facts_def Let_def split: option.splits)

lemma parent_type_line_inv:
  assumes inv: "state_inv len pos st" and line: "line_ok len pos l"
  shows "state_inv len (ln_end l) (parent_type_line (ln_tokens l) base conditional st)"
    and "fact_count (fst (ds_facts (parent_type_line (ln_tokens l) base conditional st))) \<le> fact_count (fst (ds_facts st)) + 2"
proof -
  let ?P = "\<lambda>t. is_identifier t \<or> dt_text t = ''/''"
  let ?owner = "case ds_frames st of [] \<Rightarrow> None | f # _ \<Rightarrow> df_definition f"
  let ?st = "parent_type_line (ln_tokens l) base conditional st"
  have later: "facts_inv len (ln_end l) (ds_facts st)" "refs_ok len (starts_of (ds_facts st)) st"
    using inv line by (auto simp: line_ok_def state_inv_def intro: facts_inv_mono)
  have owner: "below (length (starts_of (ds_facts st))) ?owner"
    using later(2) by (auto simp: refs_ok_def below_def split: list.splits)
  have "state_inv len (ln_end l) ?st \<and> fact_count (fst (ds_facts ?st)) \<le> fact_count (fst (ds_facts st)) + 2"
  proof (cases "position_of (\<lambda>t. dt_text t = ''='') (ln_tokens l)")
    case (Some eq)
    define path where "path = takeWhile ?P (drop (Suc eq) (ln_tokens l))"
    show ?thesis
    proof (cases "prefix ''/'' (concat (map dt_text path))")
      case True
      have sub: "set path \<subseteq> set (ln_tokens l)" by (auto simp: path_def dest: set_takeWhileD in_set_dropD)
      have "sorted_wrt before path"
        using line sorted_wrt_append [of before path "dropWhile ?P (drop (Suc eq) (ln_tokens l))"]
        by (simp add: line_ok_def path_def sorted_wrt_drop)
      moreover have "\<forall>t \<in> set path. token_fits len t" "path \<noteq> []" using sub line True by (auto simp: line_ok_def)
      ultimately have "dt_start (hd path) < dt_end (last path)" "dt_end (last path) \<le> len"
        using span_of_tokens by blast+
      note facts = parent_type_facts_inv [OF later(1) this owner]
      from facts later(2) True show ?thesis
        by (simp add: parent_type_line_def Some Let_def state_inv_def refs_ok_def flip: path_def)
    qed (use later in \<open>simp add: parent_type_line_def Some state_inv_def flip: path_def\<close>)
  qed (use later in \<open>simp add: parent_type_line_def state_inv_def\<close>)
  then show "state_inv len (ln_end l) ?st" "fact_count (fst (ds_facts ?st)) \<le> fact_count (fst (ds_facts st)) + 2"
    by simp_all
qed

lemma push_frame_inv:
  assumes "state_inv len pos st" "index < length (starts_of (ds_facts st))" "below (length (starts_of (ds_facts st))) procedure"
  shows "state_inv len pos (push_frame l path index procedure st)" "ds_facts (push_frame l path index procedure st) = ds_facts st"
  using assms by (auto simp: push_frame_def Let_def state_inv_def refs_ok_def below_def)

lemma recover_parameters_inv:
  assumes inv: "state_inv len pos st" and line: "line_ok len low l"
    and owner: "owner < length (starts_of (ds_facts st))" "open_index < length (ln_tokens l)"
    and pos: "pos \<le> dt_end (ln_tokens l ! open_index)" "pos \<le> ln_end l"
  shows "facts_inv len (ln_end l) (recover_parameters (ln_tokens l) open_index owner conditional (ds_facts st))"
    and "\<exists>ys. starts_of (recover_parameters (ln_tokens l) open_index owner conditional (ds_facts st)) = starts_of (ds_facts st) @ ys"
    and "fact_count (fst (recover_parameters (ln_tokens l) open_index owner conditional (ds_facts st)))
      \<le> fact_count (fst (ds_facts st)) + length (ln_tokens l)"
proof -
  let ?ts = "ln_tokens l" and ?facts = "ds_facts st"
  have facts: "facts_inv len pos ?facts" using inv by (simp add: state_inv_def)
  have count: "fact_count (fst (fold (add_parameter owner conditional) ps f)) \<le> fact_count (fst f) + length (concat ps)" for ps f
  proof (induction ps arbitrary: f)
    case (Cons p ps)
    have "fact_count (fst (add_parameter owner conditional p f)) \<le> fact_count (fst f) + length p"
      using parameter_name_mem(1) [of p]
      by (cases p) (auto simp: add_parameter_def Let_def parameter_name_def split: option.splits)
    with Cons [of "add_parameter owner conditional p f"] show ?case by simp
  qed simp
  have goal: "facts_inv len (ln_end l) (fold (add_parameter owner conditional) ps ?facts)
      \<and> (\<exists>ys. starts_of (fold (add_parameter owner conditional) ps ?facts) = starts_of ?facts @ ys)
      \<and> fact_count (fst (fold (add_parameter owner conditional) ps ?facts)) \<le> fact_count (fst ?facts) + length ?ts"
    if "concat ps = filter q (slice (open_index + 1) stop ?ts)" for ps q stop
  proof -
    let ?mid = "slice (open_index + 1) stop ?ts"
    have after: "\<forall>t \<in> set (drop (open_index + 1) ?ts). before (?ts ! open_index) t"
      using line owner(2) by (auto simp: line_ok_def sorted_wrt_iff_nth_less in_set_conv_nth)
    have sub: "set ?mid \<subseteq> set (drop (open_index + 1) ?ts)" by (auto simp: slice_def dest: in_set_takeD)
    have "\<forall>t \<in> set (concat ps). token_fits len t \<and> pos \<le> dt_start t \<and> dt_start t < ln_end l"
    proof
      fix t assume "t \<in> set (concat ps)"
      then have t: "t \<in> set (drop (open_index + 1) ?ts)" using that sub by auto
      then have "pos \<le> dt_start t" using after pos(1) by fastforce
      with in_set_dropD [OF t] line show "token_fits len t \<and> pos \<le> dt_start t \<and> dt_start t < ln_end l"
        by (simp add: line_ok_def)
    qed
    moreover have "sorted_wrt before (concat ps)"
      using line that by (simp add: line_ok_def slice_def sorted_wrt_filter sorted_wrt_take sorted_wrt_drop)
    moreover have "length (concat ps) \<le> length ?ts"
      using length_filter_le [of q ?mid] by (simp only: that) (auto simp: slice_def intro: le_trans)
    ultimately show ?thesis
      using facts_inv_parameters [OF facts _ pos(2), of owner ps conditional] facts_inv_length [OF facts] owner(1)
        count [of ps ?facts] by (auto intro: le_trans)
  qed
  note split = goal [OF concat_split_list]
  show "facts_inv len (ln_end l) (recover_parameters ?ts open_index owner conditional ?facts)"
    and "\<exists>ys. starts_of (recover_parameters ?ts open_index owner conditional ?facts) = starts_of ?facts @ ys"
    and "fact_count (fst (recover_parameters ?ts open_index owner conditional ?facts)) \<le> fact_count (fst ?facts) + length ?ts"
    using split facts_inv_mono [OF facts pos(2)] by (auto simp: recover_parameters_def split: option.splits)
qed

text \<open>The part of a procedure line that follows its own definition: the frame, the parameters, the rest of the line.\<close>

lemma procedure_line_inv:
  fixes l :: dm_line and st :: dm_state and path :: string and tail :: nat and conditional :: bool
  assumes inv: "state_inv len pos st" and line: "line_ok len low l"
    and index: "index < length (starts_of (ds_facts st))" "starts_of (ds_facts st) ! index = dt_start (hd (ln_tokens l))"
    and path_end: "path_end < length (ln_tokens l)" "pos \<le> dt_end (ln_tokens l ! path_end)" "pos \<le> ln_end l"
  defines "st' \<equiv> push_frame l path index (Some index) st"
  defines "st'' \<equiv> push_evidence (drop tail (ln_tokens l)) (Some index) conditional
    (st'\<lparr>ds_facts := recover_parameters (ln_tokens l) path_end index conditional (ds_facts st')\<rparr>)"
  shows "state_inv len (ln_end l) st'' \<and> fact_count (fst (ds_facts st'')) \<le> fact_count (fst (ds_facts st)) + length (ln_tokens l)"
proof -
  let ?ts = "ln_tokens l"
  let ?facts = "recover_parameters ?ts path_end index conditional (ds_facts st)"
  have st': "state_inv len pos st'" "ds_facts st' = ds_facts st"
    using push_frame_inv [OF inv, of index "Some index" l path] index by (auto simp: st'_def below_def)
  note parameters = recover_parameters_inv [OF inv line index(1) path_end, of conditional]
  obtain ys where ys: "starts_of ?facts = starts_of (ds_facts st) @ ys" using parameters(2) by blast
  have "refs_ok len (starts_of ?facts) st'"
    using st' refs_ok_extend [of len _ st' ys] by (simp add: ys state_inv_def)
  then have filled: "state_inv len (ln_end l) (st'\<lparr>ds_facts := ?facts\<rparr>)"
    using parameters(1) by (simp add: state_inv_def refs_ok_def)
  have "state_inv len (ln_end l) st''"
    unfolding st''_def st'(2)
    using line line_ok_hd(4) [OF line] index
    by (intro push_evidence_inv [OF filled]) (auto simp: line_ok_def below_def ys nth_append sorted_wrt_drop dest: in_set_dropD)
  moreover have "fact_count (fst (ds_facts st'')) \<le> fact_count (fst (ds_facts st)) + length ?ts"
    using parameters(3) by (simp add: st''_def push_evidence_def st'(2))
  ultimately show ?thesis by simp
qed

lemma declaration_line_inv:
  assumes inv: "state_inv len pos st" and line: "line_ok len pos l"
    and d: "dm_declaration (ln_tokens l) base in_proc = Some (path, name_index, path_end, kind)"
    and procedure: "below (length (starts_of (ds_facts st))) procedure"
  shows "state_inv len (ln_end l) (declaration_line l (path, name_index, path_end, kind) procedure conditional st)"
    and "fact_count (fst (ds_facts (declaration_line l (path, name_index, path_end, kind) procedure conditional st)))
      \<le> fact_count (fst (ds_facts st)) + length (ln_tokens l) + 2"
proof -
  let ?ts = "ln_tokens l"
  let ?name = "?ts ! name_index" and ?first = "dt_start (hd (ln_tokens l))"
  note bounds = dm_declaration_bounds [OF d]
  define n where "n = length (starts_of (ds_facts st))"
  define facts where "facts = add_definition ?name ?first (ln_end l) kind path (container_of path) conditional
    (if kind = ''binding'' then procedure else None) (ds_facts st)"
  define st1 where "st1 = st\<lparr>ds_facts := facts, ds_bindings :=
    (if kind = ''binding'' then (n, ln_indent l, ds_braces st) # ds_bindings st else ds_bindings st)\<rparr>"
  have n: "length (ex_definitions (fst (ds_facts st))) = n" "length (snd (ds_facts st)) = n"
    using inv facts_inv_length [of len pos "ds_facts st"] by (auto simp: n_def starts_of_def state_inv_def)
  have name: "?name \<in> set ?ts" using bounds by simp
  have fits: "\<forall>t \<in> set ts. token_fits len t \<and> ?first \<le> dt_start t" if "set ts \<subseteq> set ?ts" for ts
    using that line line_ok_hd(4) [OF line] by (auto simp: line_ok_def)
  have "facts_inv len (dt_start ?name + 1) facts \<and> starts_of facts = starts_of (ds_facts st) @ [?first]"
    unfolding facts_def
    using inv line line_ok_hd(2,3) [OF line] line_ok_hd(4) [OF line name] name procedure n
      facts_inv_add_definition [of len pos "ds_facts st" ?first ?name]
    by (auto simp: state_inv_def line_ok_def token_fits_def below_def n_def [symmetric])
  then have facts: "facts_inv len (dt_start ?name + 1) facts" "starts_of facts = starts_of (ds_facts st) @ [?first]" by simp_all
  have st1: "state_inv len (dt_start ?name + 1) st1"
    using facts inv refs_ok_extend [of len "starts_of (ds_facts st)" st "[?first]"]
    by (simp add: state_inv_def st1_def refs_ok_def n_def)
  have high: "dt_start ?name + 1 \<le> ln_end l" using name line by (auto simp: line_ok_def)
  have starts1: "starts_of (ds_facts st1) = starts_of (ds_facts st) @ [?first]" by (simp add: st1_def facts)
  have count1: "fact_count (fst (ds_facts st1)) = Suc (fact_count (fst (ds_facts st)))" by (simp add: st1_def facts_def)
  let ?result = "declaration_line l (path, name_index, path_end, kind) procedure conditional st"
  define body where "body st' = push_evidence
      (drop (case position_of (\<lambda>t. dt_text t = '')'') ?ts of None \<Rightarrow> length ?ts | Some m \<Rightarrow> m + 1) ?ts) (Some n) conditional
      ((push_frame l path n (Some n) st')\<lparr>ds_facts :=
        recover_parameters ?ts path_end n conditional (ds_facts (push_frame l path n (Some n) st'))\<rparr>)" for st'
  have result: "?result =
      (if kind = ''proc'' \<or> kind = ''verb'' then body st1
       else if kind = ''type'' \<or> kind = ''namespace'' then push_frame l path n None st1
       else push_evidence (drop path_end ?ts) procedure conditional st1)"
    by (simp only: declaration_line_def body_def st1_def facts_def Let_def prod.case n)
  have "state_inv len (ln_end l) ?result
    \<and> fact_count (fst (ds_facts ?result)) \<le> fact_count (fst (ds_facts st)) + length ?ts + 2"
  proof (cases "kind = ''proc'' \<or> kind = ''verb''")
    case True
    have opens: "path_end < length ?ts" using bounds(4) True by blast
    have "before ?name (?ts ! path_end)" using line bounds(1) opens by (simp add: line_ok_def sorted_wrt_iff_nth_less)
    moreover have "token_fits len ?name" "token_fits len (?ts ! path_end)"
      using line name nth_mem [OF opens] by (auto simp: line_ok_def)
    ultimately have "dt_start ?name + 1 \<le> dt_end (?ts ! path_end)" by (simp add: token_fits_def)
    then have "state_inv len (ln_end l) (body st1) \<and> fact_count (fst (ds_facts (body st1))) \<le> fact_count (fst (ds_facts st1)) + length ?ts"
      unfolding body_def by (intro procedure_line_inv [OF st1 line _ _ opens _ high]) (simp_all add: starts1 nth_append n_def)
    with True show ?thesis by (simp add: result count1)
  next
    case False
    have later: "state_inv len (ln_end l) st1" by (rule state_inv_mono [OF st1 high])
    have "i < n \<Longrightarrow> starts_of (ds_facts st) ! i \<le> ?first" for i
      using starts_before [OF inv] line_ok_hd(2) [OF line] by (fastforce simp: n_def)
    then have "state_inv len (ln_end l) (push_evidence (drop path_end ?ts) procedure conditional st1)"
      using fits [OF set_drop_subset] procedure
        sorted_wrt_drop [of before ?ts path_end] line
      by (intro push_evidence_inv [OF later]) (fastforce simp: starts1 below_def nth_append n_def line_ok_def)+
    moreover have "state_inv len (ln_end l) (push_frame l path n None st1) \<and> ds_facts (push_frame l path n None st1) = ds_facts st1"
      using push_frame_inv [OF later, of n None l path] by (simp add: starts1 n_def below_def)
    ultimately show ?thesis using False count1 by (simp add: result push_evidence_def)
  qed
  then show "state_inv len (ln_end l) ?result"
    "fact_count (fst (ds_facts ?result)) \<le> fact_count (fst (ds_facts st)) + length ?ts + 2" by simp_all
qed

lemma statement_line_inv:
  assumes inv: "state_inv len pos st" and line: "line_ok len pos l"
  shows "state_inv len (ln_end l) (statement_line l st)"
    and "fact_count (fst (ds_facts (statement_line l st))) \<le> fact_count (fst (ds_facts st)) + length (ln_tokens l) + 2"
proof -
  let ?procedure = "current_procedure (ds_frames st)" and ?n = "length (starts_of (ds_facts st))"
  have procedure: "below ?n ?procedure"
    using inv unfolding state_inv_def refs_ok_def current_procedure_def
    by (auto simp: list_all_iff below_def find_Some_iff split: option.splits)
  have "state_inv len (ln_end l) (push_evidence (ln_tokens l) ?procedure conditional st)" for conditional
  proof (rule push_evidence_inv)
    show "state_inv len (ln_end l) st" using inv line by (auto simp: line_ok_def intro: state_inv_mono)
    show "\<forall>i \<in> set_option ?procedure. \<forall>t \<in> set (ln_tokens l). starts_of (ds_facts st) ! i \<le> dt_start t"
      using procedure starts_before [OF inv] line by (fastforce simp: below_def line_ok_def)
  qed (use line procedure in \<open>auto simp: line_ok_def\<close>)
  note other = this
  have "state_inv len (ln_end l) (statement_line l st)
    \<and> fact_count (fst (ds_facts (statement_line l st))) \<le> fact_count (fst (ds_facts st)) + length (ln_tokens l) + 2"
  proof (cases "?procedure = None \<and> dt_text (hd (ln_tokens l)) = ''parent_type''")
    case True
    then show ?thesis
      using parent_type_line_inv [OF inv line, of "current_path (ds_frames st)" "ds_conditional_depth st > 0"]
      by (simp add: statement_line_def Let_def)
  next
    case False
    then show ?thesis
      using other declaration_line_inv [OF inv line _ procedure]
      by (cases "dm_declaration (ln_tokens l) (current_path (ds_frames st)) (?procedure \<noteq> None)")
         (auto simp: statement_line_def Let_def push_evidence_def)
  qed
  then show "state_inv len (ln_end l) (statement_line l st)"
    and "fact_count (fst (ds_facts (statement_line l st))) \<le> fact_count (fst (ds_facts st)) + length (ln_tokens l) + 2"
    by simp_all
qed

lemma process_line_inv:
  assumes inv: "state_inv len pos st" and line: "line_ok len pos l"
  shows "state_inv len (ln_end l) (process_line l st)"
    and "fact_count (fst (ds_facts (process_line l st))) \<le> fact_count (fst (ds_facts st)) + length (ln_tokens l) + 2"
proof -
  define at where "at = dt_start (hd (ln_tokens l))"
  define depth where "depth = ds_braces st - length (takeWhile (\<lambda>t. dt_text t = ''}'') (ln_tokens l))"
  define closed where "closed = close_bindings (ln_indent l) depth at (ds_bindings st) (ds_facts st)"
  define st1 where "st1 = st\<lparr>ds_bindings := fst closed, ds_facts := snd closed\<rparr>"
  define framed where "framed = close_frames (ln_indent l) depth at (ds_frames st1) (snd closed)"
  define st2 where "st2 = st1\<lparr>ds_frames := fst framed, ds_facts := snd framed\<rparr>"
  have at: "pos \<le> at" "at \<le> len"
    using line_ok_hd(2,3) [OF line] line unfolding at_def line_ok_def by linarith+
  have facts: "facts_inv len pos (ds_facts st)" using inv by (simp add: state_inv_def)
  note bindings = close_bindings_inv [OF facts, of "ln_indent l" depth at "ds_bindings st", folded closed_def]
  have st1: "state_inv len pos st1"
    using inv bindings by (auto simp: state_inv_def refs_ok_def st1_def list_all_iff)
  note frames = close_frames_inv [of len pos "snd closed" at "ln_indent l" depth "ds_frames st1", folded framed_def]
  have st2: "state_inv len pos st2"
    using st1 bindings frames at by (auto simp: state_inv_def refs_ok_def st2_def st1_def list_all_iff)
  have counts: "fact_count (fst (ds_facts st1)) = fact_count (fst (ds_facts st))"
    "fact_count (fst (ds_facts st2)) = fact_count (fst (ds_facts st))"
    using bindings frames at by (simp_all add: st1_def st2_def)
  let ?st3 = "statement_line l st2"
  have result: "process_line l st =
      (if dt_text (hd (ln_tokens l)) = ''#'' then directive_line l st1
       else ?st3\<lparr>ds_braces := count_braces (ln_tokens l) (ds_braces ?st3)\<rparr>)"
    by (simp add: process_line_def Let_def at_def depth_def closed_def st1_def framed_def st2_def case_prod_unfold)
  have "state_inv len (ln_end l) (?st3\<lparr>ds_braces := b\<rparr>)" for b
    using statement_line_inv(1) [OF st2 line] by (simp add: state_inv_def refs_ok_def)
  with directive_line_inv [OF st1 line] statement_line_inv(2) [OF st2 line]
  show "state_inv len (ln_end l) (process_line l st)"
    and "fact_count (fst (ds_facts (process_line l st))) \<le> fact_count (fst (ds_facts st)) + length (ln_tokens l) + 2"
    by (simp_all add: result counts)
qed

lemma process_lines_inv:
  assumes "lines_in source pos ls" "state_inv (length source) pos st" "pos \<le> length source"
    "fact_count (fst (ds_facts st)) \<le> MAX_FACTS"
  shows "state_inv (length source) (length source) (process_lines ls st)
    \<and> fact_count (fst (ds_facts (process_lines ls st))) \<le> MAX_FACTS"
  using assms
proof (induction ls st arbitrary: pos rule: process_lines.induct)
  case (1 st)
  then show ?case by (auto intro: state_inv_mono)
next
  case (2 l ls st)
  let ?over = "fact_count (fst (ds_facts st)) + length (ln_tokens l) + 2 > MAX_FACTS"
  have rest: "lines_in source (ln_end l) ls" "pos \<le> ln_end l" "ln_end l \<le> length source" using 2(3) by auto
  consider "ln_tokens l = []" | "ln_tokens l \<noteq> []" "?over" | "ln_tokens l \<noteq> []" "\<not> ?over" by blast
  then show ?case
  proof cases
    case 1
    with 2(1) [OF 1 rest(1) state_inv_mono [OF 2(4) rest(2)] rest(3) 2(6)] show ?thesis by simp
  next
    case over: 2
    have "state_inv (length source) (length source) (st\<lparr>ds_facts := set_status s (ds_facts st)\<rparr>)" for s
      using state_inv_mono [OF 2(4,5)] by (simp add: state_inv_def refs_ok_def facts_inv_status)
    moreover have "fact_count (fst (set_status s f)) = fact_count (fst f)" for s f
      by (simp add: set_status_def fact_count_def split: prod.splits)
    ultimately show ?thesis using over 2(6) by simp
  next
    case 3
    note line = line_ok_lines [OF 2(3) 3(1)]
    have "fact_count (fst (ds_facts (process_line l st))) \<le> MAX_FACTS"
      using process_line_inv(2) [OF 2(4) line] 3(2) by linarith
    from 2(2) [OF 3 rest(1) process_line_inv(1) [OF 2(4) line] rest(3) this] 3 show ?thesis by simp
  qed
qed

lemma recover_inv:
  "state_inv (length source) (length source) (recover source)"
  "fact_count (fst (ds_facts (recover source))) \<le> MAX_FACTS"
proof -
  obtain ls complete where tokens: "tokenize source = (ls, complete)" by fastforce
  define st where "st = process_lines ls (dm_initial complete)"
  have "state_inv (length source) (lexer_start source) (dm_initial complete)"
    by (simp add: state_inv_def facts_inv_def refs_ok_def dm_initial_def starts_of_def unresolved_def)
  moreover have "lines_in source (lexer_start source) ls" using tokenize_lines_in [of source] by (simp add: tokens)
  ultimately have st: "state_inv (length source) (length source) st" "fact_count (fst (ds_facts st)) \<le> MAX_FACTS"
    using process_lines_inv [of source "lexer_start source" ls "dm_initial complete"] lexer_start_le [of source]
    by (simp_all add: st_def dm_initial_def fact_count_def)
  have "facts_inv (length source) (length source) (fold (\<lambda>f. close_definition (df_definition f) (length source)) fs facts)
      \<and> starts_of (fold (\<lambda>f. close_definition (df_definition f) (length source)) fs facts) = starts_of facts
      \<and> fact_count (fst (fold (\<lambda>f. close_definition (df_definition f) (length source)) fs facts)) = fact_count (fst facts)"
    if "facts_inv (length source) (length source) facts" for fs facts
    using that
  proof (induction fs arbitrary: facts)
    case (Cons f fs)
    have "fact_count (fst (close_definition (df_definition f) (length source) facts)) = fact_count (fst facts)"
      by (auto simp: close_definition_def fact_count_def split: prod.splits option.splits)
    with Cons facts_inv_close [OF Cons(2), of "length source" "df_definition f"] show ?case by simp
  qed simp
  from this [of "ds_facts st" "ds_frames st"] st(1)
  have closed: "facts_inv (length source) (length source) (close_all (length source) st)"
    "starts_of (close_all (length source) st) = starts_of (ds_facts st)"
    "fact_count (fst (close_all (length source) st)) = fact_count (fst (ds_facts st))"
    by (simp_all add: state_inv_def close_all_def)
  have "fact_count (fst (set_status s f)) = fact_count (fst f)" for s f
    by (simp add: set_status_def fact_count_def split: prod.splits)
  with closed st show "state_inv (length source) (length source) (recover source)"
    "fact_count (fst (ds_facts (recover source))) \<le> MAX_FACTS"
    by (simp_all add: recover_def tokens Let_def state_inv_def refs_ok_def facts_inv_status flip: st_def)
qed

end
