(* ===== verification/TP_Dm_Resolve.thy ===== *)
theory TP_Dm_Resolve
  imports TP_Dm_Extract
begin

text \<open>
  \<open>src/extract/dreammaker/dm_candidates.rs\<close> and \<open>dm_resolve.rs\<close>: overrides, parent calls and references of the recovered
  declarations.  The hash maps of the source are finite maps that are only looked up; a definition is its index.
\<close>

section \<open>Lookup tables\<close>

record dm_lookup =
  lk_names :: "string \<rightharpoonup> nat list"
  lk_paths :: "string \<rightharpoonup> nat list"
  lk_bindings :: "nat \<times> string \<rightharpoonup> nat list"

definition bucket :: "('k \<rightharpoonup> nat list) \<Rightarrow> 'k \<Rightarrow> nat list" where
  "bucket m k = (case m k of Some xs \<Rightarrow> xs | None \<Rightarrow> [])"

definition push_bucket :: "'k \<Rightarrow> nat \<Rightarrow> ('k \<rightharpoonup> nat list) \<Rightarrow> ('k \<rightharpoonup> nat list)" where
  "push_bucket k i m = m(k \<mapsto> bucket m k @ [i])"

definition is_procedure :: "file_extraction \<Rightarrow> nat \<Rightarrow> bool" where
  "is_procedure r i \<longleftrightarrow> ed_kind (ex_definitions r ! i) = ''proc'' \<or> ed_kind (ex_definitions r ! i) = ''verb''"

definition lookup_add :: "file_extraction \<Rightarrow> dm_definition list \<Rightarrow> nat \<Rightarrow> dm_lookup \<Rightarrow> dm_lookup" where
  "lookup_add r defs i lk =
     (let name = ed_name (ex_definitions r ! i)
      in \<lparr>lk_names = (if length (bucket (lk_names lk) name) \<le> MAX_CANDIDATES then push_bucket name i (lk_names lk)
                      else lk_names lk),
          lk_paths = (if is_procedure r i then push_bucket (dd_path (defs ! i)) i (lk_paths lk) else lk_paths lk),
          lk_bindings = (case dd_local_owner (defs ! i) of
                           Some owner \<Rightarrow> push_bucket (owner, name) i (lk_bindings lk)
                         | None \<Rightarrow> lk_bindings lk)\<rparr>)"

definition DmLookup_new :: "file_extraction \<Rightarrow> dm_definition list \<Rightarrow> dm_lookup" where
  "DmLookup_new r defs =
     fold (lookup_add r defs) [0..<length defs] \<lparr>lk_names = Map.empty, lk_paths = Map.empty, lk_bindings = Map.empty\<rparr>"

definition lookup_candidates :: "dm_lookup \<Rightarrow> string \<Rightarrow> nat list \<times> bool" where
  "lookup_candidates lk name =
     (take MAX_CANDIDATES (bucket (lk_names lk) name), length (bucket (lk_names lk) name) > MAX_CANDIDATES)"

definition lookup_binding :: "dm_lookup \<Rightarrow> nat option \<Rightarrow> string \<Rightarrow> nat \<Rightarrow> dm_definition list \<Rightarrow> nat option \<times> bool" where
  "lookup_binding lk owner name start defs =
     (case Option.bind owner (\<lambda>o'. lk_bindings lk (o', name)) of
        None \<Rightarrow> (None, False)
      | Some entries \<Rightarrow>
          let stop = partition_point (\<lambda>i. dd_name_start (defs ! i) \<le> start) entries;
              target = List.find (\<lambda>i. start < dd_scope_end (defs ! i)) (take MAX_CANDIDATES (rev (take stop entries)))
          in (case target of Some i \<Rightarrow> if dd_conditional (defs ! i) then None else Some i | None \<Rightarrow> None,
              stop > MAX_CANDIDATES \<and> target = None))"

text \<open>The walk up the explicit parent types; \<open>visited\<close> grows by one in each round and the walk stops at 64.\<close>

function ancestor_candidates :: "dm_lookup \<Rightarrow> (string \<rightharpoonup> string) \<Rightarrow> string \<Rightarrow> string \<Rightarrow> string list \<Rightarrow> nat list \<times> bool" where
  "ancestor_candidates lk parents name ancestor visited =
     (case parents ancestor of
        None \<Rightarrow> ([], False)
      | Some parent \<Rightarrow>
          if parent \<in> set visited then ([], False)
          else if length visited \<ge> MAX_CANDIDATES then ([], True)
          else case lk_paths lk (parent @ ''/'' @ name) of
                 Some entries \<Rightarrow> (take MAX_CANDIDATES entries, length entries > MAX_CANDIDATES)
               | None \<Rightarrow> ancestor_candidates lk parents name parent (visited @ [parent]))"
  by pat_completeness auto
termination
  by (relation "measure (\<lambda>(lk, parents, name, ancestor, visited). MAX_CANDIDATES - length visited)") auto

declare ancestor_candidates.simps [simp del]

definition parent_candidates :: "dm_lookup \<Rightarrow> nat \<Rightarrow> dm_definition list \<Rightarrow> file_extraction \<Rightarrow> (string \<rightharpoonup> string) \<Rightarrow> nat list \<times> bool" where
  "parent_candidates lk owner defs r parents =
     (let entries = bucket (lk_paths lk) (dd_path (defs ! owner));
          stop = partition_point (\<lambda>i. i < owner) entries;
          earlier = slice (stop - MAX_CANDIDATES) stop entries
      in if earlier \<noteq> [] then (earlier, stop > MAX_CANDIDATES)
         else case ed_container (ex_definitions r ! owner) of
                None \<Rightarrow> (earlier, stop > MAX_CANDIDATES)
              | Some container \<Rightarrow>
                  (case ancestor_candidates lk parents (ed_name (ex_definitions r ! owner)) container [] of
                     (candidates, truncated) \<Rightarrow> (candidates, stop > MAX_CANDIDATES \<or> truncated)))"

section \<open>Resolution\<close>

record dm_env =
  dv_result :: file_extraction
  dv_definitions :: "dm_definition list"
  dv_lookup :: dm_lookup
  dv_parents :: "string \<rightharpoonup> string"
  dv_includes :: bool
  dv_complete :: bool

type_synonym dm_new_facts = "extracted_occurrence list \<times> extracted_relationship list"

definition total_facts :: "dm_env \<Rightarrow> dm_new_facts \<Rightarrow> nat" where
  "total_facts env new = fact_count (dv_result env) + length (fst new) + length (snd new)"

definition push_facts :: "extracted_occurrence list \<Rightarrow> extracted_relationship list \<Rightarrow> dm_new_facts \<Rightarrow> dm_new_facts" where
  "push_facts os rs new = (fst new @ os, snd new @ rs)"

definition annotate_truncation :: "string \<Rightarrow> bool \<Rightarrow> string" where
  "annotate_truncation provenance truncated = (if truncated then provenance @ '';candidates-truncated'' else provenance)"

text \<open>Overrides: a procedure with the path of an earlier one.\<close>

definition override_facts :: "dm_env \<Rightarrow> nat \<Rightarrow> nat \<Rightarrow> dm_new_facts \<Rightarrow> dm_new_facts" where
  "override_facts env index previous =
     (let d = dv_definitions env ! index;
          target = (if dv_complete env \<and> \<not> dv_includes env \<and> \<not> dd_conditional d
                       \<and> \<not> dd_conditional (dv_definitions env ! previous) then Some previous else None)
      in push_facts
           [\<lparr>eo_name = ed_name (ex_definitions (dv_result env) ! index), eo_start = dd_name_start d, eo_end = dd_name_end d,
             eo_role = ''override'', eo_target = target, eo_candidates = [previous],
             eo_provenance = ''dm-recovery:same-type-override-order''\<rparr>]
           [\<lparr>er_source = index, er_target = target, er_kind = ''override'', er_evidence_start = dd_name_start d,
             er_evidence_end = dd_name_end d, er_provenance = ''dm-recovery:same-type-override-order''\<rparr>])"

fun overrides :: "dm_env \<Rightarrow> nat list \<Rightarrow> (string \<rightharpoonup> nat) \<Rightarrow> dm_new_facts \<Rightarrow> dm_new_facts \<times> bool" where
  "overrides env [] prior new = (new, False)"
| "overrides env (i # is) prior new =
     (if total_facts env new + 2 > MAX_FACTS then (new, True)
      else if \<not> is_procedure (dv_result env) i then overrides env is prior new
      else
        let path = dd_path (dv_definitions env ! i)
        in overrides env is (prior(path \<mapsto> i))
             (case prior path of Some previous \<Rightarrow> override_facts env i previous new | None \<Rightarrow> new))"

text \<open>A call of \<open>..()\<close> in a procedure.\<close>

definition parent_call :: "dm_env \<Rightarrow> dm_evidence \<Rightarrow> dm_token \<Rightarrow> nat \<Rightarrow> dm_new_facts \<Rightarrow> dm_new_facts" where
  "parent_call env site t stop new =
     (case de_procedure site of
        None \<Rightarrow> new
      | Some owner \<Rightarrow>
          let defs = dv_definitions env;
              (candidates, truncated) = parent_candidates (dv_lookup env) owner defs (dv_result env) (dv_parents env);
              ok = (\<lambda>i. dv_complete env \<and> \<not> truncated \<and> \<not> dv_includes env \<and> \<not> de_conditional site
                    \<and> \<not> dd_conditional (defs ! owner) \<and> \<not> dd_conditional (defs ! i)
                    \<and> dd_path (defs ! i) = dd_path (defs ! owner) \<and> i < owner
                    \<and> list_all (\<lambda>n. \<not> dd_conditional (defs ! n)) candidates);
              target = (if candidates \<noteq> [] \<and> ok (last candidates) then Some (last candidates) else None);
              provenance = annotate_truncation
                (if target \<noteq> None then ''dm-recovery:same-type-override-order''
                 else ''dm-recovery:parent;project-order-or-inheritance-unverified'') truncated
          in push_facts
               [\<lparr>eo_name = ''..'', eo_start = dt_start t, eo_end = stop, eo_role = ''parent_call'', eo_target = target,
                 eo_candidates = candidates, eo_provenance = provenance\<rparr>]
               [\<lparr>er_source = owner, er_target = target, er_kind = ''parent_call'', er_evidence_start = dt_start t,
                 er_evidence_end = stop, er_provenance = provenance\<rparr>] new)"

definition keyword :: "string \<Rightarrow> bool" where
  "keyword name \<longleftrightarrow> name \<in> set [''return'', ''if'', ''else'', ''for'', ''while'', ''switch'', ''break'', ''continue'',
     ''spawn'', ''set'', ''var'', ''new'', ''del'', ''in'', ''as'', ''null'', ''TRUE'', ''FALSE'']"

definition signal_names :: "string list" where
  "signal_names = [''SEND_SIGNAL'', ''RegisterSignal'', ''UnregisterSignal'']"

fun signal_argument :: "nat \<Rightarrow> nat \<Rightarrow> dm_token list \<Rightarrow> dm_token option" where
  "signal_argument depth argument [] = None"
| "signal_argument depth argument (t # ts) =
     (if dt_text t = ''('' then signal_argument (depth + 1) argument ts
      else if dt_text t = '')'' then (if depth - 1 = 0 then None else signal_argument (depth - 1) argument ts)
      else if dt_text t = '','' \<and> depth = 1 then signal_argument depth (argument + 1) ts
      else if depth = 1 \<and> argument = 1 \<and> (dt_quoted t \<or> is_identifier t) then Some t
      else signal_argument depth argument ts)"

definition recover_signal_argument :: "dm_token list \<Rightarrow> nat \<Rightarrow> dm_new_facts \<Rightarrow> dm_new_facts" where
  "recover_signal_argument tokens position new =
     (case signal_argument 0 0 (take MAX_CANDIDATES (drop (position + 1) tokens)) of
        None \<Rightarrow> new
      | Some t \<Rightarrow> push_facts
          [\<lparr>eo_name = trim_quotes (dt_text t), eo_start = dt_start t, eo_end = dt_end t, eo_role = ''signal'',
            eo_target = None, eo_candidates = [], eo_provenance = ''dm-recovery:observed-signal-argument''\<rparr>] [] new)"

text \<open>An identifier in an expression.\<close>

definition reference_binding :: "dm_env \<Rightarrow> dm_evidence \<Rightarrow> dm_token \<Rightarrow> string option \<Rightarrow> nat option \<times> bool" where
  "reference_binding env site t previous =
     (if dv_complete env \<and> \<not> de_conditional site \<and> previous \<notin> {Some ''.'', Some '':'', Some ''/''}
      then lookup_binding (dv_lookup env) (de_procedure site) (dt_text t) (dt_start t) (dv_definitions env)
      else (None, False))"

definition reference_role :: "dm_env \<Rightarrow> dm_token \<Rightarrow> string option \<Rightarrow> nat list \<Rightarrow> string" where
  "reference_role env t follows candidates =
     (if dt_text t \<in> set signal_names then ''signal_call''
      else if follows = Some ''('' then ''call''
      else if list_ex (\<lambda>i. ed_kind (ex_definitions (dv_result env) ! i) = ''macro'') candidates then ''macro_reference''
      else ''reference'')"

definition reference :: "dm_env \<Rightarrow> dm_evidence \<Rightarrow> nat \<Rightarrow> dm_token \<Rightarrow> string option \<Rightarrow> string option \<Rightarrow> dm_new_facts \<Rightarrow> dm_new_facts" where
  "reference env site position t previous follows new =
     (let (candidates, truncated) = lookup_candidates (dv_lookup env) (dt_text t);
          (binding, limited) = reference_binding env site t previous;
          signal = (dt_text t \<in> set signal_names);
          role = reference_role env t follows candidates;
          provenance = annotate_truncation
            (if binding \<noteq> None then ''dm-recovery:lexical-binding''
             else if signal then ''dm-recovery:observed-signal-pattern''
             else ''dm-recovery:name-candidates;preprocessor-not-evaluated'') (truncated \<or> limited);
          occurrence = \<lparr>eo_name = dt_text t, eo_start = dt_start t, eo_end = dt_end t, eo_role = role,
                        eo_target = binding, eo_candidates = candidates, eo_provenance = provenance\<rparr>;
          calls = (case de_procedure site of
                     Some owner \<Rightarrow>
                       if follows = Some ''(''
                       then [\<lparr>er_source = owner, er_target = binding, er_kind = role, er_evidence_start = dt_start t,
                              er_evidence_end = dt_end t, er_provenance = provenance\<rparr>]
                       else []
                   | None \<Rightarrow> []);
          new' = push_facts [occurrence] calls new
      in if signal then recover_signal_argument (de_tokens site) position new' else new')"

definition resolve_token :: "dm_env \<Rightarrow> dm_evidence \<Rightarrow> nat \<Rightarrow> dm_new_facts \<Rightarrow> dm_new_facts" where
  "resolve_token env site position new =
     (let tokens = de_tokens site; t = tokens ! position;
          text_at = (\<lambda>n. map_option dt_text (nth_opt tokens n));
          follows = text_at (position + 1);
          previous = (if position = 0 then None else text_at (position - 1))
      in if dt_text t = ''.'' \<and> follows = Some ''.'' \<and> text_at (position + 2) = Some ''(''
         then parent_call env site t (dt_end (tokens ! (position + 1))) new
         else if \<not> is_identifier t \<or> keyword (dt_text t) then new
         else reference env site position t previous follows new)"

fun resolve_site :: "dm_env \<Rightarrow> dm_evidence \<Rightarrow> nat list \<Rightarrow> dm_new_facts \<Rightarrow> dm_new_facts \<times> bool" where
  "resolve_site env site [] new = (new, False)"
| "resolve_site env site (p # ps) new =
     (if total_facts env new + 3 > MAX_FACTS then (new, True)
      else resolve_site env site ps (resolve_token env site p new))"

fun resolve_sites :: "dm_env \<Rightarrow> dm_evidence list \<Rightarrow> dm_new_facts \<Rightarrow> dm_new_facts \<times> bool" where
  "resolve_sites env [] new = (new, False)"
| "resolve_sites env (site # sites) new =
     (case resolve_site env site [0..<length (de_tokens site)] new of
        (new', limit) \<Rightarrow> if limit then (new', True) else resolve_sites env sites new')"

definition unresolved_occurrence :: "extracted_occurrence \<Rightarrow> extracted_occurrence" where
  "unresolved_occurrence o' = o'\<lparr>eo_target := None, eo_provenance := eo_provenance o' @ '';incomplete-extraction''\<rparr>"

definition unresolved_relationship :: "extracted_relationship \<Rightarrow> extracted_relationship" where
  "unresolved_relationship x = x\<lparr>er_target := None, er_provenance := er_provenance x @ '';incomplete-extraction''\<rparr>"

definition dm_resolve :: "dm_facts \<Rightarrow> dm_evidence list \<Rightarrow> (string \<rightharpoonup> string) \<Rightarrow> bool \<Rightarrow> file_extraction" where
  "dm_resolve facts evidence parents includes =
     (let (r, defs) = facts;
          env = \<lparr>dv_result = r, dv_definitions = defs, dv_lookup = DmLookup_new r defs, dv_parents = parents,
                 dv_includes = includes, dv_complete = (ex_status r = ''recovered'')\<rparr>;
          (new1, limit1) = overrides env [0..<length defs] Map.empty ([], []);
          (new2, limit2) = resolve_sites env evidence new1;
          r1 = r\<lparr>ex_occurrences := ex_occurrences r @ fst new2, ex_relationships := ex_relationships r @ snd new2,
                 ex_status := (if limit1 \<or> limit2 then ''recovered_incomplete'' else ex_status r)\<rparr>
      in if ex_status r1 \<noteq> ''recovered''
         then r1\<lparr>ex_occurrences := map unresolved_occurrence (ex_occurrences r1),
                 ex_relationships := map unresolved_relationship (ex_relationships r1)\<rparr>
         else r1)"

definition dm_extract :: "bytes \<Rightarrow> file_extraction" where
  "dm_extract source =
     (let st = recover source in dm_resolve (ds_facts st) (ds_evidence st) (ds_parents st) (ds_includes st))"

section \<open>What the tables hold\<close>

lemma bucket_push [simp]: "bucket (push_bucket k i m) k' = (if k' = k then bucket m k @ [i] else bucket m k')"
  by (simp add: bucket_def push_bucket_def)

lemma bucket_Some: "m k = Some xs \<Longrightarrow> bucket m k = xs"
  by (simp add: bucket_def)

definition named :: "file_extraction \<Rightarrow> string \<Rightarrow> nat \<Rightarrow> bool" where
  "named r name i \<longleftrightarrow> ed_name (ex_definitions r ! i) = name"

definition owned :: "file_extraction \<Rightarrow> dm_definition list \<Rightarrow> nat \<times> string \<Rightarrow> nat \<Rightarrow> bool" where
  "owned r defs k i \<longleftrightarrow> dd_local_owner (defs ! i) = Some (fst k) \<and> named r (snd k) i"

lemma lookup_fold:
  assumes "length (bucket (lk_names lk) name) \<le> Suc MAX_CANDIDATES"
  shows "bucket (lk_names (fold (lookup_add r defs) is lk)) name =
      take (Suc MAX_CANDIDATES) (bucket (lk_names lk) name @ filter (named r name) is)
    \<and> bucket (lk_paths (fold (lookup_add r defs) is lk)) path =
      bucket (lk_paths lk) path @ filter (\<lambda>i. is_procedure r i \<and> dd_path (defs ! i) = path) is
    \<and> bucket (lk_bindings (fold (lookup_add r defs) is lk)) k = bucket (lk_bindings lk) k @ filter (owned r defs k) is"
  using assms
proof (induction "is" arbitrary: lk)
  case (Cons i "is")
  let ?lk = "lookup_add r defs i lk"
  have names: "bucket (lk_names ?lk) name =
      (if named r name i \<and> length (bucket (lk_names lk) name) \<le> MAX_CANDIDATES then bucket (lk_names lk) name @ [i]
       else bucket (lk_names lk) name)"
    by (auto simp: lookup_add_def Let_def named_def)
  moreover have "bucket (lk_paths ?lk) path =
      bucket (lk_paths lk) path @ (if is_procedure r i \<and> dd_path (defs ! i) = path then [i] else [])"
    by (simp add: lookup_add_def Let_def)
  moreover have "bucket (lk_bindings ?lk) k = bucket (lk_bindings lk) k @ (if owned r defs k i then [i] else [])"
    by (cases k) (auto simp: lookup_add_def Let_def owned_def named_def split: option.splits)
  ultimately show ?case using Cons(1) [of ?lk] Cons(2) by (auto simp: Suc_diff_le)
qed simp

lemma lookup_tables:
  "bucket (lk_names (DmLookup_new r defs)) name = take (Suc MAX_CANDIDATES) (filter (named r name) [0..<length defs])"
  "bucket (lk_paths (DmLookup_new r defs)) path =
     filter (\<lambda>i. is_procedure r i \<and> dd_path (defs ! i) = path) [0..<length defs]"
  "bucket (lk_bindings (DmLookup_new r defs)) k = filter (owned r defs k) [0..<length defs]"
  unfolding DmLookup_new_def
  using lookup_fold [of "\<lparr>lk_names = Map.empty, lk_paths = Map.empty, lk_bindings = Map.empty\<rparr>" name r defs
      "[0..<length defs]" path k]
  by (simp_all add: bucket_def)

lemma lookup_candidates_sound:
  assumes "lookup_candidates (DmLookup_new r defs) name = (cs, truncated)"
  shows "length cs \<le> MAX_CANDIDATES" "\<forall>i \<in> set cs. i < length defs \<and> named r name i"
  using assms by (auto simp: lookup_candidates_def lookup_tables dest!: in_set_takeD)

lemma ancestor_candidates_sound:
  "ancestor_candidates (DmLookup_new r defs) parents name ancestor visited = (cs, truncated) \<Longrightarrow>
   length cs \<le> MAX_CANDIDATES \<and> (\<forall>i \<in> set cs. i < length defs \<and> is_procedure r i)"
proof (induction "DmLookup_new r defs" parents name ancestor visited rule: ancestor_candidates.induct)
  case (1 parents name ancestor visited)
  have found: "\<forall>i \<in> set (take MAX_CANDIDATES entries). i < length defs \<and> is_procedure r i"
    if "lk_paths (DmLookup_new r defs) path = Some entries" for path entries
    using bucket_Some [of "lk_paths (DmLookup_new r defs)", OF that] by (auto simp: lookup_tables dest!: in_set_takeD)
  from 1(2) show ?case
    by (subst (asm) ancestor_candidates.simps) (use 1(1) found in \<open>auto split: option.splits if_splits\<close>)
qed

lemma parent_candidates_sound:
  assumes "parent_candidates (DmLookup_new r defs) owner defs r parents = (cs, truncated)"
  shows "length cs \<le> MAX_CANDIDATES" "\<forall>i \<in> set cs. i < length defs \<and> is_procedure r i"
proof -
  let ?entries = "bucket (lk_paths (DmLookup_new r defs)) (dd_path (defs ! owner))"
  have "set (slice a b ?entries) \<subseteq> {i. i < length defs \<and> is_procedure r i}" for a b
    by (auto simp: slice_def lookup_tables dest!: in_set_takeD in_set_dropD)
  then show "length cs \<le> MAX_CANDIDATES" "\<forall>i \<in> set cs. i < length defs \<and> is_procedure r i"
    using assms ancestor_candidates_sound [of r defs parents]
    by (fastforce simp: parent_candidates_def Let_def length_slice split: if_splits option.splits prod.splits)+
qed

section \<open>Sound targets\<close>

lemma find_in_list: "List.find P xs = Some x \<Longrightarrow> x \<in> set xs \<and> P x"
  by (induction xs) (auto split: if_splits)

text \<open>
  A resolved occurrence points at an earlier definition: a procedure for overrides and parent calls, otherwise a local
  variable or parameter of the same name.
\<close>

definition target_sound :: "file_extraction \<Rightarrow> extracted_occurrence \<Rightarrow> bool" where
  "target_sound r o' \<longleftrightarrow>
     (\<forall>i \<in> set_option (eo_target o'). i < length (ex_definitions r)
        \<and> ed_start (ex_definitions r ! i) \<le> eo_start o'
        \<and> (if eo_role o' = ''override'' \<or> eo_role o' = ''parent_call'' then is_procedure r i
           else ed_kind (ex_definitions r ! i) \<in> {''binding'', ''parameter''} \<and> ed_name (ex_definitions r ! i) = eo_name o'))"

definition new_ok :: "nat \<Rightarrow> file_extraction \<Rightarrow> dm_new_facts \<Rightarrow> bool" where
  "new_ok len r new \<longleftrightarrow>
     list_all (\<lambda>o'. occurrence_fits len (length (ex_definitions r)) o' \<and> target_sound r o'
       \<and> length (eo_candidates o') \<le> MAX_CANDIDATES) (fst new)
     \<and> list_all (relationship_fits len (length (ex_definitions r))) (snd new)"

definition env_ok :: "nat \<Rightarrow> dm_env \<Rightarrow> bool" where
  "env_ok len env \<longleftrightarrow> facts_inv len len (dv_result env, dv_definitions env)
     \<and> dv_lookup env = DmLookup_new (dv_result env) (dv_definitions env)"

lemma new_ok_push:
  "new_ok len r (push_facts os rs new) \<longleftrightarrow> new_ok len r new \<and> new_ok len r (os, rs)"
  by (auto simp: new_ok_def push_facts_def)

lemma total_facts_push: "total_facts env (push_facts os rs new) = total_facts env new + length os + length rs"
  by (simp add: total_facts_def push_facts_def)

lemma env_definition:
  assumes "env_ok len env" "i < length (dv_definitions env)"
  shows "i < length (ex_definitions (dv_result env))"
    "pair_ok len (length (dv_definitions env)) (ex_definitions (dv_result env) ! i) (dv_definitions env ! i)"
  using assms by (auto simp: env_ok_def facts_inv_def dest: list_all2_lengthD list_all2_nthD2)

lemma env_length: "env_ok len env \<Longrightarrow> length (ex_definitions (dv_result env)) = length (dv_definitions env)"
  by (auto simp: env_ok_def facts_inv_def dest: list_all2_lengthD)

lemma env_start_le:
  assumes "env_ok len env" "i \<le> j" "j < length (dv_definitions env)"
  shows "ed_start (ex_definitions (dv_result env) ! i) \<le> ed_start (ex_definitions (dv_result env) ! j)"
proof -
  have "sorted (map ed_start (ex_definitions (dv_result env)))" using assms(1) by (auto simp: env_ok_def facts_inv_def)
  with sorted_nth_mono [OF this assms(2)] assms env_length [OF assms(1)] show ?thesis by simp
qed

lemma lookup_binding_sound:
  assumes env: "env_ok len env"
    and found: "lookup_binding (dv_lookup env) owner name start (dv_definitions env) = (Some i, limited)"
  shows "i < length (dv_definitions env)" "ed_name (ex_definitions (dv_result env) ! i) = name"
    "ed_kind (ex_definitions (dv_result env) ! i) \<in> {''binding'', ''parameter''}"
    "ed_start (ex_definitions (dv_result env) ! i) \<le> start"
proof -
  let ?defs = "dv_definitions env" and ?r = "dv_result env"
  obtain o' entries where entries: "owner = Some o'" "lk_bindings (dv_lookup env) (o', name) = Some entries"
    using found by (auto simp: lookup_binding_def split: option.splits Option.bind_splits)
  then have shape: "entries = filter (owned ?r ?defs (o', name)) [0..<length ?defs]"
    using bucket_Some [of "lk_bindings (dv_lookup env)" "(o', name)" entries] env by (simp add: env_ok_def lookup_tables)
  let ?stop = "partition_point (\<lambda>i. dd_name_start (?defs ! i) \<le> start) entries"
  have "i \<in> set (take MAX_CANDIDATES (rev (take ?stop entries)))"
    using found entries by (auto simp: lookup_binding_def Let_def dest!: find_in_list split: option.splits if_splits)
  then have "i \<in> set (take ?stop entries)" by (auto dest: in_set_takeD)
  moreover from this have "dd_name_start (?defs ! i) \<le> start"
    using partition_point_sat [of _ "\<lambda>i. dd_name_start (?defs ! i) \<le> start" entries] by (auto simp: in_set_conv_nth)
  ultimately have i: "i < length ?defs" "owned ?r ?defs (o', name) i" "dd_name_start (?defs ! i) \<le> start"
    by (auto simp: shape dest!: in_set_takeD)
  from env_definition(2) [OF env i(1)] i(2,3)
  show "i < length ?defs" "ed_name (ex_definitions ?r ! i) = name"
    "ed_kind (ex_definitions ?r ! i) \<in> {''binding'', ''parameter''}" "ed_start (ex_definitions ?r ! i) \<le> start"
    using i(1) by (auto simp: pair_ok_def owned_def named_def)
qed

lemma override_facts_ok:
  assumes env: "env_ok len env" and new: "new_ok len (dv_result env) new"
    and i: "i < length (dv_definitions env)" and previous: "previous < i" "is_procedure (dv_result env) previous"
  shows "new_ok len (dv_result env) (override_facts env i previous new)"
    and "total_facts env (override_facts env i previous new) = total_facts env new + 2"
proof -
  have j: "previous < length (dv_definitions env)" using i previous(1) by simp
  have "dd_name_start (dv_definitions env ! previous) < dd_name_start (dv_definitions env ! i)"
    using env i previous(1) by (auto simp: env_ok_def facts_inv_def sorted_wrt_iff_nth_less)
  then have "ed_start (ex_definitions (dv_result env) ! previous) \<le> dd_name_start (dv_definitions env ! i)"
    using env_definition(2) [OF env j] by (simp add: pair_ok_def)
  then show "new_ok len (dv_result env) (override_facts env i previous new)"
    using new env_definition [OF env i] env_definition(1) [OF env j] previous(2)
    by (simp add: override_facts_def Let_def new_ok_push)
       (simp add: new_ok_def occurrence_fits_def relationship_fits_def target_sound_def pair_ok_def MAX_CANDIDATES_def)
qed (simp add: override_facts_def Let_def total_facts_push)

lemma overrides_ok:
  assumes env: "env_ok len env" and "k \<le> length (dv_definitions env)" "total_facts env new \<le> MAX_FACTS"
    "new_ok len (dv_result env) new" "\<forall>path j. prior path = Some j \<longrightarrow> j < k \<and> is_procedure (dv_result env) j"
  shows "new_ok len (dv_result env) (fst (overrides env [k..<length (dv_definitions env)] prior new))
    \<and> total_facts env (fst (overrides env [k..<length (dv_definitions env)] prior new)) \<le> MAX_FACTS"
  using assms(2-)
proof (induction "length (dv_definitions env) - k" arbitrary: k prior new)
  case (Suc m)
  let ?n = "length (dv_definitions env)" and ?path = "dd_path (dv_definitions env ! k)"
  have k: "k < ?n" using Suc(2) by simp
  have upt: "[k..<?n] = k # [Suc k..<?n]" using k by (simp add: upt_rec)
  let ?new = "case prior ?path of Some previous \<Rightarrow> override_facts env k previous new | None \<Rightarrow> new"
  have fits: "new_ok len (dv_result env) ?new \<and> total_facts env ?new \<le> MAX_FACTS" if "\<not> total_facts env new + 2 > MAX_FACTS"
    using that Suc(4-6) override_facts_ok [OF env Suc(5) k] by (auto split: option.splits)
  show ?case
  proof (cases "total_facts env new + 2 > MAX_FACTS \<or> \<not> is_procedure (dv_result env) k")
    case True
    then show ?thesis using Suc(1) [of "Suc k" new prior] Suc(2-6) k by (fastforce simp: upt)
  next
    case False
    then have "new_ok len (dv_result env) (fst (overrides env [Suc k..<?n] (prior(?path \<mapsto> k)) ?new))
        \<and> total_facts env (fst (overrides env [Suc k..<?n] (prior(?path \<mapsto> k)) ?new)) \<le> MAX_FACTS"
      using fits Suc(2,6) k by (intro Suc(1)) (auto simp: less_Suc_eq)
    with False show ?thesis by (simp add: upt Let_def)
  qed
qed simp

lemma parent_call_ok:
  assumes env: "env_ok len env" and new: "new_ok len (dv_result env) new"
    and site: "evidence_ok len (map ed_start (ex_definitions (dv_result env))) site" "t \<in> set (de_tokens site)"
    and span: "dt_start t < stop" "stop \<le> len"
  shows "new_ok len (dv_result env) (parent_call env site t stop new)"
    and "total_facts env (parent_call env site t stop new) \<le> total_facts env new + 2"
proof -
  let ?defs = "dv_definitions env" and ?r = "dv_result env"
  have "new_ok len ?r (parent_call env site t stop new) \<and> total_facts env (parent_call env site t stop new) \<le> total_facts env new + 2"
  proof (cases "de_procedure site")
    case (Some owner)
    obtain cs truncated where cs: "parent_candidates (DmLookup_new ?r ?defs) owner ?defs ?r (dv_parents env) = (cs, truncated)"
      by fastforce
    note sound = parent_candidates_sound [OF cs]
    have owner: "owner < length ?defs" "ed_start (ex_definitions ?r ! owner) \<le> dt_start t"
      using site Some env_length [OF env] by (auto simp: evidence_ok_def below_def)
    have earlier: "ed_start (ex_definitions ?r ! i) \<le> dt_start t" if "i < owner" for i
      using env_start_le [OF env, of i owner] owner that by simp
    have "cs \<noteq> [] \<Longrightarrow> last cs < length ?defs \<and> is_procedure ?r (last cs)" using sound(2) by simp
    moreover have "\<forall>i \<in> set cs. i < length ?defs" using sound(2) by blast
    ultimately show ?thesis
      using new sound(1) owner span env_length [OF env] earlier env unfolding env_ok_def
      by (simp add: parent_call_def Some Let_def cs total_facts_push new_ok_push)
         (simp add: new_ok_def occurrence_fits_def relationship_fits_def target_sound_def)
  qed (use new in \<open>simp add: parent_call_def\<close>)
  then show "new_ok len ?r (parent_call env site t stop new)"
    "total_facts env (parent_call env site t stop new) \<le> total_facts env new + 2" by simp_all
qed

lemma signal_argument_mem: "signal_argument depth argument ts = Some t \<Longrightarrow> t \<in> set ts"
  by (induction depth argument ts rule: signal_argument.induct) (auto split: if_splits)

lemma recover_signal_argument_ok:
  assumes "new_ok len r new" "\<forall>t \<in> set tokens. token_fits len t"
  shows "new_ok len r (recover_signal_argument tokens position new)"
    and "total_facts env (recover_signal_argument tokens position new) \<le> total_facts env new + 1"
proof -
  have "token_fits len t" if "signal_argument 0 0 (take MAX_CANDIDATES (drop (position + 1) tokens)) = Some t" for t
    using signal_argument_mem [OF that] assms(2) by (auto dest!: in_set_takeD in_set_dropD)
  then show "new_ok len r (recover_signal_argument tokens position new)"
    "total_facts env (recover_signal_argument tokens position new) \<le> total_facts env new + 1"
    using assms(1)
    by (auto simp: recover_signal_argument_def new_ok_push total_facts_push split: option.splits)
       (simp add: new_ok_def occurrence_fits_def target_sound_def token_fits_def)
qed

lemma reference_ok:
  assumes env: "env_ok len env" and new: "new_ok len (dv_result env) new"
    and site: "evidence_ok len (map ed_start (ex_definitions (dv_result env))) site" "t \<in> set (de_tokens site)"
  shows "new_ok len (dv_result env) (reference env site position t previous follows new)"
    and "total_facts env (reference env site position t previous follows new) \<le> total_facts env new + 3"
proof -
  let ?defs = "dv_definitions env" and ?r = "dv_result env"
  obtain cs truncated where cs: "lookup_candidates (DmLookup_new ?r ?defs) (dt_text t) = (cs, truncated)" by fastforce
  obtain binding limited where binding: "reference_binding env site t previous = (binding, limited)" by fastforce
  define role where "role = reference_role env t follows cs"
  note sound = lookup_candidates_sound [OF cs]
  have t: "token_fits len t" using site by (auto simp: evidence_ok_def list_all_iff)
  have bound: "i < length ?defs \<and> ed_name (ex_definitions ?r ! i) = dt_text t
      \<and> ed_kind (ex_definitions ?r ! i) \<in> {''binding'', ''parameter''} \<and> ed_start (ex_definitions ?r ! i) \<le> dt_start t"
    if "binding = Some i" for i
    using lookup_binding_sound [OF env, of "de_procedure site" "dt_text t" "dt_start t" i limited] binding that
    by (auto simp: reference_binding_def split: if_splits)
  have procedure: "i < length ?defs" if "de_procedure site = Some i" for i
    using site(1) that env_length [OF env] by (auto simp: evidence_ok_def below_def)
  have role: "role \<noteq> ''override''" "role \<noteq> ''parent_call''" by (auto simp: role_def reference_role_def)
  define calls where "calls prov = (case de_procedure site of
      Some owner \<Rightarrow> if follows = Some ''('' then [\<lparr>er_source = owner, er_target = binding, er_kind = role,
        er_evidence_start = dt_start t, er_evidence_end = dt_end t, er_provenance = prov\<rparr>] else [] | None \<Rightarrow> [])" for prov
  define occ where "occ prov = \<lparr>eo_name = dt_text t, eo_start = dt_start t, eo_end = dt_end t, eo_role = role,
    eo_target = binding, eo_candidates = cs, eo_provenance = prov\<rparr>" for prov
  have "new_ok len ?r ([occ prov], calls prov)" for prov
    using sound t bound procedure role env_length [OF env]
    by (auto simp: new_ok_def occ_def calls_def occurrence_fits_def relationship_fits_def target_sound_def
        token_fits_def split: option.splits)
  with new have pushed: "new_ok len ?r (push_facts [occ prov] (calls prov) new)" for prov by (simp add: new_ok_push)
  have count: "total_facts env (push_facts [occ prov] (calls prov) new) \<le> total_facts env new + 2" for prov
    by (simp add: total_facts_push calls_def split: option.splits)
  define prov where "prov = annotate_truncation
    (if binding \<noteq> None then ''dm-recovery:lexical-binding''
     else if dt_text t \<in> set signal_names then ''dm-recovery:observed-signal-pattern''
     else ''dm-recovery:name-candidates;preprocessor-not-evaluated'') (truncated \<or> limited)"
  let ?new = "push_facts [occ prov] (calls prov) new"
  have step: "reference env site position t previous follows new =
      (if dt_text t \<in> set signal_names then recover_signal_argument (de_tokens site) position ?new else ?new)"
    using env unfolding env_ok_def reference_def role_def prov_def occ_def calls_def Let_def by (simp add: cs binding)
  have fits: "\<forall>t \<in> set (de_tokens site). token_fits len t" using site(1) by (auto simp: evidence_ok_def list_all_iff)
  show "new_ok len ?r (reference env site position t previous follows new)"
    unfolding step using pushed [of prov] recover_signal_argument_ok(1) [OF pushed [of prov] fits] by simp
  show "total_facts env (reference env site position t previous follows new) \<le> total_facts env new + 3"
    unfolding step using count [of prov] recover_signal_argument_ok(2) [OF pushed [of prov] fits, of env position] by simp
qed

lemma resolve_token_ok:
  assumes env: "env_ok len env" and new: "new_ok len (dv_result env) new"
    and site: "evidence_ok len (map ed_start (ex_definitions (dv_result env))) site" "position < length (de_tokens site)"
  shows "new_ok len (dv_result env) (resolve_token env site position new)
    \<and> total_facts env (resolve_token env site position new) \<le> total_facts env new + 3"
proof -
  let ?ts = "de_tokens site" and ?t = "de_tokens site ! position"
  have mem: "?t \<in> set ?ts" using site(2) by simp
  have fits: "\<forall>t \<in> set ?ts. token_fits len t" using site(1) by (auto simp: evidence_ok_def list_all_iff)
  have span: "dt_start ?t < dt_end (?ts ! (position + 1)) \<and> dt_end (?ts ! (position + 1)) \<le> len"
    if "position + 1 < length ?ts"
  proof -
    have "before ?t (?ts ! (position + 1))" using site(1) that by (simp add: evidence_ok_def sorted_wrt_iff_nth_less)
    moreover have "token_fits len ?t" "token_fits len (?ts ! (position + 1))"
      using fits mem nth_mem [OF that] by blast+
    ultimately show ?thesis by (simp add: token_fits_def)
  qed
  show ?thesis
    using new span parent_call_ok [OF env new site(1) mem, of "dt_end (?ts ! (position + 1))"]
      reference_ok [OF env new site(1) mem]
    by (auto simp: resolve_token_def Let_def nth_opt_def split: if_splits)
qed

lemma resolve_site_ok:
  assumes "env_ok len env" "evidence_ok len (map ed_start (ex_definitions (dv_result env))) site"
    "\<forall>p \<in> set ps. p < length (de_tokens site)" "new_ok len (dv_result env) new" "total_facts env new \<le> MAX_FACTS"
  shows "new_ok len (dv_result env) (fst (resolve_site env site ps new))
    \<and> total_facts env (fst (resolve_site env site ps new)) \<le> MAX_FACTS"
  using assms
proof (induction env site ps new rule: resolve_site.induct)
  case (2 env site p ps new)
  then show ?case using resolve_token_ok [of len env new site p] by auto
qed simp

lemma resolve_sites_ok:
  assumes "env_ok len env" "list_all (evidence_ok len (map ed_start (ex_definitions (dv_result env)))) sites"
    "new_ok len (dv_result env) new" "total_facts env new \<le> MAX_FACTS"
  shows "new_ok len (dv_result env) (fst (resolve_sites env sites new))
    \<and> total_facts env (fst (resolve_sites env sites new)) \<le> MAX_FACTS"
  using assms
proof (induction env sites new rule: resolve_sites.induct)
  case (2 env site sites new)
  then show ?case
    using resolve_site_ok [of len env site "[0..<length (de_tokens site)]" new] by (auto split: prod.splits)
qed simp

section \<open>The extraction\<close>

lemma facts_inv_fits:
  assumes "facts_inv len pos (r, defs)"
  shows "well_formed_extraction len r" "\<forall>o' \<in> set (ex_occurrences r). eo_target o' = None \<and> eo_candidates o' = []"
proof -
  have n: "length (ex_definitions r) = length defs" using assms by (auto simp: facts_inv_def dest: list_all2_lengthD)
  have "definition_fits len d" if "d \<in> set (ex_definitions r)" for d
    using assms that by (auto simp: facts_inv_def pair_ok_def list_all2_conv_all_nth in_set_conv_nth)
  then show "well_formed_extraction len r" "\<forall>o' \<in> set (ex_occurrences r). eo_target o' = None \<and> eo_candidates o' = []"
    using assms n by (auto simp: well_formed_extraction_def facts_inv_def unresolved_def list_all_iff)
qed

text \<open>Everything the resolver adds is sound for the definitions that were recovered.\<close>

definition resolved_ok :: "nat \<Rightarrow> file_extraction \<Rightarrow> bool" where
  "resolved_ok len r \<longleftrightarrow> well_formed_extraction len r \<and> fact_count r \<le> MAX_FACTS
     \<and> (\<forall>o' \<in> set (ex_occurrences r). target_sound r o' \<and> length (eo_candidates o') \<le> MAX_CANDIDATES)"

lemma resolved_ok_extend:
  assumes "facts_inv len pos (r, defs)" "new_ok len r new"
    "length (ex_definitions r) + length (ex_occurrences r) + length (ex_relationships r) + length (fst new) + length (snd new) \<le> MAX_FACTS"
  shows "resolved_ok len (r\<lparr>ex_occurrences := ex_occurrences r @ fst new, ex_relationships := ex_relationships r @ snd new,
      ex_status := s\<rparr>)"
proof -
  have same: "target_sound (r\<lparr>ex_occurrences := a, ex_relationships := b, ex_status := s\<rparr>) = target_sound r" for a b
    by (simp add: target_sound_def is_procedure_def fun_eq_iff)
  from facts_inv_fits [OF assms(1)] assms(2,3) show ?thesis
    by (auto simp: resolved_ok_def well_formed_extraction_def new_ok_def fact_count_def list_all_iff same target_sound_def [of r])
qed

lemma resolved_ok_unresolve:
  assumes "resolved_ok len r"
  shows "resolved_ok len (r\<lparr>ex_occurrences := map unresolved_occurrence (ex_occurrences r),
      ex_relationships := map unresolved_relationship (ex_relationships r)\<rparr>)"
  using assms
  by (auto simp: resolved_ok_def well_formed_extraction_def fact_count_def list_all_iff target_sound_def
      occurrence_fits_def relationship_fits_def unresolved_occurrence_def unresolved_relationship_def)

lemma dm_resolve_ok:
  assumes inv: "facts_inv len len facts" and evidence: "list_all (evidence_ok len (starts_of facts)) evidence"
    and count: "fact_count (fst facts) \<le> MAX_FACTS"
  shows "resolved_ok len (dm_resolve facts evidence parents includes)"
    and "ex_status (dm_resolve facts evidence parents includes) \<noteq> ''recovered'' \<Longrightarrow>
      (\<forall>o' \<in> set (ex_occurrences (dm_resolve facts evidence parents includes)). eo_target o' = None)
      \<and> (\<forall>x \<in> set (ex_relationships (dm_resolve facts evidence parents includes)). er_target x = None)"
proof -
  obtain r defs where facts: "facts = (r, defs)" by fastforce
  define env where "env = \<lparr>dv_result = r, dv_definitions = defs, dv_lookup = DmLookup_new r defs, dv_parents = parents,
    dv_includes = includes, dv_complete = (ex_status r = ''recovered'')\<rparr>"
  obtain new1 limit1 where new1: "overrides env [0..<length defs] Map.empty ([], []) = (new1, limit1)" by fastforce
  obtain new2 limit2 where new2: "resolve_sites env evidence new1 = (new2, limit2)" by fastforce
  define s where "s = (if limit1 \<or> limit2 then ''recovered_incomplete'' else ex_status r)"
  define r1 where "r1 = r\<lparr>ex_occurrences := ex_occurrences r @ fst new2, ex_relationships := ex_relationships r @ snd new2,
    ex_status := s\<rparr>"
  have env: "env_ok len env" using inv by (simp add: env_ok_def env_def facts)
  have "new_ok len r new1 \<and> total_facts env new1 \<le> MAX_FACTS"
    using overrides_ok [OF env, of 0 "([], [])" Map.empty] count new1
    by (simp add: env_def facts new_ok_def total_facts_def)
  then have "new_ok len r new2 \<and> total_facts env new2 \<le> MAX_FACTS"
    using resolve_sites_ok [OF env, of evidence new1] evidence new2 by (simp add: env_def facts starts_of_def)
  then have r1: "resolved_ok len r1"
    using resolved_ok_extend [of len len r defs new2 s] inv
    by (simp add: facts r1_def total_facts_def env_def fact_count_def add_ac)
  have result: "dm_resolve facts evidence parents includes =
      (if ex_status r1 \<noteq> ''recovered''
       then r1\<lparr>ex_occurrences := map unresolved_occurrence (ex_occurrences r1),
               ex_relationships := map unresolved_relationship (ex_relationships r1)\<rparr>
       else r1)"
    unfolding dm_resolve_def facts prod.case Let_def env_def [symmetric] new1 new2 r1_def s_def ..
  show "resolved_ok len (dm_resolve facts evidence parents includes)"
    unfolding result using r1 resolved_ok_unresolve [OF r1] by simp
  show "ex_status (dm_resolve facts evidence parents includes) \<noteq> ''recovered'' \<Longrightarrow>
      (\<forall>o' \<in> set (ex_occurrences (dm_resolve facts evidence parents includes)). eo_target o' = None)
      \<and> (\<forall>x \<in> set (ex_relationships (dm_resolve facts evidence parents includes)). er_target x = None)"
    unfolding result by (auto simp: unresolved_occurrence_def unresolved_relationship_def split: if_splits)
qed

lemma dm_extract_resolved:
  "resolved_ok (length source) (dm_extract source)"
  "ex_status (dm_extract source) \<noteq> ''recovered'' \<Longrightarrow>
   (\<forall>o' \<in> set (ex_occurrences (dm_extract source)). eo_target o' = None)
   \<and> (\<forall>x \<in> set (ex_relationships (dm_extract source)). er_target x = None)"
  using dm_resolve_ok [of "length source" "ds_facts (recover source)" "ds_evidence (recover source)"]
    recover_inv [of source]
  by (auto simp: dm_extract_def Let_def state_inv_def refs_ok_def)

section \<open>The nearest binding\<close>

lemma takeWhile_sorted:
  "sorted_wrt (\<lambda>i j. f i < (f j :: nat)) xs \<Longrightarrow> takeWhile (\<lambda>i. f i \<le> s) xs = filter (\<lambda>i. f i \<le> s) xs"
proof (induction xs)
  case (Cons x xs)
  then have "filter (\<lambda>i. f i \<le> s) xs = []" if "\<not> f x \<le> s" using that by (fastforce simp: filter_empty_conv)
  with Cons show ?case by auto
qed simp

lemma find_rev: "List.find P (rev xs) = (if filter P xs = [] then None else Some (last (filter P xs)))"
proof (induction xs)
  case (Cons x xs)
  have "List.find P (ys @ [x]) = (case List.find P ys of None \<Rightarrow> if P x then Some x else None | Some y \<Rightarrow> Some y)" for ys
    by (induction ys) auto
  with Cons show ?case by auto
qed simp

text \<open>The declarations of a name local to a procedure, up to a position of the source.\<close>

definition declared_before :: "file_extraction \<Rightarrow> dm_definition list \<Rightarrow> nat \<Rightarrow> string \<Rightarrow> nat \<Rightarrow> nat list" where
  "declared_before r defs owner name start =
     filter (\<lambda>i. owned r defs (owner, name) i \<and> dd_name_start (defs ! i) \<le> start) [0..<length defs]"

lemma binding_entries:
  assumes "facts_inv len pos (r, defs)"
  shows "takeWhile (\<lambda>i. dd_name_start (defs ! i) \<le> start) (filter (owned r defs (owner, name)) [0..<length defs])
    = declared_before r defs owner name start"
proof -
  have "sorted_wrt (<) (map dd_name_start defs)" using assms by (simp add: facts_inv_def)
  then have "sorted_wrt (\<lambda>i j. dd_name_start (defs ! i) < dd_name_start (defs ! j)) [0..<length defs]"
    by (simp add: sorted_wrt_iff_nth_less)
  then have "sorted_wrt (\<lambda>i j. dd_name_start (defs ! i) < dd_name_start (defs ! j))
      (filter (owned r defs (owner, name)) [0..<length defs])" by (rule sorted_wrt_filter)
  from takeWhile_sorted [OF this, of start] show ?thesis
    by (simp add: declared_before_def conj_commute)
qed

text \<open>
  C16.  A name in a procedure is bound to the nearest declaration before it that is still in scope, among the last 64
  declarations of that name in the procedure; a conditional declaration blocks the binding instead of uncovering an
  outer one, and the search reports truncation exactly when there are more than 64 and none of those is in scope.
\<close>

theorem dm_binding_nearest:
  fixes source :: bytes
  defines "r \<equiv> fst (ds_facts (recover source))" and "defs \<equiv> snd (ds_facts (recover source))"
  shows "lookup_binding (DmLookup_new r defs) (Some owner) name start defs =
    (let ds = declared_before r defs owner name start;
         visible = filter (\<lambda>i. start < dd_scope_end (defs ! i)) (drop (length ds - MAX_CANDIDATES) ds)
     in (if visible = [] \<or> dd_conditional (defs ! last visible) then None else Some (last visible),
         length ds > MAX_CANDIDATES \<and> visible = []))"
proof -
  have inv: "facts_inv (length source) (length source) (r, defs)"
    using recover_inv(1) [of source] by (simp add: state_inv_def r_def defs_def)
  note entries = lookup_tables(3) [of r defs "(owner, name)"]
  show ?thesis
  proof (cases "lk_bindings (DmLookup_new r defs) (owner, name)")
    case None
    then have "filter (owned r defs (owner, name)) [0..<length defs] = []" using entries by (simp add: bucket_def)
    then have "declared_before r defs owner name start = []"
      using binding_entries [OF inv, of start owner name] by simp
    with None show ?thesis by (simp add: lookup_binding_def)
  next
    case (Some xs)
    then have xs: "xs = filter (owned r defs (owner, name)) [0..<length defs]" using entries by (simp add: bucket_def)
    define ds where "ds = declared_before r defs owner name start"
    have "takeWhile (\<lambda>i. dd_name_start (defs ! i) \<le> start) xs = ds"
      using binding_entries [OF inv, of start owner name] by (simp add: xs ds_def)
    then have "length ds \<le> length xs" "take (partition_point (\<lambda>i. dd_name_start (defs ! i) \<le> start) xs) xs = ds"
      "partition_point (\<lambda>i. dd_name_start (defs ! i) \<le> start) xs = length ds"
      using takeWhile_eq_take [of "\<lambda>i. dd_name_start (defs ! i) \<le> start" xs]
      by (auto simp: partition_point_def length_takeWhile_le)
    with Some show ?thesis
      by (simp add: lookup_binding_def Let_def take_rev find_rev min_absorb2 flip: ds_def)
  qed
qed

section \<open>A sample\<close>

text \<open>Two declarations of the same procedure: the second overrides the first.\<close>

definition override_sample :: bytes where
  "override_sample = ''/a/b()'' @ [LF] @ ''/a/b()'' @ [LF]"

definition sample_line :: "nat \<Rightarrow> dm_line" where
  "sample_line n = \<lparr>ln_indent = 0, ln_end = n + 7, ln_tokens =
     [\<lparr>dt_text = ''/'', dt_start = n, dt_end = n + 1, dt_quoted = False\<rparr>,
      \<lparr>dt_text = ''a'', dt_start = n + 1, dt_end = n + 2, dt_quoted = False\<rparr>,
      \<lparr>dt_text = ''/'', dt_start = n + 2, dt_end = n + 3, dt_quoted = False\<rparr>,
      \<lparr>dt_text = ''b'', dt_start = n + 3, dt_end = n + 4, dt_quoted = False\<rparr>,
      \<lparr>dt_text = ''('', dt_start = n + 4, dt_end = n + 5, dt_quoted = False\<rparr>,
      \<lparr>dt_text = '')'', dt_start = n + 5, dt_end = n + 6, dt_quoted = False\<rparr>]\<rparr>"

lemma override_sample_length: "length override_sample = 14"
  by code_simp

lemma override_sample_tokens: "tokenize override_sample = ([sample_line 0, sample_line 7], True)"
proof -
  note len = override_sample_length
  have start: "lexer_start override_sample = 0" by code_simp
  have "lex_lines override_sample 0 0 lexer_initial =
      (let (lx, ls) = lex_lines override_sample 7 (0 + length (ln_tokens (sample_line 0))) lexer_initial
       in (lx, \<lparr>ln_indent = 0, ln_end = 7, ln_tokens = ln_tokens (sample_line 0)\<rparr> # ls))"
    by (rule short_line [where i = 0]) ((simp add: len MAX_LINE_BYTES_def MAX_TOKENS_def sample_line_def; fail) | code_simp)+
  moreover have "lex_lines override_sample 7 (0 + length (ln_tokens (sample_line 0))) lexer_initial =
      (let (lx, ls) = lex_lines override_sample 14 (0 + length (ln_tokens (sample_line 0)) + length (ln_tokens (sample_line 7))) lexer_initial
       in (lx, \<lparr>ln_indent = 0, ln_end = 14, ln_tokens = ln_tokens (sample_line 7)\<rparr> # ls))"
    by (rule short_line [where i = 7]) ((simp add: len MAX_LINE_BYTES_def MAX_TOKENS_def sample_line_def; fail) | code_simp)+
  ultimately show ?thesis
    by (simp add: tokenize_def start len lex_lines.simps [of _ 14] lexer_initial_def sample_line_def)
qed

lemma sample_declaration: "dm_declaration (ln_tokens (sample_line n)) [] False = Some (''/a/b'', 3, 4, ''proc'')"
  by (simp add: sample_line_def dm_declaration_def is_identifier_def is_ascii_alphabetic_def is_ascii_lowercase_def is_ascii_uppercase_def byte_def nth_opt_def member_keywords_def
    statement_keywords_def ends_with_def Let_def)


lemma sample_line_parts:
  "ln_indent (sample_line n) = 0" "ln_end (sample_line n) = n + 7" "ln_tokens (sample_line n) \<noteq> []"
  "length (ln_tokens (sample_line n)) = 6"
  "dt_start (hd (ln_tokens (sample_line n))) = n" "dt_text (hd (ln_tokens (sample_line n))) = ''/''"
  "takeWhile (\<lambda>t. dt_text t = ''}'') (ln_tokens (sample_line n)) = []"
  "count_text ''{'' (ln_tokens (sample_line n)) = 0" "count_braces (ln_tokens (sample_line n)) b = b"
  "ln_tokens (sample_line n) ! 3 = \<lparr>dt_text = ''b'', dt_start = n + 3, dt_end = n + 4, dt_quoted = False\<rparr>"
  "position_of (\<lambda>t. dt_text t = '')'') (ln_tokens (sample_line n)) = Some 5" "drop 6 (ln_tokens (sample_line n)) = []"
  "recover_parameters (ln_tokens (sample_line n)) 4 i c facts = facts"
  by (simp_all add: sample_line_def count_text_def count_braces_def recover_parameters_def slice_def add_parameter_def
      parameter_name_def)

definition sample_result :: "file_extraction" where
  "sample_result =
     \<lparr>ex_language = ''dreammaker'', ex_status = ''recovered'',
      ex_definitions = map (\<lambda>n. \<lparr>ed_name = ''b'', ed_kind = ''proc'', ed_start = n, ed_end = n + 7,
        ed_container = Some ''/a''\<rparr>) [0, 7],
      ex_occurrences = [], ex_relationships = []\<rparr>"

definition sample_definitions :: "dm_definition list" where
  "sample_definitions = map (\<lambda>n. \<lparr>dd_path = ''/a/b'', dd_conditional = False, dd_local_owner = None, dd_scope_end = usize_max,
     dd_name_start = n + 3, dd_name_end = n + 4\<rparr>) [0, 7]"

lemma sample_recover:
  "ds_facts (recover override_sample) = (sample_result, sample_definitions)"
  "list_all (\<lambda>e. de_tokens e = []) (ds_evidence (recover override_sample))" "\<not> ds_includes (recover override_sample)"
proof -
  have "container_of ''/a/b'' = Some ''/a''" by code_simp
  then show "ds_facts (recover override_sample) = (sample_result, sample_definitions)"
    "list_all (\<lambda>e. de_tokens e = []) (ds_evidence (recover override_sample))" "\<not> ds_includes (recover override_sample)"
    by (simp_all add: recover_def override_sample_tokens Let_def MAX_FACTS_def dm_initial_def fact_count_def process_line_def
        statement_line_def sample_line_parts sample_declaration current_procedure_def current_path_def declaration_line_def
        push_frame_def push_evidence_def add_definition_def frame_ends_def close_definition_def close_all_def
        sample_result_def sample_definitions_def override_sample_length)
qed

lemma resolve_empty_sites: "list_all (\<lambda>e. de_tokens e = []) sites \<Longrightarrow> resolve_sites env sites new = (new, False)"
  by (induction sites) auto

lemma sample_override: "map (\<lambda>o'. (eo_role o', eo_target o')) (ex_occurrences (dm_extract override_sample)) = [(''override'', Some 0)]"
proof -
  have two: "[0..<length sample_definitions] = [0, 1]" by (simp add: sample_definitions_def upt_rec)
  show ?thesis
    by (simp add: dm_extract_def Let_def sample_recover dm_resolve_def two resolve_empty_sites [OF sample_recover(2)])
       (simp add: sample_result_def sample_definitions_def total_facts_def fact_count_def MAX_FACTS_def is_procedure_def
         override_facts_def push_facts_def Let_def)
qed

text \<open>
  C15.  The facts extracted from any DreamMaker file are well formed: spans are nonempty and inside the file, every target,
  candidate and source is the index of an extracted definition, there are at most 50000 facts, and no occurrence lists
  more than 64 candidates.
\<close>

theorem dm_extraction_well_formed:
  "well_formed_extraction (length source) (dm_extract source) \<and> fact_count (dm_extract source) \<le> MAX_FACTS
   \<and> (\<forall>o' \<in> set (ex_occurrences (dm_extract source)). length (eo_candidates o') \<le> MAX_CANDIDATES)"
  using dm_extract_resolved(1) [of source] by (auto simp: resolved_ok_def)

theorem dm_extraction_well_formed_witness:
  "well_formed_extraction 14 (dm_extract override_sample) \<and> fact_count (dm_extract override_sample) \<le> MAX_FACTS
   \<and> list_all (\<lambda>o'. length (eo_candidates o') \<le> MAX_CANDIDATES) (ex_occurrences (dm_extract override_sample))"
  using dm_extraction_well_formed [of override_sample] override_sample_length by (simp add: list_all_iff)

text \<open>
  C9.  Resolution is conservative: a file that was not understood completely has no resolved occurrence and no resolved
  relationship, and a resolved occurrence points at a definition that starts no later, a procedure when it is an
  override or a parent call, and otherwise a local variable or parameter with the occurrence's name.
\<close>

theorem dm_targets_sound:
  "(ex_status (dm_extract source) \<noteq> ''recovered'' \<longrightarrow>
     (\<forall>o' \<in> set (ex_occurrences (dm_extract source)). eo_target o' = None)
     \<and> (\<forall>x \<in> set (ex_relationships (dm_extract source)). er_target x = None))
   \<and> (\<forall>o' \<in> set (ex_occurrences (dm_extract source)). target_sound (dm_extract source) o')"
  using dm_extract_resolved [of source] by (auto simp: resolved_ok_def)

theorem dm_targets_sound_witness:
  "map (\<lambda>o'. (eo_role o', eo_target o')) (ex_occurrences (dm_extract override_sample)) = [(''override'', Some 0)]
   \<and> list_all (target_sound (dm_extract override_sample)) (ex_occurrences (dm_extract override_sample))
   \<and> ex_status (dm_extract override_sample) = ''recovered''"
proof -
  obtain o' where "ex_occurrences (dm_extract override_sample) = [o']" "eo_target o' = Some 0"
    using sample_override by (auto simp: map_eq_Cons_conv)
  with dm_targets_sound [of override_sample] sample_override show ?thesis by simp
qed

end
