(* ===== verification/TP_Source.thy ===== *)
theory TP_Source
  imports TP_Page TP_Index TP_Utf8
begin

text \<open>
  \<open>src/source.rs\<close> and \<open>src/source/lines.rs\<close>: contained reads of files below the root, line windows, and the budgeted
  response of \<open>show\<close>.  A directory tree stands for the file system: \<open>openat\<close> with \<open>O_NOFOLLOW\<close> descends one name at a time.
  Permission and device errors of an existing component are not modelled.
\<close>

section \<open>Contained reads\<close>

text \<open>A regular file has the size that \<open>metadata\<close> reports and the bytes that a later read finds.\<close>

datatype inode = RegularFile nat bytes | Directory "(bytes \<times> inode) list" | Symlink | OtherNode

definition MAX_READ_BYTES :: nat where "MAX_READ_BYTES = 16 * 1024 * 1024"

definition is_directory :: "inode \<Rightarrow> bool" where
  "is_directory n = (case n of Directory _ \<Rightarrow> True | _ \<Rightarrow> False)"

definition openat :: "inode \<Rightarrow> bytes \<Rightarrow> bool \<Rightarrow> inode option" where
  "openat dir name directory_only =
     (case dir of
        Directory entries \<Rightarrow>
          (case map_of entries name of
             None \<Rightarrow> None
           | Some n \<Rightarrow> if n = Symlink \<or> directory_only \<and> \<not> is_directory n then None else Some n)
      | _ \<Rightarrow> None)"

fun open_parts :: "inode \<Rightarrow> path_component list \<Rightarrow> inode result" where
  "open_parts file [] = Inr file"
| "open_parts file (Normal name # parts) =
     (if CHR 0x00 \<in> set name then Inl ''invalid_path: NUL byte''
      else case openat file name (parts \<noteq> []) of
             None \<Rightarrow> Inl ''source_unavailable: path missing or unsafe''
           | Some n \<Rightarrow> open_parts n parts)"
| "open_parts file (_ # parts) = Inl ''invalid_path: use a root-relative path without parent components''"

definition read_file :: "nat \<Rightarrow> inode \<Rightarrow> bytes result" where
  "read_file limit file =
     (case file of
        RegularFile reported content \<Rightarrow>
          if reported > limit then Inl ''source_excluded: file exceeds read limit''
          else
            let bytes = take (limit + 1) content
            in if length bytes > limit then Inl ''source_excluded: file grew beyond read limit'' else Inr bytes
      | _ \<Rightarrow> Inl ''source_unavailable: source is not a regular file'')"

definition read_contained :: "inode option \<Rightarrow> bytes \<Rightarrow> nat \<Rightarrow> bytes result" where
  "read_contained root relative limit =
     (let parts = path_components relative
      in if parts = [] \<or> \<not> list_all is_normal parts
         then Inl ''invalid_path: use a root-relative path without parent components''
         else case root of
           None \<Rightarrow> Inl ''source_unavailable: cannot open repository root''
         | Some file \<Rightarrow>
             (case open_parts file parts of Inl e \<Rightarrow> Inl e | Inr n \<Rightarrow> read_file limit n))"

section \<open>Line windows\<close>

text \<open>\<open>slice::split_inclusive\<close> at line feeds.\<close>

fun split_feeds :: "bytes \<Rightarrow> bytes list" where
  "split_feeds [] = []"
| "split_feeds (b # bs) =
     (if b = LF then [b] # split_feeds bs
      else case split_feeds bs of [] \<Rightarrow> [[b]] | l # ls \<Rightarrow> (b # l) # ls)"

fun span_loop :: "nat \<Rightarrow> nat \<Rightarrow> nat \<Rightarrow> nat \<Rightarrow> nat option \<Rightarrow> bytes \<Rightarrow> nat option \<times> nat" where
  "span_loop first last_line i line start [] = (start, i)"
| "span_loop first last_line i line start (b # bs) =
     (if b = LF then
        if line = last_line then (start, i + 1)
        else span_loop first last_line (i + 1) (line + 1) (if line + 1 = first then Some (i + 1) else start) bs
      else span_loop first last_line (i + 1) line start bs)"

definition current_span :: "bytes \<Rightarrow> nat \<Rightarrow> nat \<Rightarrow> (nat \<times> nat) result" where
  "current_span bytes first last_line =
     (if first = 0 \<or> last_line < first then Inl ''invalid_range: lines must be one-based and inclusive''
      else case span_loop first last_line 0 1 (if first = 1 then Some 0 else None) bytes of
             (None, stop) \<Rightarrow> Inl ''invalid_range: first line is beyond end of file''
           | (Some start, stop) \<Rightarrow> Inr (start, stop))"

section \<open>Rows\<close>

definition escape_byte :: "char \<Rightarrow> string" where
  "escape_byte b = (if 0x20 \<le> byte b \<and> byte b \<le> 0x7E \<and> b \<noteq> CHR 0x5C then [b] else CHR 0x5C # CHR ''x'' # hex_lower b)"

definition display_bytes :: "bytes \<Rightarrow> string \<times> string" where
  "display_bytes bytes =
     (if well_formed_utf8 bytes then (bytes, ''utf8'') else (concat (map escape_byte bytes), ''byte-escaped''))"

definition JNat :: "nat \<Rightarrow> json" where "JNat n = JNum (int n)"

definition row_value :: "nat \<Rightarrow> nat \<Rightarrow> bytes \<Rightarrow> json" where
  "row_value line start bytes =
     (let (txt, encoding) = display_bytes bytes
      in JObj [(''line'', JNat line), (''start'', JNat start), (''end'', JNat (start + length bytes)),
               (''text'', JStr txt), (''encoding'', JStr encoding)])"

fun number_rows :: "nat \<Rightarrow> nat \<Rightarrow> bytes list \<Rightarrow> json list" where
  "number_rows line offset [] = []"
| "number_rows line offset (l # ls) = row_value line offset l # number_rows (line + 1) (offset + length l) ls"

definition MAX_ROWS :: nat where "MAX_ROWS = 200"

section \<open>The acquired source\<close>

datatype source_side = Before | After

fun SourceSide_as_str :: "source_side \<Rightarrow> string" where
  "SourceSide_as_str Before = ''before''"
| "SourceSide_as_str After = ''after''"

definition SourceSide_parse :: "string \<Rightarrow> source_side result" where
  "SourceSide_parse value =
     (if value = ''before'' then Inr Before else if value = ''after'' then Inr After
      else Inl ''invalid_side: expected before or after'')"

record import_hop =
  hop_site :: string
  hop_path :: string
  hop_reexport :: bool

record import_note =
  in_hops :: "import_hop list"
  in_followed :: bool
  in_candidates :: nat

record symbol_selection =
  ss_declarations :: nat
  ss_imports :: nat
  ss_also :: "string list"
  ss_import :: "import_note option"

record acquired_source =
  as_bytes :: bytes
  as_path :: string
  as_revision :: string
  as_span :: byte_span
  as_verified :: bool
  as_handle :: string
  as_side :: "source_side option"
  as_historical :: "historical_source option"
  as_definitions :: "symbol_selection option"
  as_freshness :: "string option"

section \<open>The response\<close>

definition historical_value :: "historical_source \<Rightarrow> json" where
  "historical_value h =
     JObj [(''repository'', JStr (hs_repository h)), (''commit'', JStr (GitOid_as_str (hs_commit h))),
           (''blob'', JStr (GitOid_as_str (hs_blob h))), (''revision'', JStr (hs_revision h)),
           (''path'', JStr (hs_path h)),
           (''span'', JObj [(''start'', JNat (span_start (hs_span h))), (''end'', JNat (span_end (hs_span h)))])]"

definition hop_value :: "import_hop \<Rightarrow> json" where
  "hop_value hop = JObj [(''site'', JStr (hop_site hop)), (''path'', JStr (hop_path hop)), (''reexport'', JBool (hop_reexport hop))]"

definition selection_value :: "symbol_selection \<Rightarrow> json \<Rightarrow> json" where
  "selection_value s v =
     (let v1 = json_set ''definitions'' (JNat (ss_declarations s)) v;
          v2 = (if ss_imports s > 0 then json_set ''imports'' (JNat (ss_imports s)) v1 else v1);
          v3 = json_set ''also'' (JArr (map JStr (ss_also s))) v2
      in case ss_import s of
           None \<Rightarrow> v3
         | Some n \<Rightarrow> json_set ''import'' (JObj [(''via'', JArr (map hop_value (in_hops n))),
                     (''followed'', JBool (in_followed n)), (''candidates'', JNat (in_candidates n))]) v3)"

definition shown_end :: "nat \<Rightarrow> json list \<Rightarrow> nat" where
  "shown_end start rows =
     (case rows of [] \<Rightarrow> start | _ \<Rightarrow> (case as_u64 (json_get ''end'' (last rows)) of Some n \<Rightarrow> n | None \<Rightarrow> start))"

definition read_cursor :: "string \<Rightarrow> source_side option \<Rightarrow> nat \<Rightarrow> string" where
  "read_cursor hdl side offset =
     ''read:'' @ hdl @ (case side of Some s \<Rightarrow> '':'' @ SourceSide_as_str s | None \<Rightarrow> []) @ ''@'' @ show_nat offset"

definition source_value :: "acquired_source \<Rightarrow> (string \<times> json) list \<Rightarrow> json list \<Rightarrow> json" where
  "source_value src metadata rows =
     (let start = span_start (as_span src); stop = span_end (as_span src);
          shown = shown_end start rows;
          truncated = (shown < stop);
          v0 = JObj [(''path'', JStr (as_path src)), (''revision'', JStr (as_revision src)), (''verified'', JBool (as_verified src)),
                     (''start'', JNat start), (''end'', JNat stop), (''lines'', JArr rows), (''truncated'', JBool truncated),
                     (''next'', if truncated then JStr (read_cursor (as_handle src) (as_side src) shown) else JNull),
                     (''tokenizer'', JStr ''o200k_base'')];
          v1 = (case as_historical src of Some h \<Rightarrow> json_set ''historical'' (historical_value h) v0 | None \<Rightarrow> v0);
          v2 = (if \<not> as_verified src \<and> as_historical src = None \<and> map_of metadata ''source'' = None
                then json_set ''source'' (JStr ''current_file'') v1 else v1);
          v3 = (case as_freshness src of Some f \<Rightarrow> json_set ''freshness'' (JStr f) v2 | None \<Rightarrow> v2)
      in case as_definitions src of Some s \<Rightarrow> selection_value s v3 | None \<Rightarrow> v3)"

definition extend_object :: "(string \<times> json) list \<Rightarrow> json \<Rightarrow> json result" where
  "extend_object metadata v =
     (if list_ex (\<lambda>(key, _). json_has key v) metadata
      then Inl ''invalid_metadata: source metadata collides with response identity''
      else Inr (case v of JObj kvs \<Rightarrow> JObj (kvs @ metadata) | _ \<Rightarrow> v))"

text \<open>The \<open>lines\<close> format.\<close>

definition as_bool :: "json \<Rightarrow> bool option" where
  "as_bool v = (case v of JBool b \<Rightarrow> Some b | _ \<Rightarrow> None)"

definition as_array :: "json \<Rightarrow> json list option" where
  "as_array v = (case v of JArr vs \<Rightarrow> Some vs | _ \<Rightarrow> None)"

definition str_or_empty :: "json \<Rightarrow> string" where
  "str_or_empty v = (case as_str v of Some s \<Rightarrow> s | None \<Rightarrow> [])"

definition row_escaped :: "json \<Rightarrow> bool" where
  "row_escaped row \<longleftrightarrow> as_str (json_get ''encoding'' row) = Some ''byte-escaped''"

definition row_line :: "json \<Rightarrow> nat option" where
  "row_line row = as_u64 (json_get ''line'' row)"

definition row_text :: "json \<Rightarrow> string" where
  "row_text row =
     (let txt = str_or_empty (json_get ''text'' row);
          tail = (if row_escaped row then CHR 0x5C # ''x0a'' else [LF]);
          shown = (case strip_suffix tail txt of Some t \<Rightarrow> t | None \<Rightarrow> txt)
      in show_nat (case row_line row of Some n \<Rightarrow> n | None \<Rightarrow> 0) @ [TAB] @ shown @ [LF])"

definition header_text :: "json \<Rightarrow> json list \<Rightarrow> string" where
  "header_text v rows =
     str_or_empty (json_get ''path'' v)
     @ (case as_str (json_get ''member'' v) of Some m \<Rightarrow> '' ('' @ m @ '')'' | None \<Rightarrow> [])
     @ (if rows = [] then '' (empty)'' @ [LF]
        else case (row_line (hd rows), row_line (last rows)) of
               (Some first, Some last_line) \<Rightarrow> '' lines '' @ show_nat first @ ''-'' @ show_nat last_line @ [LF]
             | _ \<Rightarrow> '' (empty)'' @ [LF])"

definition field_line :: "string \<Rightarrow> json \<Rightarrow> string" where
  "field_line key v = (case as_str v of Some s \<Rightarrow> key @ '': '' @ s @ [LF] | None \<Rightarrow> [])"

definition verified_text :: "json \<Rightarrow> string" where
  "verified_text v =
     (case as_bool (json_get ''verified'' v) of
        None \<Rightarrow> []
      | Some b \<Rightarrow>
          if \<not> b \<and> as_str (json_get ''source'' v) = Some ''current_file'' then ''verified: current file'' @ [LF]
          else ''verified: '' @ (if b then ''true'' else ''false'') @ [LF])"

definition import_text :: "json \<Rightarrow> string" where
  "import_text v =
     (let import = json_get ''import'' v
      in case as_array (json_get ''via'' import) of
           None \<Rightarrow> []
         | Some hops \<Rightarrow>
             if hops = [] then []
             else
               let trail = join_with '' -> '' (map (\<lambda>hop.
                     (if json_get ''reexport'' hop = JBool True then ''re-export'' else ''import'') @ '' of ''
                     @ str_or_empty (json_get ''path'' hop) @ '' at '' @ str_or_empty (json_get ''site'' hop)) hops)
               in if json_get ''followed'' import = JBool True
                  then (case as_u64 (json_get ''candidates'' import) of
                          Some tied \<Rightarrow>
                            if tied > 1 then ''via: '' @ trail @ '' (1 of '' @ show_nat tied @ '')'' @ [LF]
                            else ''via: '' @ trail @ [LF]
                        | None \<Rightarrow> ''via: '' @ trail @ [LF])
                  else trail @ '' (declaration not indexed)'' @ [LF])"

definition definitions_text :: "json \<Rightarrow> string" where
  "definitions_text v =
     (case as_u64 (json_get ''definitions'' v) of
        None \<Rightarrow> []
      | Some tot \<Rightarrow> ''definitions: '' @ show_nat tot
          @ (case as_u64 (json_get ''imports'' v) of Some n \<Rightarrow> '' (+'' @ show_nat n @ '' imports)'' | None \<Rightarrow> []) @ [LF])"

definition show_text :: "json \<Rightarrow> string" where
  "show_text v =
     (let rows = (case as_array (json_get ''lines'' v) of Some rs \<Rightarrow> rs | None \<Rightarrow> []);
          nxt = map_option (\<lambda>cursor. \<lparr>nc_verb = ''show'', nc_cursor = cursor, nc_hint = None\<rparr>) (as_str (json_get ''next'' v))
      in header_text v rows @ concat (map row_text rows)
         @ footer nxt (as_bool (json_get ''truncated'' v) = Some True) @ verified_text v
         @ field_line ''freshness'' (json_get ''freshness'' v)
         @ (if list_ex row_escaped rows then ''encoding: byte-escaped'' @ [LF] else [])
         @ field_line ''served_from'' (json_get ''served_from'' v)
         @ field_line ''commit'' (json_get ''commit'' (json_get ''historical'' v))
         @ import_text v @ definitions_text v
         @ (case as_array (json_get ''also'' v) of
              Some locators \<Rightarrow> concat (map (\<lambda>l. ''also: '' @ str_or_empty l @ [LF]) locators)
            | None \<Rightarrow> []))"

section \<open>Rendering within the budget\<close>

definition source_rows :: "acquired_source \<Rightarrow> json list" where
  "source_rows src =
     (let start = span_start (as_span src); stop = span_end (as_span src);
          first = fst (line_span (as_bytes src) start stop)
      in number_rows first start (take MAX_ROWS (split_feeds (slice start stop (as_bytes src)))))"

definition render_text :: "page_libs \<Rightarrow> output_budget \<Rightarrow> acquired_source \<Rightarrow> (string \<times> json) list \<Rightarrow> json list \<Rightarrow> string result" where
  "render_text libs b src metadata rows =
     (case extend_object metadata (source_value src metadata rows) of
        Inl e \<Rightarrow> Inl e
      | Inr v \<Rightarrow> (case budget_format b of Json \<Rightarrow> budget_encode libs v | Lines \<Rightarrow> Inr (show_text v)))"

text \<open>The loop drops the last row until the text fits.\<close>

fun render_loop :: "page_libs \<Rightarrow> output_budget \<Rightarrow> acquired_source \<Rightarrow> (string \<times> json) list \<Rightarrow> json list \<Rightarrow> nat \<Rightarrow> string result" where
  "render_loop libs b src metadata rows n =
     (case render_text libs b src metadata (take n rows) of
        Inl e \<Rightarrow> Inl e
      | Inr txt \<Rightarrow>
          if budget_fits libs b txt \<and> (n > 0 \<or> span_start (as_span src) = span_end (as_span src)) then Inr txt
          else case n of
                 0 \<Rightarrow> Inl ''budget_too_small: source line and response envelope do not fit''
               | Suc m \<Rightarrow> render_loop libs b src metadata rows m)"

declare render_loop.simps [simp del]

definition render_owned :: "page_libs \<Rightarrow> acquired_source \<Rightarrow> output_budget \<Rightarrow> json \<Rightarrow> string result" where
  "render_owned libs src b metadata =
     (case metadata of
        JObj kvs \<Rightarrow> render_loop libs b src kvs (source_rows src) (length (source_rows src))
      | _ \<Rightarrow> Inl ''invalid_metadata: source metadata must be an object'')"

definition render :: "page_libs \<Rightarrow> acquired_source \<Rightarrow> output_budget \<Rightarrow> string result" where
  "render libs src b = render_owned libs src b (JObj [])"

section \<open>Confinement\<close>

text \<open>Descending by names only: no symbolic link is ever passed through.\<close>

fun descend :: "inode \<Rightarrow> bytes list \<Rightarrow> inode option" where
  "descend n [] = Some n"
| "descend (Directory entries) (name # names) =
     (case map_of entries name of
        None \<Rightarrow> None
      | Some n \<Rightarrow> if n = Symlink then None else descend n names)"
| "descend _ (_ # _) = None"

lemma open_parts_descend:
  "open_parts n (map Normal names) = Inr m \<longleftrightarrow>
   (\<forall>name \<in> set names. CHR 0x00 \<notin> set name) \<and> descend n names = Some m"
proof (induction names arbitrary: n)
  case (Cons name names)
  have blocked: "descend k names = None" if "names \<noteq> []" "\<not> is_directory k" for k
    using that by (cases names; cases k) (auto simp: is_directory_def)
  show ?case
    using Cons blocked by (cases n) (auto simp: openat_def split: option.splits)
qed auto

lemma read_file_iff:
  "read_file limit n = Inr bytes \<longleftrightarrow> (\<exists>reported. n = RegularFile reported bytes \<and> reported \<le> limit \<and> length bytes \<le> limit)"
  by (auto simp: read_file_def Let_def split: inode.splits)

lemma all_normal_iff: "list_all is_normal parts \<longleftrightarrow> (\<exists>names. parts = map Normal names)"
proof (induction parts)
  case (Cons c parts)
  then show ?case by (cases c) (auto simp: is_normal_def Cons_eq_map_conv)
qed simp

text \<open>
  C14.  A contained read returns the bytes of exactly the regular file that the components of a root-relative path name
  from the root, with no parent component, no NUL byte and no symbolic link anywhere on the way, and only when both the
  reported size and the bytes read are within the limit.
\<close>

theorem read_contained_confined:
  "read_contained (Some root) relative limit = Inr bytes \<longleftrightarrow>
   (\<exists>names reported. path_components relative = map Normal names \<and> names \<noteq> []
      \<and> list_all (\<lambda>name. CHR 0x00 \<notin> set name) names
      \<and> descend root names = Some (RegularFile reported bytes) \<and> reported \<le> limit \<and> length bytes \<le> limit)"
proof -
  let ?parts = "path_components relative"
  have "read_contained (Some root) relative limit = Inr bytes \<longleftrightarrow>
      ?parts \<noteq> [] \<and> list_all is_normal ?parts \<and> (\<exists>n. open_parts root ?parts = Inr n \<and> read_file limit n = Inr bytes)"
    by (auto simp: read_contained_def Let_def split: sum.splits)
  then show ?thesis
    unfolding all_normal_iff read_file_iff by (auto simp: open_parts_descend list_all_iff)
qed

section \<open>Windows\<close>

lemma concat_split_feeds [simp]: "concat (split_feeds bs) = bs"
  by (induction bs) (auto split: list.splits)

lemma split_feeds_empty [simp]: "split_feeds bs = [] \<longleftrightarrow> bs = []"
  by (cases bs) (auto split: list.splits)

definition feeds :: "bytes \<Rightarrow> nat" where
  "feeds bs = length (filter (\<lambda>b. b = LF) bs)"

text \<open>The offset at which line \<open>k\<close> (counted from zero) starts.\<close>

definition line_offset :: "bytes \<Rightarrow> nat \<Rightarrow> nat" where
  "line_offset bs k = length (concat (take k (split_feeds bs)))"

lemma line_offset_simps [simp]:
  "line_offset [] k = 0" "line_offset bs 0 = 0"
  "line_offset (b # bs) (Suc k) = Suc (line_offset bs (if b = LF then k else Suc k))"
  by (auto simp: line_offset_def split: list.splits)

lemma span_loop_result:
  assumes "line \<le> last_line" "first \<le> last_line"
  shows "span_loop first last_line i line start bs =
    (if line < first \<and> first - line \<le> feeds bs then Some (i + line_offset bs (first - line)) else start,
     i + line_offset bs (Suc (last_line - line)))"
  using assms
proof (induction first last_line i line start bs rule: span_loop.induct)
  case (2 first last_line i line start b bs)
  consider "b \<noteq> LF" | "b = LF" "line = last_line" | "b = LF" "line < last_line" using 2(3) by linarith
  then show ?case
  proof cases
    case 1
    have "Suc (first - Suc line) = first - line" if "line < first" using that by simp
    with 1 2 show ?thesis by (cases "first - line") (auto simp: feeds_def)
  next
    case 2
    with \<open>first \<le> last_line\<close> show ?thesis by simp
  next
    case 3
    obtain k where k: "last_line = Suc (line + k)" using 3(2) less_iff_Suc_add by auto
    note IH = "2.IH"(1) [OF 3(1)] 
    consider "first \<le> line" | "first = Suc line" | d where "first = Suc (Suc (line + d))"
      using less_imp_Suc_add [of "Suc line" first] by (fastforce simp: not_le)
    then show ?thesis
      using IH 3 2(4) by cases (auto simp: k feeds_def)
  qed
qed (auto simp: feeds_def)

text \<open>A range of lines is exactly the bytes of those lines, and fails only when it is malformed or starts past the end.\<close>

lemma current_span_exact:
  "current_span bytes first last_line =
     (if first = 0 \<or> last_line < first then Inl ''invalid_range: lines must be one-based and inclusive''
      else if feeds bytes < first - 1 then Inl ''invalid_range: first line is beyond end of file''
      else Inr (line_offset bytes (first - 1), line_offset bytes last_line))"
  by (cases first) (auto simp: current_span_def span_loop_result)

lemma line_offset_mono: "j \<le> k \<Longrightarrow> line_offset bs j \<le> line_offset bs k"
proof -
  assume "j \<le> k"
  then have "take k ls = take j ls @ take (k - j) (drop j ls)" for ls :: "bytes list" by (metis le_add_diff_inverse take_add)
  then show ?thesis by (simp add: line_offset_def)
qed

lemma line_offset_le: "line_offset bs k \<le> length bs"
proof -
  have "length (concat (take k ls)) \<le> length (concat ls)" for ls :: "bytes list"
    using append_take_drop_id [of k ls] by (metis concat_append le_add1 length_append)
  from this [of "split_feeds bs"] show ?thesis by (simp add: line_offset_def)
qed

lemma slice_lines:
  assumes "j \<le> k"
  shows "slice (line_offset bs j) (line_offset bs k) bs = concat (take (k - j) (drop j (split_feeds bs)))"
proof -
  let ?ls = "split_feeds bs"
  have whole: "bs = concat (take j ?ls) @ concat (take (k - j) (drop j ?ls)) @ concat (drop (k - j) (drop j ?ls))"
    by (metis append_take_drop_id concat_append concat_split_feeds)
  have "take k ?ls = take j ?ls @ take (k - j) (drop j ?ls)" using assms by (metis le_add_diff_inverse take_add)
  then have "line_offset bs k = line_offset bs j + length (concat (take (k - j) (drop j ?ls)))" by (simp add: line_offset_def)
  then show ?thesis by (subst (3) whole) (simp add: slice_def line_offset_def)
qed

theorem current_span_lines:
  assumes "1 \<le> first" "first \<le> last_line" "first \<le> feeds bytes + 1"
  shows "\<exists>start stop. current_span bytes first last_line = Inr (start, stop) \<and> start \<le> stop \<and> stop \<le> length bytes
    \<and> slice start stop bytes = concat (take (last_line - (first - 1)) (drop (first - 1) (split_feeds bytes)))"
  using assms line_offset_mono [of "first - 1" last_line bytes] line_offset_le [of bytes last_line]
    slice_lines [of "first - 1" last_line bytes]
  by (auto simp: current_span_exact)

section \<open>Rows\<close>

lemma json_get_obj: "json_get key (JObj kvs) = (case map_of kvs key of Some w \<Rightarrow> w | None \<Rightarrow> JNull)"
  by (simp add: json_get_def)

lemma row_value_end: "as_u64 (json_get ''end'' (row_value line start bs)) = Some (start + length bs)"
  by (simp add: row_value_def json_get_obj as_u64_def JNat_def split: prod.splits)

lemma length_number_rows [simp]: "length (number_rows line offset ls) = length ls"
  by (induction line offset ls rule: number_rows.induct) auto

lemma take_number_rows: "take n (number_rows line offset ls) = number_rows line offset (take n ls)"
  by (induction line offset ls arbitrary: n rule: number_rows.induct) (auto simp: take_Cons split: nat.splits)

lemma shown_end_rows: "shown_end start (number_rows line start ls) = start + length (concat ls)"
proof -
  have "shown_end any (number_rows line offset (l # ls)) = offset + length (concat (l # ls))" for any offset l ls
  proof (induction ls arbitrary: line offset l)
    case (Cons l' ls)
    from Cons [of "line + 1" "offset + length l" l'] show ?case by (simp add: shown_end_def)
  qed (simp add: shown_end_def row_value_end)
  then show ?thesis by (cases ls) (simp_all add: shown_end_def)
qed

text \<open>The lines of the acquired span that may be shown, and the offset after the first \<open>n\<close> of them.\<close>

definition span_lines :: "acquired_source \<Rightarrow> bytes list" where
  "span_lines src = split_feeds (slice (span_start (as_span src)) (span_end (as_span src)) (as_bytes src))"

definition offset_after :: "acquired_source \<Rightarrow> nat \<Rightarrow> nat" where
  "offset_after src n = span_start (as_span src) + length (concat (take n (span_lines src)))"

lemma source_rows_take:
  "n \<le> MAX_ROWS \<Longrightarrow>
   take n (source_rows src) =
     number_rows (fst (line_span (as_bytes src) (span_start (as_span src)) (span_end (as_span src)))) (span_start (as_span src))
       (take n (span_lines src))"
  by (simp add: source_rows_def span_lines_def take_number_rows Let_def min_def)

lemma source_rows_length: "length (source_rows src) = min MAX_ROWS (length (span_lines src))"
  by (simp add: source_rows_def span_lines_def Let_def min_def)

lemma shown_end_source: "n \<le> length (source_rows src) \<Longrightarrow> shown_end (span_start (as_span src)) (take n (source_rows src)) = offset_after src n"
  by (simp add: source_rows_take source_rows_length shown_end_rows offset_after_def)

section \<open>The response and its cursor\<close>

definition is_obj :: "json \<Rightarrow> bool" where
  "is_obj v = (case v of JObj _ \<Rightarrow> True | _ \<Rightarrow> False)"

lemma is_obj_simps [simp]: "is_obj (JObj kvs)"
  by (simp add: is_obj_def)

lemma is_obj_set [simp]: "is_obj v \<Longrightarrow> is_obj (json_set k w v)"
  by (auto simp: is_obj_def json_set_def split: json.splits)

lemma json_get_set_obj [simp]: "is_obj v \<Longrightarrow> json_get k (json_set k' w v) = (if k = k' then w else json_get k v)"
  by (cases v) (simp_all add: is_obj_def)

lemma selection_value_fields:
  assumes "is_obj v"
  shows "is_obj (selection_value s v)"
    "k \<notin> {''definitions'', ''imports'', ''also'', ''import''} \<Longrightarrow> json_get k (selection_value s v) = json_get k v"
  using assms by (simp_all add: selection_value_def Let_def split: option.splits)

lemma source_value_fields:
  "is_obj (source_value src metadata rows)"
  "k \<notin> {''definitions'', ''imports'', ''also'', ''import'', ''freshness'', ''source'', ''historical''} \<Longrightarrow>
   json_get k (source_value src metadata rows) =
     json_get k (JObj [(''path'', JStr (as_path src)), (''revision'', JStr (as_revision src)), (''verified'', JBool (as_verified src)),
       (''start'', JNat (span_start (as_span src))), (''end'', JNat (span_end (as_span src))), (''lines'', JArr rows),
       (''truncated'', JBool (shown_end (span_start (as_span src)) rows < span_end (as_span src))),
       (''next'', if shown_end (span_start (as_span src)) rows < span_end (as_span src)
          then JStr (read_cursor (as_handle src) (as_side src) (shown_end (span_start (as_span src)) rows)) else JNull),
       (''tokenizer'', JStr ''o200k_base'')])"
  by (simp_all add: source_value_def Let_def selection_value_fields split: option.splits)

text \<open>What a response shows: the first \<open>n\<close> lines of the span, and a cursor at the first byte after them if any is left.\<close>

definition shows_lines :: "acquired_source \<Rightarrow> nat \<Rightarrow> json \<Rightarrow> bool" where
  "shows_lines src n v \<longleftrightarrow>
     json_get ''lines'' v = JArr (number_rows (fst (line_span (as_bytes src) (span_start (as_span src)) (span_end (as_span src))))
       (span_start (as_span src)) (take n (span_lines src)))
     \<and> json_get ''next'' v =
         (if offset_after src n < span_end (as_span src)
          then JStr (read_cursor (as_handle src) (as_side src) (offset_after src n)) else JNull)
     \<and> json_get ''truncated'' v = JBool (offset_after src n < span_end (as_span src))"

lemma extend_object_get: "extend_object metadata v = Inr w \<Longrightarrow> json_has k v \<Longrightarrow> json_get k w = json_get k v"
  by (cases v) (auto simp: extend_object_def json_get_obj json_has_def split: if_splits option.splits)

lemma json_has_set: "json_has k v \<Longrightarrow> json_has k (json_set k' w v)"
proof -
  have "(\<exists>y. map_of (map (\<lambda>(k, x). if k = k' then (k, w) else (k, x)) l) k = Some y) \<longleftrightarrow> (\<exists>y. map_of l k = Some y)"
    for l :: "(string \<times> json) list"
    by (induction l) (auto split: if_splits)
  then show "json_has k v \<Longrightarrow> json_has k (json_set k' w v)"
    by (cases v) (auto simp: json_has_def json_set_def map_add_def split: option.splits)
qed

lemma json_has_selection: "json_has k v \<Longrightarrow> json_has k (selection_value s v)"
  by (simp add: selection_value_def Let_def json_has_set split: option.splits)

lemma json_has_source:
  assumes "k \<in> {''lines'', ''next'', ''truncated''}"
  shows "json_has k (source_value src metadata rows)"
proof -
  have "json_has k (JObj [(''path'', a1), (''revision'', a2), (''verified'', a3), (''start'', a4), (''end'', a5), (''lines'', a6),
      (''truncated'', a7), (''next'', a8), (''tokenizer'', a9)])" for a1 a2 a3 a4 a5 a6 a7 a8 a9
    using assms by (auto simp: json_has_def)
  then show ?thesis by (simp add: source_value_def Let_def json_has_set json_has_selection split: option.splits)
qed

lemma response_shows:
  assumes "extend_object metadata (source_value src metadata (take n (source_rows src))) = Inr v" "n \<le> length (source_rows src)"
  shows "shows_lines src n v"
proof -
  have rows: "n \<le> MAX_ROWS" using assms(2) by (simp add: source_rows_length)
  have "json_get k v = json_get k (source_value src metadata (take n (source_rows src)))"
    if "k \<in> {''lines'', ''next'', ''truncated''}" for k
    using extend_object_get [OF assms(1) json_has_source [OF that]] .
  then show ?thesis
    using shown_end_source [OF assms(2)]
    by (simp add: shows_lines_def source_value_fields source_rows_take [OF rows] json_get_obj)
qed

text \<open>The number of rows the loop settles on: the largest whose text fits, unless an earlier text could not be produced.\<close>

lemma render_loop_result:
  "render_loop libs b src metadata rows n = Inr txt \<Longrightarrow>
   \<exists>m \<le> n. render_text libs b src metadata (take m rows) = Inr txt \<and> budget_fits libs b txt
     \<and> (m > 0 \<or> span_start (as_span src) = span_end (as_span src))
     \<and> (\<forall>k. m < k \<longrightarrow> k \<le> n \<longrightarrow> (\<exists>t. render_text libs b src metadata (take k rows) = Inr t \<and> \<not> budget_fits libs b t))"
proof (induction n)
  case 0
  then show ?case by (subst (asm) render_loop.simps) (auto split: sum.splits if_splits)
next
  case (Suc n)
  obtain t where t: "render_text libs b src metadata (take (Suc n) rows) = Inr t"
    using Suc(2) by (subst (asm) render_loop.simps) (auto split: sum.splits)
  show ?case
  proof (cases "budget_fits libs b t")
    case True
    with Suc(2) t have "t = txt" by (subst (asm) render_loop.simps) simp
    with True t show ?thesis by (intro exI [of _ "Suc n"]) simp
  next
    case False
    with Suc(2) t have "render_loop libs b src metadata rows n = Inr txt" by (subst (asm) render_loop.simps) simp
    from Suc(1) [OF this] False t show ?thesis by (fastforce simp: le_Suc_eq)
  qed
qed

definition encode_response :: "page_libs \<Rightarrow> output_budget \<Rightarrow> json \<Rightarrow> string result" where
  "encode_response libs b v = (case budget_format b of Json \<Rightarrow> budget_encode libs v | Lines \<Rightarrow> Inr (show_text v))"

lemma render_text_value:
  assumes "render_text libs b src metadata rows = Inr txt"
  shows "\<exists>v. extend_object metadata (source_value src metadata rows) = Inr v \<and> encode_response libs b v = Inr txt"
  using assms by (auto simp: render_text_def encode_response_def split: sum.splits)

text \<open>
  C25.  A rendered \<open>show\<close> response fits the budget and is the encoding of a value that lists the first lines of the
  acquired span, at most 200 of them and at least one unless the span is empty, with a cursor at the first byte that is
  not shown exactly when one is left.  The listing is the longest that these limits allow: every longer one of at most
  200 lines would have exceeded the budget.
\<close>

theorem show_window:
  assumes "render_owned libs src b (JObj metadata) = Inr txt"
  shows "\<exists>n v. n \<le> min MAX_ROWS (length (span_lines src)) \<and> shows_lines src n v \<and> encode_response libs b v = Inr txt
    \<and> budget_fits libs b txt \<and> (n > 0 \<or> span_start (as_span src) = span_end (as_span src))
    \<and> (\<forall>k. n < k \<and> k \<le> min MAX_ROWS (length (span_lines src)) \<longrightarrow>
         (\<exists>t. render_text libs b src metadata (take k (source_rows src)) = Inr t \<and> \<not> budget_fits libs b t))"
proof -
  let ?rows = "source_rows src"
  obtain n where n: "n \<le> length ?rows" "render_text libs b src metadata (take n ?rows) = Inr txt" "budget_fits libs b txt"
    "n > 0 \<or> span_start (as_span src) = span_end (as_span src)"
    "\<forall>k. n < k \<longrightarrow> k \<le> length ?rows \<longrightarrow> (\<exists>t. render_text libs b src metadata (take k ?rows) = Inr t \<and> \<not> budget_fits libs b t)"
    using render_loop_result [of libs b src metadata ?rows "length ?rows" "txt"] assms by (auto simp: render_owned_def)
  obtain v where v: "extend_object metadata (source_value src metadata (take n ?rows)) = Inr v" "encode_response libs b v = Inr txt"
    using render_text_value [OF n(2)] by blast
  from response_shows [OF v(1) n(1)] v(2) n show ?thesis
    by (intro exI [of _ n] exI [of _ v]) (simp add: source_rows_length)
qed

definition sample_source :: acquired_source where
  "sample_source =
     \<lparr>as_bytes = ''ab'' @ [LF] @ ''cd'' @ [LF, CHR 0xFF], as_path = ''a'', as_revision = ''r'', as_span = \<lparr>span_start = 3, span_end = 7\<rparr>,
      as_verified = True, as_handle = ''u:1'', as_side = None, as_historical = None, as_definitions = None,
      as_freshness = None\<rparr>"

lemma sample_show:
  "render_owned sample_libs sample_source \<lparr>budget_limit = 1, budget_format = Lines\<rparr> (JObj []) =
   Inr (''a lines 2-3'' @ [LF] @ ''2'' @ [TAB] @ ''cd'' @ [LF] @ ''3'' @ [TAB, CHR 0x5C] @ ''xff'' @ [LF]
        @ ''verified: true'' @ [LF] @ ''encoding: byte-escaped'' @ [LF])"
  by code_simp

text \<open>A second line too long for a budget of 80, with one token a byte.\<close>

definition long_source :: acquired_source where
  "long_source = sample_source\<lparr>as_bytes := ''ab'' @ [LF] @ ''cd'' @ [LF] @ replicate 60 (CHR ''e''),
     as_span := \<lparr>span_start = 3, span_end = 66\<rparr>\<rparr>"

definition long_text :: string where
  "long_text = ''a lines 2-2'' @ [LF] @ ''2'' @ [TAB] @ ''cd'' @ [LF] @ ''next: show read:u:1@6'' @ [LF]
     @ ''truncated: true'' @ [LF] @ ''verified: true'' @ [LF]"

theorem show_window_witness:
  "render_owned (sample_libs\<lparr>tokens := length\<rparr>) long_source \<lparr>budget_limit = 80, budget_format = Lines\<rparr> (JObj []) = Inr long_text
   \<and> length (span_lines long_source) = 2
   \<and> (\<exists>n v. 0 < n \<and> n \<le> 2 \<and> shows_lines long_source n v
        \<and> encode_response (sample_libs\<lparr>tokens := length\<rparr>) \<lparr>budget_limit = 80, budget_format = Lines\<rparr> v = Inr long_text)"
proof -
  have run: "render_owned (sample_libs\<lparr>tokens := length\<rparr>) long_source \<lparr>budget_limit = 80, budget_format = Lines\<rparr> (JObj [])
      = Inr long_text" by code_simp
  have two: "length (span_lines long_source) = 2" by code_simp
  obtain n v where "n \<le> min MAX_ROWS (length (span_lines long_source))" "shows_lines long_source n v"
    "encode_response (sample_libs\<lparr>tokens := length\<rparr>) \<lparr>budget_limit = 80, budget_format = Lines\<rparr> v = Inr long_text"
    "n > 0 \<or> span_start (as_span long_source) = span_end (as_span long_source)"
    using show_window [OF run] by blast
  with run two show ?thesis by (intro conjI exI [of _ n] exI [of _ v]) (auto simp: long_source_def)
qed

section \<open>Readable bytes\<close>

lemma escape_byte_cases:
  "escape_byte b = [b] \<and> b \<noteq> CHR 0x5C \<or> escape_byte b = CHR 0x5C # CHR ''x'' # hex_lower b"
  by (simp add: escape_byte_def)

lemma hex_lower_inject:
  assumes "hex_lower a = hex_lower b"
  shows "a = b"
proof -
  have "hex_digit_lower (byte a div 16) = hex_digit_lower (byte b div 16)"
    "hex_digit_lower (byte a mod 16) = hex_digit_lower (byte b mod 16)"
    using assms by (simp_all add: hex_lower_def)
  then have "byte a div 16 = byte b div 16" "byte a mod 16 = byte b mod 16"
    using hex_value_digit_lower byte_div_mod_16 by (metis option.inject)+
  then have "byte a = byte b" by (metis div_mult_mod_eq)
  then show ?thesis by (simp add: byte_inject)
qed

lemma escaped_inject: "concat (map escape_byte xs) = concat (map escape_byte ys) \<Longrightarrow> xs = ys"
proof (induction xs arbitrary: ys)
  case Nil
  then show ?case by (cases ys) (auto simp: escape_byte_def split: if_splits)
next
  case (Cons x xs)
  then obtain y ys' where ys: "ys = y # ys'" by (cases ys) (auto simp: escape_byte_def split: if_splits)
  have "hex_lower x \<noteq> []" "length (hex_lower x) = length (hex_lower y)" by (simp_all add: hex_lower_def)
  then have "x = y \<and> concat (map escape_byte xs) = concat (map escape_byte ys')"
    using Cons(2) escape_byte_cases [of x] escape_byte_cases [of y] hex_lower_inject [of x y] by (auto simp: ys)
  with Cons(1) ys show ?case by simp
qed

text \<open>
  The text and encoding shown for a line determine its bytes: valid UTF-8 is shown as it is, and the escapes of
  other bytes are never ambiguous.
\<close>

theorem display_bytes_injective: "inj display_bytes"
  by (rule injI) (auto simp: display_bytes_def split: if_splits dest: escaped_inject)

end
