(* ===== verification/TP_Import_Trail.thy ===== *)
theory TP_Import_Trail
  imports TP_Declarations TP_Source
begin

text \<open>
  \<open>src/search/import_trail.rs\<close>: from the row of an import to the declaration it names, through at most \<open>IMPORT_HOPS\<close>
  re-exports.  \<open>visited\<close> is the list of the rows passed through, which the code keeps as a hash set of path and offset.
\<close>

section \<open>One import\<close>

definition IMPORT_HOPS :: nat where "IMPORT_HOPS = 4"

record import_trail =
  it_hops :: "import_hop list"
  it_declaration :: "hit option"
  it_ties :: "hit list"

definition is_reexport :: "unicode \<Rightarrow> bytes \<Rightarrow> bool" where
  "is_reexport u before_bytes =
     (let before = from_utf8_lossy before_bytes
      in case rfind_sub ''use '' before of
           None \<Rightarrow> False
         | Some keyword \<Rightarrow>
             let statement = (case rposition_of (\<lambda>c. c \<in> {CHR '';'', CHR ''}'', CHR ''{'', LF}) (take keyword before) of
                   None \<Rightarrow> 0 | Some boundary \<Rightarrow> boundary + 1)
             in prefix ''pub'' (trim_start u (slice statement keyword before)))"

text \<open>\<open>FROM definitions d JOIN files f\<close>: the inline modules that enclose the import, outermost first.\<close>

definition enclosing_modules :: "index_db \<Rightarrow> hit \<Rightarrow> string list" where
  "enclosing_modules db import =
     map de_name (sort_by (by_key (\<lambda>d. (de_start d, de_id d)))
       (filter (\<lambda>d. (case file_of db (de_file d) of None \<Rightarrow> False
            | Some f \<Rightarrow> fe_path f = hit_path import \<and> \<not> (de_start d = 0 \<and> de_name d = fe_path f))
          \<and> de_kind d = ''module'' \<and> de_start d \<le> hit_start import \<and> hit_end import \<le> de_end d)
         (db_definitions db)))"

text \<open>A reversed range would panic in the slice expression.\<close>

definition read_hop :: "unicode \<Rightarrow> index_db \<Rightarrow> hit \<Rightarrow> (import_hop \<times> qualified_name) option result" where
  "read_hop u db import =
     (case hit_revision import of
        None \<Rightarrow> Inr None
      | Some revision \<Rightarrow>
          (case map_of (db_contents db) revision of
             None \<Rightarrow> Inr None
           | Some bytes \<Rightarrow>
               if \<not> hit_end import \<le> length bytes then Inr None
               else if hit_end import < hit_start import then Inl ''panic: slice index starts after its end''
               else
                 (case import_spelling u (from_utf8_lossy (slice (hit_start import) (hit_end import) bytes)) of
                    None \<Rightarrow> Inr None
                  | Some (path, _) \<Rightarrow>
                      let module = module_segments (hit_path import) @ enclosing_modules db import;
                          original = parse_in u path module (crate_root_segments (hit_path import))
                      in Inr (Some (\<lparr>hop_site = hit_path import @ '':'' @ show_nat (hit_start_line import), hop_path = path,
                                     hop_reexport = is_reexport u (take (hit_start import) bytes)\<rparr>, original)))))"

section \<open>The trail\<close>

definition row_identity :: "hit \<Rightarrow> string \<times> nat" where
  "row_identity h = (hit_path h, hit_start h)"

definition all_files :: bound_path_filter where
  "all_files = \<lparr>bound_include = [], bound_exclude = []\<rparr>"

definition named_hits :: "unicode \<Rightarrow> index_db \<Rightarrow> string \<Rightarrow> string \<Rightarrow> qualified_name \<Rightarrow> hit list" where
  "named_hits u db language origin original =
     rank_declarations origin (lh_hits (qualified_hits u db original all_files language []))"

definition is_import :: "hit \<Rightarrow> bool" where
  "is_import h \<longleftrightarrow> hit_kind h = ''import''"

definition unresolved_trail :: "import_hop list \<Rightarrow> import_trail option" where
  "unresolved_trail hops = (if hops \<noteq> [] then Some \<lparr>it_hops = hops, it_declaration = None, it_ties = []\<rparr> else None)"

text \<open>The number counts the hops that are left.\<close>

fun trace_loop :: "unicode \<Rightarrow> index_db \<Rightarrow> string \<Rightarrow> string \<Rightarrow> nat \<Rightarrow> import_hop list \<Rightarrow> (string \<times> nat) list \<Rightarrow> hit \<Rightarrow>
    import_trail option result" where
  "trace_loop u db language origin 0 hops visited current = Inr (unresolved_trail hops)"
| "trace_loop u db language origin (Suc n) hops visited current =
     (if row_identity current \<in> set visited then Inr (unresolved_trail hops)
      else
        (case read_hop u db current of
           Inl e \<Rightarrow> Inl e
         | Inr None \<Rightarrow> Inr (unresolved_trail hops)
         | Inr (Some (hop, original)) \<Rightarrow>
             let hops' = hops @ [hop];
                 visited' = row_identity current # visited;
                 hits = named_hits u db language origin original
             in (case position_of (\<lambda>h. \<not> is_import h) hits of
                   Some best \<Rightarrow>
                     let declared = hits ! best;
                         rest = take best hits @ drop (best + 1) hits;
                         ties = filter (\<lambda>h. \<not> is_import h \<and> rank_key origin h = rank_key origin declared) rest
                     in Inr (Some \<lparr>it_hops = hops', it_declaration = Some declared, it_ties = ties\<rparr>)
                 | None \<Rightarrow>
                     (case find (\<lambda>h. row_identity h \<notin> set visited') hits of
                        Some next_row \<Rightarrow> trace_loop u db language origin n hops' visited' next_row
                      | None \<Rightarrow> Inr (unresolved_trail hops')))))"

definition trace_import :: "unicode \<Rightarrow> index_db \<Rightarrow> hit \<Rightarrow> query \<Rightarrow> string \<Rightarrow> import_trail option result" where
  "trace_import u db import q origin = trace_loop u db (q_language q) origin IMPORT_HOPS [] [] import"

section \<open>Specification\<close>

text \<open>The rows of a trail: each spells the hop recorded for it, and names the next one, with no declaration to stop at.\<close>

fun trail_rows :: "unicode \<Rightarrow> index_db \<Rightarrow> string \<Rightarrow> string \<Rightarrow> hit list \<Rightarrow> import_hop list \<Rightarrow> qualified_name \<Rightarrow> bool" where
  "trail_rows u db language origin [row] [hop] name \<longleftrightarrow> read_hop u db row = Inr (Some (hop, name))"
| "trail_rows u db language origin (row # next_row # rows) (hop # hops) name \<longleftrightarrow>
     (\<exists>original. read_hop u db row = Inr (Some (hop, original))
        \<and> list_all is_import (named_hits u db language origin original)
        \<and> next_row \<in> set (named_hits u db language origin original))
     \<and> trail_rows u db language origin (next_row # rows) hops name"
| "trail_rows u db language origin _ _ name \<longleftrightarrow> False"

definition resolves_to :: "unicode \<Rightarrow> index_db \<Rightarrow> string \<Rightarrow> string \<Rightarrow> qualified_name \<Rightarrow> hit option \<Rightarrow> hit list \<Rightarrow> bool" where
  "resolves_to u db language origin name declared ties \<longleftrightarrow>
     (let found = filter (\<lambda>h. \<not> is_import h) (named_hits u db language origin name)
      in case declared of
           None \<Rightarrow> found = [] \<and> ties = []
         | Some d \<Rightarrow> d # ties = takeWhile (\<lambda>h. rank_key origin h = rank_key origin d) found)"

section \<open>Properties\<close>

lemma trail_rows_snoc:
  assumes "trail_rows u db language origin rows hops name" "list_all is_import (named_hits u db language origin name)"
    and "next_row \<in> set (named_hits u db language origin name)" "read_hop u db next_row = Inr (Some (hop, name'))"
  shows "trail_rows u db language origin (rows @ [next_row]) (hops @ [hop]) name'"
  using assms
proof (induction u db language origin rows hops name rule: trail_rows.induct)
  case (1 u db language origin row hp name)
  then show ?case by auto
next
  case (2 u db language origin row nrow rows hp hops name)
  then show ?case by auto
qed auto

lemma filter_takeWhile_sorted:
  assumes "sorted_wrt (by_key k) (d # ys)"
  shows "filter (\<lambda>h. k h = k d) (ys :: 'a list) = takeWhile (\<lambda>h. k h = (k d :: 'k::linorder)) ys"
  using assms
proof (induction ys)
  case (Cons y ys)
  show ?case
  proof (cases "k y = k d")
    case True
    with Cons show ?thesis by simp
  next
    case False
    with Cons.prems have "k h \<noteq> k d" if "h \<in> set (y # ys)" for h
      using that by (fastforce simp: by_key_def)
    then have "filter (\<lambda>h. k h = k d) (y # ys) = []" by (simp add: filter_empty_conv)
    with False show ?thesis by simp
  qed
qed simp

lemma distinct_map_rev: "distinct (map f (rev xs)) \<longleftrightarrow> distinct (map f xs)"
  by (simp add: distinct_map)

lemma position_of_split:
  "position_of P xs = Some i \<Longrightarrow> i < length xs \<and> P (xs ! i) \<and> (\<forall>x \<in> set (take i xs). \<not> P x)"
  by (induction xs arbitrary: i) (auto split: if_splits)

lemma position_of_NoneD: "position_of P xs = None \<Longrightarrow> list_all (\<lambda>x. \<not> P x) xs"
  by (induction xs) (auto split: if_splits)

lemma sorted_named_hits: "sorted_wrt (by_key (rank_key origin)) (named_hits u db language origin name)"
  by (simp add: named_hits_def rank_declarations_def by_key.sorted_sort_by)

text \<open>Taking the best declaration out and filtering the rest leaves the run of declarations that tie with it.\<close>

lemma best_and_ties:
  fixes hits :: "hit list"
  assumes best: "position_of (\<lambda>h. \<not> is_import h) hits = Some best"
    and sorted: "sorted_wrt (by_key (rank_key origin)) hits"
  defines "d \<equiv> hits ! best"
  shows "d # filter (\<lambda>h. \<not> is_import h \<and> rank_key origin h = rank_key origin d) (take best hits @ drop (best + 1) hits)
     = takeWhile (\<lambda>h. rank_key origin h = rank_key origin d) (filter (\<lambda>h. \<not> is_import h) hits)"
proof -
  note b = position_of_split [OF best]
  then have split: "hits = take best hits @ d # drop (best + 1) hits" by (simp add: d_def id_take_nth_drop)
  have none: "filter (\<lambda>h. \<not> is_import h) (take best hits) = []" using b by (auto simp: filter_empty_conv)
  then have none': "filter (\<lambda>h. \<not> is_import h \<and> Q h) (take best hits) = []" for Q
    by (auto simp: filter_empty_conv)
  let ?rest = "filter (\<lambda>h. \<not> is_import h) (drop (best + 1) hits)"
  have found: "filter (\<lambda>h. \<not> is_import h) hits = d # ?rest"
    using b none by (subst split) (simp add: d_def)
  have "sorted_wrt (by_key (rank_key origin)) (d # ?rest)"
    using sorted_wrt_filter [OF sorted, of "\<lambda>h. \<not> is_import h"] by (simp only: found)
  from filter_takeWhile_sorted [OF this] show ?thesis
    by (simp add: found none' filter_filter conj_commute)
qed

definition trail_ok :: "unicode \<Rightarrow> index_db \<Rightarrow> string \<Rightarrow> string \<Rightarrow> hit \<Rightarrow> import_trail \<Rightarrow> bool" where
  "trail_ok u db language origin import t \<longleftrightarrow>
     (\<exists>rows name. hd rows = import \<and> distinct (map row_identity rows) \<and> length rows \<le> IMPORT_HOPS
        \<and> trail_rows u db language origin rows (it_hops t) name
        \<and> resolves_to u db language origin name (it_declaration t) (it_ties t))"

lemma trail_rows_nonempty: "trail_rows u db language origin rows hops name \<Longrightarrow> rows \<noteq> [] \<and> hops \<noteq> []"
  by (induction u db language origin rows hops name rule: trail_rows.induct) auto

lemma trail_rows_length: "trail_rows u db language origin rows hops name \<Longrightarrow> length hops = length rows"
  by (induction u db language origin rows hops name rule: trail_rows.induct) auto

lemma resolves_to_nothing:
  "list_all is_import (named_hits u db language origin name) \<Longrightarrow> resolves_to u db language origin name None []"
  by (auto simp: resolves_to_def Let_def filter_empty_conv list_all_iff)

lemma trace_loop_sound:
  assumes run: "trace_loop u db language origin n hops visited current = Inr (Some t)"
    and rows: "map row_identity (rev rows) = visited" "distinct visited" "length rows + n = IMPORT_HOPS"
    and start: "rows = [] \<longrightarrow> hops = [] \<and> current = import" "rows \<noteq> [] \<longrightarrow> hd rows = import"
    and past: "rows \<noteq> [] \<longrightarrow> (\<exists>name. trail_rows u db language origin rows hops name
      \<and> list_all is_import (named_hits u db language origin name) \<and> current \<in> set (named_hits u db language origin name))"
  shows "trail_ok u db language origin import t"
  using assms
proof (induction n arbitrary: hops visited current rows)
  case 0
  then have "rows \<noteq> []" "t = \<lparr>it_hops = hops, it_declaration = None, it_ties = []\<rparr>"
    by (auto simp: IMPORT_HOPS_def unresolved_trail_def split: if_splits)
  moreover from 0 this obtain name where "trail_rows u db language origin rows hops name"
    "list_all is_import (named_hits u db language origin name)" by blast
  ultimately show ?case using 0 resolves_to_nothing
    unfolding trail_ok_def by (intro exI [of _ rows] exI [of _ name]) (auto simp: distinct_map_rev)
next
  case (Suc n)
  have stop: "trail_ok u db language origin import t" if "Inr (unresolved_trail hops) = (Inr (Some t) :: import_trail option result)"
  proof -
    from that have t: "hops \<noteq> []" "t = \<lparr>it_hops = hops, it_declaration = None, it_ties = []\<rparr>"
      by (auto simp: unresolved_trail_def split: if_splits)
    with Suc.prems have "rows \<noteq> []" by blast
    with Suc.prems(7) obtain name where "trail_rows u db language origin rows hops name"
      "list_all is_import (named_hits u db language origin name)" by blast
    with t Suc.prems \<open>rows \<noteq> []\<close> resolves_to_nothing show ?thesis
      unfolding trail_ok_def by (intro exI [of _ rows] exI [of _ name]) (auto simp: distinct_map_rev)
  qed
  show ?case
  proof (cases "row_identity current \<in> set visited \<or> read_hop u db current = Inr None \<or> (\<exists>e. read_hop u db current = Inl e)")
    case True
    then show ?thesis using Suc.prems(1) stop by (cases "row_identity current \<in> set visited") auto
  next
    case False
    then obtain hop original where hop: "read_hop u db current = Inr (Some (hop, original))"
      by (cases "read_hop u db current") auto
    let ?rows = "rows @ [current]" and ?hits = "named_hits u db language origin original"
    have trail: "trail_rows u db language origin ?rows (hops @ [hop]) original"
      using Suc.prems(5,7) hop trail_rows_snoc by (cases "rows = []") auto
    have fresh: "map row_identity (rev ?rows) = row_identity current # visited" "distinct (row_identity current # visited)"
      and len: "length ?rows + n = IMPORT_HOPS" and hd: "hd ?rows = import"
      using False Suc.prems by (auto simp: hd_append)
    have dist: "distinct (map row_identity ?rows)" using fresh by (metis distinct_map_rev)
    have found: "trail_ok u db language origin import t"
      if "t = \<lparr>it_hops = hops @ [hop], it_declaration = declared, it_ties = ties\<rparr>"
        "resolves_to u db language origin original declared ties" for declared ties
      unfolding trail_ok_def using that trail dist len hd by (intro exI [of _ ?rows] exI [of _ original]) simp
    show ?thesis
    proof (cases "position_of (\<lambda>h. \<not> is_import h) ?hits")
      case (Some best)
      with Suc.prems(1) False hop have t: "t = \<lparr>it_hops = hops @ [hop], it_declaration = Some (?hits ! best),
        it_ties = filter (\<lambda>h. \<not> is_import h \<and> rank_key origin h = rank_key origin (?hits ! best))
          (take best ?hits @ drop (best + 1) ?hits)\<rparr>"
        by (simp add: Let_def)
      from best_and_ties [OF Some sorted_named_hits] show ?thesis
        by (intro found [OF t]) (simp add: resolves_to_def Let_def)
    next
      case None
      from position_of_NoneD [OF None] have only: "list_all is_import ?hits" by simp
      show ?thesis
      proof (cases "find (\<lambda>h. row_identity h \<notin> set (row_identity current # visited)) ?hits")
        case None': None
        with Suc.prems(1) False hop None have "t = \<lparr>it_hops = hops @ [hop], it_declaration = None, it_ties = []\<rparr>"
          by (simp add: Let_def unresolved_trail_def)
        then show ?thesis using found resolves_to_nothing [OF only] by blast
      next
        case (Some next_row)
        have run: "trace_loop u db language origin n (hops @ [hop]) (row_identity current # visited) next_row = Inr (Some t)"
          using Suc.prems(1) False hop None Some by (simp add: Let_def)
        have "next_row \<in> set ?hits" using Some by (auto simp: find_Some_iff)
        then show ?thesis using trail only hd
          by (intro Suc.IH [OF run fresh len]) auto
      qed
    qed
  qed
qed

text \<open>
  C28. Whatever \<open>trace_import\<close> reports is a real trail: one to four import rows of the index, no row twice, the first the
  selected import, each spelling the hop listed for it and naming the next row where no declaration answers to that
  name; the declaration shown is the best-ranked row, imports aside, for the name that the last import spells, and the
  ties are exactly the other declarations of its rank.
\<close>

theorem import_trail_sound:
  assumes "trace_import u db import q origin = Inr (Some t)"
  shows "1 \<le> length (it_hops t) \<and> length (it_hops t) \<le> 4
    \<and> (\<exists>rows name. hd rows = import \<and> distinct (map row_identity rows)
         \<and> trail_rows u db (q_language q) origin rows (it_hops t) name
         \<and> resolves_to u db (q_language q) origin name (it_declaration t) (it_ties t))"
proof -
  from trace_loop_sound [OF assms [unfolded trace_import_def], of "[]" import]
  have "trail_ok u db (q_language q) origin import t" by simp
  then obtain rows name where t: "hd rows = import" "distinct (map row_identity rows)" "length rows \<le> IMPORT_HOPS"
    "trail_rows u db (q_language q) origin rows (it_hops t) name"
    "resolves_to u db (q_language q) origin name (it_declaration t) (it_ties t)"
    by (auto simp: trail_ok_def)
  with t trail_rows_nonempty [OF t(4)] trail_rows_length [OF t(4)] show ?thesis
    by (auto simp: IMPORT_HOPS_def Suc_le_eq)
qed

lemma named_hits_closest:
  assumes "length (db_definitions db) \<le> MAX_HITS"
  shows "named_hits u db language origin name =
    rank_declarations origin (closest u name (named_rows db (qn_name name) all_files language []))"
proof -
  let ?rows = "named_rows db (qn_name name) all_files language []"
  have "length (closest u name ?rows) \<le> length ?rows" by (simp add: closest_def matched_def)
  also have "\<dots> \<le> MAX_HITS" using assms length_named_rows le_trans by blast
  finally have "length (closest u name ?rows) \<le> MAX_HITS" .
  moreover have "length (db_definitions db) \<le> i64_max" "MAX_HITS \<le> usize_max"
    using assms by (auto simp: MAX_HITS_def i64_max_def usize_max_def)
  ultimately show ?thesis
    by (simp add: named_hits_def qualified_hits_def qualified_hits_closest cap_hits_def)
qed

definition trail_index :: index_db where
  "trail_index = \<lparr>db_generation = 1, db_coverage = JNull,
     db_contents = [(''r1'', ''pub use b::f;''), (''r2'', ''fn f() {}'')],
     db_files = [\<lparr>fe_id = 1, fe_path = ''a.rs'', fe_revision = Some ''r1'', fe_language = ''rust''\<rparr>,
                 \<lparr>fe_id = 2, fe_path = ''b.rs'', fe_revision = Some ''r2'', fe_language = ''rust''\<rparr>],
     db_definitions =
       [\<lparr>de_id = 1, de_file = 1, de_name = ''f'', de_kind = ''import'', de_start = 8, de_end = 12, de_container = None\<rparr>,
        \<lparr>de_id = 2, de_file = 2, de_name = ''f'', de_kind = ''function'', de_start = 0, de_end = 9, de_container = None\<rparr>],
     db_occurrences = [], db_regions = []\<rparr>"

definition trail_import :: hit where
  "trail_import = hit_row \<lparr>fe_id = 1, fe_path = ''a.rs'', fe_revision = Some ''r1'', fe_language = ''rust''\<rparr>
     ''pub use b::f;'' 8 12 ''f'' ''import'' None ''syntax''"

definition trail_declaration :: hit where
  "trail_declaration = hd (named_rows trail_index ''f'' (PathFilter_bind (PathFilter_include PathFilter_default ''b.rs'') []) [] [])"

theorem import_trail_sound_witness:
  "\<exists>t. trace_import ascii_unicode trail_index trail_import Query_default [] = Inr (Some t)
     \<and> map hop_path (it_hops t) = [''b::f''] \<and> map hop_reexport (it_hops t) = [True]
     \<and> length (it_hops t) \<le> 4 \<and> map_option hit_path (it_declaration t) = Some ''b.rs'' \<and> it_ties t = []"
proof -
  let ?name = "\<lparr>qualifier = [''b''], qn_name = ''f''\<rparr>"
  have hop: "read_hop ascii_unicode trail_index trail_import =
      Inr (Some (\<lparr>hop_site = ''a.rs:1'', hop_path = ''b::f'', hop_reexport = True\<rparr>, ?name))" by code_simp
  have "length (db_definitions trail_index) \<le> MAX_HITS" by (simp add: trail_index_def MAX_HITS_def)
  note closest = named_hits_closest [OF this, of ascii_unicode "[]" "[]" ?name]
  have hits: "named_hits ascii_unicode trail_index [] [] ?name = [trail_declaration]"
    unfolding closest by code_simp
  have shown: "\<not> is_import trail_declaration" "hit_path trail_declaration = ''b.rs''" by code_simp+
  have run: "trace_import ascii_unicode trail_index trail_import Query_default [] =
      Inr (Some \<lparr>it_hops = [\<lparr>hop_site = ''a.rs:1'', hop_path = ''b::f'', hop_reexport = True\<rparr>],
                 it_declaration = Some trail_declaration, it_ties = []\<rparr>)"
    by (simp add: trace_import_def IMPORT_HOPS_def Query_default_def eval_nat_numeral hop hits shown)
  from import_trail_sound [OF run] run show ?thesis by (simp add: shown)
qed

end
