(* ===== verification/TP_Acquire.thy ===== *)
theory TP_Acquire
  imports TP_Import_Trail TP_Result_Store TP_Search
begin

text \<open>
  \<open>src/source/acquisition.rs\<close> with \<open>acquisition/symbol.rs\<close> and \<open>acquisition/stale_symbol.rs\<close>, and \<open>src/source/reextraction.rs\<close>:
  what \<open>show\<close> reads for a handle, a continuation, a path with lines or a \<open>sym:\<close> name.  A read that saves a result set
  returns the new table beside its result; \<open>None\<close> would be a save that never ends.  A revision is the text of its digest.
  An error is its outermost text.
\<close>

section \<open>What a read depends on\<close>

text \<open>The arguments: uuid and JSON libraries, the digest and its parser, Git, the extractor; the fresh identifier and
  the clock; the files below the root at the first read and after the wait for a republication; the published index
  as each poll of that wait sees it, when a daemon serves this index.\<close>

record 'u acquire_env =
  ae_unicode :: unicode
  ae_parse_uuid :: "string \<Rightarrow> 'u option"
  ae_show_uuid :: "'u \<Rightarrow> string"
  ae_from_str :: "string \<Rightarrow> stored_result_set result"
  ae_to_string :: "stored_result_set \<Rightarrow> string result"
  ae_revision_of :: "bytes \<Rightarrow> string"
  ae_parse_revision :: "string \<Rightarrow> string option"
  ae_common_dir :: "bytes result"
  ae_tree_entry :: "git_oid \<Rightarrow> bytes \<Rightarrow> bytes result"
  ae_blob :: "git_oid \<Rightarrow> bytes option"
  ae_extract :: "string \<Rightarrow> bytes \<Rightarrow> file_extraction"
  ae_new_id :: "result_db \<Rightarrow> string"
  ae_time :: int
  ae_tree :: "inode option"
  ae_later_tree :: "inode option"
  ae_polls :: "index_db list option"

definition acquired :: "bytes \<Rightarrow> string \<Rightarrow> string \<Rightarrow> byte_span \<Rightarrow> bool \<Rightarrow> string \<Rightarrow> acquired_source" where
  "acquired bytes path revision span verified hdl =
     \<lparr>as_bytes = bytes, as_path = path, as_revision = revision, as_span = span, as_verified = verified, as_handle = hdl,
      as_side = None, as_historical = None, as_definitions = None, as_freshness = None\<rparr>"

section \<open>Stored entries\<close>

definition read_live :: "'u acquire_env \<Rightarrow> string \<Rightarrow> hit \<Rightarrow> acquired_source result" where
  "read_live env hdl h =
     (case hit_revision h of
        None \<Rightarrow> Inl ''source_excluded: no indexed source revision''
      | Some text \<Rightarrow>
          (case ae_parse_revision env text of
             None \<Rightarrow> Inl ''invalid_revision: expected BLAKE3 digest''
           | Some expected \<Rightarrow>
               (case decode_path (hit_path h) of
                  Inl e \<Rightarrow> Inl e
                | Inr path \<Rightarrow>
                    (case read_contained (ae_tree env) path MAX_READ_BYTES of
                       Inl e \<Rightarrow> Inl e
                     | Inr bytes \<Rightarrow>
                         let revision = ae_revision_of env bytes
                         in if revision \<noteq> expected
                            then Inl ''stale_source: source revision changed; search again or use explicit current path coordinates''
                            else
                              (case (if hit_kind h = ''file'' then ByteSpan_new 0 (length bytes) else ByteSpan_new (hit_start h) (hit_end h)) of
                                 Inl e \<Rightarrow> Inl e
                               | Inr span \<Rightarrow>
                                   (case ByteSpan_validate span (length bytes) of
                                      Inl e \<Rightarrow> Inl e
                                    | Inr span \<Rightarrow> Inr (acquired bytes (hit_path h) revision span True hdl)))))))"

definition is_file_mode :: "string option \<Rightarrow> bool" where
  "is_file_mode mode \<longleftrightarrow> mode = Some ''100644'' \<or> mode = Some ''100755''"

text \<open>The line of \<open>ls-tree\<close>: mode, type and object, a tab, the path.\<close>

definition tree_header_ok :: "unicode \<Rightarrow> git_oid \<Rightarrow> bytes \<Rightarrow> unit result" where
  "tree_header_ok u blob tree =
     (let header = hd (split_char TAB tree)
      in if \<not> well_formed_utf8 header then Inl ''invalid utf-8 sequence''
         else
           let fields = split_whitespace u header
           in if \<not> is_file_mode (nth_opt fields 0) then Inl ''source_unavailable: historical path missing or not a regular file''
              else if nth_opt fields 1 = Some ''blob'' \<and> nth_opt fields 2 = Some (GitOid_as_str blob) then Inr ()
              else Inl ''source_unavailable: historical path does not identify recorded blob'')"

definition acquire_historical :: "'u acquire_env \<Rightarrow> string \<Rightarrow> source_side \<Rightarrow> historical_source \<Rightarrow> acquired_source result" where
  "acquire_historical env hdl side identity =
     (case ae_common_dir env of
        Inl e \<Rightarrow> Inl e
      | Inr common_dir \<Rightarrow>
          (case decode_path (hs_repository identity) of
             Inl e \<Rightarrow> Inl e
           | Inr repository \<Rightarrow>
               if path_components common_dir \<noteq> path_components repository then Inl ''scope_boundary: historical source belongs to another repository''
               else
                 (case decode_path (hs_path identity) of
                    Inl e \<Rightarrow> Inl e
                  | Inr decoded \<Rightarrow>
                      if decoded = [] \<or> \<not> list_all is_normal (path_components decoded)
                      then Inl ''scope_boundary: historical path is outside configured root''
                      else
                        (case ae_tree_entry env (hs_commit identity) decoded of
                           Inl e \<Rightarrow> Inl e
                         | Inr tree \<Rightarrow>
                             (case tree_header_ok (ae_unicode env) (hs_blob identity) tree of
                                Inl e \<Rightarrow> Inl e
                              | Inr _ \<Rightarrow>
                                  (case ae_blob env (hs_blob identity) of
                                     None \<Rightarrow> Inl ''source_unavailable: historical blob is unavailable''
                                   | Some bytes \<Rightarrow>
                                       let revision = ae_revision_of env bytes
                                       in if revision \<noteq> hs_revision identity
                                          then Inl ''source_unavailable: historical content revision does not match recorded identity''
                                          else
                                            (case ByteSpan_validate (hs_span identity) (length bytes) of
                                               Inl e \<Rightarrow> Inl e
                                             | Inr span \<Rightarrow>
                                                 Inr ((acquired bytes (hs_path identity) revision span True hdl)
                                                        \<lparr>as_side := Some side, as_historical := Some identity\<rparr>))))))))"

fun acquire_entry :: "'u acquire_env \<Rightarrow> string \<Rightarrow> result_entry \<Rightarrow> source_side option \<Rightarrow> acquired_source result" where
  "acquire_entry env hdl (LiveSource h) side =
     (if side \<noteq> None then Inl ''invalid_side: live sources have no historical side'' else read_live env hdl h)"
| "acquire_entry env hdl (Change change) side =
     (case side of
        None \<Rightarrow> Inl ''side_required: show a change with --side before or after''
      | Some s \<Rightarrow>
          (case (case s of Before \<Rightarrow> ch_before change | After \<Rightarrow> ch_after change) of
             None \<Rightarrow> Inl ''source_unavailable: change has no source on the requested side''
           | Some identity \<Rightarrow> acquire_historical env hdl s identity))"
| "acquire_entry env hdl (Commit _) side = Inl ''source_unavailable: commit entries contain metadata; select a change source''"

definition acquire_handle :: "'u acquire_env \<Rightarrow> result_db \<Rightarrow> string \<Rightarrow> source_side option \<Rightarrow> acquired_source result" where
  "acquire_handle env db hdl side =
     (case entry (ae_from_str env) (ae_parse_uuid env) (ae_show_uuid env) (ae_time env) db hdl of
        Inl e \<Rightarrow> Inl e
      | Inr (_, e) \<Rightarrow> acquire_entry env hdl e side)"

section \<open>Continuations\<close>

definition split_side :: "string \<Rightarrow> string \<times> source_side option" where
  "split_side identity =
     (case rsplit_once (CHR '':'') identity of
        Some (hdl, value) \<Rightarrow>
          if value \<in> {''before'', ''after''} then (hdl, Some (if value = ''before'' then Before else After)) else (identity, None)
      | None \<Rightarrow> (identity, None))"

definition acquire_continuation :: "'u acquire_env \<Rightarrow> result_db \<Rightarrow> string \<Rightarrow> source_side option \<Rightarrow> acquired_source result" where
  "acquire_continuation env db cursor side =
     (case rsplit_once (CHR ''@'') cursor of
        None \<Rightarrow> Inl ''invalid_cursor: expected read:HANDLE@BYTE_OFFSET''
      | Some (identity, offset) \<Rightarrow>
          let (hdl, recorded_side) = split_side identity
          in if side \<noteq> None \<and> side \<noteq> recorded_side then Inl ''invalid_side: continuation side cannot change''
             else
               (case acquire_handle env db hdl recorded_side of
                  Inl e \<Rightarrow> Inl e
                | Inr src \<Rightarrow>
                    (case parse_usize offset of
                       None \<Rightarrow> Inl ''invalid_cursor: invalid byte offset''
                     | Some n \<Rightarrow>
                         if span_start (as_span src) \<le> n \<and> n \<le> span_end (as_span src)
                         then Inr (src\<lparr>as_span := (as_span src)\<lparr>span_start := n\<rparr>\<rparr>)
                         else Inl ''invalid_cursor: offset outside original source range'')))"

section \<open>Paths\<close>

text \<open>The texts of \<open>ParseIntError\<close>.\<close>

fun digits_error :: "nat \<Rightarrow> string \<Rightarrow> string" where
  "digits_error acc [] = []"
| "digits_error acc (c # cs) =
     (if \<not> is_ascii_digit c then ''invalid digit found in string''
      else
        let n = acc * 10 + (byte c - byte (CHR ''0''))
        in if n > usize_max then ''number too large to fit in target type'' else digits_error n cs)"

definition parse_usize_or :: "string \<Rightarrow> nat result" where
  "parse_usize_or s =
     (case parse_usize s of
        Some n \<Rightarrow> Inr n
      | None \<Rightarrow>
          Inl (if s = [] then ''cannot parse integer from empty string''
               else if s = ''+'' then ''invalid digit found in string''
               else digits_error 0 (if hd s = CHR ''+'' then tl s else s)))"

definition parse_range :: "string \<Rightarrow> (nat \<times> nat) result" where
  "parse_range span_text =
     (case split_once (CHR ''-'') span_text of
        None \<Rightarrow> Inl ''range separator''
      | Some (first, last_text) \<Rightarrow>
          (case parse_usize_or first of
             Inl e \<Rightarrow> Inl e
           | Inr a \<Rightarrow> (case parse_usize_or last_text of Inl e \<Rightarrow> Inl e | Inr b \<Rightarrow> Inr (a, b))))"

definition path_target :: "string \<Rightarrow> (string \<times> nat \<times> nat) result" where
  "path_target target0 =
     (let target = (case strip_prefix ''path:'' target0 of Some t \<Rightarrow> t | None \<Rightarrow> target0)
      in case rsplit_once (CHR '':'') target of
           Some (path, span_text) \<Rightarrow>
             if CHR ''-'' \<in> set span_text then (case parse_range span_text of Inl e \<Rightarrow> Inl e | Inr r \<Rightarrow> Inr (path, r))
             else Inr (target, 1, usize_max)
         | None \<Rightarrow> Inr (target, 1, usize_max))"

definition read_hit :: "string \<Rightarrow> string \<Rightarrow> nat \<Rightarrow> nat \<Rightarrow> nat \<times> nat \<Rightarrow> string \<Rightarrow> string \<Rightarrow> string option \<Rightarrow> string \<Rightarrow> hit" where
  "read_hit path revision start stop lines name kind container provenance =
     \<lparr>hit_handle = [], hit_path = path, hit_revision = Some revision, hit_start = start, hit_end = stop,
      hit_start_line = fst lines, hit_end_line = snd lines, hit_name = name, hit_kind = kind, hit_container = container,
      hit_provenance = Some provenance, hit_resolution = None, hit_candidates = [], hit_target = None,
      hit_snippet = None, hit_repeats = None\<rparr>"

definition save_hits :: "'u acquire_env \<Rightarrow> int \<Rightarrow> json \<Rightarrow> hit list \<Rightarrow> bool \<Rightarrow> result_db \<Rightarrow> (result_db \<times> string result) option" where
  "save_hits env generation coverage hits truncated db =
     save_entries (ae_to_string env) (ae_new_id env db) (ae_time env) generation coverage (map LiveSource hits) truncated db"

definition acquire_path :: "'u acquire_env \<Rightarrow> index_db \<Rightarrow> string \<Rightarrow> result_db \<Rightarrow> (result_db \<times> acquired_source result) option" where
  "acquire_path env idx target db =
     (case (case path_target target of
              Inl e \<Rightarrow> Inl e
            | Inr (path, first, last_line) \<Rightarrow>
                (case decode_path path of
                   Inl e \<Rightarrow> Inl e
                 | Inr decoded \<Rightarrow>
                     (case read_contained (ae_tree env) decoded MAX_READ_BYTES of
                        Inl e \<Rightarrow> Inl e
                      | Inr bytes \<Rightarrow>
                          (case current_span bytes first last_line of Inl e \<Rightarrow> Inl e | Inr (start, stop) \<Rightarrow> Inr (path, bytes, start, stop))))) of
        Inl e \<Rightarrow> Some (db, Inl e)
      | Inr (path, bytes, start, stop) \<Rightarrow>
          let revision = ae_revision_of env bytes;
              h = read_hit path revision start stop (line_span bytes start stop) path ''source_read'' None ''explicit_path_read''
          in map_option (\<lambda>(db', saved). (db',
               case saved of
                 Inl e \<Rightarrow> Inl e
               | Inr ident \<Rightarrow>
                   map_sum id (\<lambda>span. acquired bytes path revision span False (ident @ '':1'')) (ByteSpan_new start stop)))
               (save_hits env (db_generation idx) (JObj []) [h] False db))"

section \<open>Definitions in current bytes\<close>

definition MAX_SOURCE_BYTES :: nat where "MAX_SOURCE_BYTES = 2 * 1024 * 1024"

record reextracted_definition =
  rd_path :: string
  rd_name :: string
  rd_kind :: string
  rd_container :: "string option"
  rd_span :: byte_span
  rd_start_line :: nat
  rd_end_line :: nat
  rd_revision :: string
  rd_bytes :: bytes

definition ReextractedDefinition_hit :: "reextracted_definition \<Rightarrow> hit" where
  "ReextractedDefinition_hit r =
     read_hit (rd_path r) (rd_revision r) (span_start (rd_span r)) (span_end (rd_span r)) (rd_start_line r, rd_end_line r)
       (rd_name r) (rd_kind r) (rd_container r) ''reextracted''"

definition usable_extraction :: "string \<Rightarrow> file_extraction \<Rightarrow> file_extraction result" where
  "usable_extraction path ex =
     (let factless_failure = (ex_definitions ex = [] \<and> ex_status ex \<notin> {''complete'', ''lexical_only''})
      in if ex_status ex = ''cancelled'' \<or> factless_failure
         then Inl (''extraction_unavailable: '' @ path @ '' extraction '' @ ex_status ex @ ''; its definitions are unknown'')
         else Inr ex)"

text \<open>\<open>Iterator::min_by_key\<close>: the first of the least elements.\<close>

fun min_by_key :: "('a \<Rightarrow> 'k::linorder) \<Rightarrow> 'a list \<Rightarrow> 'a option" where
  "min_by_key key [] = None"
| "min_by_key key (x # xs) = (case min_by_key key xs of None \<Rightarrow> Some x | Some y \<Rightarrow> Some (if key x \<le> key y then x else y))"

definition same_definition :: "hit \<Rightarrow> extracted_definition \<Rightarrow> bool" where
  "same_definition h d \<longleftrightarrow>
     ed_name d = hit_name h \<and> (hit_kind h = [] \<or> ed_kind d = hit_kind h) \<and> ed_container d = hit_container h"

definition abs_diff :: "nat \<Rightarrow> nat \<Rightarrow> nat" where
  "abs_diff a b = (if a < b then b - a else a - b)"

definition moved_key :: "bytes \<Rightarrow> hit \<Rightarrow> extracted_definition \<Rightarrow> nat \<times> nat" where
  "moved_key bytes h d = (abs_diff (fst (line_span bytes (ed_start d) (ed_end d))) (hit_start_line h), ed_start d)"

definition reextract_definition :: "'u acquire_env \<Rightarrow> inode option \<Rightarrow> hit \<Rightarrow> reextracted_definition option result" where
  "reextract_definition env root h =
     (case decode_path (hit_path h) of
        Inl e \<Rightarrow> Inl e
      | Inr path \<Rightarrow>
          (case read_contained root path MAX_SOURCE_BYTES of
             Inl e \<Rightarrow> Inl e
           | Inr bytes \<Rightarrow>
               if CHR 0x00 \<in> set bytes
               then Inl (''source_excluded: '' @ hit_path h @ '' is binary; the index does not extract it'')
               else
                 (case usable_extraction (hit_path h) (ae_extract env (hit_path h) bytes) of
                    Inl e \<Rightarrow> Inl e
                  | Inr ex \<Rightarrow>
                      (case min_by_key (moved_key bytes h) (filter (same_definition h) (ex_definitions ex)) of
                         None \<Rightarrow> Inr None
                       | Some d \<Rightarrow>
                           (case ByteSpan_new (ed_start d) (ed_end d) of
                              Inl e \<Rightarrow> Inl e
                            | Inr span \<Rightarrow>
                                (case ByteSpan_validate span (length bytes) of
                                   Inl e \<Rightarrow> Inl e
                                 | Inr span \<Rightarrow>
                                     let (first, last_line) = line_span bytes (ed_start d) (ed_end d)
                                     in Inr (Some \<lparr>rd_path = hit_path h, rd_name = ed_name d, rd_kind = ed_kind d,
                                          rd_container = ed_container d, rd_span = span, rd_start_line = first,
                                          rd_end_line = last_line, rd_revision = ae_revision_of env bytes, rd_bytes = bytes\<rparr>)))))))"

section \<open>Stale symbols\<close>

definition is_stale_source :: "string \<Rightarrow> bool" where
  "is_stale_source e \<longleftrightarrow> prefix ''stale_source:'' e"

definition published_revision :: "index_db \<Rightarrow> string \<Rightarrow> string option" where
  "published_revision idx path = (case find (\<lambda>f. fe_path f = path) (db_files idx) of None \<Rightarrow> None | Some f \<Rightarrow> fe_revision f)"

text \<open>Whether a poll saw a generation after \<open>seen\<close>, and the index as it is from then on.\<close>

definition await_republish :: "'u acquire_env \<Rightarrow> index_db \<Rightarrow> int \<Rightarrow> bool \<times> index_db" where
  "await_republish env idx seen =
     (case ae_polls env of
        None \<Rightarrow> (False, idx)
      | Some polls \<Rightarrow>
          (case find (\<lambda>p. db_generation p > seen) polls of
             Some p \<Rightarrow> (True, p)
           | None \<Rightarrow> (False, if polls = [] then idx else last polls)))"

definition acquire_reextracted :: "'u acquire_env \<Rightarrow> index_db \<Rightarrow> hit \<Rightarrow> result_db \<Rightarrow>
    (result_db \<times> acquired_source option result) option" where
  "acquire_reextracted env idx h db =
     (case reextract_definition env (ae_later_tree env) h of
        Inl e \<Rightarrow> Some (db, Inl e)
      | Inr None \<Rightarrow> Some (db, Inr None)
      | Inr (Some r) \<Rightarrow>
          map_option (\<lambda>(db', saved). (db', map_sum id (\<lambda>ident.
            Some ((acquired (rd_bytes r) (rd_path r) (rd_revision r) (rd_span r) False (ident @ '':1''))
                    \<lparr>as_freshness := Some ''unpublished''\<rparr>)) saved))
            (save_hits env (db_generation idx) (JObj []) [ReextractedDefinition_hit r] False db))"

definition acquire_symbol_entry :: "'u acquire_env \<Rightarrow> index_db \<Rightarrow> string \<Rightarrow> hit \<Rightarrow> result_db \<Rightarrow>
    (result_db \<times> acquired_source result) option" where
  "acquire_symbol_entry env idx hdl h db =
     (case acquire_entry env hdl (LiveSource h) None of
        Inr src \<Rightarrow> Some (db, Inr src)
      | Inl e \<Rightarrow>
          if \<not> is_stale_source e then Some (db, Inl e)
          else
            let (republished, idx') = await_republish env idx (db_generation idx)
            in map_option (\<lambda>(db', r). (db',
                 case r of
                   Inl cause \<Rightarrow> Inl (e @ ''; current bytes: '' @ cause)
                 | Inr None \<Rightarrow> Inl e
                 | Inr (Some src) \<Rightarrow>
                     Inr (if republished \<and> published_revision idx' (hit_path h) = Some (as_revision src)
                          then src\<lparr>as_verified := True, as_freshness := None\<rparr> else src)))
               (acquire_reextracted env idx' h db))"

section \<open>Symbols\<close>

definition SYMBOL_ALTERNATIVES :: nat where "SYMBOL_ALTERNATIVES = 5"

definition show_target :: "string list \<Rightarrow> string option" where
  "show_target words =
     (case words of
        _ # first # _ \<Rightarrow> Some (if prefix ''sym:'' first then join_with '' '' (tl words) else first)
      | _ \<Rightarrow> None)"

definition hit_locator :: "hit \<Rightarrow> string" where
  "hit_locator h = hit_path h @ '':'' @ show_nat (hit_start_line h) @ ''-'' @ show_nat (hit_end_line h) @ '' '' @ hit_kind h"

definition no_definition :: "unicode \<Rightarrow> index_db \<Rightarrow> query \<Rightarrow> string \<Rightarrow> string" where
  "no_definition u idx q origin =
     (let name = q_text q;
          filters = map ((@) ''file:'') (include_values (q_path q)) @ map ((@) ''-file:'') (exclude_values (q_path q))
            @ map (\<lambda>(key, v). key @ v) (filter (\<lambda>(_, v). v \<noteq> []) [(''lang:'', q_language q), (''kind:'', q_kind q)]);
          others = sr_hits (definitions u idx (Query_default\<lparr>q_text := name, q_exact := True\<rparr>) origin)
      in ''no_definition: no indexed definition named `'' @ name @ ''`''
         @ (if filters = [] then []
            else '' matching '' @ join_with '' '' filters
              @ (case others of
                   [] \<Rightarrow> []
                 | best # _ \<Rightarrow> ''; '' @ show_nat (length others) @ '' without filters, best '' @ hit_locator best))
         @ ''; try `refs '' @ name @ ''` or `search '' @ [CHR 0x27] @ name @ [CHR 0x27] @ ''`'')"

text \<open>The rows saved for a symbol read: the declaration an import led to with its ties, then the namesakes.\<close>

definition lead_rows :: "import_trail option \<Rightarrow> hit list" where
  "lead_rows trail = (case trail of None \<Rightarrow> [] | Some t \<Rightarrow> (case it_declaration t of None \<Rightarrow> [] | Some d \<Rightarrow> [d]) @ it_ties t)"

definition import_note_of :: "import_trail option \<Rightarrow> import_note option" where
  "import_note_of trail = map_option (\<lambda>t. \<lparr>in_hops = it_hops t, in_followed = (it_declaration t \<noteq> None),
     in_candidates = 1 + length (it_ties t)\<rparr>) trail"

definition also_locators :: "nat \<Rightarrow> hit list \<Rightarrow> string list" where
  "also_locators lead shown =
     map (\<lambda>(_, h). hit_locator h)
       (take SYMBOL_ALTERNATIVES (filter (\<lambda>(i, _). i \<noteq> 0 \<and> \<not> (lead > 0 \<and> i = lead)) (enumerate 0 shown)))"

definition read_symbol :: "'u acquire_env \<Rightarrow> index_db \<Rightarrow> query \<Rightarrow> search_result \<Rightarrow> string \<Rightarrow>
    (string \<Rightarrow> hit \<Rightarrow> result_db \<Rightarrow> (result_db \<times> acquired_source result) option) \<Rightarrow> result_db \<Rightarrow>
    (result_db \<times> acquired_source result) option" where
  "read_symbol env idx q found origin read_first db =
     (let u = ae_unicode env
      in case sr_hits found of
           [] \<Rightarrow> Some (db, Inl (no_definition u idx q origin))
         | best # _ \<Rightarrow>
             let imports = length (filter is_import (sr_hits found));
                 declarations = length (sr_hits found) - imports
             in case (if is_import best then trace_import u idx best q origin else Inr None) of
                  Inl e \<Rightarrow> Some (db, Inl e)
                | Inr trail \<Rightarrow>
                    let shown = lead_rows trail @ sr_hits found;
                        also_rows = also_locators (length (lead_rows trail)) shown;
                        selection = \<lparr>ss_declarations = declarations, ss_imports = imports, ss_also = also_rows,
                                     ss_import = import_note_of trail\<rparr>
                    in case save_hits env (sr_generation found) (sr_coverage found) shown (sr_truncated found) db of
                         None \<Rightarrow> None
                       | Some (db', Inl e) \<Rightarrow> Some (db', Inl e)
                       | Some (db', Inr ident) \<Rightarrow>
                           map_option (map_prod id (map_sum id (\<lambda>src. src\<lparr>as_definitions := Some selection\<rparr>)))
                             (read_first (ident @ '':1'') (hd shown) db'))"

definition acquire_symbol :: "'u acquire_env \<Rightarrow> index_db \<Rightarrow> string \<Rightarrow> string \<Rightarrow> result_db \<Rightarrow>
    (result_db \<times> acquired_source result) option" where
  "acquire_symbol env idx target origin db =
     (case Query_parse (ae_unicode env) target of
        Inl e \<Rightarrow> Some (db, Inl e)
      | Inr q \<Rightarrow>
          read_symbol env idx q (definitions (ae_unicode env) idx q origin) origin
            (\<lambda>hdl h. acquire_symbol_entry env idx hdl h) db)"

section \<open>Targets\<close>

definition is_handle_target :: "'u acquire_env \<Rightarrow> string \<Rightarrow> bool" where
  "is_handle_target env target \<longleftrightarrow>
     \<not> isl (ResultHandle_parse (ae_parse_uuid env) target)
     \<or> (case rsplit_once (CHR '':'') target of None \<Rightarrow> False | Some (ident, _) \<Rightarrow> ae_parse_uuid env ident \<noteq> None)"

definition acquire :: "'u acquire_env \<Rightarrow> index_db \<Rightarrow> string \<Rightarrow> source_side option \<Rightarrow> string \<Rightarrow> result_db \<Rightarrow>
    (result_db \<times> acquired_source result) option" where
  "acquire env idx target side origin db =
     (case strip_prefix ''read:'' target of
        Some cursor \<Rightarrow> Some (db, acquire_continuation env db cursor side)
      | None \<Rightarrow>
          if is_handle_target env target then Some (db, acquire_handle env db target side)
          else if side \<noteq> None then Some (db, Inl ''invalid_side: side requires a historical change handle'')
          else if prefix ''sym:'' target then acquire_symbol env idx target origin db
          else acquire_path env idx target db)"

definition show_with_side :: "'u acquire_env \<Rightarrow> page_libs \<Rightarrow> index_db \<Rightarrow> string \<Rightarrow> source_side option \<Rightarrow> output_budget \<Rightarrow> result_db \<Rightarrow>
    (result_db \<times> string result) option" where
  "show_with_side env libs idx target side b db =
     map_option (\<lambda>(db', r). (db', case r of Inl e \<Rightarrow> Inl e | Inr src \<Rightarrow> render libs src b))
       (acquire env idx target side InvocationDirectory_root db)"

section \<open>Specification\<close>

definition span_inside :: "acquired_source \<Rightarrow> bool" where
  "span_inside src \<longleftrightarrow> span_start (as_span src) \<le> span_end (as_span src) \<and> span_end (as_span src) \<le> length (as_bytes src)"

text \<open>Where the bytes come from: a regular file below the root, or the blob that a change recorded.\<close>

definition from_disk :: "'u acquire_env \<Rightarrow> acquired_source \<Rightarrow> bool" where
  "from_disk env src \<longleftrightarrow>
     (\<exists>path. decode_path (as_path src) = Inr path
        \<and> (read_contained (ae_tree env) path MAX_READ_BYTES = Inr (as_bytes src)
           \<or> read_contained (ae_later_tree env) path MAX_READ_BYTES = Inr (as_bytes src)))"

definition from_git :: "'u acquire_env \<Rightarrow> acquired_source \<Rightarrow> historical_source \<Rightarrow> bool" where
  "from_git env src identity \<longleftrightarrow>
     ae_blob env (hs_blob identity) = Some (as_bytes src) \<and> hs_path identity = as_path src \<and> hs_revision identity = as_revision src"

text \<open>The entry that a handle names: the set of its identifier, unexpired, at its one-based ordinal.\<close>

definition named_entry :: "'u acquire_env \<Rightarrow> result_db \<Rightarrow> string \<Rightarrow> result_entry \<Rightarrow> bool" where
  "named_entry env db hdl e \<longleftrightarrow>
     (\<exists>h row st. ResultHandle_parse (ae_parse_uuid env) hdl = Inr h
        \<and> row \<in> set db \<and> row_id row = ae_show_uuid env (handle_set h) \<and> ae_time env < row_expires row
        \<and> ae_from_str env (row_payload row) = Inr st
        \<and> 1 \<le> handle_ordinal h \<and> handle_ordinal h \<le> length (rs_hits st) \<and> rs_hits st ! (handle_ordinal h - 1) = e)"

text \<open>The handle that a target names: the one inside a \<open>read:\<close> cursor, without side and offset, or the target itself.\<close>

definition target_handle :: "string \<Rightarrow> string" where
  "target_handle target =
     (case strip_prefix ''read:'' target of
        Some cursor \<Rightarrow> (case rsplit_once (CHR ''@'') cursor of Some (identity, _) \<Rightarrow> fst (split_side identity) | None \<Rightarrow> cursor)
      | None \<Rightarrow> target)"

text \<open>The extent of a hit in its file, and what a handle's entry records of a source.\<close>

definition hit_extent :: "hit \<Rightarrow> bytes \<Rightarrow> nat \<times> nat" where
  "hit_extent h bytes = (if hit_kind h = ''file'' then (0, length bytes) else (hit_start h, hit_end h))"

definition stored_record :: "'u acquire_env \<Rightarrow> result_db \<Rightarrow> string \<Rightarrow> acquired_source \<Rightarrow> bool" where
  "stored_record env db hdl src \<longleftrightarrow>
     (\<exists>h text. named_entry env db hdl (LiveSource h) \<and> hit_path h = as_path src
        \<and> fst (hit_extent h (as_bytes src)) \<le> span_start (as_span src)
        \<and> span_end (as_span src) = snd (hit_extent h (as_bytes src))
        \<and> hit_revision h = Some text \<and> ae_parse_revision env text = Some (as_revision src))"

definition change_record :: "'u acquire_env \<Rightarrow> result_db \<Rightarrow> string \<Rightarrow> source_side option \<Rightarrow> historical_source \<Rightarrow> bool" where
  "change_record env db hdl side identity \<longleftrightarrow>
     (\<exists>change. named_entry env db hdl (Change change)
        \<and> (side = Some Before \<and> ch_before change = Some identity \<or> side = Some After \<and> ch_after change = Some identity))"

text \<open>A revision on record for a path in the index, or in the index after a republication.\<close>

definition index_revision :: "index_db \<Rightarrow> string \<Rightarrow> string \<Rightarrow> bool" where
  "index_revision idx path text \<longleftrightarrow> (\<exists>f \<in> set (db_files idx). fe_path f = path \<and> fe_revision f = Some text)"

definition republished_revision :: "'u acquire_env \<Rightarrow> index_db \<Rightarrow> string \<Rightarrow> string \<Rightarrow> bool" where
  "republished_revision env idx path text \<longleftrightarrow>
     (\<exists>polls. ae_polls env = Some polls \<and> (\<exists>p \<in> set polls. db_generation idx < db_generation p \<and> index_revision p path text))"

definition indexed_record :: "'u acquire_env \<Rightarrow> index_db \<Rightarrow> acquired_source \<Rightarrow> bool" where
  "indexed_record env idx src \<longleftrightarrow>
     (\<exists>text. index_revision idx (as_path src) text \<and> ae_parse_revision env text = Some (as_revision src))
     \<or> republished_revision env idx (as_path src) (as_revision src)"

definition on_record :: "'u acquire_env \<Rightarrow> index_db \<Rightarrow> result_db \<Rightarrow> string \<Rightarrow> acquired_source \<Rightarrow> bool" where
  "on_record env idx db target src \<longleftrightarrow>
     (if strip_prefix ''read:'' target \<noteq> None \<or> is_handle_target env target then stored_record env db (target_handle target) src
      else prefix ''sym:'' target \<and> indexed_record env idx src)"

definition source_ok :: "'u acquire_env \<Rightarrow> acquired_source \<Rightarrow> bool" where
  "source_ok env src \<longleftrightarrow> span_inside src \<and> as_revision src = ae_revision_of env (as_bytes src)
     \<and> (case as_historical src of None \<Rightarrow> from_disk env src | Some identity \<Rightarrow> from_git env src identity)"

section \<open>Properties\<close>

lemma acquired_fields [simp]:
  "as_bytes (acquired b p r s v x) = b" "as_path (acquired b p r s v x) = p" "as_revision (acquired b p r s v x) = r"
  "as_span (acquired b p r s v x) = s" "as_verified (acquired b p r s v x) = v" "as_handle (acquired b p r s v x) = x"
  "as_side (acquired b p r s v x) = None" "as_historical (acquired b p r s v x) = None"
  "as_definitions (acquired b p r s v x) = None" "as_freshness (acquired b p r s v x) = None"
  by (simp_all add: acquired_def)

lemma map_sum_Inr: "map_sum id f x = Inr y \<longleftrightarrow> (\<exists>z. x = Inr z \<and> y = f z)"
  by (cases x) auto

lemma sum_case_Inr: "(case x of Inl e \<Rightarrow> Inl (g e) | Inr v \<Rightarrow> f v) = Inr y \<longleftrightarrow> (\<exists>v. x = Inr v \<and> f v = Inr y)"
  by (cases x) auto

lemma ByteSpan_new_Inr: "ByteSpan_new s e = Inr sp \<longleftrightarrow> s \<le> e \<and> sp = \<lparr>span_start = s, span_end = e\<rparr>"
  by (auto simp: ByteSpan_new_def)

lemma read_live_ok:
  assumes "read_live env hdl h = Inr src"
  shows "source_ok env src \<and> as_verified src \<and> as_historical src = None \<and> as_handle src = hdl \<and> as_side src = None
    \<and> as_path src = hit_path h \<and> hit_extent h (as_bytes src) = (span_start (as_span src), span_end (as_span src))
    \<and> (\<exists>text. hit_revision h = Some text \<and> ae_parse_revision env text = Some (as_revision src))"
  using assms
  by (auto simp: read_live_def source_ok_def span_inside_def from_disk_def ByteSpan_validate_Inr ByteSpan_new_Inr hit_extent_def Let_def
      split: option.splits sum.splits if_splits)

lemma acquire_historical_ok:
  assumes "acquire_historical env hdl side identity = Inr src"
  shows "source_ok env src \<and> as_historical src = Some identity \<and> as_handle src = hdl \<and> as_side src = Some side"
  using assms
  by (auto simp: acquire_historical_def source_ok_def span_inside_def from_git_def ByteSpan_validate_Inr Let_def
      split: option.splits sum.splits if_splits)

lemma acquire_entry_ok:
  assumes "acquire_entry env hdl e side = Inr src"
  shows "source_ok env src \<and> as_handle src = hdl \<and> as_side src = side
    \<and> (case as_historical src of
         None \<Rightarrow> \<exists>h text. e = LiveSource h \<and> hit_path h = as_path src
           \<and> hit_extent h (as_bytes src) = (span_start (as_span src), span_end (as_span src)) \<and> hit_revision h = Some text \<and> ae_parse_revision env text = Some (as_revision src)
       | Some identity \<Rightarrow> \<exists>change. e = Change change
           \<and> (side = Some Before \<and> ch_before change = Some identity \<or> side = Some After \<and> ch_after change = Some identity))"
proof (cases e)
  case (LiveSource h)
  with assms have live: "side = None" "read_live env hdl h = Inr src" by (auto split: if_splits)
  from read_live_ok [OF live(2)] live(1) LiveSource show ?thesis by auto
next
  case (Change c)
  with assms obtain s identity where "side = Some s" "(case s of Before \<Rightarrow> ch_before c | After \<Rightarrow> ch_after c) = Some identity"
    "acquire_historical env hdl s identity = Inr src"
    by (auto split: option.splits)
  with acquire_historical_ok [of env hdl s identity src] Change show ?thesis by (cases s) auto
qed (use assms in simp)

lemma ResultHandle_parse_ordinal: "ResultHandle_parse parse hdl = Inr h \<Longrightarrow> 1 \<le> handle_ordinal h"
  by (auto simp: ResultHandle_parse_def split: option.splits if_splits)

lemma entry_named:
  assumes "entry (ae_from_str env) (ae_parse_uuid env) (ae_show_uuid env) (ae_time env) db hdl = Inr (g, e)"
  shows "named_entry env db hdl e"
proof -
  from assms obtain h row st where "ResultHandle_parse (ae_parse_uuid env) hdl = Inr h"
    "find (\<lambda>r. row_id r = ae_show_uuid env (handle_set h)) db = Some row" "ae_time env < row_expires row"
    "ae_from_str env (row_payload row) = Inr st" "nth_opt (rs_hits st) (handle_ordinal h - 1) = Some e"
    by (auto simp: entry_def load_entries_def split: sum.splits option.splits if_splits)
  then show ?thesis unfolding named_entry_def using ResultHandle_parse_ordinal
    by (intro exI [of _ h] exI [of _ row] exI [of _ st]) (fastforce simp: nth_opt_def find_Some_iff split: if_splits)
qed

lemma acquire_handle_ok:
  assumes "acquire_handle env db hdl side = Inr src"
  shows "source_ok env src \<and> as_handle src = hdl \<and> as_side src = side
    \<and> (case as_historical src of None \<Rightarrow> stored_record env db hdl src | Some identity \<Rightarrow> change_record env db hdl side identity)"
proof -
  from assms obtain g e where e: "entry (ae_from_str env) (ae_parse_uuid env) (ae_show_uuid env) (ae_time env) db hdl = Inr (g, e)"
    "acquire_entry env hdl e side = Inr src"
    by (auto simp: acquire_handle_def split: sum.splits)
  from acquire_entry_ok [OF e(2)] entry_named [OF e(1)] show ?thesis
    by (auto simp: stored_record_def change_record_def split: option.splits)
qed

lemma acquire_continuation_ok:
  assumes "acquire_continuation env db cursor side = Inr src" "strip_prefix ''read:'' target = Some cursor"
  shows "source_ok env src
    \<and> (case as_historical src of None \<Rightarrow> stored_record env db (target_handle target) src
       | Some identity \<Rightarrow> change_record env db (target_handle target) (as_side src) identity)"
proof -
  from assms obtain identity offset where cursor: "rsplit_once (CHR ''@'') cursor = Some (identity, offset)"
    by (auto simp: acquire_continuation_def split: option.splits)
  obtain hdl recorded where split: "split_side identity = (hdl, recorded)" by force
  from assms(1) cursor split obtain s n where s: "acquire_handle env db hdl recorded = Inr s"
    "span_start (as_span s) \<le> n" "n \<le> span_end (as_span s)" "src = s\<lparr>as_span := (as_span s)\<lparr>span_start := n\<rparr>\<rparr>"
    by (auto simp: acquire_continuation_def split: option.splits sum.splits if_splits)
  have "target_handle target = hdl" using assms(2) cursor split by (simp add: target_handle_def)
  with acquire_handle_ok [OF s(1)] s(2-) show ?thesis
    by (auto simp: source_ok_def span_inside_def from_disk_def from_git_def stored_record_def split: option.splits)
qed

lemma read_file_mono: "read_file l n = Inr bytes \<Longrightarrow> l \<le> l' \<Longrightarrow> read_file l' n = Inr bytes"
  by (auto simp: read_file_def Let_def split: inode.splits if_splits)

lemma read_contained_mono:
  "read_contained root path l = Inr bytes \<Longrightarrow> l \<le> l' \<Longrightarrow> read_contained root path l' = Inr bytes"
  by (auto simp: read_contained_def Let_def intro: read_file_mono split: option.splits sum.splits if_splits)

lemma save_hits_ident:
  "save_hits env generation coverage hits truncated db = Some (db', Inr ident) \<Longrightarrow> ident = ae_new_id env db"
  by (auto simp: save_hits_def save_entries_def store_save_def store_row_def Let_def
      split: sum.splits if_splits)

lemma acquire_path_ok:
  assumes "acquire_path env idx target db = Some (db', Inr src)"
  shows "source_ok env src \<and> \<not> as_verified src \<and> as_historical src = None"
proof -
  from assms obtain path first last_line decoded bytes start stop ident span
    where p: "decode_path path = Inr decoded" "read_contained (ae_tree env) decoded MAX_READ_BYTES = Inr bytes"
      "current_span bytes first last_line = Inr (start, stop)" "ByteSpan_new start stop = Inr span"
      "src = acquired bytes path (ae_revision_of env bytes) span False (ident @ '':1'')"
    by (auto simp: acquire_path_def Let_def map_sum_Inr sum_case_Inr split: sum.splits)
  from p(3) line_offset_le [of bytes last_line] have "stop \<le> length bytes"
    by (auto simp: current_span_exact split: if_splits)
  with p show ?thesis by (auto simp: source_ok_def span_inside_def from_disk_def ByteSpan_new_Inr)
qed

lemma reextract_ok:
  assumes "reextract_definition env root h = Inr (Some r)"
  shows "\<exists>path. decode_path (hit_path h) = Inr path \<and> read_contained root path MAX_READ_BYTES = Inr (rd_bytes r)
    \<and> rd_path r = hit_path h \<and> rd_revision r = ae_revision_of env (rd_bytes r)
    \<and> span_start (rd_span r) \<le> span_end (rd_span r) \<and> span_end (rd_span r) \<le> length (rd_bytes r)"
proof -
  have "MAX_SOURCE_BYTES \<le> MAX_READ_BYTES" by (simp add: MAX_SOURCE_BYTES_def MAX_READ_BYTES_def)
  then show ?thesis using assms
    by (auto simp: reextract_definition_def Let_def ByteSpan_new_Inr ByteSpan_validate_Inr
        intro: read_contained_mono split: option.splits sum.splits if_splits prod.splits)
qed

lemma acquire_reextracted_ok:
  assumes "acquire_reextracted env idx h db = Some (db', Inr (Some src))"
  shows "source_ok env src \<and> \<not> as_verified src \<and> as_path src = hit_path h \<and> as_historical src = None"
proof -
  from assms obtain r ident where r: "reextract_definition env (ae_later_tree env) h = Inr (Some r)"
    "src = (acquired (rd_bytes r) (rd_path r) (rd_revision r) (rd_span r) False (ident @ '':1''))\<lparr>as_freshness := Some ''unpublished''\<rparr>"
    by (auto simp: acquire_reextracted_def map_sum_Inr split: sum.splits option.splits)
  from reextract_ok [OF r(1)] r(2) show ?thesis
    by (auto simp: source_ok_def span_inside_def from_disk_def)
qed

lemma published_revision_index: "published_revision idx path = Some text \<Longrightarrow> index_revision idx path text"
  by (auto simp: published_revision_def index_revision_def find_Some_iff split: option.splits)

lemma acquire_symbol_entry_ok:
  assumes run: "acquire_symbol_entry env idx hdl h db = Some (db', Inr src)"
    and h: "\<And>text. hit_revision h = Some text \<Longrightarrow> index_revision idx (hit_path h) text"
  shows "source_ok env src \<and> as_historical src = None \<and> (as_verified src \<longrightarrow> indexed_record env idx src)"
proof (cases "acquire_entry env hdl (LiveSource h) None")
  case (Inr s)
  with run have "read_live env hdl h = Inr src" by (auto simp: acquire_symbol_entry_def)
  from read_live_ok [OF this] h show ?thesis by (auto simp: indexed_record_def)
next
  case (Inl e)
  obtain republished idx' where w: "await_republish env idx (db_generation idx) = (republished, idx')" by force
  with Inl run obtain r where r: "acquire_reextracted env idx' h db = Some (db', r)"
    "(case r of Inl cause \<Rightarrow> Inl (e @ ''; current bytes: '' @ cause) | Inr None \<Rightarrow> Inl e
      | Inr (Some s) \<Rightarrow> Inr (if republished \<and> published_revision idx' (hit_path h) = Some (as_revision s)
            then s\<lparr>as_verified := True, as_freshness := None\<rparr> else s)) = Inr src"
    by (auto simp: acquire_symbol_entry_def split: if_splits)
  then obtain s where s: "acquire_reextracted env idx' h db = Some (db', Inr (Some s))"
    "src = (if republished \<and> published_revision idx' (hit_path h) = Some (as_revision s)
            then s\<lparr>as_verified := True, as_freshness := None\<rparr> else s)"
    by (cases r) (auto split: option.splits)
  note ok = acquire_reextracted_ok [OF s(1)]
  have "republished_revision env idx (hit_path h) (as_revision s)"
    if "republished" "published_revision idx' (hit_path h) = Some (as_revision s)"
    using that w published_revision_index [OF that(2)]
    by (auto simp: await_republish_def republished_revision_def find_Some_iff split: option.splits if_splits)
  with ok s(2) show ?thesis
    by (auto simp: source_ok_def span_inside_def from_disk_def indexed_record_def)
qed

lemma named_hits_indexed:
  "h \<in> set (named_hits u idx language origin name) \<Longrightarrow> hit_revision h = Some text \<Longrightarrow> index_revision idx (hit_path h) text"
  by (auto simp: named_hits_def rank_declarations_def index_revision_def hit_in_scope_def dest!: qualified_hits_scope) metis

lemma resolves_to_mem:
  "resolves_to u db language origin name declared ties \<Longrightarrow> h \<in> set_option declared \<union> set ties \<Longrightarrow>
   h \<in> set (named_hits u db language origin name)"
  by (auto simp: resolves_to_def Let_def split: option.splits dest: set_takeWhileD)
     (metis filter_is_subset in_mono list.set_intros set_takeWhileD)+

lemma trace_import_indexed:
  assumes "trace_import u idx import q origin = Inr trail" "h \<in> set (lead_rows trail)" "hit_revision h = Some text"
  shows "index_revision idx (hit_path h) text"
proof -
  from assms(2) obtain t where t: "trail = Some t" "h \<in> set_option (it_declaration t) \<union> set (it_ties t)"
    by (auto simp: lead_rows_def split: option.splits)
  from trace_loop_sound [OF assms(1) [unfolded trace_import_def t(1)], of "[]" import]
  have "trail_ok u idx (q_language q) origin import t" by simp
  then obtain name where "resolves_to u idx (q_language q) origin name (it_declaration t) (it_ties t)"
    by (auto simp: trail_ok_def)
  from named_hits_indexed [OF resolves_to_mem [OF this t(2)] assms(3)] show ?thesis .
qed

lemma definitions_indexed:
  assumes "h \<in> set (sr_hits (definitions u idx q origin))" "hit_revision h = Some text"
  shows "index_revision idx (hit_path h) text"
proof -
  from assms(1) obtain h0 where h0: "h0 \<in> set (lh_hits (declaration_hits u idx q (bound_paths idx q)))"
    "hit_path h = hit_path h0" "hit_revision h = hit_revision h0"
    by (auto simp: definitions_def Let_def rank_definitions_set dest!: attach_mem)
  from qualified_hits_scope [OF h0(1) [unfolded declaration_hits_def]] h0(2-) assms(2) show ?thesis
    by (auto simp: hit_in_scope_def index_revision_def)
qed

lemma read_symbol_ok:
  assumes run: "read_symbol env idx q found origin read_first db = Some (db', Inr src)"
    and found: "\<And>h text. h \<in> set (sr_hits found) \<Longrightarrow> hit_revision h = Some text \<Longrightarrow> index_revision idx (hit_path h) text"
  obtains hdl h db1 s selection where "read_first hdl h db1 = Some (db', Inr s)" "src = s\<lparr>as_definitions := Some selection\<rparr>"
    "\<And>text. hit_revision h = Some text \<Longrightarrow> index_revision idx (hit_path h) text"
proof -
  from run obtain best rest where hits: "sr_hits found = best # rest"
    by (auto simp: read_symbol_def Let_def split: list.splits)
  from run obtain trail where trail: "(if is_import best then trace_import (ae_unicode env) idx best q origin else Inr None) = Inr trail"
    by (cases "if is_import best then trace_import (ae_unicode env) idx best q origin else Inr None")
       (auto simp: read_symbol_def hits Let_def)
  let ?shown = "lead_rows trail @ best # rest"
  have rows: "index_revision idx (hit_path h) digest" if "h \<in> set ?shown" "hit_revision h = Some digest" for h digest
  proof (cases "h \<in> set (lead_rows trail)")
    case True
    with trail have "trace_import (ae_unicode env) idx best q origin = Inr trail"
      by (auto simp: lead_rows_def split: if_splits)
    from trace_import_indexed [OF this True that(2)] show ?thesis .
  qed (use that found hits in auto)
  from run trail obtain db1 ident s selection where "read_first (ident @ '':1'') (hd ?shown) db1 = Some (db', Inr s)"
    "src = s\<lparr>as_definitions := Some selection\<rparr>"
    by (auto simp: read_symbol_def hits Let_def map_sum_Inr split: option.splits sum.splits)
  then show thesis using rows [OF hd_in_set [of ?shown]] that by blast
qed

text \<open>
  C10. Whatever the target of a read is, a source it returns is consistent: the span lies inside the bytes, the reported
  revision is the digest of those bytes, and the bytes are those of a regular file reached below the root without
  following links or, when the source is historical, those of the recorded blob of the requested side of the change that
  the handle names.  A current file is reported as verified only when that revision is on record for its path: for a
  handle or a cursor, in the unexpired hit of the stored set and ordinal which that handle names and inside whose span
  the source lies; for a symbol, in the index or in the index a daemon published while the read waited; a plain path is
  never verified.
\<close>

theorem acquired_source_consistent:
  assumes "acquire env idx target side origin db = Some (db', Inr src)"
  shows "span_inside src \<and> as_revision src = ae_revision_of env (as_bytes src)
    \<and> (case as_historical src of
         None \<Rightarrow> from_disk env src \<and> (as_verified src \<longrightarrow> on_record env idx db target src)
       | Some identity \<Rightarrow> from_git env src identity \<and> change_record env db (target_handle target) (as_side src) identity)"
proof -
  have "source_ok env src \<and> (case as_historical src of None \<Rightarrow> as_verified src \<longrightarrow> on_record env idx db target src
      | Some identity \<Rightarrow> change_record env db (target_handle target) (as_side src) identity)"
  proof (cases "strip_prefix ''read:'' target")
    case (Some cursor)
    with assms have "acquire_continuation env db cursor side = Inr src" by (auto simp: acquire_def)
    from acquire_continuation_ok [OF this Some] Some show ?thesis by (auto simp: on_record_def split: option.splits)
  next
    case None
    note run = assms [unfolded acquire_def None option.case]
    consider "is_handle_target env target" "acquire_handle env db target side = Inr src"
      | "\<not> is_handle_target env target" "prefix ''sym:'' target" "acquire_symbol env idx target origin db = Some (db', Inr src)"
      | "acquire_path env idx target db = Some (db', Inr src)"
      using run by (auto split: if_splits)
    then show ?thesis
    proof cases
      case 1
      have "target_handle target = target" using None by (simp add: target_handle_def)
      with acquire_handle_ok [OF 1(2)] 1(1) show ?thesis by (auto simp: on_record_def split: option.splits)
    next
      case 2
      then obtain q where "read_symbol env idx q (definitions (ae_unicode env) idx q origin) origin
          (\<lambda>hdl h. acquire_symbol_entry env idx hdl h) db = Some (db', Inr src)"
        by (auto simp: acquire_symbol_def split: sum.splits)
      then obtain hdl h db1 s selection where s: "acquire_symbol_entry env idx hdl h db1 = Some (db', Inr s)"
        "src = s\<lparr>as_definitions := Some selection\<rparr>"
        "\<And>text. hit_revision h = Some text \<Longrightarrow> index_revision idx (hit_path h) text"
        by (rule read_symbol_ok) (use definitions_indexed in blast)+
      from acquire_symbol_entry_ok [OF s(1,3)] s(2) 2(1,2) None show ?thesis
        by (auto simp: source_ok_def span_inside_def from_disk_def on_record_def indexed_record_def)
    next
      case 3
      from acquire_path_ok [OF this] show ?thesis by simp
    qed
  qed
  then show ?thesis by (auto simp: source_ok_def split: option.splits)
qed

lemma handle_ordinal_text:
  assumes "acquire_handle env db hdl side = Inr src"
  shows "split_side hdl = (hdl, None)"
proof -
  from assms obtain h where "ResultHandle_parse (ae_parse_uuid env) hdl = Inr h"
    by (auto simp: acquire_handle_def entry_def split: sum.splits)
  then obtain a ord n where "rsplit_once (CHR '':'') hdl = Some (a, ord)" "parse_usize ord = Some n"
    by (auto simp: ResultHandle_parse_def split: option.splits if_splits)
  moreover have "parse_usize ''before'' = None" "parse_usize ''after'' = None" by code_simp+
  ultimately show ?thesis by (auto simp: split_side_def)
qed

lemma split_side_suffix: "split_side (hdl @ '':'' @ SourceSide_as_str s) = (hdl, Some s)"
  using rsplit_once_append [of "CHR '':''" "SourceSide_as_str s" hdl] by (cases s) (simp_all add: split_side_def)

text \<open>
  C26. A continuation resumes the same source: the cursor that a truncated response prints for a handle, at any offset of
  the span, is accepted and acquires the source of that handle again, with the same bytes, revision, side and end,
  starting at the offset.
\<close>

theorem continuation_resumes:
  assumes src: "acquire_handle env db hdl side = Inr src"
    and off: "span_start (as_span src) \<le> off" "off \<le> span_end (as_span src)" "off \<le> usize_max"
  shows "acquire env idx (read_cursor (as_handle src) (as_side src) off) None origin db
    = Some (db, Inr (src\<lparr>as_span := \<lparr>span_start = off, span_end = span_end (as_span src)\<rparr>\<rparr>))"
proof -
  let ?identity = "hdl @ (case side of Some s \<Rightarrow> '':'' @ SourceSide_as_str s | None \<Rightarrow> [])"
  have "as_handle src = hdl" "as_side src = side" using acquire_handle_ok [OF src] by auto
  then have cursor: "read_cursor (as_handle src) (as_side src) off = ''read:'' @ (?identity @ ''@'' @ show_nat off)"
    by (simp add: read_cursor_def)
  have "split_side ?identity = (hdl, side)"
    using handle_ordinal_text [OF src] split_side_suffix [of hdl] by (cases side) auto
  moreover have "rsplit_once (CHR ''@'') (?identity @ ''@'' @ show_nat off) = Some (?identity, show_nat off)"
    using rsplit_once_append [OF at_not_in_show_nat, of ?identity off] by simp
  ultimately have "acquire_continuation env db (?identity @ ''@'' @ show_nat off) None
      = Inr (src\<lparr>as_span := \<lparr>span_start = off, span_end = span_end (as_span src)\<rparr>\<rparr>)"
    using src off by (simp add: acquire_continuation_def parse_show_nat)
  moreover have "strip_prefix ''read:'' (''read:'' @ xs) = Some xs" for xs by (simp add: strip_prefix_def)
  ultimately show ?thesis unfolding cursor by (simp only: acquire_def option.case)
qed

lemma min_by_key_None: "min_by_key key xs = None \<longleftrightarrow> xs = []"
  by (cases xs) (auto split: option.splits)

lemma min_by_key_spec:
  "min_by_key key xs = Some x \<Longrightarrow> x \<in> set xs \<and> (\<forall>y \<in> set xs. key x \<le> key y)"
proof (induction xs arbitrary: x)
  case (Cons a xs)
  show ?case
  proof (cases "min_by_key key xs")
    case None
    then have "xs = []" by (simp add: min_by_key_None)
    with Cons.prems show ?thesis by simp
  next
    case (Some y)
    from Cons.IH [OF Some] Cons.prems Some show ?thesis by (auto split: if_splits)
  qed
qed simp

definition moved_candidates :: "'u acquire_env \<Rightarrow> hit \<Rightarrow> bytes \<Rightarrow> extracted_definition list" where
  "moved_candidates env h bytes = filter (same_definition h) (ex_definitions (ae_extract env (hit_path h) bytes))"


section \<open>A small root\<close>

lemma read_file_small:
  "reported \<le> limit \<Longrightarrow> length content \<le> limit \<Longrightarrow> read_file limit (RegularFile reported content) = Inr content"
  by (simp add: read_file_def)

definition root_hit :: "string \<Rightarrow> hit" where
  "root_hit revision = read_hit ''a.rs'' revision 3 7 (1, 1) ''f'' ''function'' None ''syntax''"

text \<open>One file, one stored result for its function, a digest that is the text itself; the extractor finds two functions
  of one name in the edited file.\<close>

definition root_env :: "string acquire_env" where
  "root_env = \<lparr>ae_unicode = ascii_unicode, ae_parse_uuid = (\<lambda>s. if s = ''u'' then Some s else None), ae_show_uuid = id,
     ae_from_str = (\<lambda>_. Inr \<lparr>rs_generation = 1, rs_coverage = JNull, rs_truncated = False, rs_hits = [LiveSource (root_hit ''fn f();'')]\<rparr>),
     ae_to_string = (\<lambda>_. Inl ''unused''), ae_revision_of = id, ae_parse_revision = Some, ae_common_dir = Inl ''no repository'',
     ae_tree_entry = (\<lambda>_ _. Inl ''no repository''), ae_blob = (\<lambda>_. None),
     ae_extract = (\<lambda>_ _. \<lparr>ex_language = ''rust'', ex_status = ''complete'',
        ex_definitions = [\<lparr>ed_name = ''f'', ed_kind = ''function'', ed_start = 1, ed_end = 2, ed_container = None\<rparr>,
                          \<lparr>ed_name = ''f'', ed_kind = ''function'', ed_start = 3, ed_end = 5, ed_container = None\<rparr>],
        ex_occurrences = [], ex_relationships = []\<rparr>),
     ae_new_id = (\<lambda>_. ''u''), ae_time = 0, ae_tree = Some (Directory [(''a.rs'', RegularFile 7 ''fn f();'')]), ae_later_tree = None,
     ae_polls = None\<rparr>"

definition root_db :: result_db where
  "root_db = [\<lparr>row_id = ''u'', row_created = 0, row_expires = 600, row_payload = []\<rparr>]"

definition root_source :: acquired_source where
  "root_source = acquired ''fn f();'' ''a.rs'' ''fn f();'' \<lparr>span_start = 3, span_end = 7\<rparr> True ''u:1''"

lemma root_file: "7 \<le> limit \<Longrightarrow> read_contained (ae_tree root_env) ''a.rs'' limit = Inr ''fn f();''"
proof -
  assume "7 \<le> limit"
  moreover have "path_components ''a.rs'' = [Normal ''a.rs'']" by code_simp
  ultimately show ?thesis
    by (simp add: read_contained_def root_env_def openat_def is_normal_def read_file_small)
qed

lemma root_parse: "ResultHandle_parse (ae_parse_uuid root_env) ''u:1'' = Inr \<lparr>handle_set = ''u'', handle_ordinal = 1\<rparr>"
proof -
  have "show_nat 1 = ''1''" by code_simp
  with parse_show_nat [of 1] have "parse_usize ''1'' = Some 1" by (simp add: usize_max_def)
  moreover have "rsplit_once (CHR '':'') ''u:1'' = Some (''u'', ''1'')" by code_simp
  ultimately show ?thesis by (simp add: ResultHandle_parse_def root_env_def)
qed

lemma root_handle: "acquire_handle root_env root_db ''u:1'' None = Inr root_source"
proof -
  have "entry (ae_from_str root_env) (ae_parse_uuid root_env) (ae_show_uuid root_env) (ae_time root_env) root_db ''u:1''
      = Inr (1, LiveSource (root_hit ''fn f();''))"
    unfolding entry_def root_parse by (simp add: load_entries_def root_env_def root_db_def nth_opt_def)
  moreover have "decode_path ''a.rs'' = Inr ''a.rs''" by code_simp
  moreover have "read_contained (ae_tree root_env) ''a.rs'' MAX_READ_BYTES = Inr ''fn f();''"
    by (rule root_file) (simp add: MAX_READ_BYTES_def)
  ultimately show ?thesis
    by (simp add: acquire_handle_def read_live_def root_hit_def read_hit_def root_env_def root_source_def
        ByteSpan_new_def ByteSpan_validate_def Let_def)
qed

theorem acquired_source_consistent_witness:
  "\<exists>src. acquire root_env trail_index ''u:1'' None [] root_db = Some (root_db, Inr src) \<and> as_verified src
     \<and> span_inside src \<and> from_disk root_env src \<and> on_record root_env trail_index root_db ''u:1'' src"
proof -
  have "is_handle_target root_env ''u:1''" by (simp add: is_handle_target_def root_parse)
  moreover have "strip_prefix ''read:'' ''u:1'' = None" by code_simp
  ultimately have run: "acquire root_env trail_index ''u:1'' None [] root_db = Some (root_db, Inr root_source)"
    by (simp add: acquire_def root_handle)
  from acquired_source_consistent [OF run] run show ?thesis by (simp add: root_source_def)
qed

theorem continuation_resumes_witness:
  "acquire root_env trail_index ''read:u:1@5'' None [] root_db
     = Some (root_db, Inr (root_source\<lparr>as_span := \<lparr>span_start = 5, span_end = 7\<rparr>\<rparr>))"
proof -
  have "read_cursor (as_handle root_source) (as_side root_source) 5 = ''read:u:1@5''" by code_simp
  with continuation_resumes [OF root_handle, of 5 trail_index "[]"] show ?thesis
    by (simp add: root_source_def usize_max_def)
qed


end
