(* ===== verification/TP_Modules.thy ===== *)
theory TP_Modules
  imports TP_Index TP_Paths TP_Source
begin

text \<open>
  \<open>src/store/module_config.rs\<close> and \<open>src/store/module_resolver.rs\<close>: which module definitions an import, a \<open>require\<close> or an
  include can mean.  Stored paths are names joined by slashes, so a directory is the list of its names; what a
  configuration spells is joined to it component by component.  \<open>serde_json\<close>'s parser is an argument; objects keep the
  order of the text.
\<close>

section \<open>Paths\<close>

fun normal_loop :: "bytes list \<Rightarrow> path_component list \<Rightarrow> bytes list option" where
  "normal_loop acc [] = Some acc"
| "normal_loop acc (Normal part # cs) = normal_loop (acc @ [part]) cs"
| "normal_loop acc (CurDir # cs) = normal_loop acc cs"
| "normal_loop acc (ParentDir # cs) = (if acc = [] then None else normal_loop (butlast acc) cs)"
| "normal_loop acc (RootDir # cs) = None"

definition normalized :: "path_component list \<Rightarrow> bytes list option" where
  "normalized cs = normal_loop [] cs"

text \<open>\<open>Path::join\<close>: an absolute path replaces what it is joined to.\<close>

definition join_path :: "path_component list \<Rightarrow> bytes \<Rightarrow> path_component list" where
  "join_path cs p = (if path_is_relative p then cs @ path_components p else path_components p)"

definition directory_path :: "bytes list \<Rightarrow> path_component list" where
  "directory_path names = map Normal names"

definition stored_path :: "bytes list \<Rightarrow> string" where
  "stored_path names = encode_path (join_with ''/'' names)"

section \<open>JSON with comments\<close>

text \<open>The first pass blanks comments.  In \<open>Opening\<close> and \<open>Closing\<close> the second byte of a delimiter is next.\<close>

datatype comment_state = Plain | Quoted | Escaped | LineComment | Opening | BlockComment | Closing

fun strip_comments :: "comment_state \<Rightarrow> bytes \<Rightarrow> bytes option" where
  "strip_comments st [] = (if st = BlockComment then None else Some [])"
| "strip_comments Escaped (b # bs) = map_option ((#) b) (strip_comments Quoted bs)"
| "strip_comments Quoted (b # bs) =
     map_option ((#) b) (strip_comments (if b = CHR 0x5C then Escaped else if b = CHR 0x22 then Plain else Quoted) bs)"
| "strip_comments Plain (b # bs) =
     (if b = CHR 0x22 then map_option ((#) b) (strip_comments Quoted bs)
      else if b = CHR ''/'' \<and> prefix ''/'' bs then map_option ((#) (CHR '' '')) (strip_comments LineComment bs)
      else if b = CHR ''/'' \<and> prefix ''*'' bs then map_option ((#) (CHR '' '')) (strip_comments Opening bs)
      else map_option ((#) b) (strip_comments Plain bs))"
| "strip_comments LineComment (b # bs) =
     (if b = LF then map_option ((#) b) (strip_comments Plain bs)
      else map_option ((#) (CHR '' '')) (strip_comments LineComment bs))"
| "strip_comments Opening (b # bs) = map_option ((#) (CHR '' '')) (strip_comments BlockComment bs)"
| "strip_comments BlockComment (b # bs) =
     (if b = CHR ''*'' \<and> prefix ''/'' bs then map_option ((#) (CHR '' '')) (strip_comments Closing bs)
      else map_option ((#) (CHR '' '')) (strip_comments BlockComment bs))"
| "strip_comments Closing (b # bs) = map_option ((#) (CHR '' '')) (strip_comments Plain bs)"

definition closes_next :: "bytes \<Rightarrow> bool" where
  "closes_next bs \<longleftrightarrow> (case dropWhile is_ascii_whitespace bs of b # _ \<Rightarrow> b = CHR '']'' \<or> b = CHR ''}'' | [] \<Rightarrow> False)"

text \<open>The second pass blanks trailing commas.\<close>

fun strip_commas :: "comment_state \<Rightarrow> bytes \<Rightarrow> bytes" where
  "strip_commas st [] = []"
| "strip_commas st (b # bs) =
     (if st = Escaped then b # strip_commas Quoted bs
      else if st = Quoted
      then b # strip_commas (if b = CHR 0x5C then Escaped else if b = CHR 0x22 then Plain else Quoted) bs
      else if b = CHR 0x22 then b # strip_commas Quoted bs
      else (if b = CHR '','' \<and> closes_next bs then CHR '' '' else b) # strip_commas Plain bs)"

definition clean_json :: "bytes \<Rightarrow> bytes option" where
  "clean_json bytes = map_option (strip_commas Plain) (strip_comments Plain bytes)"

definition json_with_comments :: "(bytes \<Rightarrow> json option) \<Rightarrow> bytes \<Rightarrow> json option" where
  "json_with_comments from_slice bytes = (case clean_json bytes of None \<Rightarrow> None | Some clean \<Rightarrow> from_slice clean)"

section \<open>Configuration files\<close>

definition file_at :: "index_db \<Rightarrow> bytes list \<Rightarrow> file_entry option" where
  "file_at db path = find (\<lambda>f. fe_path f = stored_path path) (db_files db)"

definition read_config :: "(bytes \<Rightarrow> json option) \<Rightarrow> index_db \<Rightarrow> bytes list \<Rightarrow> json option" where
  "read_config from_slice db path =
     (case file_at db path of
        None \<Rightarrow> None
      | Some f \<Rightarrow> (case content_of db f of None \<Rightarrow> None | Some bytes \<Rightarrow> json_with_comments from_slice bytes))"

text \<open>The nearest file of the name, from the directory (its names in reverse) up to the root; a file that cannot be
  read hides those above it.\<close>

fun nearest_up :: "(bytes \<Rightarrow> json option) \<Rightarrow> index_db \<Rightarrow> bytes \<Rightarrow> bytes list \<Rightarrow> (bytes list \<times> json) option" where
  "nearest_up from_slice db filename rdir =
     (if file_at db (rev rdir @ [filename]) \<noteq> None
      then map_option (Pair (rev rdir)) (read_config from_slice db (rev rdir @ [filename]))
      else case rdir of [] \<Rightarrow> None | _ # parent \<Rightarrow> nearest_up from_slice db filename parent)"

declare nearest_up.simps [simp del]

definition nearest :: "(bytes \<Rightarrow> json option) \<Rightarrow> index_db \<Rightarrow> bytes list \<Rightarrow> bytes \<Rightarrow> (bytes list \<times> json) option" where
  "nearest from_slice db directory filename = nearest_up from_slice db filename (rev directory)"

definition pattern_match :: "string \<Rightarrow> string \<Rightarrow> string option" where
  "pattern_match pattern name =
     (case split_once (CHR ''*'') pattern of
        Some (pre, suf) \<Rightarrow>
          if CHR ''*'' \<in> set suf then None
          else (case strip_prefix pre name of None \<Rightarrow> None | Some tail \<Rightarrow> strip_suffix suf tail)
      | None \<Rightarrow> if pattern = name then Some [] else None)"

definition replace_star :: "string \<Rightarrow> string \<Rightarrow> string" where
  "replace_star wildcard s = concat (map (\<lambda>c. if c = CHR ''*'' then wildcard else [c]) s)"

definition mapped_paths :: "path_component list \<Rightarrow> string \<Rightarrow> string \<times> json \<Rightarrow> bytes list list" where
  "mapped_paths base name = (\<lambda>(pattern, replacements).
     case pattern_match pattern name of
       None \<Rightarrow> []
     | Some wildcard \<Rightarrow>
         List.map_filter (\<lambda>replacement.
             if length (filter (\<lambda>c. c = CHR ''*'') replacement) > 1 then None
             else normalized (join_path base (replace_star wildcard replacement)))
           (take 32 (List.map_filter as_str (case as_array replacements of Some vs \<Rightarrow> vs | None \<Rightarrow> []))))"

definition typescript :: "(bytes \<Rightarrow> json option) \<Rightarrow> index_db \<Rightarrow> bytes list \<Rightarrow> string \<Rightarrow> bytes list list" where
  "typescript from_slice db directory0 name =
     (case (case nearest from_slice db directory0 ''tsconfig.json'' of
              Some config \<Rightarrow> Some config
            | None \<Rightarrow> nearest from_slice db directory0 ''jsconfig.json'') of
        None \<Rightarrow> []
      | Some (directory, config) \<Rightarrow>
          if json_has ''extends'' config then []
          else
            let options = json_get ''compilerOptions'' config;
                base_url = as_str (json_get ''baseUrl'' options);
                base = join_path (directory_path directory) (case base_url of Some b \<Rightarrow> b | None \<Rightarrow> ''.'')
            in (case json_get ''paths'' options of JObj mapping \<Rightarrow> concat (map (mapped_paths base name) mapping) | _ \<Rightarrow> [])
               @ (if base_url \<noteq> None then (case normalized (join_path base name) of Some p \<Rightarrow> [p] | None \<Rightarrow> []) else []))"

definition option_list :: "'a option \<Rightarrow> 'a list" where
  "option_list x = (case x of Some y \<Rightarrow> [y] | None \<Rightarrow> [])"

definition luau :: "(bytes \<Rightarrow> json option) \<Rightarrow> index_db \<Rightarrow> bytes list \<Rightarrow> string \<Rightarrow> bytes list list" where
  "luau from_slice db directory0 name0 =
     (case nearest from_slice db directory0 ''.luaurc'' of
        None \<Rightarrow> []
      | Some (directory, config) \<Rightarrow>
          (case strip_prefix ''@'' name0 of
             None \<Rightarrow> []
           | Some name \<Rightarrow>
               let (alias, tail) = (case split_once (CHR ''/'') name of Some r \<Rightarrow> r | None \<Rightarrow> (name, []))
               in case as_str (json_get alias (json_get ''aliases'' config)) of
                    None \<Rightarrow> []
                  | Some mapping \<Rightarrow>
                      option_list (normalized (join_path (join_path (directory_path directory) mapping) tail))))"

fun rojo_walk :: "bytes list \<Rightarrow> json \<Rightarrow> bytes list option \<Rightarrow> string list \<Rightarrow> bytes list option" where
  "rojo_walk directory node matched [] = matched"
| "rojo_walk directory node matched (segment # segments) =
     (let child = json_get segment node
      in if child = JNull then matched
         else
           (case as_str (json_get (CHR 0x24 # ''path'') child) of
              None \<Rightarrow> rojo_walk directory child matched segments
            | Some path \<Rightarrow>
                rojo_walk directory child (normalized (fold (\<lambda>s p. join_path p s) segments (join_path (directory_path directory) path)))
                  segments))"

definition rojo :: "(bytes \<Rightarrow> json option) \<Rightarrow> index_db \<Rightarrow> string \<Rightarrow> bytes list list" where
  "rojo from_slice db name0 =
     (case read_config from_slice db [''trufflepig.json''] of
        None \<Rightarrow> []
      | Some config \<Rightarrow>
          (case (case as_str (json_get ''rojo_project'' config) of None \<Rightarrow> None | Some p \<Rightarrow> normalized (path_components p)) of
             None \<Rightarrow> []
           | Some project \<Rightarrow>
               (case read_config from_slice db project of
                  None \<Rightarrow> []
                | Some project_config \<Rightarrow>
                    let name = map (\<lambda>c. if c = CHR ''.'' then CHR ''/'' else c)
                          (case strip_prefix ''game.'' name0 of Some n \<Rightarrow> n | None \<Rightarrow> name0)
                    in option_list (rojo_walk (butlast project) (json_get ''tree'' project_config) None (split_char (CHR ''/'') name)))))"

section \<open>Candidates\<close>

definition file_extension :: "bytes \<Rightarrow> bytes option" where
  "file_extension name =
     (case rsplit_once (CHR ''.'') name of None \<Rightarrow> None | Some (stem, ext) \<Rightarrow> if stem = [] then None else Some ext)"

definition path_extension :: "bytes list \<Rightarrow> bytes option" where
  "path_extension path = (if path = [] then None else file_extension (last path))"

definition with_extension :: "bytes list \<Rightarrow> bytes \<Rightarrow> bytes list" where
  "with_extension path ext =
     (if path = [] then []
      else
        let name = last path;
            stem = (case rsplit_once (CHR ''.'') name of None \<Rightarrow> name | Some (s, _) \<Rightarrow> if s = [] then name else s)
        in butlast path @ [stem @ ''.'' @ ext])"

definition variants :: "bytes list \<Rightarrow> string \<Rightarrow> bytes list list" where
  "variants path language =
     (if language = ''dreammaker'' then [path]
      else
        let extensions = (if language = ''luau'' then [''luau'', ''lua'']
              else [''ts'', ''tsx'', ''js'', ''jsx'', ''mts'', ''cts'', ''mjs'', ''cjs'']);
            index_name = (if language = ''luau'' then ''init'' else ''index'')
        in path #
           (if path_extension path = None
            then concat (map (\<lambda>ext. [with_extension path ext, with_extension (path @ [index_name]) ext]) extensions)
            else if language \<noteq> ''luau'' \<and> path_extension path \<in> {Some ''js'', Some ''jsx''}
            then [with_extension path ''ts'', with_extension path ''tsx'']
            else []))"

definition module_at :: "index_db \<Rightarrow> bytes list \<Rightarrow> int option" where
  "module_at db path =
     map_option de_id (find (\<lambda>d. de_kind d = ''module'' \<and> map_option fe_path (file_of db (de_file d)) = Some (stored_path path))
       (db_definitions db))"

definition import_paths :: "(bytes \<Rightarrow> json option) \<Rightarrow> index_db \<Rightarrow> bytes list \<Rightarrow> string \<Rightarrow> string \<Rightarrow> string \<Rightarrow> bytes list list \<times> string" where
  "import_paths from_slice db directory name language role =
     (if role = ''include'' then
        let included = map (\<lambda>c. if c = CHR 0x5C then CHR ''/'' else c) name
        in (option_list (normalized (join_path (directory_path directory) included))
              @ option_list (normalized (path_components included)), ''observed_include_path'')
      else if prefix ''./'' name \<or> prefix ''../'' name
      then (option_list (normalized (join_path (directory_path directory) name)), ''relative_module_path'')
      else if language = ''luau'' then
        if prefix ''@'' name then (luau from_slice db directory name, ''luaurc_alias'')
        else (rojo from_slice db name, ''configured_rojo_mapping'')
      else if language = ''typescript'' \<or> language = ''javascript''
      then (typescript from_slice db directory name, ''typescript_paths'')
      else ([], ''relative_module_path''))"

definition import_candidates :: "index_db \<Rightarrow> bytes list list \<Rightarrow> string \<Rightarrow> int list" where
  "import_candidates db paths language =
     remdups_adj (sort (List.map_filter (module_at db) (concat (map (\<lambda>path. variants path language) (take 64 paths)))))"

section \<open>The pass over the occurrences\<close>

record relationship_entry =
  le_source :: int
  le_target :: "int option"
  le_kind :: string
  le_file :: int
  le_start :: nat
  le_end :: nat
  le_provenance :: string

definition show_int :: "int \<Rightarrow> string" where
  "show_int n = (if n < 0 then CHR ''-'' # show_nat (nat (- n)) else show_nat (nat n))"

definition id_list_text :: "int list \<Rightarrow> string" where
  "id_list_text ids = ''['' @ join_with '','' (map show_int ids) @ '']''"

definition module_target :: "index_db \<Rightarrow> bytes list \<Rightarrow> string \<Rightarrow> string \<Rightarrow> string \<Rightarrow> int list \<Rightarrow> int option" where
  "module_target db directory name role provenance candidates =
     (let exact_target = (case normalized (join_path (directory_path directory) name) of
            None \<Rightarrow> None | Some exact \<Rightarrow> module_at db exact)
      in case candidates of
           [candidate] \<Rightarrow>
             if role = ''import_path'' \<and> provenance = ''relative_module_path'' \<and> exact_target = Some candidate
             then Some candidate else None
         | _ \<Rightarrow> None)"

definition relationship_kind :: "string \<Rightarrow> int option \<Rightarrow> string" where
  "relationship_kind role target =
     (if role = ''include'' then ''include_candidate'' else if target \<noteq> None then ''import'' else ''import_candidate'')"

definition module_rows :: "index_db \<Rightarrow> occurrence_entry \<Rightarrow> int option \<Rightarrow> int list \<Rightarrow> relationship_entry list" where
  "module_rows db oc target candidates =
     concat (map (\<lambda>candidate.
       map (\<lambda>d. \<lparr>le_source = de_id d, le_target = Some candidate, le_kind = relationship_kind (oe_role oc) target,
            le_file = oe_file oc, le_start = oe_start oc, le_end = oe_end oc, le_provenance = oe_provenance oc\<rparr>)
         (filter (\<lambda>d. de_file d = oe_file oc \<and> de_kind d = ''module'') (db_definitions db))) candidates)"

definition skipped_name :: "string \<Rightarrow> string \<Rightarrow> bool" where
  "skipped_name name role \<longleftrightarrow> (CHR 0x5C \<in> set name \<and> role \<noteq> ''include'') \<or> CHR 0x00 \<in> set name"

definition resolve_import :: "(bytes \<Rightarrow> json option) \<Rightarrow> index_db \<Rightarrow> file_entry \<Rightarrow> occurrence_entry \<Rightarrow>
    (occurrence_entry \<times> relationship_entry list) result" where
  "resolve_import from_slice db f oc =
     (if skipped_name (oe_name oc) (oe_role oc) then Inr (oc, [])
      else
        (case decode_path (fe_path f) of
           Inl e \<Rightarrow> Inl e
         | Inr source \<Rightarrow>
             let directory = butlast (split_char (CHR ''/'') source);
                 (paths, provenance) = import_paths from_slice db directory (oe_name oc) (fe_language f) (oe_role oc);
                 candidates = import_candidates db paths (fe_language f);
                 target = module_target db directory (oe_name oc) (oe_role oc) provenance candidates
             in if candidates = [] then Inr (oc, [])
                else
                  let oc' = oc\<lparr>oe_target := target, oe_candidates := id_list_text candidates,
                              oe_provenance := oe_provenance oc @ '';'' @ provenance\<rparr>
                  in Inr (oc', module_rows db oc' target candidates)))"

fun resolve_rows :: "(bytes \<Rightarrow> json option) \<Rightarrow> index_db \<Rightarrow> occurrence_entry list \<Rightarrow>
    (occurrence_entry list \<times> relationship_entry list) result" where
  "resolve_rows from_slice db [] = Inr ([], [])"
| "resolve_rows from_slice db (oc # ocs) =
     (case (if oe_role oc \<in> {''require'', ''import_path'', ''include''}
            then (case file_of db (oe_file oc) of None \<Rightarrow> Inr (oc, []) | Some f \<Rightarrow> resolve_import from_slice db f oc)
            else Inr (oc, [])) of
        Inl e \<Rightarrow> Inl e
      | Inr (oc', rows) \<Rightarrow>
          (case resolve_rows from_slice db ocs of
             Inl e \<Rightarrow> Inl e
           | Inr (ocs', rows') \<Rightarrow> Inr (oc' # ocs', rows @ rows')))"

text \<open>An error leaves both tables as they were.\<close>

definition resolve_modules :: "(bytes \<Rightarrow> json option) \<Rightarrow> index_db \<Rightarrow> relationship_entry list \<Rightarrow>
    (index_db \<times> relationship_entry list) result" where
  "resolve_modules from_slice db rels =
     (case resolve_rows from_slice db (db_occurrences db) of
        Inl e \<Rightarrow> Inl e
      | Inr (ocs, rows) \<Rightarrow> Inr (db\<lparr>db_occurrences := ocs\<rparr>, rels @ rows))"

section \<open>Cleaning keeps the literals\<close>

text \<open>The bytes of the string literals, quotes included, outside comments.\<close>

fun literal_bytes :: "comment_state \<Rightarrow> bytes \<Rightarrow> bytes" where
  "literal_bytes st [] = []"
| "literal_bytes Escaped (b # bs) = b # literal_bytes Quoted bs"
| "literal_bytes Quoted (b # bs) = b # literal_bytes (if b = CHR 0x5C then Escaped else if b = CHR 0x22 then Plain else Quoted) bs"
| "literal_bytes Plain (b # bs) =
     (if b = CHR 0x22 then b # literal_bytes Quoted bs
      else if b = CHR ''/'' \<and> prefix ''/'' bs then literal_bytes LineComment bs
      else if b = CHR ''/'' \<and> prefix ''*'' bs then literal_bytes Opening bs
      else literal_bytes Plain bs)"
| "literal_bytes LineComment (b # bs) = literal_bytes (if b = LF then Plain else LineComment) bs"
| "literal_bytes Opening (b # bs) = literal_bytes BlockComment bs"
| "literal_bytes BlockComment (b # bs) = literal_bytes (if b = CHR ''*'' \<and> prefix ''/'' bs then Closing else BlockComment) bs"
| "literal_bytes Closing (b # bs) = literal_bytes Plain bs"

fun outside :: "comment_state \<Rightarrow> comment_state" where
  "outside Quoted = Quoted"
| "outside Escaped = Escaped"
| "outside _ = Plain"

lemma outside_not_block [simp]: "outside st \<noteq> BlockComment"
  by (cases st) auto

definition blanked :: "bytes \<Rightarrow> bytes \<Rightarrow> bool" where
  "blanked = list_all2 (\<lambda>b c. c = b \<or> c = CHR '' '')"

lemma blanked_simps [simp]:
  "blanked [] t \<longleftrightarrow> t = []" "blanked (b # bs) (c # cs) \<longleftrightarrow> (c = b \<or> c = CHR '' '') \<and> blanked bs cs"
  by (auto simp: blanked_def)

lemma blanked_refl [simp]: "blanked bs bs"
  by (induction bs) auto

lemma blanked_trans: "blanked a b \<Longrightarrow> blanked b c \<Longrightarrow> blanked a c"
  unfolding blanked_def by (rule list_all2_trans) auto

lemma blanked_prefix: "blanked bs cs \<Longrightarrow> x \<noteq> CHR '' '' \<Longrightarrow> prefix [x] cs \<Longrightarrow> prefix [x] bs"
  by (cases bs; cases cs) auto

lemma strip_comments_blanked: "strip_comments st s = Some t \<Longrightarrow> blanked s t"
  by (induction st s arbitrary: t rule: strip_comments.induct) (auto split: if_splits)

lemma strip_comments_clean:
  "strip_comments st s = Some t \<Longrightarrow>
     strip_comments (outside st) t = Some t \<and> literal_bytes (outside st) t = literal_bytes st s"
proof (induction st s arbitrary: t rule: strip_comments.induct)
  case (4 b bs)
  show ?case
  proof (cases "b = CHR 0x22 \<or> b = CHR ''/'' \<and> (prefix ''/'' bs \<or> prefix ''*'' bs)")
    case True
    with 4 show ?thesis by (elim disjE conjE) auto
  next
    case False
    with "4.prems" obtain u where u: "strip_comments Plain bs = Some u" "t = b # u" by (auto split: if_splits)
    have "\<not> (b = CHR ''/'' \<and> prefix ''/'' u)" "\<not> (b = CHR ''/'' \<and> prefix ''*'' u)"
      using False blanked_prefix [OF strip_comments_blanked [OF u(1)]] by auto
    with 4 False u show ?thesis by (cases "b = CHR ''/''") simp_all
  qed
qed (auto split: if_splits)

lemma strip_commas_blanked: "blanked s (strip_commas st s)"
  by (induction st s rule: strip_commas.induct) (auto split: if_splits)

lemma strip_commas_clean:
  "strip_comments st s = Some s \<Longrightarrow> st = outside st \<Longrightarrow>
     strip_comments st (strip_commas st s) = Some (strip_commas st s) \<and> literal_bytes st (strip_commas st s) = literal_bytes st s"
proof (induction st s rule: strip_commas.induct)
  case (2 st b bs)
  consider "st = Escaped" | "st = Quoted" | "st = Plain" "b = CHR 0x22" | "st = Plain" "b \<noteq> CHR 0x22"
    using "2.prems"(2) by (cases st) auto
  then show ?case
  proof cases
    case 4
    have kept: "prefix [x] bs" if "prefix [x] (strip_commas Plain bs)" "x \<noteq> CHR '' ''" for x
      using blanked_prefix [OF strip_commas_blanked] that by blast
    from "2.prems" 4 have bs: "strip_comments Plain bs = Some bs" "\<not> (b = CHR ''/'' \<and> prefix ''/'' bs)"
      "\<not> (b = CHR ''/'' \<and> prefix ''*'' bs)"
      by (auto split: if_splits)
    have "strip_comments Plain (strip_commas Plain bs) = Some (strip_commas Plain bs)
        \<and> literal_bytes Plain (strip_commas Plain bs) = literal_bytes Plain bs"
      using "2.IH"(4) 4 bs by simp
    with 4 bs kept [of "CHR ''/''"] kept [of "CHR ''*''"] show ?thesis by (cases "b = CHR ''/''") auto
  qed (use 2 in \<open>auto split: if_splits\<close>)
qed simp

text \<open>
  Cleaning a configuration file blanks bytes and changes nothing else: every byte is kept or becomes a space, so
  offsets stay; the string literals are those of the original text, comment and comma characters inside them included;
  and no comment is left for the JSON parser.
\<close>

theorem clean_json_keeps_literals:
  assumes "clean_json s = Some t"
  shows "blanked s t \<and> length t = length s \<and> literal_bytes Plain t = literal_bytes Plain s \<and> strip_comments Plain t = Some t"
proof -
  from assms obtain u where u: "strip_comments Plain s = Some u" "t = strip_commas Plain u"
    by (auto simp: clean_json_def)
  from strip_comments_clean [OF u(1)] have clean: "strip_comments Plain u = Some u" "literal_bytes Plain u = literal_bytes Plain s"
    by simp_all
  have "blanked s t"
    using strip_comments_blanked [OF u(1)] strip_commas_blanked [of u Plain] u(2) blanked_trans by blast
  moreover from this have "length t = length s" unfolding blanked_def by (simp add: list_all2_lengthD)
  ultimately show ?thesis using strip_commas_clean [OF clean(1)] clean(2) u(2) by simp
qed

theorem clean_json_keeps_literals_witness:
  "\<exists>t. clean_json ''{ /* // */ 1, } // x'' = Some t \<and> blanked ''{ /* // */ 1, } // x'' t \<and> strip_comments Plain t = Some t
     \<and> t = ''{          1  }     ''"
proof -
  have run: "clean_json ''{ /* // */ 1, } // x'' = Some ''{          1  }     ''" by code_simp
  from clean_json_keeps_literals [OF run] run show ?thesis by simp
qed

section \<open>Lexical normalisation\<close>

definition names_of :: "path_component list \<Rightarrow> bytes list" where
  "names_of cs = List.map_filter (\<lambda>c. case c of Normal n \<Rightarrow> Some n | _ \<Rightarrow> None) cs"

definition depth :: "path_component list \<Rightarrow> int" where
  "depth cs = int (length (names_of cs)) - int (length (filter (\<lambda>c. c = ParentDir) cs))"

lemma depth_simps [simp]:
  "depth [] = 0" "depth (Normal n # cs) = depth cs + 1" "depth (CurDir # cs) = depth cs"
  "depth (ParentDir # cs) = depth cs - 1" "depth (RootDir # cs) = depth cs"
  by (simp_all add: depth_def names_of_def List.map_filter_simps)

lemma names_of_simps [simp]:
  "names_of [] = []" "names_of (Normal n # cs) = n # names_of cs" "names_of (CurDir # cs) = names_of cs"
  "names_of (ParentDir # cs) = names_of cs" "names_of (RootDir # cs) = names_of cs"
  by (simp_all add: names_of_def List.map_filter_simps)

lemma all_take_Cons: "(\<forall>k \<le> length (x # xs). P (take k (x # xs))) \<longleftrightarrow> P [] \<and> (\<forall>k \<le> length xs. P (x # take k xs))"
proof
  assume all: "\<forall>k \<le> length (x # xs). P (take k (x # xs))"
  have "P (x # take k xs)" if "k \<le> length xs" for k using all [rule_format, of "Suc k"] that by simp
  with all [rule_format, of 0] show "P [] \<and> (\<forall>k \<le> length xs. P (x # take k xs))" by simp
next
  assume "P [] \<and> (\<forall>k \<le> length xs. P (x # take k xs))"
  then show "\<forall>k \<le> length (x # xs). P (take k (x # xs))" by (auto simp: take_Cons' split: if_splits)
qed

lemma normal_loop_exact:
  "(\<exists>names. normal_loop acc cs = Some names)
     \<longleftrightarrow> RootDir \<notin> set cs \<and> (\<forall>k \<le> length cs. 0 \<le> int (length acc) + depth (take k cs))"
proof (induction acc cs rule: normal_loop.induct)
  case (4 acc cs)
  show ?case
  proof (cases "acc = []")
    case True
    have "\<not> 0 \<le> int (length acc) + depth (take 1 (ParentDir # cs))" using True by simp
    with True show ?thesis by (metis One_nat_def le_add1 length_Cons normal_loop.simps(4) option.distinct(1) plus_1_eq_Suc)
  next
    case False
    then have "int (length (butlast acc)) = int (length acc) - 1" by (cases acc) auto
    with 4 [OF False] False show ?thesis
      unfolding all_take_Cons [of ParentDir cs "\<lambda>xs. 0 \<le> int (length acc) + depth xs"] by (simp add: algebra_simps)
  qed
next
  case (2 acc part cs)
  then show ?case
    unfolding all_take_Cons [of "Normal part" cs "\<lambda>xs. 0 \<le> int (length acc) + depth xs"] by (simp add: algebra_simps)
next
  case (3 acc cs)
  then show ?case
    unfolding all_take_Cons [of CurDir cs "\<lambda>xs. 0 \<le> int (length acc) + depth xs"] by simp
qed auto

lemma normal_loop_names: "normal_loop acc cs = Some names \<Longrightarrow> set names \<subseteq> set acc \<union> set (names_of cs)"
  by (induction acc cs rule: normal_loop.induct) (auto split: if_splits dest: in_set_butlastD)

text \<open>
  \<open>normalized\<close> resolves \<open>.\<close> and \<open>..\<close> lexically and never leaves the root: it succeeds exactly when the path is
  relative and no prefix of it has more \<open>..\<close> than names, and the result consists of names of the path.
\<close>

theorem normalized_confined:
  "(normalized cs \<noteq> None \<longleftrightarrow> RootDir \<notin> set cs \<and> (\<forall>k \<le> length cs. 0 \<le> depth (take k cs)))
   \<and> (\<forall>names. normalized cs = Some names \<longrightarrow> set names \<subseteq> set (names_of cs))"
  using normal_loop_exact [of "[]" cs] normal_loop_names [of "[]" cs] by (auto simp: normalized_def)

section \<open>What the pass does\<close>

definition module_of_path :: "index_db \<Rightarrow> bytes list \<Rightarrow> int \<Rightarrow> bool" where
  "module_of_path db path i \<longleftrightarrow>
     (\<exists>d f. d \<in> set (db_definitions db) \<and> de_id d = i \<and> de_kind d = ''module'' \<and> file_of db (de_file d) = Some f
        \<and> fe_path f = stored_path path)"

definition resolved_to :: "(bytes \<Rightarrow> json option) \<Rightarrow> index_db \<Rightarrow> occurrence_entry \<Rightarrow> occurrence_entry \<Rightarrow> int list \<Rightarrow> bool" where
  "resolved_to from_slice db oc oc' candidates \<longleftrightarrow>
     (\<exists>f source directory paths provenance.
        file_of db (oe_file oc) = Some f \<and> decode_path (fe_path f) = Inr source
        \<and> directory = butlast (split_char (CHR ''/'') source)
        \<and> import_paths from_slice db directory (oe_name oc) (fe_language f) (oe_role oc) = (paths, provenance)
        \<and> oc' = oc\<lparr>oe_target := oe_target oc', oe_candidates := id_list_text candidates,
                    oe_provenance := oe_provenance oc @ '';'' @ provenance\<rparr>
        \<and> candidates \<noteq> [] \<and> sorted_wrt (<) candidates
        \<and> (\<forall>i. i \<in> set candidates \<longleftrightarrow> (\<exists>path \<in> set (take 64 paths). \<exists>v \<in> set (variants path (fe_language f)). module_at db v = Some i))
        \<and> (\<forall>t. oe_target oc' = Some t \<longrightarrow>
             candidates = [t] \<and> oe_role oc = ''import_path'' \<and> (prefix ''./'' (oe_name oc) \<or> prefix ''../'' (oe_name oc))
             \<and> (\<exists>exact. normalized (join_path (directory_path directory) (oe_name oc)) = Some exact \<and> module_of_path db exact t)))"

lemma module_at_path: "module_at db path = Some i \<Longrightarrow> module_of_path db path i"
  by (auto simp: module_at_def module_of_path_def find_Some_iff) (metis nth_mem)

lemma sorted_remdups_adj_strict: "sorted (xs :: int list) \<Longrightarrow> sorted_wrt (<) (remdups_adj xs)"
  by (induction xs rule: remdups_adj.induct) (auto simp: order_less_le)

lemma import_candidates_mem:
  "i \<in> set (import_candidates db paths language)
     \<longleftrightarrow> (\<exists>path \<in> set (take 64 paths). \<exists>v \<in> set (variants path language). module_at db v = Some i)"
  by (auto simp: import_candidates_def map_filter_mem)

lemma import_paths_relative:
  assumes "import_paths from_slice db directory name language role = (paths, ''relative_module_path'')" "paths \<noteq> []"
  shows "prefix ''./'' name \<or> prefix ''../'' name"
  using assms by (auto simp: import_paths_def Let_def split: if_splits)

lemma module_target_Some:
  "module_target db directory name role provenance candidates = Some t \<Longrightarrow>
     candidates = [t] \<and> role = ''import_path'' \<and> provenance = ''relative_module_path''
     \<and> (\<exists>exact. normalized (join_path (directory_path directory) name) = Some exact \<and> module_at db exact = Some t)"
  by (auto simp: module_target_def Let_def split: list.splits if_splits option.splits)

lemma module_rows_mem:
  "r \<in> set (module_rows db oc target candidates) \<Longrightarrow>
     (\<exists>c \<in> set candidates. le_target r = Some c) \<and> le_file r = oe_file oc
     \<and> (\<exists>d \<in> set (db_definitions db). de_id d = le_source r \<and> de_file d = oe_file oc \<and> de_kind d = ''module'')"
  by (auto simp: module_rows_def)

text \<open>What one occurrence may contribute: nothing, or its candidates with their relationships.\<close>

definition module_outcome :: "(bytes \<Rightarrow> json option) \<Rightarrow> index_db \<Rightarrow> occurrence_entry \<Rightarrow> occurrence_entry \<Rightarrow> relationship_entry list \<Rightarrow> bool" where
  "module_outcome from_slice db oc oc' rows \<longleftrightarrow>
     oc' = oc \<and> rows = []
     \<or> (\<exists>candidates. resolved_to from_slice db oc oc' candidates \<and> rows = module_rows db oc' (oe_target oc') candidates)"

lemma resolve_import_outcome:
  assumes "resolve_import from_slice db f oc = Inr (oc', rows)" "file_of db (oe_file oc) = Some f"
  shows "module_outcome from_slice db oc oc' rows"
proof (cases "oc' = oc \<and> rows = []")
  case False
  with assms(1) obtain source where source: "decode_path (fe_path f) = Inr source"
    by (auto simp: resolve_import_def split: if_splits sum.splits)
  define directory where "directory = butlast (split_char (CHR ''/'') source)"
  obtain paths provenance where paths:
    "import_paths from_slice db directory (oe_name oc) (fe_language f) (oe_role oc) = (paths, provenance)" by force
  define candidates where "candidates = import_candidates db paths (fe_language f)"
  define target where "target = module_target db directory (oe_name oc) (oe_role oc) provenance candidates"
  from assms(1) False have out: "candidates \<noteq> []"
    "oc' = oc\<lparr>oe_target := target, oe_candidates := id_list_text candidates, oe_provenance := oe_provenance oc @ '';'' @ provenance\<rparr>"
    "rows = module_rows db oc' target candidates"
    by (auto simp: resolve_import_def source directory_def [symmetric] paths candidates_def [symmetric]
        target_def [symmetric] Let_def split: if_splits)
  have "paths \<noteq> []" using out(1) by (auto simp: candidates_def import_candidates_def)
  have target: "candidates = [t] \<and> oe_role oc = ''import_path'' \<and> (prefix ''./'' (oe_name oc) \<or> prefix ''../'' (oe_name oc))
      \<and> (\<exists>exact. normalized (join_path (directory_path directory) (oe_name oc)) = Some exact \<and> module_of_path db exact t)"
    if "target = Some t" for t
    using module_target_Some [OF that [unfolded target_def]] import_paths_relative [of from_slice db directory] paths
      \<open>paths \<noteq> []\<close> module_at_path by blast
  have "resolved_to from_slice db oc oc' candidates"
    unfolding resolved_to_def
    by (rule exI [of _ f], rule exI [of _ source], rule exI [of _ directory], rule exI [of _ paths], rule exI [of _ provenance])
       (use assms(2) source directory_def paths out target import_candidates_mem [of _ db paths "fe_language f"] in
         \<open>simp add: candidates_def sorted_remdups_adj_strict import_candidates_def [of db paths]\<close>)
  with out show ?thesis by (auto simp: module_outcome_def)
qed (simp add: module_outcome_def)

lemma resolve_rows_outcome:
  "resolve_rows from_slice db ocs = Inr (ocs', rows) \<Longrightarrow>
     \<exists>parts. length parts = length ocs \<and> length ocs' = length ocs \<and> rows = concat parts
       \<and> (\<forall>i < length ocs. module_outcome from_slice db (ocs ! i) (ocs' ! i) (parts ! i))"
proof (induction ocs arbitrary: ocs' rows)
  case (Cons oc ocs)
  from Cons.prems obtain oc' part ocs1 rows1 where rest: "resolve_rows from_slice db ocs = Inr (ocs1, rows1)"
    "ocs' = oc' # ocs1" "rows = part @ rows1"
    and head: "(if oe_role oc \<in> {''require'', ''import_path'', ''include''}
            then (case file_of db (oe_file oc) of None \<Rightarrow> Inr (oc, []) | Some f \<Rightarrow> resolve_import from_slice db f oc)
            else Inr (oc, [])) = Inr (oc', part)"
    by (auto split: sum.splits)
  from head have "module_outcome from_slice db oc oc' part"
    by (auto simp: module_outcome_def [of _ _ _ _ "[]"] intro: resolve_import_outcome split: if_splits option.splits)
  moreover from Cons.IH [OF rest(1)] obtain parts where "length parts = length ocs" "length ocs1 = length ocs"
    "rows1 = concat parts" "\<forall>i < length ocs. module_outcome from_slice db (ocs ! i) (ocs1 ! i) (parts ! i)" by blast
  ultimately show ?case using rest
    by (intro exI [of _ "part # parts"]) (auto simp: nth_Cons split: nat.splits)
qed simp

text \<open>
  C11. Module resolution touches only what it resolves.  Every occurrence keeps its place and is either unchanged or
  gets as candidates exactly the modules found at the variants of its first 64 paths, in increasing order and without
  repetition.  A definite target is set only for an \<open>import_path\<close> spelled relatively, when its single candidate is the
  module of the very file that the spelling normalises to.  Relationships are only added, for those candidates, from
  modules of the importing file.
\<close>

theorem module_resolution_sound:
  assumes "resolve_modules from_slice db rels = Inr (db', rels')"
  shows "db'\<lparr>db_occurrences := db_occurrences db\<rparr> = db \<and> length (db_occurrences db') = length (db_occurrences db)
    \<and> (\<forall>i < length (db_occurrences db). db_occurrences db' ! i = db_occurrences db ! i
         \<or> (\<exists>candidates. resolved_to from_slice db (db_occurrences db ! i) (db_occurrences db' ! i) candidates))
    \<and> (\<exists>rows. rels' = rels @ rows \<and> (\<forall>r \<in> set rows. \<exists>i candidates c. i < length (db_occurrences db)
         \<and> resolved_to from_slice db (db_occurrences db ! i) (db_occurrences db' ! i) candidates
         \<and> c \<in> set candidates \<and> le_target r = Some c
         \<and> (\<exists>d \<in> set (db_definitions db). de_id d = le_source r \<and> de_kind d = ''module''
              \<and> de_file d = oe_file (db_occurrences db ! i))))"
proof -
  let ?ocs = "db_occurrences db"
  from assms obtain ocs rows where r: "resolve_rows from_slice db ?ocs = Inr (ocs, rows)"
    "db' = db\<lparr>db_occurrences := ocs\<rparr>" "rels' = rels @ rows"
    by (auto simp: resolve_modules_def split: sum.splits)
  from resolve_rows_outcome [OF r(1)] obtain parts where parts: "length parts = length ?ocs" "length ocs = length ?ocs"
    "rows = concat parts" "\<forall>i < length ?ocs. module_outcome from_slice db (?ocs ! i) (ocs ! i) (parts ! i)" by blast
  have row: "\<exists>i candidates c. i < length ?ocs \<and> resolved_to from_slice db (?ocs ! i) (ocs ! i) candidates
      \<and> c \<in> set candidates \<and> le_target x = Some c
      \<and> (\<exists>d \<in> set (db_definitions db). de_id d = le_source x \<and> de_kind d = ''module'' \<and> de_file d = oe_file (?ocs ! i))"
    if "x \<in> set rows" for x
  proof -
    from that parts obtain i where i: "i < length ?ocs" "x \<in> set (parts ! i)" by (metis in_set_conv_nth set_concat UN_E)
    with parts(4) obtain candidates where c: "resolved_to from_slice db (?ocs ! i) (ocs ! i) candidates"
      "x \<in> set (module_rows db (ocs ! i) (oe_target (ocs ! i)) candidates)"
      by (force simp: module_outcome_def)
    moreover from c(1) have "oe_file (ocs ! i) = oe_file (?ocs ! i)"
      unfolding resolved_to_def by (metis occurrence_entry.select_convs(2) occurrence_entry.surjective
        occurrence_entry.update_convs(7,8,9))
    ultimately show ?thesis using i module_rows_mem [OF c(2)] by auto
  qed
  have "\<forall>i < length ?ocs. ocs ! i = ?ocs ! i \<or> (\<exists>candidates. resolved_to from_slice db (?ocs ! i) (ocs ! i) candidates)"
    using parts(4) by (auto simp: module_outcome_def)
  with row r parts(2) show ?thesis by auto
qed

definition module_index :: index_db where
  "module_index = \<lparr>db_generation = 1, db_coverage = JNull, db_contents = [],
     db_files = [\<lparr>fe_id = 1, fe_path = ''src/a.ts'', fe_revision = None, fe_language = ''typescript''\<rparr>,
                 \<lparr>fe_id = 2, fe_path = ''lib/b.ts'', fe_revision = None, fe_language = ''typescript''\<rparr>],
     db_definitions =
       [\<lparr>de_id = 10, de_file = 1, de_name = ''src/a.ts'', de_kind = ''module'', de_start = 0, de_end = 9, de_container = None\<rparr>,
        \<lparr>de_id = 20, de_file = 2, de_name = ''lib/b.ts'', de_kind = ''module'', de_start = 0, de_end = 9, de_container = None\<rparr>],
     db_occurrences =
       [\<lparr>oe_id = 5, oe_file = 1, oe_name = ''../lib/b.ts'', oe_start = 0, oe_end = 9, oe_role = ''import_path'', oe_target = None,
          oe_candidates = ''[]'', oe_provenance = ''syntax''\<rparr>], db_regions = []\<rparr>"

theorem module_resolution_sound_witness:
  "\<exists>db' rels'. resolve_modules (\<lambda>_. None) module_index [] = Inr (db', rels')
     \<and> map oe_target (db_occurrences db') = [Some 20] \<and> map le_kind rels' = [''import'']
     \<and> (\<exists>candidates. resolved_to (\<lambda>_. None) module_index (db_occurrences module_index ! 0) (db_occurrences db' ! 0) candidates)"
proof -
  define out where "out = projr (resolve_modules (\<lambda>_. None) module_index [])"
  have shape: "resolve_modules (\<lambda>_. None) module_index [] = Inr out
      \<and> map oe_target (db_occurrences (fst out)) = [Some 20] \<and> map le_kind (snd out) = [''import'']
      \<and> length (db_occurrences module_index) = 1 \<and> oe_target (db_occurrences module_index ! 0) = None"
    unfolding out_def by code_simp
  then have run: "resolve_modules (\<lambda>_. None) module_index [] = Inr (fst out, snd out)" by simp
  from shape have "oe_target (db_occurrences (fst out) ! 0) = Some 20" by (cases "db_occurrences (fst out)") auto
  with module_resolution_sound [OF run] shape have found: "\<exists>candidates. resolved_to (\<lambda>_. None) module_index
      (db_occurrences module_index ! 0) (db_occurrences (fst out) ! 0) candidates" by force
  from shape have "map oe_target (db_occurrences (fst out)) = [Some 20]" "map le_kind (snd out) = [''import'']" by blast+
  note facts = run this found
  show ?thesis by (rule exI [of _ "fst out"], rule exI [of _ "snd out"]) (intro conjI facts)
qed

end
