(* ===== verification/TP_Protocol.thy ===== *)
theory TP_Protocol
  imports TP_Prelude "HOL-Library.Word"
begin

text \<open>
  \<open>src/daemon/protocol.rs\<close>: length-prefixed frames between a client and the daemon, the validation of requests and the
  replacement of oversized replies.  A stream is the bytes that are still to be read; \<open>serde_json\<close> and the uuid parser
  are arguments.
\<close>

unbundle bit_operations_syntax

section \<open>Messages\<close>

definition REQUEST_LIMIT :: nat where "REQUEST_LIMIT = 64 * 1024"
definition RESPONSE_LIMIT :: nat where "RESPONSE_LIMIT = 4 * 1024 * 1024"
definition ARGUMENT_LIMIT :: nat where "ARGUMENT_LIMIT = 256"

record request_context =
  rc_request_id :: string
  rc_created_unix_micros :: nat
  rc_session :: "string option"
  rc_client :: "string option"

datatype daemon_request = Arguments request_context "string list" | Stop

datatype daemon_reply = Success string | Failure string

fun add_lengths :: "nat option \<Rightarrow> string list \<Rightarrow> nat option" where
  "add_lengths tot [] = tot"
| "add_lengths tot (arg # args) = (case tot of None \<Rightarrow> None | Some n \<Rightarrow> add_lengths (checked_add n (length arg)) args)"

fun DaemonRequest_validate :: "(string \<Rightarrow> 'u option) \<Rightarrow> daemon_request \<Rightarrow> unit result" where
  "DaemonRequest_validate parse_uuid (Arguments ctxt args) =
     (if parse_uuid (rc_request_id ctxt) = None then Inl ''invalid request UUID''
      else if \<not> length args \<le> ARGUMENT_LIMIT then Inl ''too many daemon arguments''
      else
        (case add_lengths (Some 0) args of
           Some bytes \<Rightarrow> if bytes \<le> REQUEST_LIMIT then Inr () else Inl ''daemon arguments too large''
         | None \<Rightarrow> Inl ''daemon arguments too large''))"
| "DaemonRequest_validate parse_uuid Stop = Inr ()"

fun DaemonReply_from_result :: "string result \<Rightarrow> daemon_reply" where
  "DaemonReply_from_result (Inr output) = Success output"
| "DaemonReply_from_result (Inl message) = Failure message"

section \<open>Frames\<close>

definition to_be_bytes :: "32 word \<Rightarrow> bytes" where
  "to_be_bytes w = map (\<lambda>k. char_of (unat (take_bit 8 (drop_bit k w)))) [24, 16, 8, 0]"

definition from_be_bytes :: "bytes \<Rightarrow> 32 word" where
  "from_be_bytes bs = fold (\<lambda>b w. push_bit 8 w OR word_of_nat (byte b)) bs 0"

text \<open>\<open>read_exact\<close> of \<open>n\<close> bytes.\<close>

definition read_exact :: "nat \<Rightarrow> bytes \<Rightarrow> (bytes \<times> bytes) option" where
  "read_exact n stream = (if n \<le> length stream then Some (take n stream, drop n stream) else None)"

definition exceeds_text :: "nat \<Rightarrow> string" where
  "exceeds_text limit = ''daemon frame exceeds '' @ show_nat limit @ '' bytes''"

definition read_frame :: "nat \<Rightarrow> bytes \<Rightarrow> (bytes \<times> bytes) result" where
  "read_frame limit stream =
     (case read_exact 4 stream of
        None \<Rightarrow> Inl ''read daemon frame length''
      | Some (header, rest) \<Rightarrow>
          let len = unat (from_be_bytes header)
          in if \<not> len \<le> limit then Inl (exceeds_text limit)
             else (case read_exact len rest of None \<Rightarrow> Inl ''read daemon frame'' | Some r \<Rightarrow> Inr r))"

definition write_frame :: "bytes \<Rightarrow> nat \<Rightarrow> bytes result" where
  "write_frame bytes limit =
     (if \<not> length bytes \<le> limit then Inl (exceeds_text limit) else Inr (to_be_bytes (word_of_nat (length bytes)) @ bytes))"

section \<open>Requests and replies\<close>

definition read_request :: "(string \<Rightarrow> 'u option) \<Rightarrow> (bytes \<Rightarrow> daemon_request option) \<Rightarrow> bytes \<Rightarrow> (daemon_request \<times> bytes) result" where
  "read_request parse_uuid from_slice stream =
     (case read_frame REQUEST_LIMIT stream of
        Inl e \<Rightarrow> Inl e
      | Inr (bytes, rest) \<Rightarrow>
          (case from_slice bytes of
             None \<Rightarrow> Inl ''decode daemon request''
           | Some request \<Rightarrow> map_sum id (\<lambda>_. (request, rest)) (DaemonRequest_validate parse_uuid request)))"

definition write_request :: "(string \<Rightarrow> 'u option) \<Rightarrow> (daemon_request \<Rightarrow> bytes result) \<Rightarrow> daemon_request \<Rightarrow> bytes result" where
  "write_request parse_uuid to_vec request =
     (case DaemonRequest_validate parse_uuid request of
        Inl e \<Rightarrow> Inl e
      | Inr _ \<Rightarrow> (case to_vec request of Inl e \<Rightarrow> Inl e | Inr bytes \<Rightarrow> write_frame bytes REQUEST_LIMIT))"

definition read_reply :: "(bytes \<Rightarrow> daemon_reply option) \<Rightarrow> bytes \<Rightarrow> (daemon_reply \<times> bytes) result" where
  "read_reply from_slice stream =
     (case read_frame RESPONSE_LIMIT stream of
        Inl e \<Rightarrow> Inl e
      | Inr (bytes, rest) \<Rightarrow>
          (case from_slice bytes of None \<Rightarrow> Inl ''decode daemon response'' | Some reply \<Rightarrow> Inr (reply, rest)))"

fun reply_text :: "daemon_reply \<Rightarrow> string" where
  "reply_text (Success output) = output"
| "reply_text (Failure message) = message"

definition oversized_reply :: daemon_reply where
  "oversized_reply = Failure ''daemon response exceeds 4 MiB''"

definition write_reply :: "(daemon_reply \<Rightarrow> bytes result) \<Rightarrow> daemon_reply \<Rightarrow> bytes result" where
  "write_reply to_vec reply =
     (let oversized = (length (reply_text reply) > RESPONSE_LIMIT)
      in case (if oversized then Inr [] else to_vec reply) of
           Inl e \<Rightarrow> Inl e
         | Inr bytes \<Rightarrow>
             if oversized \<or> length bytes > RESPONSE_LIMIT
             then (case to_vec oversized_reply of Inl e \<Rightarrow> Inl e | Inr b \<Rightarrow> write_frame b RESPONSE_LIMIT)
             else write_frame bytes RESPONSE_LIMIT)"

section \<open>Properties\<close>

lemma be_bytes_inverse: "from_be_bytes (to_be_bytes w) = w"
proof -
  have byte: "word_of_nat (byte (char_of (unat (take_bit 8 v)))) = take_bit 8 v" for v :: "32 word"
  proof -
    have "unat (take_bit 8 v) < 256" using take_bit_nat_less_exp [of 8 "unat v"] by (simp add: unsigned_take_bit_eq)
    then show ?thesis by (simp add: byte_def)
  qed
  show ?thesis
  proof (rule bit_word_eqI)
    fix n
    assume "n < LENGTH(32)"
    then consider "n < 8" | "8 \<le> n" "n < 16" | "16 \<le> n" "n < 24" | "24 \<le> n" "n < 32" by fastforce
    then show "bit (from_be_bytes (to_be_bytes w)) n = bit w n"
      unfolding from_be_bytes_def to_be_bytes_def
      by cases (auto simp: byte bit_simps)
  qed
qed

lemma length_to_be_bytes [simp]: "length (to_be_bytes w) = 4"
  by (simp add: to_be_bytes_def)

lemma read_write_frame:
  assumes "write_frame bytes limit = Inr frame" "limit < 2 ^ 32"
  shows "read_frame limit (frame @ rest) = Inr (bytes, rest)"
proof -
  from assms(1) have frame: "frame = to_be_bytes (word_of_nat (length bytes)) @ bytes" "length bytes \<le> limit"
    by (auto simp: write_frame_def split: if_splits)
  have "unat (word_of_nat (length bytes) :: 32 word) = length bytes"
    using frame(2) assms(2) by (simp add: unat_of_nat take_bit_nat_eq_self)
  then show ?thesis
    using frame by (simp add: read_frame_def read_exact_def be_bytes_inverse)
qed

lemma add_lengths_None: "add_lengths None args = None"
  by (cases args) auto

lemma add_lengths_Some: "add_lengths (Some n) args = Some m \<Longrightarrow> m = n + sum_list (map length args)"
  by (induction args arbitrary: n) (fastforce simp: checked_add_def add_lengths_None split: if_splits)+

lemma add_lengths_exact:
  "n + sum_list (map length args) \<le> usize_max \<Longrightarrow> add_lengths (Some n) args = Some (n + sum_list (map length args))"
  by (induction args arbitrary: n) (auto simp: checked_add_def)

text \<open>
  C32. Whatever the daemon and its clients write is read back unchanged, up to the next frame, given that the JSON library
  reads back what it wrote.  A request is written exactly when it is valid and encodes within a frame, and it is the
  request that \<open>read_request\<close> returns.  Given that the failure for an oversized reply encodes within a frame, a reply that
  encodes arrives as it was sent or, when its text or encoding does not fit a frame, as that failure; a reply whose text
  fits and that does not encode is an error of the sender.
\<close>

theorem daemon_frames_roundtrip:
  assumes request: "\<And>r b. to_request r = Inr b \<Longrightarrow> from_request b = Some r"
    and reply: "\<And>r b. to_reply r = Inr b \<Longrightarrow> from_reply b = Some r"
    and small: "\<exists>b. to_reply oversized_reply = Inr b \<and> length b \<le> RESPONSE_LIMIT"
  shows "(\<forall>r. (\<exists>frame. write_request parse_uuid to_request r = Inr frame) \<longleftrightarrow>
            DaemonRequest_validate parse_uuid r = Inr () \<and> (\<exists>b. to_request r = Inr b \<and> length b \<le> REQUEST_LIMIT))
    \<and> (\<forall>r frame rest. write_request parse_uuid to_request r = Inr frame \<longrightarrow>
            read_request parse_uuid from_request (frame @ rest) = Inr (r, rest))
    \<and> (\<forall>r. if length (reply_text r) \<le> RESPONSE_LIMIT \<and> isl (to_reply r) then write_reply to_reply r = Inl (projl (to_reply r))
         else \<exists>frame. write_reply to_reply r = Inr frame
           \<and> (\<forall>rest. read_reply from_reply (frame @ rest)
                = Inr (if length (reply_text r) \<le> RESPONSE_LIMIT \<and> length (projr (to_reply r)) \<le> RESPONSE_LIMIT
                       then r else oversized_reply, rest)))"
proof (intro conjI allI impI)
  have limits: "REQUEST_LIMIT < 2 ^ 32" "RESPONSE_LIMIT < 2 ^ 32" by (simp_all add: REQUEST_LIMIT_def RESPONSE_LIMIT_def)
  show "(\<exists>frame. write_request parse_uuid to_request r = Inr frame) \<longleftrightarrow>
      DaemonRequest_validate parse_uuid r = Inr () \<and> (\<exists>b. to_request r = Inr b \<and> length b \<le> REQUEST_LIMIT)" for r
    by (auto simp: write_request_def write_frame_def split: sum.splits)
  show "read_request parse_uuid from_request (frame @ rest) = Inr (r, rest)"
    if "write_request parse_uuid to_request r = Inr frame" for r frame rest
  proof -
    from that obtain b where b: "DaemonRequest_validate parse_uuid r = Inr ()" "to_request r = Inr b"
      "write_frame b REQUEST_LIMIT = Inr frame"
      by (auto simp: write_request_def split: sum.splits)
    from read_write_frame [OF b(3) limits(1), of rest] request [OF b(2)] b(1) show ?thesis
      by (simp add: read_request_def)
  qed
  have sent: "\<exists>frame. write_frame b RESPONSE_LIMIT = Inr frame \<and> (\<forall>rest. read_reply from_reply (frame @ rest) = Inr (r, rest))"
    if "to_reply r = Inr b" "length b \<le> RESPONSE_LIMIT" for r b
  proof -
    from that(2) obtain frame where frame: "write_frame b RESPONSE_LIMIT = Inr frame" by (simp add: write_frame_def)
    from read_write_frame [OF frame limits(2)] reply [OF that(1)] frame show ?thesis by (simp add: read_reply_def)
  qed
  from small obtain o' where o': "to_reply oversized_reply = Inr o'" "length o' \<le> RESPONSE_LIMIT" by blast
  show "if length (reply_text r) \<le> RESPONSE_LIMIT \<and> isl (to_reply r) then write_reply to_reply r = Inl (projl (to_reply r))
      else \<exists>frame. write_reply to_reply r = Inr frame
        \<and> (\<forall>rest. read_reply from_reply (frame @ rest)
             = Inr (if length (reply_text r) \<le> RESPONSE_LIMIT \<and> length (projr (to_reply r)) \<le> RESPONSE_LIMIT
                    then r else oversized_reply, rest))" for r
  proof (cases "to_reply r")
    case (Inl e)
    with sent [OF o'] show ?thesis by (simp add: write_reply_def o' Let_def)
  next
    case (Inr b)
    from sent [OF o'] sent [OF Inr] show ?thesis
      by (cases "length (reply_text r) \<le> RESPONSE_LIMIT"; cases "length b \<le> RESPONSE_LIMIT")
         (simp_all add: write_reply_def Inr o' Let_def not_le)
  qed
qed

text \<open>A request is accepted exactly when its identifier parses and its arguments keep to the limits; the sum of the lengths
  does not overflow unnoticed.\<close>

lemma validate_exact:
  "DaemonRequest_validate parse_uuid (Arguments ctxt args) = Inr ()
     \<longleftrightarrow> parse_uuid (rc_request_id ctxt) \<noteq> None \<and> length args \<le> ARGUMENT_LIMIT
        \<and> sum_list (map length args) \<le> REQUEST_LIMIT"
proof (cases "sum_list (map length args) \<le> usize_max")
  case True
  then show ?thesis using add_lengths_exact [of 0 args] by simp
next
  case False
  then have "\<not> sum_list (map length args) \<le> REQUEST_LIMIT" by (simp add: REQUEST_LIMIT_def usize_max_def)
  then show ?thesis using add_lengths_Some [of 0 args] by (auto split: option.splits)
qed

definition tag_reply :: "daemon_reply \<Rightarrow> bytes result" where
  "tag_reply r = Inr (case r of Success s \<Rightarrow> CHR ''S'' # s | Failure s \<Rightarrow> CHR ''F'' # s)"

definition untag_reply :: "bytes \<Rightarrow> daemon_reply option" where
  "untag_reply b = (case b of [] \<Rightarrow> None | c # s \<Rightarrow> if c = CHR ''S'' then Some (Success s) else Some (Failure s))"

theorem daemon_frames_roundtrip_witness:
  "\<exists>frame. write_reply tag_reply (Success ''ok'') = Inr frame
     \<and> read_reply untag_reply (frame @ ''rest'') = Inr (Success ''ok'', ''rest'')"
proof -
  let ?to = "\<lambda>r. if r = Stop then Inr ''S'' else Inl ''unsupported''" and ?from = "\<lambda>b. if b = ''S'' then Some Stop else None"
  have request: "\<And>r b. ?to r = Inr b \<Longrightarrow> ?from b = Some r" by (auto split: if_splits)
  have reply: "\<And>r b. tag_reply r = Inr b \<Longrightarrow> untag_reply b = Some r"
    by (auto simp: tag_reply_def untag_reply_def split: daemon_reply.splits)
  have small: "\<exists>b. tag_reply oversized_reply = Inr b \<and> length b \<le> RESPONSE_LIMIT"
    by (simp add: tag_reply_def oversized_reply_def RESPONSE_LIMIT_def)
  let ?ok = "Success ''ok''"
  from daemon_frames_roundtrip [of ?to ?from tag_reply untag_reply "\<lambda>_. None :: unit option", OF request reply small]
  have "if length (reply_text ?ok) \<le> RESPONSE_LIMIT \<and> isl (tag_reply ?ok) then write_reply tag_reply ?ok = Inl (projl (tag_reply ?ok))
      else \<exists>frame. write_reply tag_reply ?ok = Inr frame
        \<and> (\<forall>rest. read_reply untag_reply (frame @ rest)
             = Inr (if length (reply_text ?ok) \<le> RESPONSE_LIMIT \<and> length (projr (tag_reply ?ok)) \<le> RESPONSE_LIMIT
                    then ?ok else oversized_reply, rest))" by blast
  then show ?thesis by (auto simp: tag_reply_def RESPONSE_LIMIT_def)
qed

end
