(* ===== verification/TP_Spool.thy ===== *)
theory TP_Spool
  imports TP_Protocol TP_Interfaces
begin

text \<open>
  \<open>src/daemon/spool.rs\<close>: requests handed over through a shared directory.  Clients, the claiming server and its workers
  run concurrently, so the protocol is a step relation with one step per file-system call: the program counter of each
  client and worker says which call is next.  A call that may fail has a failing step beside it.  The request
  identifiers are distinct, one per call of \<open>request\<close>; a caller that calls again with the same identifier after a
  timeout is outside the model.  What a file holds comes with its modification time, in milliseconds.
\<close>

section \<open>Files\<close>

definition HEARTBEAT_INTERVAL :: nat where "HEARTBEAT_INTERVAL = 1000"
definition HEARTBEAT_STALE :: nat where "HEARTBEAT_STALE = 5000"
definition ORPHAN_AGE :: nat where "ORPHAN_AGE = 300 * 1000"

datatype 'u spool_file = RequestTmp 'u | RequestFile 'u | ClaimedFile 'u | ReplyTmp 'u | ReplyFile 'u | Heartbeat

fun file_name :: "('u \<Rightarrow> string) \<Rightarrow> 'u spool_file \<Rightarrow> string" where
  "file_name show_uuid (RequestTmp u) = show_uuid u @ ''.request.tmp''"
| "file_name show_uuid (RequestFile u) = show_uuid u @ ''.request''"
| "file_name show_uuid (ClaimedFile u) = show_uuid u @ ''.claimed''"
| "file_name show_uuid (ReplyTmp u) = show_uuid u @ ''.reply.tmp''"
| "file_name show_uuid (ReplyFile u) = show_uuid u @ ''.reply''"
| "file_name show_uuid Heartbeat = ''heartbeat''"

text \<open>\<open>Path::extension\<close> and \<open>Path::file_stem\<close> of a name.\<close>

definition split_extension :: "string \<Rightarrow> string \<times> string option" where
  "split_extension name =
     (case rsplit_once (CHR ''.'') name of None \<Rightarrow> (name, None) | Some (stem, ext) \<Rightarrow> if stem = [] then (name, None) else (stem, Some ext))"

definition request_id :: "(string \<Rightarrow> 'u option) \<Rightarrow> string \<Rightarrow> string \<Rightarrow> 'u option" where
  "request_id parse_uuid name extension =
     (case split_extension name of (stem, ext) \<Rightarrow> if ext = Some extension then parse_uuid stem else None)"

definition age_of :: "nat \<Rightarrow> nat \<Rightarrow> nat option" where
  "age_of now modified = (if modified \<le> now then Some (now - modified) else None)"

definition heartbeat_alive :: "nat \<Rightarrow> nat option \<Rightarrow> bool" where
  "heartbeat_alive now modified =
     (case modified of None \<Rightarrow> False
      | Some m \<Rightarrow> (case age_of now m of None \<Rightarrow> False | Some age \<Rightarrow> age < HEARTBEAT_STALE))"

definition is_orphan :: "nat \<Rightarrow> nat \<Rightarrow> bool" where
  "is_orphan now modified = (case age_of now modified of None \<Rightarrow> False | Some age \<Rightarrow> age > ORPHAN_AGE)"

text \<open>The requests among the names that \<open>read_dir\<close> returned, in the order of their identifiers.\<close>

definition pending_requests :: "(string \<Rightarrow> 'u option) \<Rightarrow> ('u \<Rightarrow> string) \<Rightarrow> string list \<Rightarrow> 'u list" where
  "pending_requests parse_uuid show_uuid names =
     sort_by (by_key show_uuid) (List.map_filter (\<lambda>name. request_id parse_uuid name ''request'') names)"

section \<open>State\<close>

text \<open>The library and the handler; \<open>se_request u\<close> is what client \<open>u\<close> writes.\<close>

record 'u spool_env =
  se_parse_uuid :: "string \<Rightarrow> 'u option"
  se_show_uuid :: "'u \<Rightarrow> string"
  se_request :: "'u \<Rightarrow> bytes"
  se_valid :: "'u \<Rightarrow> bool"
  se_decode :: "bytes \<Rightarrow> daemon_request option"
  se_encode_reply :: "daemon_reply \<Rightarrow> bytes result"
  se_decode_reply :: "bytes \<Rightarrow> daemon_reply option"
  se_handler :: "request_context \<Rightarrow> string list \<Rightarrow> string result"

datatype client_outcome = NoDaemon | Answer string | ClientError string

datatype client_pc = NotStarted | Writing | TmpWritten | Polling | NoReplyYet | GotReply bytes | Withdrawing | Abandoning
  | TimedOut | Finished client_outcome

datatype answer_pc = NotClaimed | ClaimHeld | ReadClaim "bytes option" | HaveReply daemon_reply | ClaimGone daemon_reply
  | TmpReply bytes | Answered

record 'u spool_state =
  sp_files :: "'u spool_file \<Rightarrow> (bytes \<times> nat) option"
  sp_beat :: "nat option"
  sp_beaten_at :: "nat option"
  sp_now :: nat
  sp_pending :: "'u list"
  sp_client :: "'u \<Rightarrow> client_pc"
  sp_worker :: "'u \<Rightarrow> answer_pc"
  sp_handled :: "'u list"

definition set_client :: "'u \<Rightarrow> client_pc \<Rightarrow> 'u spool_state \<Rightarrow> 'u spool_state" where
  "set_client u pc s = s\<lparr>sp_client := (sp_client s)(u := pc)\<rparr>"

definition set_answerer :: "'u \<Rightarrow> answer_pc \<Rightarrow> 'u spool_state \<Rightarrow> 'u spool_state" where
  "set_answerer u pc s = s\<lparr>sp_worker := (sp_worker s)(u := pc)\<rparr>"

definition put_file :: "'u spool_file \<Rightarrow> bytes \<Rightarrow> 'u spool_state \<Rightarrow> 'u spool_state" where
  "put_file f b s = s\<lparr>sp_files := (sp_files s)(f := Some (b, sp_now s))\<rparr>"

definition remove_file :: "'u spool_file \<Rightarrow> 'u spool_state \<Rightarrow> 'u spool_state" where
  "remove_file f s = s\<lparr>sp_files := (sp_files s)(f := None)\<rparr>"

definition rename_file :: "'u spool_file \<Rightarrow> 'u spool_file \<Rightarrow> 'u spool_state \<Rightarrow> 'u spool_state" where
  "rename_file f g s = s\<lparr>sp_files := (sp_files s)(f := None, g := sp_files s f)\<rparr>"

section \<open>Answers\<close>

definition spool_result :: "'u spool_env \<Rightarrow> bytes option \<Rightarrow> string result" where
  "spool_result env claim =
     (case claim of
        None \<Rightarrow> Inl ''read spooled daemon request''
      | Some bytes \<Rightarrow>
          (case se_decode env bytes of
             None \<Rightarrow> Inl ''decode spooled request''
           | Some request \<Rightarrow>
               (case DaemonRequest_validate (se_parse_uuid env) request of
                  Inl e \<Rightarrow> Inl e
                | Inr _ \<Rightarrow>
                    (case request of
                       Arguments ctxt args \<Rightarrow> se_handler env ctxt args
                     | Stop \<Rightarrow> Inl ''spooled requests cannot stop a daemon''))))"

definition runs_handler :: "'u spool_env \<Rightarrow> bytes option \<Rightarrow> bool" where
  "runs_handler env claim =
     (case claim of
        None \<Rightarrow> False
      | Some bytes \<Rightarrow>
          (case se_decode env bytes of
             Some (Arguments ctxt args) \<Rightarrow> DaemonRequest_validate (se_parse_uuid env) (Arguments ctxt args) = Inr ()
           | _ \<Rightarrow> False))"

definition reply_outcome :: "'u spool_env \<Rightarrow> bytes \<Rightarrow> client_outcome" where
  "reply_outcome env bytes =
     (case se_decode_reply env bytes of
        None \<Rightarrow> ClientError ''decode spooled daemon reply''
      | Some (Success output) \<Rightarrow> Answer output
      | Some (Failure message) \<Rightarrow> ClientError (''daemon: '' @ message))"

definition write_failure :: "bool \<Rightarrow> client_outcome" where
  "write_failure soft = (if soft then NoDaemon else ClientError ''write spooled daemon request'')"

section \<open>Steps\<close>

inductive client_step :: "'u spool_env \<Rightarrow> 'u \<Rightarrow> 'u spool_state \<Rightarrow> 'u spool_state \<Rightarrow> bool" for env u where
  refuse_invalid: "sp_client s u = NotStarted \<Longrightarrow> \<not> se_valid env u \<Longrightarrow> client_step env u s (set_client u (Finished (ClientError e)) s)"
| see_no_daemon: "sp_client s u = NotStarted \<Longrightarrow> se_valid env u \<Longrightarrow> \<not> heartbeat_alive (sp_now s) (sp_beat s) \<Longrightarrow>
    client_step env u s (set_client u (Finished NoDaemon) s)"
| see_daemon: "sp_client s u = NotStarted \<Longrightarrow> se_valid env u \<Longrightarrow> heartbeat_alive (sp_now s) (sp_beat s) \<Longrightarrow>
    client_step env u s (set_client u Writing s)"
| write_tmp: "sp_client s u = Writing \<Longrightarrow> client_step env u s (set_client u TmpWritten (put_file (RequestTmp u) (se_request env u) s))"
| write_tmp_fails: "sp_client s u = Writing \<Longrightarrow> s' = s \<or> s' = put_file (RequestTmp u) part s \<Longrightarrow>
    client_step env u s (set_client u (Finished (write_failure soft)) s')"
| submit: "sp_client s u = TmpWritten \<Longrightarrow> sp_files s (RequestTmp u) \<noteq> None \<Longrightarrow>
    client_step env u s (set_client u Polling (rename_file (RequestTmp u) (RequestFile u) s))"
| submit_fails: "sp_client s u = TmpWritten \<Longrightarrow> client_step env u s (set_client u (Finished (write_failure soft)) s)"
| time_out: "sp_client s u = Polling \<Longrightarrow> client_step env u s (set_client u TimedOut s)"
| poll_hit: "sp_client s u = Polling \<Longrightarrow> sp_files s (ReplyFile u) = Some (b, m) \<Longrightarrow> client_step env u s (set_client u (GotReply b) s)"
| poll_miss: "sp_client s u = Polling \<Longrightarrow> sp_files s (ReplyFile u) = None \<Longrightarrow> client_step env u s (set_client u NoReplyYet s)"
| poll_error: "sp_client s u = Polling \<Longrightarrow>
    client_step env u s (set_client u (Finished (ClientError ''read spooled daemon reply'')) s)"
| collect: "sp_client s u = GotReply b \<Longrightarrow> s' = s \<or> s' = remove_file (ReplyFile u) s \<Longrightarrow>
    client_step env u s (set_client u (Finished (reply_outcome env b)) s')"
| still_alive: "sp_client s u = NoReplyYet \<Longrightarrow> heartbeat_alive (sp_now s) (sp_beat s) \<Longrightarrow> client_step env u s (set_client u Polling s)"
| went_silent: "sp_client s u = NoReplyYet \<Longrightarrow> \<not> heartbeat_alive (sp_now s) (sp_beat s) \<Longrightarrow>
    client_step env u s (set_client u Withdrawing s)"
| withdraw: "sp_client s u = Withdrawing \<Longrightarrow> sp_files s (RequestFile u) \<noteq> None \<Longrightarrow>
    client_step env u s (set_client u (Finished NoDaemon) (remove_file (RequestFile u) s))"
| withdraw_fails: "sp_client s u = Withdrawing \<Longrightarrow> client_step env u s (set_client u Abandoning s)"
| abandon: "sp_client s u = Abandoning \<Longrightarrow> s' = s \<or> s' = remove_file (ClaimedFile u) s \<Longrightarrow>
    client_step env u s (set_client u (Finished (ClientError ''daemon_unavailable: router stopped while answering a spooled request'')) s')"
| give_up: "sp_client s u = TimedOut \<Longrightarrow> s' = s \<or> s' = remove_file (RequestFile u) s \<Longrightarrow>
    client_step env u s (set_client u (Finished (ClientError ''daemon_unavailable: spooled request timed out'')) s')"

inductive worker_turn :: "'u spool_env \<Rightarrow> 'u \<Rightarrow> 'u spool_state \<Rightarrow> 'u spool_state \<Rightarrow> bool" for env u where
  read_claim: "sp_worker s u = ClaimHeld \<Longrightarrow> claim = None \<or> claim = map_option fst (sp_files s (ClaimedFile u)) \<Longrightarrow>
    worker_turn env u s (set_answerer u (ReadClaim claim) s)"
| run_handler: "sp_worker s u = ReadClaim claim \<Longrightarrow>
    worker_turn env u s (set_answerer u (HaveReply (DaemonReply_from_result (spool_result env claim)))
      (s\<lparr>sp_handled := (if runs_handler env claim then sp_handled s @ [u] else sp_handled s)\<rparr>))"
| refuse: "sp_worker s u = ClaimHeld \<Longrightarrow> worker_turn env u s (set_answerer u (HaveReply (Failure message)) s)"
| unclaim: "sp_worker s u = HaveReply r \<Longrightarrow> s' = s \<or> s' = remove_file (ClaimedFile u) s \<Longrightarrow>
    worker_turn env u s (set_answerer u (ClaimGone r) s')"
| write_reply_tmp: "sp_worker s u = ClaimGone r \<Longrightarrow> se_encode_reply env r = Inr b \<Longrightarrow>
    worker_turn env u s (set_answerer u (TmpReply b) (put_file (ReplyTmp u) b s))"
| write_reply_fails: "sp_worker s u = ClaimGone r \<Longrightarrow> s' = s \<or> s' = put_file (ReplyTmp u) part s \<Longrightarrow>
    worker_turn env u s (set_answerer u Answered s')"
| publish: "sp_worker s u = TmpReply b \<Longrightarrow> sp_files s (ReplyTmp u) \<noteq> None \<Longrightarrow>
    worker_turn env u s (set_answerer u Answered (rename_file (ReplyTmp u) (ReplyFile u) s))"
| publish_fails: "sp_worker s u = TmpReply b \<Longrightarrow> worker_turn env u s (set_answerer u Answered s)"

text \<open>The server: \<open>open\<close> clears the directory of a new process, whose predecessor's workers are gone; \<open>beat\<close> and \<open>claim\<close>
  run on its ticks.\<close>

inductive server_step :: "'u spool_env \<Rightarrow> 'u spool_state \<Rightarrow> 'u spool_state \<Rightarrow> bool" for env where
  restart: "server_step env s (s\<lparr>sp_pending := [], sp_beaten_at := None,
    sp_worker := (\<lambda>u. if sp_worker s u = NotClaimed then NotClaimed else Answered)\<rparr>)"
| clear: "sp_beaten_at s = None \<Longrightarrow> server_step env s (remove_file f s)"
| beat: "(case sp_beaten_at s of None \<Rightarrow> True | Some t \<Rightarrow> \<not> sp_now s - t < HEARTBEAT_INTERVAL) \<Longrightarrow>
    server_step env s (s\<lparr>sp_beat := Some (sp_now s), sp_beaten_at := Some (sp_now s)\<rparr>)"
| list_requests: "sp_pending s = [] \<Longrightarrow>
    server_step env s (s\<lparr>sp_pending := pending_requests (se_parse_uuid env) (se_show_uuid env) names\<rparr>)"
| sweep: "sp_files s f = Some (b, m) \<Longrightarrow> request_id (se_parse_uuid env) (file_name (se_show_uuid env) f) ''request'' = None \<Longrightarrow>
    is_orphan (sp_now s) m \<Longrightarrow> server_step env s (remove_file f s)"
| claim: "sp_pending s = u # rest \<Longrightarrow> sp_files s (RequestFile u) \<noteq> None \<Longrightarrow>
    server_step env s (set_answerer u ClaimHeld (rename_file (RequestFile u) (ClaimedFile u) (s\<lparr>sp_pending := rest\<rparr>)))"
| claim_lost: "sp_pending s = u # rest \<Longrightarrow> server_step env s (s\<lparr>sp_pending := rest\<rparr>)"

inductive spool_step :: "'u spool_env \<Rightarrow> 'u spool_state \<Rightarrow> 'u spool_state \<Rightarrow> bool" for env where
  client: "client_step env u s t \<Longrightarrow> spool_step env s t"
| worker: "worker_turn env u s t \<Longrightarrow> spool_step env s t"
| server: "server_step env s t \<Longrightarrow> spool_step env s t"
| clock: "spool_step env s (s\<lparr>sp_now := now\<rparr>)"

definition spool_init :: "'u spool_state \<Rightarrow> bool" where
  "spool_init s \<longleftrightarrow> (\<forall>u. sp_files s (RequestFile u) = None \<and> sp_files s (ClaimedFile u) = None \<and> sp_files s (ReplyFile u) = None)
     \<and> sp_pending s = [] \<and> (\<forall>u. sp_client s u = NotStarted) \<and> (\<forall>u. sp_worker s u = NotClaimed) \<and> sp_handled s = []"

section \<open>Invariant\<close>

definition not_submitted :: "client_pc \<Rightarrow> bool" where
  "not_submitted pc \<longleftrightarrow> pc \<in> {NotStarted, Writing, TmpWritten, Finished NoDaemon}"

definition genuine :: "'u spool_env \<Rightarrow> 'u list \<Rightarrow> 'u \<Rightarrow> daemon_reply \<Rightarrow> bool" where
  "genuine env handled u r \<longleftrightarrow> (\<forall>output. r = Success output \<longrightarrow> u \<in> set handled \<and> spool_result env (Some (se_request env u)) = Inr output)"

definition genuine_bytes :: "'u spool_env \<Rightarrow> 'u list \<Rightarrow> 'u \<Rightarrow> bytes \<Rightarrow> bool" where
  "genuine_bytes env handled u b \<longleftrightarrow> (\<exists>r. se_encode_reply env r = Inr b \<and> genuine env handled u r)"

definition files_ok :: "'u spool_env \<Rightarrow> 'u spool_state \<Rightarrow> 'u \<Rightarrow> bool" where
  "files_ok env s u \<longleftrightarrow>
     (sp_client s u = TmpWritten \<longrightarrow> (\<forall>b m. sp_files s (RequestTmp u) = Some (b, m) \<longrightarrow> b = se_request env u))
     \<and> (\<forall>b m. sp_files s (RequestFile u) = Some (b, m) \<longrightarrow> b = se_request env u \<and> sp_worker s u = NotClaimed \<and> \<not> not_submitted (sp_client s u))
     \<and> (\<forall>b m. sp_files s (ClaimedFile u) = Some (b, m) \<longrightarrow> b = se_request env u)
     \<and> (\<forall>b m. sp_files s (ReplyFile u) = Some (b, m) \<longrightarrow> genuine_bytes env (sp_handled s) u b)"

definition client_ok :: "'u spool_env \<Rightarrow> 'u spool_state \<Rightarrow> 'u \<Rightarrow> bool" where
  "client_ok env s u \<longleftrightarrow>
     (case sp_client s u of
        GotReply b \<Rightarrow> genuine_bytes env (sp_handled s) u b
      | Finished (Answer output) \<Rightarrow> genuine env (sp_handled s) u (Success output)
      | _ \<Rightarrow> True)
     \<and> (not_submitted (sp_client s u) \<longrightarrow> sp_worker s u = NotClaimed)"

definition worker_ok :: "'u spool_env \<Rightarrow> 'u spool_state \<Rightarrow> 'u \<Rightarrow> bool" where
  "worker_ok env s u \<longleftrightarrow>
     (case sp_worker s u of
        ReadClaim claim \<Rightarrow> \<forall>b. claim = Some b \<longrightarrow> b = se_request env u
      | HaveReply r \<Rightarrow> genuine env (sp_handled s) u r
      | ClaimGone r \<Rightarrow> genuine env (sp_handled s) u r
      | TmpReply b \<Rightarrow> genuine_bytes env (sp_handled s) u b \<and> (\<forall>c m. sp_files s (ReplyTmp u) = Some (c, m) \<longrightarrow> c = b)
      | _ \<Rightarrow> True)
     \<and> (sp_worker s u \<in> {NotClaimed, ClaimHeld} \<union> range ReadClaim \<longrightarrow> u \<notin> set (sp_handled s))"

definition spool_ok :: "'u spool_env \<Rightarrow> 'u spool_state \<Rightarrow> bool" where
  "spool_ok env s \<longleftrightarrow> distinct (sp_handled s) \<and> (\<forall>u. files_ok env s u \<and> client_ok env s u \<and> worker_ok env s u)"

lemmas spool_updates = set_client_def set_answerer_def put_file_def remove_file_def rename_file_def

lemma genuine_mono: "genuine env hs u r \<Longrightarrow> set hs \<subseteq> set hs' \<Longrightarrow> genuine env hs' u r"
  by (auto simp: genuine_def)

lemma genuine_bytes_mono: "genuine_bytes env hs u b \<Longrightarrow> set hs \<subseteq> set hs' \<Longrightarrow> genuine_bytes env hs' u b"
  unfolding genuine_bytes_def by (blast intro: genuine_mono)

lemma spool_result_runs: "spool_result env claim = Inr output \<Longrightarrow> runs_handler env claim"
  by (auto simp: spool_result_def runs_handler_def split: option.splits sum.splits daemon_request.splits)

lemma genuine_outcome:
  assumes "genuine_bytes env hs u b" "\<And>r b. se_encode_reply env r = Inr b \<Longrightarrow> se_decode_reply env b = Some r"
    and "reply_outcome env b = Answer output"
  shows "genuine env hs u (Success output)"
  using assms by (auto simp: genuine_bytes_def reply_outcome_def split: option.splits daemon_reply.splits)

lemma outcome_answered: "reply_outcome env b \<noteq> NoDaemon"
  by (simp add: reply_outcome_def split: option.splits daemon_reply.splits)

lemma client_step_ok:
  assumes "client_step env u s t" "spool_ok env s" "\<And>r b. se_encode_reply env r = Inr b \<Longrightarrow> se_decode_reply env b = Some r"
  shows "spool_ok env t"
proof -
  have ok: "distinct (sp_handled s)" "files_ok env s v" "client_ok env s v" "worker_ok env s v" for v
    using assms(2) by (auto simp: spool_ok_def)
  have same: "sp_handled t = sp_handled s" "sp_worker t = sp_worker s" "\<And>v. v \<noteq> u \<Longrightarrow> sp_client t v = sp_client s v"
    "\<And>v. sp_files t (ReplyTmp v) = sp_files s (ReplyTmp v)"
    using assms(1) by (cases; auto simp: spool_updates)+
  have others: "files_ok env t v" if "v \<noteq> u" for v
    using assms(1) ok(2) [of v] that
    by cases (auto simp: files_ok_def spool_updates)
  have mine: "files_ok env t u"
    using assms(1) ok(2,3) [of u]
    by cases (auto simp: files_ok_def client_ok_def spool_updates not_submitted_def write_failure_def outcome_answered)
  have "client_ok env t u"
    using assms(1) ok(2,3) [of u] genuine_outcome [OF _ assms(3)]
    by cases (auto simp: files_ok_def client_ok_def spool_updates not_submitted_def write_failure_def
        outcome_answered split: client_outcome.splits)
  moreover have "client_ok env t v" if "v \<noteq> u" for v
    using ok(3) [of v] unfolding client_ok_def same(1,2) same(3) [OF that] .
  moreover have "worker_ok env t v" for v
    using ok(4) [of v] unfolding worker_ok_def same .
  ultimately show ?thesis using others mine ok(1) same(1) unfolding spool_ok_def by metis
qed

lemma handler_reply:
  assumes "DaemonReply_from_result (spool_result env claim) = Success output" "\<forall>b. claim = Some b \<longrightarrow> b = se_request env u"
  shows "runs_handler env claim \<and> spool_result env (Some (se_request env u)) = Inr output"
proof -
  from assms(1) have r: "spool_result env claim = Inr output" by (cases "spool_result env claim") auto
  then have "claim \<noteq> None" by (cases claim) (auto simp: spool_result_def)
  with assms(2) r spool_result_runs [OF r] show ?thesis by auto
qed

lemma Some_eq_map_option: "Some b = map_option f x \<longleftrightarrow> (\<exists>y. x = Some y \<and> b = f y)"
  by (cases x) auto

lemma worker_turn_ok:
  assumes "worker_turn env u s t" "spool_ok env s"
  shows "spool_ok env t"
proof -
  have ok: "distinct (sp_handled s)" "files_ok env s v" "client_ok env s v" "worker_ok env s v" for v
    using assms(2) by (auto simp: spool_ok_def)
  have same: "sp_client t = sp_client s" "\<And>v. v \<noteq> u \<Longrightarrow> sp_worker t v = sp_worker s v"
    using assms(1) by (cases; auto simp: spool_updates)+
  have grows: "set (sp_handled s) \<subseteq> set (sp_handled t)" "\<And>v. v \<noteq> u \<Longrightarrow> v \<in> set (sp_handled t) \<longleftrightarrow> v \<in> set (sp_handled s)"
    using assms(1) by (cases; auto simp: spool_updates)+
  note mono = genuine_mono [OF _ grows(1)] genuine_bytes_mono [OF _ grows(1)]
  have "distinct (sp_handled t)"
    using assms(1) ok(1) ok(4) [of u] by cases (auto simp: spool_updates worker_ok_def)
  moreover have "files_ok env t v" for v
  proof (cases "v = u")
    case True
    show ?thesis using assms(1) ok(2,4) [of u] mono unfolding True
      by cases (auto simp: files_ok_def worker_ok_def spool_updates)
  next
    case False
    with assms(1) ok(2) [of v] mono show ?thesis
      by cases (auto simp: files_ok_def spool_updates)
  qed
  moreover have "client_ok env t v" for v
  proof -
    have "sp_worker t v = NotClaimed" if "sp_worker s v = NotClaimed"
      using assms(1) that by cases (auto simp: spool_updates)
    with ok(3) [of v] mono show ?thesis
      unfolding client_ok_def same(1) by (auto split: client_pc.splits client_outcome.splits)
  qed
  moreover have "worker_ok env t u"
    using assms(1) ok(2,4) [of u]
    by cases (auto simp: worker_ok_def files_ok_def spool_updates genuine_def genuine_bytes_def Some_eq_map_option
        dest: handler_reply [where u = u] split: if_splits)
  moreover have "worker_ok env t v" if "v \<noteq> u" for v
  proof -
    have "sp_files t (ReplyTmp v) = sp_files s (ReplyTmp v)" using assms(1) that by cases (auto simp: spool_updates)
    with ok(4) [of v] mono grows(2) [OF that] show ?thesis
      unfolding worker_ok_def same(2) [OF that] by (auto split: answer_pc.splits)
  qed
  ultimately show ?thesis unfolding spool_ok_def by metis
qed

lemma server_step_ok:
  assumes "server_step env s t" "spool_ok env s"
  shows "spool_ok env t"
proof -
  have ok: "distinct (sp_handled s)" "files_ok env s v" "client_ok env s v" "worker_ok env s v" for v
    using assms(2) by (auto simp: spool_ok_def)
  have same: "sp_client t = sp_client s" "sp_handled t = sp_handled s"
    using assms(1) by (cases; auto simp: spool_updates)+
  have files: "files_ok env t v" for v
    using assms(1) ok(2,3) [of v]
    by cases (auto simp: files_ok_def client_ok_def spool_updates)
  have client: "client_ok env t v" for v
    using assms(1) ok(2,3) [of v] unfolding client_ok_def same
    by cases (auto simp: files_ok_def spool_updates)
  have "worker_ok env t v" for v
    using assms(1) ok(2,4) [of v]
    by cases (auto simp: files_ok_def worker_ok_def spool_updates split: answer_pc.splits if_splits)
  with files client ok(1) same(2) show ?thesis unfolding spool_ok_def by metis
qed

definition reply_codec :: "'u spool_env \<Rightarrow> bool" where
  "reply_codec env \<longleftrightarrow> (\<forall>r b. se_encode_reply env r = Inr b \<longrightarrow> se_decode_reply env b = Some r)"

lemma spool_step_ok: "spool_step env s t \<Longrightarrow> spool_ok env s \<Longrightarrow> reply_codec env \<Longrightarrow> spool_ok env t"
proof (induction rule: spool_step.induct)
  case (client u s t)
  then show ?case using client_step_ok [of env u s t] by (simp add: reply_codec_def)
next
  case (clock s now)
  have fields: "sp_files (s\<lparr>sp_now := now\<rparr>) = sp_files s" "sp_client (s\<lparr>sp_now := now\<rparr>) = sp_client s"
    "sp_worker (s\<lparr>sp_now := now\<rparr>) = sp_worker s" "sp_handled (s\<lparr>sp_now := now\<rparr>) = sp_handled s" by simp_all
  show ?case using clock(1) unfolding spool_ok_def files_ok_def client_ok_def worker_ok_def fields .
qed (blast intro: worker_turn_ok server_step_ok)+

lemma spool_init_ok: "spool_init s \<Longrightarrow> spool_ok env s"
  by (simp add: spool_init_def spool_ok_def files_ok_def client_ok_def worker_ok_def)

interpretation spool: machine spool_init "spool_step env" "\<lambda>s. reply_codec env \<longrightarrow> spool_ok env s" for env :: "'u spool_env"
  by unfold_locales (auto intro: spool_step_ok spool_init_ok)

lemma finished_stays: "spool_step env s t \<Longrightarrow> sp_client s u = Finished out \<Longrightarrow> sp_client t u = Finished out"
proof (induction rule: spool_step.induct)
  case (client v s t)
  then show ?case by cases (auto simp: spool_updates split: if_splits)
next
  case (worker v s t)
  then show ?case by cases (auto simp: spool_updates split: if_splits)
next
  case (server s t)
  then show ?case by cases (auto simp: spool_updates split: if_splits)
qed simp

lemma finished_forever: "(spool_step env)\<^sup>*\<^sup>* s t \<Longrightarrow> sp_client s u = Finished out \<Longrightarrow> sp_client t u = Finished out"
  by (induction rule: rtranclp_induct) (auto intro: finished_stays)

text \<open>
  C4. However clients, the server and its workers interleave, and whichever file operations fail, a spooled request is
  executed at most once; a client that is told that no daemon drains the spool, and so runs the command itself, has a
  request that was not and never will be executed; and a client that gets an answer gets the handler's result for the
  request it wrote.
\<close>

theorem spool_executes_at_most_once:
  assumes "reply_codec env" "spool_init s0" "(spool_step env)\<^sup>*\<^sup>* s0 s"
  shows "distinct (sp_handled s)
    \<and> (\<forall>u t. sp_client s u = Finished NoDaemon \<longrightarrow> (spool_step env)\<^sup>*\<^sup>* s t \<longrightarrow> u \<notin> set (sp_handled t))
    \<and> (\<forall>u output. sp_client s u = Finished (Answer output) \<longrightarrow>
         u \<in> set (sp_handled s) \<and> spool_result env (Some (se_request env u)) = Inr output)"
proof -
  have ok: "spool_ok env t" if "(spool_step env)\<^sup>*\<^sup>* s t" for t
    using spool.inv_reachable [OF assms(2), of env t] assms(1,3) that by (meson rtranclp_trans)
  have "u \<notin> set (sp_handled t)" if "sp_client s u = Finished NoDaemon" "(spool_step env)\<^sup>*\<^sup>* s t" for u t
    using ok [OF that(2)] finished_forever [OF that(2,1)]
    by (auto simp: spool_ok_def client_ok_def worker_ok_def not_submitted_def)
  moreover have "u \<in> set (sp_handled s) \<and> spool_result env (Some (se_request env u)) = Inr answer"
    if "sp_client s u = Finished (Answer answer)" for u answer
  proof -
    have "client_ok env s u" using ok [OF rtranclp.rtrancl_refl] by (simp add: spool_ok_def)
    with that show ?thesis by (simp add: client_ok_def genuine_def)
  qed
  ultimately show ?thesis using ok [OF rtranclp.rtrancl_refl] by (auto simp: spool_ok_def)
qed

text \<open>
  The names keep the roles apart: a name read in the directory counts as a pending request of \<open>u\<close> exactly when it is
  the request file of \<open>u\<close>, so half-written requests, claims and replies are never claimed, and the sweep of old files
  never removes a request.
\<close>

theorem spool_names_apart:
  assumes "\<And>u. parse_uuid (show_uuid u) = Some u" "\<And>u. CHR ''.'' \<notin> set (show_uuid u)" "\<And>u. show_uuid u \<noteq> []"
  shows "request_id parse_uuid (file_name show_uuid f) ''request'' = Some u \<longleftrightarrow> f = RequestFile u"
proof -
  have split: "split_extension (stem @ CHR ''.'' # ext) = (stem, Some ext)" if "stem \<noteq> []" "CHR ''.'' \<notin> set ext" for stem ext
    using rsplit_once_append [OF that(2), of stem] that(1) by (simp add: split_extension_def)
  have plain: "split_extension ''heartbeat'' = (''heartbeat'', None)" by code_simp
  have tmp: "split_extension (stem @ ''.request.tmp'') = (stem @ ''.request'', Some ''tmp'')"
    "split_extension (stem @ ''.reply.tmp'') = (stem @ ''.reply'', Some ''tmp'')" for stem
    using split [of "stem @ ''.request''" "''tmp''"] split [of "stem @ ''.reply''" "''tmp''"] by simp_all
  show ?thesis
    using assms by (cases f) (auto simp: request_id_def split tmp plain)
qed

theorem spool_names_apart_witness:
  "request_id (\<lambda>s. if s = ''id'' then Some () else None) ''id.request'' ''request'' = Some ()
   \<and> request_id (\<lambda>s. if s = ''id'' then Some () else None) ''id.request.tmp'' ''request'' \<noteq> Some ()"
  using spool_names_apart [of "\<lambda>s. if s = ''id'' then Some () else None" "\<lambda>_. ''id''" "RequestFile ()" "()"]
    spool_names_apart [of "\<lambda>s. if s = ''id'' then Some () else None" "\<lambda>_. ''id''" "RequestTmp ()" "()"]
  by simp

section \<open>One request answered\<close>

definition one_env :: "unit spool_env" where
  "one_env = \<lparr>se_parse_uuid = (\<lambda>s. if s = ''id'' then Some () else None), se_show_uuid = (\<lambda>_. ''id''), se_request = (\<lambda>_. ''ask''),
     se_valid = (\<lambda>_. True),
     se_decode = (\<lambda>_. Some (Arguments \<lparr>rc_request_id = ''id'', rc_created_unix_micros = 0, rc_session = None, rc_client = None\<rparr> [])),
     se_encode_reply = (\<lambda>r. case r of Success s \<Rightarrow> Inr s | Failure _ \<Rightarrow> Inl ''refused''), se_decode_reply = (\<lambda>b. Some (Success b)),
     se_handler = (\<lambda>_ _. Inr ''pong'')\<rparr>"

definition one_start :: "unit spool_state" where
  "one_start = \<lparr>sp_files = (\<lambda>_. None), sp_beat = Some 0, sp_beaten_at = Some 0, sp_now = 0, sp_pending = [],
     sp_client = (\<lambda>_. NotStarted), sp_worker = (\<lambda>_. NotClaimed), sp_handled = []\<rparr>"

text \<open>A state of that run, by the files and counters that change.\<close>

definition one_state :: "(unit spool_file \<times> bytes) list \<Rightarrow> unit list \<Rightarrow> client_pc \<Rightarrow> answer_pc \<Rightarrow> unit list \<Rightarrow> unit spool_state" where
  "one_state files pending c w handled =
     one_start\<lparr>sp_files := (\<lambda>f. map_option (\<lambda>b. (b, 0)) (map_of files f)), sp_pending := pending, sp_client := (\<lambda>_. c),
       sp_worker := (\<lambda>_. w), sp_handled := handled\<rparr>"

lemmas one_simps = one_state_def one_start_def one_env_def spool_updates fun_eq_iff heartbeat_alive_def age_of_def HEARTBEAT_STALE_def

lemma one_client: "client_step one_env () s t' \<Longrightarrow> t' = t \<Longrightarrow> spool_step one_env s t"
  by (auto intro: spool_step.client)

lemma one_worker: "worker_turn one_env () s t' \<Longrightarrow> t' = t \<Longrightarrow> spool_step one_env s t"
  by (auto intro: spool_step.worker)

lemma one_server: "server_step one_env s t' \<Longrightarrow> t' = t \<Longrightarrow> spool_step one_env s t"
  by (auto intro: spool_step.server)

lemma one_pending: "pending_requests (se_parse_uuid one_env) (se_show_uuid one_env) [''id.request''] = [()]"
  by code_simp

lemma one_valid: "DaemonRequest_validate parse_uuid (Arguments ctxt []) = Inr () \<longleftrightarrow> parse_uuid (rc_request_id ctxt) \<noteq> None"
  by (simp add: validate_exact)

lemma one_answer:
  "spool_result one_env (Some ''ask'') = Inr ''pong''" "runs_handler one_env (Some ''ask'')" "reply_outcome one_env ''pong'' = Answer ''pong''"
  using one_valid [of "se_parse_uuid one_env"] by (simp_all add: one_env_def spool_result_def runs_handler_def reply_outcome_def)

lemma one_run: "(spool_step one_env)\<^sup>*\<^sup>* (one_state [] [] NotStarted NotClaimed []) (one_state [] [] (Finished (Answer ''pong'')) Answered [()])"
proof -
  let ?run = "spool_step one_env"
  have s1: "?run (one_state [] [] NotStarted NotClaimed [])
      (one_state [] [] Writing NotClaimed [])"
    by (rule one_client, rule client_step.see_daemon) ((simp_all add: one_pending one_answer)?, (simp_all add: one_simps)?)
  have s2: "?run (one_state [] [] Writing NotClaimed [])
      (one_state [(RequestTmp (), ''ask'')] [] TmpWritten NotClaimed [])"
    by (rule one_client, rule client_step.write_tmp) ((simp_all add: one_pending one_answer)?, (simp_all add: one_simps)?)
  have s3: "?run (one_state [(RequestTmp (), ''ask'')] [] TmpWritten NotClaimed [])
      (one_state [(RequestFile (), ''ask'')] [] Polling NotClaimed [])"
    by (rule one_client, rule client_step.submit) ((simp_all add: one_pending one_answer)?, (simp_all add: one_simps)?)
  have s4: "?run (one_state [(RequestFile (), ''ask'')] [] Polling NotClaimed [])
      (one_state [(RequestFile (), ''ask'')] [()] Polling NotClaimed [])"
    by (rule one_server, rule server_step.list_requests [where names = "[''id.request'']"]) ((simp_all add: one_pending one_answer)?, (simp_all add: one_simps)?)
  have s5: "?run (one_state [(RequestFile (), ''ask'')] [()] Polling NotClaimed [])
      (one_state [(ClaimedFile (), ''ask'')] [] Polling ClaimHeld [])"
    by (rule one_server, rule server_step.claim [where u = "()" and rest = "[]"]) ((simp_all add: one_pending one_answer)?, (simp_all add: one_simps)?)
  have s6: "?run (one_state [(ClaimedFile (), ''ask'')] [] Polling ClaimHeld [])
      (one_state [(ClaimedFile (), ''ask'')] [] Polling (ReadClaim (Some ''ask'')) [])"
    by (rule one_worker, rule worker_turn.read_claim [where claim = "Some ''ask''"]) ((simp_all add: one_pending one_answer)?, (simp_all add: one_simps)?)
  have s7: "?run (one_state [(ClaimedFile (), ''ask'')] [] Polling (ReadClaim (Some ''ask'')) [])
      (one_state [(ClaimedFile (), ''ask'')] [] Polling (HaveReply (Success ''pong'')) [()])"
    by (rule one_worker, rule worker_turn.run_handler [where claim = "Some ''ask''"]) ((simp_all add: one_pending one_answer)?, (simp_all add: one_simps)?)
  have s8: "?run (one_state [(ClaimedFile (), ''ask'')] [] Polling (HaveReply (Success ''pong'')) [()])
      (one_state [] [] Polling (ClaimGone (Success ''pong'')) [()])"
    by (rule one_worker, rule worker_turn.unclaim [where r = "Success ''pong''", OF _ disjI2, OF _ refl]) ((simp_all add: one_pending one_answer)?, (simp_all add: one_simps)?)
  have s9: "?run (one_state [] [] Polling (ClaimGone (Success ''pong'')) [()])
      (one_state [(ReplyTmp (), ''pong'')] [] Polling (TmpReply ''pong'') [()])"
    by (rule one_worker, rule worker_turn.write_reply_tmp [where r = "Success ''pong''" and b = "''pong''"]) ((simp_all add: one_pending one_answer)?, (simp_all add: one_simps)?)
  have s10: "?run (one_state [(ReplyTmp (), ''pong'')] [] Polling (TmpReply ''pong'') [()])
      (one_state [(ReplyFile (), ''pong'')] [] Polling Answered [()])"
    by (rule one_worker, rule worker_turn.publish [where b = "''pong''"]) ((simp_all add: one_pending one_answer)?, (simp_all add: one_simps)?)
  have s11: "?run (one_state [(ReplyFile (), ''pong'')] [] Polling Answered [()])
      (one_state [(ReplyFile (), ''pong'')] [] (GotReply ''pong'') Answered [()])"
    by (rule one_client, rule client_step.poll_hit [where b = "''pong''" and m = 0]) ((simp_all add: one_pending one_answer)?, (simp_all add: one_simps)?)
  have s12: "?run (one_state [(ReplyFile (), ''pong'')] [] (GotReply ''pong'') Answered [()])
      (one_state [] [] (Finished (Answer ''pong'')) Answered [()])"
    by (rule one_client, rule client_step.collect [where b = "''pong''", OF _ disjI2, OF _ refl]) ((simp_all add: one_pending one_answer)?, (simp_all add: one_simps)?)
  show ?thesis by (rule converse_rtranclp_into_rtranclp, rule s1, rule converse_rtranclp_into_rtranclp, rule s2, rule converse_rtranclp_into_rtranclp, rule s3, rule converse_rtranclp_into_rtranclp, rule s4, rule converse_rtranclp_into_rtranclp, rule s5, rule converse_rtranclp_into_rtranclp, rule s6, rule converse_rtranclp_into_rtranclp, rule s7, rule converse_rtranclp_into_rtranclp, rule s8, rule converse_rtranclp_into_rtranclp, rule s9, rule converse_rtranclp_into_rtranclp, rule s10, rule converse_rtranclp_into_rtranclp, rule s11, rule r_into_rtranclp, rule s12)
qed

lemma one_init: "spool_init (one_state [] [] NotStarted NotClaimed [])"
  unfolding spool_init_def by (intro conjI allI) (simp_all add: one_state_def one_start_def)

theorem spool_executes_at_most_once_witness:
  "\<exists>s0 s. spool_init s0 \<and> (spool_step one_env)\<^sup>*\<^sup>* s0 s \<and> sp_client s () = Finished (Answer ''pong'')
     \<and> () \<in> set (sp_handled s) \<and> spool_result one_env (Some (se_request one_env ())) = Inr ''pong''"
proof -
  let ?s0 = "one_state [] [] NotStarted NotClaimed []" and ?s = "one_state [] [] (Finished (Answer ''pong'')) Answered [()]"
  have codec: "reply_codec one_env" by (auto simp: reply_codec_def one_env_def split: daemon_reply.splits)
  have "sp_client ?s () = Finished (Answer ''pong'')" by (simp add: one_state_def)
  with spool_executes_at_most_once [OF codec one_init one_run] one_init one_run show ?thesis by blast
qed

end
