(* ===== verification/TP_Workspace.thy ===== *)
theory TP_Workspace
  imports TP_Page TP_Utf8
begin

text \<open>
  Workspace configuration and the effective roots of members (\<open>workspace/config.rs\<close>, \<open>workspace/member_root.rs\<close>).  A
  \<open>Path\<close> is the list of its components, which is how Rust compares, joins and pops paths; an absolute path without
  dots is the list of its names, so \<open>starts_with\<close> is \<open>prefix\<close>.  The environment holds what the process asks the system:
  variables, the current directory, canonical paths and metadata, file contents, the common directory Git reports, and
  the TOML parser and digest of the libraries.
\<close>

section \<open>The environment\<close>

type_synonym path = "path_component list"

datatype 'a lookup = Found 'a | NotFound | IoError

record file_info =
  fi_dir :: bool
  fi_file :: bool
  fi_device :: nat
  fi_inode :: nat

record config_document =
  cd_name :: string
  cd_selection :: "string list option"
  cd_members :: "(string \<times> path) list"
  cd_semantic :: "(bool \<times> bool) option"
  cd_output :: "nat option option"

record ws_env =
  we_cwd :: "bytes list result"
  we_home :: "bytes option"
  we_xdg :: "bytes option"
  we_canonicalize :: "path \<Rightarrow> bytes list lookup"
  we_metadata :: "path \<Rightarrow> file_info lookup"
  we_open :: "path \<Rightarrow> bytes result option"
  we_config_toml :: "string \<Rightarrow> config_document option"
  we_registry_toml :: "string \<Rightarrow> path list option"
  we_common_dir :: "bytes list \<Rightarrow> bytes list option"
  we_digest :: "bytes list \<Rightarrow> string"
  we_display :: "path \<Rightarrow> string"

definition absolute :: "bytes list \<Rightarrow> path" where
  "absolute names = RootDir # map Normal names"

fun is_absolute :: "path \<Rightarrow> bool" where
  "is_absolute (RootDir # _) = True"
| "is_absolute _ = False"

definition join :: "path \<Rightarrow> path \<Rightarrow> path" where
  "join base p = (if is_absolute p then p else base @ p)"

text \<open>\<open>Path::ancestors\<close>, the path itself first.\<close>

definition ancestors :: "bytes list \<Rightarrow> bytes list list" where
  "ancestors p = map (\<lambda>k. take (length p - k) p) [0..<Suc (length p)]"

text \<open>\<open>Path::try_exists\<close>.\<close>

definition try_exists :: "ws_env \<Rightarrow> path \<Rightarrow> bool option" where
  "try_exists env p = (case we_metadata env p of Found _ \<Rightarrow> Some True | NotFound \<Rightarrow> Some False | IoError \<Rightarrow> None)"

section \<open>Names and paths\<close>

definition CONFIG_LIMIT :: nat where "CONFIG_LIMIT = 256 * 1024"
definition MEMBER_LIMIT :: nat where "MEMBER_LIMIT = 32"
definition CONFIG_NAME :: string where "CONFIG_NAME = ''trufflepig.workspace.toml''"
definition MAX_BUDGET :: nat where "MAX_BUDGET = 1000000"

definition valid_name :: "string \<Rightarrow> bool" where
  "valid_name name \<longleftrightarrow> name \<noteq> [] \<and> length name \<le> 64
     \<and> list_all (\<lambda>b. is_ascii_alphanumeric b \<or> b = CHR ''_'' \<or> b = CHR ''-'') name"

fun resolve_loop :: "ws_env \<Rightarrow> bytes list \<Rightarrow> path \<Rightarrow> bytes list result" where
  "resolve_loop env resolved [] = Inr resolved"
| "resolve_loop env resolved (CurDir # cs) = resolve_loop env resolved cs"
| "resolve_loop env resolved (ParentDir # cs) = resolve_loop env (butlast resolved) cs"
| "resolve_loop env resolved (c # cs) =
     (let pushed = (case c of Normal n \<Rightarrow> resolved @ [n] | _ \<Rightarrow> [])
      in case we_canonicalize env (absolute pushed) of
           Found canonical \<Rightarrow> resolve_loop env canonical cs
         | NotFound \<Rightarrow> resolve_loop env pushed cs
         | IoError \<Rightarrow> Inl ''resolve workspace path'')"

definition expand_tilde :: "ws_env \<Rightarrow> path \<Rightarrow> path result" where
  "expand_tilde env p =
     (case p of
        Normal n # rest \<Rightarrow>
          if n = ''~'' then (case we_home env of
              None \<Rightarrow> Inl ''HOME is required to expand ~''
            | Some home \<Rightarrow> Inr (path_components home @ rest))
          else if prefix ''~'' n then Inl ''only ~/ paths support tilde expansion''
          else Inr p
      | _ \<Rightarrow> Inr p)"

definition resolve_path :: "ws_env \<Rightarrow> path \<Rightarrow> path \<Rightarrow> bytes list result" where
  "resolve_path env p base =
     (case expand_tilde env p of
        Inl e \<Rightarrow> Inl e
      | Inr expanded \<Rightarrow>
          let absolute_path = join base expanded
          in if \<not> is_absolute absolute_path then Inl ''workspace path base must be absolute''
             else resolve_loop env [] absolute_path)"

definition read_document :: "ws_env \<Rightarrow> (string \<Rightarrow> 'd option) \<Rightarrow> path \<Rightarrow> 'd result" where
  "read_document env from_str p =
     (case we_open env p of
        None \<Rightarrow> Inl (''open '' @ we_display env p)
      | Some (Inl e) \<Rightarrow> Inl e
      | Some (Inr contents) \<Rightarrow>
          let bytes = take (CONFIG_LIMIT + 1) contents
          in if length bytes > CONFIG_LIMIT then Inl ''workspace configuration exceeds 256 KiB''
             else if \<not> well_formed_utf8 bytes then Inl ''workspace configuration is not UTF-8''
             else (case from_str bytes of
                 None \<Rightarrow> Inl (''parse workspace configuration '' @ we_display env p)
               | Some document \<Rightarrow> Inr document))"

section \<open>Members and their effective roots\<close>

record member_identity =
  mi_device :: nat
  mi_inode :: nat

record ws_member =
  wm_name :: string
  wm_root :: "bytes list"
  wm_identity :: "member_identity option"

record member_root =
  mr_member :: ws_member
  mr_root :: "bytes list"
  mr_identity :: "member_identity option"
  mr_worktree :: "string option"
  mr_is_home :: bool

definition identity_of :: "file_info \<Rightarrow> member_identity" where
  "identity_of info = \<lparr>mi_device = fi_device info, mi_inode = fi_inode info\<rparr>"

text \<open>The common part of the two \<open>verify_identity\<close>, with the name they put into their messages.\<close>

definition verify_root :: "ws_env \<Rightarrow> string \<Rightarrow> bytes list \<Rightarrow> member_identity option \<Rightarrow> unit result" where
  "verify_root env name root identity =
     (let fault = (\<lambda>what. Inl (''workspace member '' @ name @ what))
      in case we_metadata env (absolute root) of
           Found info \<Rightarrow>
             if \<not> fi_dir info then fault '' is not a directory''
             else (case we_canonicalize env (absolute root) of
                 Found canonical \<Rightarrow>
                   if canonical \<noteq> root then fault '' canonical path changed''
                   else (case identity of
                       None \<Rightarrow> fault '' was unavailable when captured''
                     | Some i \<Rightarrow> if i = identity_of info then Inr () else fault '' checkout was replaced'')
               | _ \<Rightarrow> Inl ''canonicalize'')
         | _ \<Rightarrow> fault '' unavailable'')"

definition Member_verify_identity :: "ws_env \<Rightarrow> ws_member \<Rightarrow> unit result" where
  "Member_verify_identity env m = verify_root env (wm_name m) (wm_root m) (wm_identity m)"

definition MemberRoot_configured :: "ws_member \<Rightarrow> member_root" where
  "MemberRoot_configured m = \<lparr>mr_member = m, mr_root = wm_root m, mr_identity = wm_identity m, mr_worktree = None,
     mr_is_home = False\<rparr>"

definition MemberRoot_linked :: "ws_env \<Rightarrow> ws_member \<Rightarrow> bytes list \<Rightarrow> member_root result" where
  "MemberRoot_linked env m root =
     (case we_metadata env (absolute root) of
        Found info \<Rightarrow>
          if \<not> fi_dir info then Inl ''linked worktree root is not a directory''
          else if root = [] \<or> \<not> well_formed_utf8 (last root) then Inl ''linked worktree root has no UTF-8 name''
          else Inr \<lparr>mr_member = m, mr_root = root, mr_identity = Some (identity_of info), mr_worktree = Some (last root),
                    mr_is_home = False\<rparr>
      | _ \<Rightarrow> Inl ''inspect linked worktree root'')"

definition display_name :: "member_root \<Rightarrow> string" where
  "display_name r = (case mr_worktree r of
     Some label \<Rightarrow> wm_name (mr_member r) @ ''@'' @ label | None \<Rightarrow> wm_name (mr_member r))"

definition MemberRoot_verify_identity :: "ws_env \<Rightarrow> member_root \<Rightarrow> unit result" where
  "MemberRoot_verify_identity env r =
     (if mr_worktree r = None then Member_verify_identity env (mr_member r)
      else verify_root env (display_name r) (mr_root r) (mr_identity r))"

definition dot_git :: "bytes list \<Rightarrow> path" where
  "dot_git directory = absolute (directory @ [''.git''])"

fun worktree_above :: "ws_env \<Rightarrow> bytes list list \<Rightarrow> bytes list option" where
  "worktree_above env [] = None"
| "worktree_above env (a # as) =
     (case we_metadata env (dot_git a) of
        Found info \<Rightarrow> if fi_file info then Some a else None
      | _ \<Rightarrow> worktree_above env as)"

definition linked_worktree_top :: "ws_env \<Rightarrow> bytes list \<Rightarrow> bytes list option" where
  "linked_worktree_top env start = worktree_above env (ancestors start)"

definition member_common_dir :: "ws_env \<Rightarrow> ws_member \<Rightarrow> bytes list option" where
  "member_common_dir env m =
     (case we_metadata env (dot_git (wm_root m)) of
        Found info \<Rightarrow>
          if fi_dir info then (case we_canonicalize env (dot_git (wm_root m)) of Found c \<Rightarrow> Some c | _ \<Rightarrow> None)
          else we_common_dir env (wm_root m)
      | _ \<Rightarrow> None)"

definition linked_root_of_member :: "ws_env \<Rightarrow> ws_member \<Rightarrow> path \<Rightarrow> bytes list option" where
  "linked_root_of_member env m given =
     (case we_canonicalize env given of
        Found candidate \<Rightarrow>
          (case linked_worktree_top env candidate of
             None \<Rightarrow> None
           | Some t \<Rightarrow>
               if t \<noteq> candidate \<or> candidate = wm_root m then None
               else (case we_common_dir env candidate of
                   None \<Rightarrow> None
                 | Some common \<Rightarrow> if member_common_dir env m = Some common then Some candidate else None))
      | _ \<Rightarrow> None)"

definition canonical_or :: "ws_env \<Rightarrow> bytes list \<Rightarrow> bytes list" where
  "canonical_or env start = (case we_canonicalize env (absolute start) of Found c \<Rightarrow> c | _ \<Rightarrow> start)"

definition home_root :: "ws_env \<Rightarrow> ws_member list \<Rightarrow> bytes list \<Rightarrow> member_root option result" where
  "home_root env members given =
     (let start = canonical_or env given;
          top = linked_worktree_top env start
      in case find (\<lambda>m. prefix (wm_root m) start) members of
           Some m \<Rightarrow>
             (case top of
                Some t \<Rightarrow>
                  if t \<noteq> wm_root m \<and> linked_root_of_member env m (absolute t) \<noteq> None
                  then map_sum id Some (MemberRoot_linked env m t)
                  else Inr (Some (MemberRoot_configured m))
              | None \<Rightarrow> Inr (Some (MemberRoot_configured m)))
         | None \<Rightarrow>
             (case top of
                None \<Rightarrow> Inr None
              | Some t \<Rightarrow>
                  (case we_common_dir env t of
                     None \<Rightarrow> Inr None
                   | Some common \<Rightarrow>
                       (case find (\<lambda>m. member_common_dir env m = Some common) members of
                          None \<Rightarrow> Inr None
                        | Some m \<Rightarrow> map_sum id Some (MemberRoot_linked env m t)))))"

section \<open>Loading and discovery\<close>

record workspace_config =
  wc_name :: string
  wc_id :: string
  wc_path :: "bytes list"
  wc_members :: "ws_member list"
  wc_semantic :: "bool \<times> bool"
  wc_budget :: "nat option"

definition member_names :: "config_document \<Rightarrow> string list result" where
  "member_names doc =
     (case cd_selection doc of
        None \<Rightarrow> Inr (map fst (cd_members doc))
      | Some names \<Rightarrow>
          let unique = remdups names
          in if length unique \<noteq> length names then Inl ''duplicate workspace member selection''
             else if length unique \<noteq> length (cd_members doc) \<or> \<not> list_all (\<lambda>n. map_of (cd_members doc) n \<noteq> None) unique
             then Inl ''workspace.members must list every declared member exactly once''
             else Inr names)"

definition inspect_member :: "ws_env \<Rightarrow> string \<Rightarrow> bytes list \<Rightarrow> member_identity option result" where
  "inspect_member env name root =
     (case we_metadata env (absolute root) of
        Found info \<Rightarrow>
          if fi_dir info then Inr (Some (identity_of info))
          else Inl (''workspace member '' @ name @ '' is not a directory'')
      | NotFound \<Rightarrow> Inr None
      | IoError \<Rightarrow> Inl ''inspect workspace member'')"

definition overlaps :: "bytes list \<Rightarrow> bytes list \<Rightarrow> bool" where
  "overlaps a b \<longleftrightarrow> prefix b a \<or> prefix a b"

fun load_members :: "ws_env \<Rightarrow> (string \<times> path) list \<Rightarrow> path \<Rightarrow> ws_member list \<Rightarrow> string list \<Rightarrow> ws_member list result" where
  "load_members env declared base members [] = Inr members"
| "load_members env declared base members (name # names) =
     (if \<not> valid_name name then Inl (''invalid workspace member name: '' @ name)
      else
        (case resolve_path env (the (map_of declared name)) base of
           Inl e \<Rightarrow> Inl e
         | Inr root \<Rightarrow>
             (case inspect_member env name root of
                Inl e \<Rightarrow> Inl e
              | Inr identity \<Rightarrow>
                  (case find (\<lambda>other. overlaps root (wm_root other)) members of
                     Some other \<Rightarrow> Inl (''workspace members '' @ name @ '' and '' @ wm_name other
                       @ '' have duplicate or overlapping roots'')
                   | None \<Rightarrow> load_members env declared base
                       (members @ [\<lparr>wm_name = name, wm_root = root, wm_identity = identity\<rparr>]) names))))"

definition document_budget :: "config_document \<Rightarrow> nat option result" where
  "document_budget doc =
     (case Option.bind (cd_output doc) id of
        None \<Rightarrow> Inr None
      | Some budget \<Rightarrow>
          if 1 \<le> budget \<and> budget \<le> MAX_BUDGET then Inr (Some budget)
          else Inl (''invalid workspace output budget: expected 1..'' @ show_nat MAX_BUDGET))"

definition load_document :: "ws_env \<Rightarrow> bytes list \<Rightarrow> config_document \<Rightarrow> workspace_config result" where
  "load_document env p doc =
     (if \<not> valid_name (cd_name doc) then Inl ''invalid workspace name''
      else if cd_members doc = [] then Inl ''workspace must contain members''
      else if length (cd_members doc) > MEMBER_LIMIT then Inl ''workspace exceeds 32 members''
      else
        (case member_names doc of
           Inl e \<Rightarrow> Inl e
         | Inr names \<Rightarrow>
             if p = [] then Inl ''workspace configuration has no parent''
             else
               (case load_members env (cd_members doc) (absolute (butlast p)) [] names of
                  Inl e \<Rightarrow> Inl e
                | Inr members \<Rightarrow>
                    (case document_budget doc of
                       Inl e \<Rightarrow> Inl e
                     | Inr budget \<Rightarrow> Inr \<lparr>wc_name = cd_name doc, wc_id = we_digest env p, wc_path = p, wc_members = members,
                         wc_semantic = (case cd_semantic doc of None \<Rightarrow> (False, False) | Some s \<Rightarrow> s), wc_budget = budget\<rparr>))))"

definition WorkspaceConfig_load :: "ws_env \<Rightarrow> path \<Rightarrow> workspace_config result" where
  "WorkspaceConfig_load env given =
     (case we_cwd env of
        Inl e \<Rightarrow> Inl e
      | Inr cwd \<Rightarrow>
          (case resolve_path env given (absolute cwd) of
             Inl e \<Rightarrow> Inl e
           | Inr resolved \<Rightarrow>
               (case we_canonicalize env (absolute resolved) of
                  Found p \<Rightarrow>
                    (case read_document env (we_config_toml env) (absolute p) of
                       Inl e \<Rightarrow> Inl e
                     | Inr doc \<Rightarrow> load_document env p doc)
                | _ \<Rightarrow> Inl (''workspace configuration unavailable: '' @ we_display env given))))"

definition WorkspaceConfig_home_root :: "ws_env \<Rightarrow> workspace_config \<Rightarrow> path \<Rightarrow> member_root option result" where
  "WorkspaceConfig_home_root env cfg given =
     (case we_cwd env of
        Inl e \<Rightarrow> Inl e
      | Inr cwd \<Rightarrow>
          (case resolve_path env given (absolute cwd) of
             Inl e \<Rightarrow> Inl e
           | Inr start \<Rightarrow> map_sum id (map_option (\<lambda>home. home\<lparr>mr_is_home := True\<rparr>)) (home_root env (wc_members cfg) start)))"

definition member_roots :: "ws_env \<Rightarrow> workspace_config \<Rightarrow> path \<Rightarrow> member_root list result" where
  "member_roots env cfg given =
     (case WorkspaceConfig_home_root env cfg given of
        Inl e \<Rightarrow> Inl e
      | Inr home \<Rightarrow> Inr (map (\<lambda>m. case home of
            Some h \<Rightarrow> if wm_name (mr_member h) = wm_name m then h else MemberRoot_configured m
          | None \<Rightarrow> MemberRoot_configured m) (wc_members cfg)))"

definition accepts_explicit_root :: "ws_env \<Rightarrow> workspace_config \<Rightarrow> bytes list \<Rightarrow> bool result" where
  "accepts_explicit_root env cfg start =
     (if list_ex (\<lambda>m. wm_root m = start) (wc_members cfg) then Inr True
      else map_sum id (\<lambda>home. case home of None \<Rightarrow> False | Some h \<Rightarrow> mr_worktree h \<noteq> None \<and> mr_root h = start)
             (WorkspaceConfig_home_root env cfg (absolute start)))"

definition accept_root :: "ws_env \<Rightarrow> workspace_config \<Rightarrow> bytes list \<Rightarrow> bool \<Rightarrow> workspace_config option result" where
  "accept_root env cfg start explicit_root =
     (if explicit_root then map_sum id (\<lambda>ok. if ok then Some cfg else None) (accepts_explicit_root env cfg start)
      else Inr (Some cfg))"

definition parent_path :: "path \<Rightarrow> path" where
  "parent_path p = butlast p"

fun registry_loop :: "ws_env \<Rightarrow> path \<Rightarrow> bytes list \<Rightarrow> bool \<Rightarrow> workspace_config option \<Rightarrow> string list \<Rightarrow> path list \<Rightarrow>
    workspace_config option result" where
  "registry_loop env base start explicit_root matched seen [] = Inr matched"
| "registry_loop env base start explicit_root matched seen (candidate # candidates) =
     (case resolve_path env candidate base of
        Inl e \<Rightarrow> Inl e
      | Inr p \<Rightarrow>
          (case WorkspaceConfig_load env (absolute p) of
             Inl _ \<Rightarrow> Inl (''invalid workspace registry entry '' @ we_display env (absolute p) @ ''; fix or remove it'')
           | Inr cfg \<Rightarrow>
               if wc_id cfg \<in> set seen then registry_loop env base start explicit_root matched seen candidates
               else
                 (let seen' = wc_id cfg # seen
                  in case WorkspaceConfig_home_root env cfg (absolute start) of
                    Inl e \<Rightarrow> Inl e
                  | Inr None \<Rightarrow> registry_loop env base start explicit_root matched seen' candidates
                  | Inr (Some _) \<Rightarrow>
                      (case accept_root env cfg start explicit_root of
                         Inl e \<Rightarrow> Inl e
                       | Inr None \<Rightarrow> registry_loop env base start explicit_root matched seen' candidates
                       | Inr (Some cfg) \<Rightarrow>
                           (case matched of
                              Some previous \<Rightarrow> Inl (''ambiguous workspace membership: '' @ we_display env (absolute (wc_path previous))
                                @ '' and '' @ we_display env (absolute (wc_path cfg)) @ ''; select --workspace FILE'')
                            | None \<Rightarrow> registry_loop env base start explicit_root (Some cfg) seen' candidates)))))"

definition discover_registry :: "ws_env \<Rightarrow> path \<Rightarrow> bytes list \<Rightarrow> bool \<Rightarrow> workspace_config option result" where
  "discover_registry env p start explicit_root =
     (case try_exists env p of
        None \<Rightarrow> Inl ''inspect workspace registry''
      | Some False \<Rightarrow> Inr None
      | Some True \<Rightarrow>
          (case read_document env (we_registry_toml env) p of
             Inl e \<Rightarrow> Inl e
           | Inr workspaces \<Rightarrow> registry_loop env (parent_path p) start explicit_root None [] workspaces))"

fun ancestor_config :: "ws_env \<Rightarrow> bytes list list \<Rightarrow> bytes list option result" where
  "ancestor_config env [] = Inr None"
| "ancestor_config env (a # as) =
     (case try_exists env (absolute (a @ [CONFIG_NAME])) of
        None \<Rightarrow> Inl ''inspect ancestor workspace configuration''
      | Some True \<Rightarrow> Inr (Some (a @ [CONFIG_NAME]))
      | Some False \<Rightarrow> ancestor_config env as)"

definition registry_base :: "ws_env \<Rightarrow> path option" where
  "registry_base env =
     (case we_xdg env of
        Some (c # cs) \<Rightarrow> Some (path_components (c # cs))
      | _ \<Rightarrow> map_option (\<lambda>home. path_components home @ [Normal ''.config'']) (we_home env))"

definition WorkspaceConfig_discover :: "ws_env \<Rightarrow> path \<Rightarrow> path option \<Rightarrow> bool \<Rightarrow> bool \<Rightarrow> workspace_config option result" where
  "WorkspaceConfig_discover env given explicit no_workspace explicit_root =
     (if no_workspace \<and> explicit \<noteq> None then Inl ''--workspace conflicts with --no-workspace''
      else if no_workspace then Inr None
      else
        (case we_cwd env of
           Inl e \<Rightarrow> Inl e
         | Inr cwd \<Rightarrow>
             (case resolve_path env given (absolute cwd) of
                Inl e \<Rightarrow> Inl e
              | Inr start \<Rightarrow>
                  (case explicit of
                     Some p \<Rightarrow>
                       (case WorkspaceConfig_load env p of
                          Inl e \<Rightarrow> Inl e
                        | Inr cfg \<Rightarrow>
                            (case (if explicit_root then accepts_explicit_root env cfg start else Inr True) of
                               Inl e \<Rightarrow> Inl e
                             | Inr False \<Rightarrow> Inl ''explicit root is not an exact workspace member; use --no-workspace for a subtree''
                             | Inr True \<Rightarrow> Inr (Some cfg)))
                   | None \<Rightarrow>
                       (case ancestor_config env (ancestors start) of
                          Inl e \<Rightarrow> Inl e
                        | Inr (Some p) \<Rightarrow>
                            (case WorkspaceConfig_load env (absolute p) of
                               Inl e \<Rightarrow> Inl e
                             | Inr cfg \<Rightarrow> accept_root env cfg start explicit_root)
                        | Inr None \<Rightarrow>
                            (case registry_base env of
                               None \<Rightarrow> Inr None
                             | Some base \<Rightarrow> discover_registry env
                                 (base @ [Normal ''trufflepig'', Normal ''workspaces.toml'']) start explicit_root))))))"

section \<open>Configurations\<close>

definition apart :: "ws_member list \<Rightarrow> bool" where
  "apart ms \<longleftrightarrow> sorted_wrt (\<lambda>a b. \<not> overlaps (wm_root b) (wm_root a)) ms"

lemma apart_snoc: "apart (ms @ [m]) \<longleftrightarrow> apart ms \<and> (\<forall>a \<in> set ms. \<not> overlaps (wm_root m) (wm_root a))"
  by (auto simp: apart_def sorted_wrt_append)

text \<open>What the loop over the names has added when it ends.\<close>

definition loaded_as :: "ws_env \<Rightarrow> (string \<times> path) list \<Rightarrow> path \<Rightarrow> ws_member \<Rightarrow> bool" where
  "loaded_as env declared base m \<longleftrightarrow> valid_name (wm_name m)
     \<and> resolve_path env (the (map_of declared (wm_name m))) base = Inr (wm_root m)
     \<and> inspect_member env (wm_name m) (wm_root m) = Inr (wm_identity m)"

lemma load_members_result:
  "load_members env declared base ms names = Inr out \<Longrightarrow> apart ms \<Longrightarrow>
   \<exists>new. out = ms @ new \<and> map wm_name new = names \<and> apart out \<and> list_all (loaded_as env declared base) new"
proof (induction names arbitrary: ms)
  case (Cons name names)
  from Cons.prems(1) obtain root identity where step: "valid_name name"
    "resolve_path env (the (map_of declared name)) base = Inr root" "inspect_member env name root = Inr identity"
    "find (\<lambda>other. overlaps root (wm_root other)) ms = None"
    "load_members env declared base (ms @ [\<lparr>wm_name = name, wm_root = root, wm_identity = identity\<rparr>]) names = Inr out"
    by (auto split: if_splits sum.splits option.splits)
  let ?m = "\<lparr>wm_name = name, wm_root = root, wm_identity = identity\<rparr>"
  from step(4) Cons.prems(2) have "apart (ms @ [?m])" by (auto simp: apart_snoc find_None_iff)
  from Cons.IH [OF step(5) this] obtain new where "out = (ms @ [?m]) @ new" "map wm_name new = names" "apart out"
    "list_all (loaded_as env declared base) new" by blast
  moreover from step(1-3) have "loaded_as env declared base ?m" by (simp add: loaded_as_def)
  ultimately show ?case by (intro exI [of _ "?m # new"]) simp
qed simp

lemma length_remdups_distinct: "length (remdups xs) = length xs \<Longrightarrow> distinct xs"
  by (metis card_distinct length_remdups_card_conv)

lemma member_names_exact:
  assumes "member_names doc = Inr names" "bt_ok (cd_members doc)"
  shows "distinct names \<and> set names = set (map fst (cd_members doc))"
proof -
  have keys: "distinct (map fst (cd_members doc))"
    using assms(2) strict_sorted_iff by (auto simp: bt_ok_def)
  show ?thesis
  proof (cases "cd_selection doc")
    case None
    with assms(1) keys show ?thesis by (auto simp: member_names_def)
  next
    case (Some sel)
    with assms(1) have sel: "names = sel" "length (remdups sel) = length sel" "length (remdups sel) = length (cd_members doc)"
      "\<forall>n \<in> set sel. map_of (cd_members doc) n \<noteq> None"
      by (simp_all add: member_names_def Let_def list_all_iff split: if_splits)
    then have d: "distinct names" by (metis length_remdups_distinct)
    moreover have "set names \<subseteq> set (map fst (cd_members doc))"
      using sel(1,4) by (auto simp: map_of_eq_None_iff)
    moreover have "card (set (map fst (cd_members doc))) = card (set names)"
      using distinct_card [OF d] distinct_card [OF keys] sel(1-3) by simp
    ultimately show ?thesis using card_subset_eq [of "set (map fst (cd_members doc))" "set names"] by simp
  qed
qed

text \<open>The TOML library fills a \<open>BTreeMap\<close>: its keys are in order and distinct.\<close>

definition documents_ok :: "ws_env \<Rightarrow> bool" where
  "documents_ok env \<longleftrightarrow> (\<forall>s doc. we_config_toml env s = Some doc \<longrightarrow> bt_ok (cd_members doc))"

definition config_ok :: "ws_env \<Rightarrow> config_document \<Rightarrow> workspace_config \<Rightarrow> bool" where
  "config_ok env doc cfg \<longleftrightarrow>
     wc_name cfg = cd_name doc \<and> valid_name (wc_name cfg)
     \<and> wc_members cfg \<noteq> [] \<and> length (wc_members cfg) \<le> MEMBER_LIMIT
     \<and> distinct (map wm_name (wc_members cfg)) \<and> set (map wm_name (wc_members cfg)) = set (map fst (cd_members doc))
     \<and> (\<forall>names. cd_selection doc = Some names \<longrightarrow> map wm_name (wc_members cfg) = names)
     \<and> (\<forall>m \<in> set (wc_members cfg). loaded_as env (cd_members doc) (absolute (butlast (wc_path cfg))) m)
     \<and> (\<forall>m \<in> set (wc_members cfg). \<forall>m' \<in> set (wc_members cfg). overlaps (wm_root m) (wm_root m') \<longrightarrow> m = m')
     \<and> (\<forall>b. wc_budget cfg = Some b \<longrightarrow> 1 \<le> b \<and> b \<le> MAX_BUDGET)"

lemma apart_unique:
  assumes "apart ms" "m \<in> set ms" "m' \<in> set ms" "overlaps (wm_root m) (wm_root m')"
  shows "m = m'"
proof -
  from assms(2,3) obtain i j where ij: "i < length ms" "j < length ms" "m = ms ! i" "m' = ms ! j"
    by (metis in_set_conv_nth)
  with assms(1,4) show ?thesis
    by (cases i j rule: linorder_cases) (auto simp: apart_def sorted_wrt_iff_nth_less overlaps_def)
qed

lemma load_document_ok:
  assumes "load_document env p doc = Inr cfg" "bt_ok (cd_members doc)"
  shows "config_ok env doc cfg \<and> wc_path cfg = p \<and> p \<noteq> []"
proof -
  from assms(1) obtain names members budget where l: "valid_name (cd_name doc)" "cd_members doc \<noteq> []"
    "length (cd_members doc) \<le> MEMBER_LIMIT" "member_names doc = Inr names" "p \<noteq> []"
    "load_members env (cd_members doc) (absolute (butlast p)) [] names = Inr members" "document_budget doc = Inr budget"
    "wc_name cfg = cd_name doc" "wc_path cfg = p" "wc_members cfg = members" "wc_budget cfg = budget"
    by (auto simp: load_document_def split: if_splits sum.splits)
  from load_members_result [OF l(6)] have members: "map wm_name members = names" "apart members"
    "list_all (loaded_as env (cd_members doc) (absolute (butlast p))) members"
    by (auto simp: apart_def)
  note names = member_names_exact [OF l(4) assms(2)]
  have "length members = length (cd_members doc)"
  proof -
    have "length members = length names" using members(1) by auto
    also have "\<dots> = card (set (map fst (cd_members doc)))" using names distinct_card by metis
    also have "\<dots> = length (cd_members doc)"
      using assms(2) strict_sorted_iff distinct_card [of "map fst (cd_members doc)"] by (auto simp: bt_ok_def)
    finally show ?thesis .
  qed
  moreover have "\<forall>sel. cd_selection doc = Some sel \<longrightarrow> names = sel"
    using l(4) by (auto simp: member_names_def Let_def split: if_splits)
  moreover have "\<forall>b. budget = Some b \<longrightarrow> 1 \<le> b \<and> b \<le> MAX_BUDGET"
    using l(7) by (auto simp: document_budget_def split: option.splits if_splits)
  ultimately show ?thesis
    using l members names apart_unique [OF members(2)] by (auto simp: config_ok_def list_all_iff)
qed

lemma WorkspaceConfig_load_document:
  "WorkspaceConfig_load env given = Inr cfg \<Longrightarrow>
   \<exists>p doc. read_document env (we_config_toml env) (absolute p) = Inr doc \<and> load_document env p doc = Inr cfg"
  by (auto simp: WorkspaceConfig_load_def split: sum.splits lookup.splits)

lemma WorkspaceConfig_load_ok:
  assumes "WorkspaceConfig_load env given = Inr cfg" "documents_ok env"
  shows "\<exists>doc. read_document env (we_config_toml env) (absolute (wc_path cfg)) = Inr doc \<and> config_ok env doc cfg"
proof -
  from WorkspaceConfig_load_document [OF assms(1)] obtain p doc where d:
    "read_document env (we_config_toml env) (absolute p) = Inr doc" "load_document env p doc = Inr cfg" by blast
  from d(1) assms(2) have "bt_ok (cd_members doc)"
    by (auto simp: read_document_def documents_ok_def Let_def split: option.splits sum.splits if_splits)
  from load_document_ok [OF d(2) this] d(1) show ?thesis by auto
qed

section \<open>The home member\<close>

lemma worktree_above_mem: "worktree_above env as = Some t \<Longrightarrow> t \<in> set as"
  by (induction as) (auto split: lookup.splits if_splits)

lemma ancestors_prefix: "a \<in> set (ancestors p) \<Longrightarrow> prefix a p"
  by (auto simp: ancestors_def take_is_prefix)

lemma worktree_top_prefix: "linked_worktree_top env start = Some t \<Longrightarrow> prefix t start"
  by (metis linked_worktree_top_def worktree_above_mem ancestors_prefix)

text \<open>The worktree and the member belong to one repository, as Git reports it for the worktree's own or canonical path.\<close>

definition same_repository :: "ws_env \<Rightarrow> bytes list \<Rightarrow> ws_member \<Rightarrow> bool" where
  "same_repository env t m \<longleftrightarrow>
     (\<exists>c common. (c = t \<or> we_canonicalize env (absolute t) = Found c) \<and> we_common_dir env c = Some common
        \<and> member_common_dir env m = Some common)"

lemma linked_root_repository: "linked_root_of_member env m (absolute t) \<noteq> None \<Longrightarrow> same_repository env t m"
  by (auto simp: linked_root_of_member_def same_repository_def split: lookup.splits option.splits if_splits)

lemma MemberRoot_linked_fields:
  "MemberRoot_linked env m t = Inr h \<Longrightarrow> mr_member h = m \<and> mr_root h = t \<and> mr_worktree h = Some (last t)"
  by (auto simp: MemberRoot_linked_def split: lookup.splits if_splits)

definition home_of :: "ws_env \<Rightarrow> ws_member list \<Rightarrow> bytes list \<Rightarrow> member_root \<Rightarrow> bool" where
  "home_of env members start h \<longleftrightarrow> mr_member h \<in> set members \<and> prefix (mr_root h) start
     \<and> (case mr_worktree h of
          None \<Rightarrow> mr_root h = wm_root (mr_member h)
        | Some label \<Rightarrow> linked_worktree_top env start = Some (mr_root h) \<and> mr_root h \<noteq> wm_root (mr_member h)
            \<and> same_repository env (mr_root h) (mr_member h))"

lemma home_root_sound:
  assumes "home_root env members given = Inr (Some h)"
  shows "home_of env members (canonical_or env given) h"
proof -
  let ?start = "canonical_or env given"
  show ?thesis
  proof (cases "find (\<lambda>m. prefix (wm_root m) ?start) members")
    case (Some m)
    then have m: "m \<in> set members" "prefix (wm_root m) ?start" by (auto simp: find_Some_iff)
    from Some assms consider "h = MemberRoot_configured m"
      | t where "linked_worktree_top env ?start = Some t" "t \<noteq> wm_root m" "linked_root_of_member env m (absolute t) \<noteq> None"
        "MemberRoot_linked env m t = Inr h"
      by (auto simp: home_root_def Let_def map_sum_eq_Inr split: option.splits if_splits)
    then show ?thesis
    proof cases
      case 1
      with m show ?thesis by (simp add: home_of_def MemberRoot_configured_def)
    next
      case (2 t)
      with m(1) MemberRoot_linked_fields [OF 2(4)] linked_root_repository [OF 2(3)] worktree_top_prefix [OF 2(1)]
      show ?thesis by (simp add: home_of_def)
    qed
  next
    case None
    with assms obtain t common m where t: "linked_worktree_top env ?start = Some t" "we_common_dir env t = Some common"
      "find (\<lambda>m. member_common_dir env m = Some common) members = Some m" "MemberRoot_linked env m t = Inr h"
      by (auto simp: home_root_def Let_def map_sum_eq_Inr split: option.splits)
    from t(3) have m: "m \<in> set members" "member_common_dir env m = Some common" by (auto simp: find_Some_iff)
    with None have "\<not> prefix (wm_root m) ?start" by (auto simp: find_None_iff)
    with worktree_top_prefix [OF t(1)] have "t \<noteq> wm_root m" by auto
    with m t MemberRoot_linked_fields [OF t(4)] worktree_top_prefix [OF t(1)] show ?thesis
      by (auto simp: home_of_def same_repository_def)
  qed
qed

lemma overlapping_prefixes: "prefix a (s :: bytes list) \<Longrightarrow> prefix b s \<Longrightarrow> overlaps a b"
  unfolding overlaps_def by (metis prefix_same_cases)

lemma home_root_of_containing:
  assumes "home_root env members given = Inr home" "m \<in> set members" "prefix (wm_root m) (canonical_or env given)"
    "\<forall>m \<in> set members. \<forall>m' \<in> set members. overlaps (wm_root m) (wm_root m') \<longrightarrow> m = m'"
  shows "\<exists>h. home = Some h \<and> mr_member h = m"
proof -
  let ?start = "canonical_or env given"
  from assms(2,3) obtain m' where m': "find (\<lambda>m. prefix (wm_root m) ?start) members = Some m'"
    by (metis find_None_iff not_Some_eq)
  then have "m' \<in> set members" "prefix (wm_root m') ?start" by (auto simp: find_Some_iff)
  with assms(2-4) overlapping_prefixes have "m' = m" by blast
  with m' assms(1) show ?thesis
    by (auto simp: home_root_def Let_def map_sum_eq_Inr MemberRoot_configured_def
      dest: MemberRoot_linked_fields split: option.splits if_splits)
qed

text \<open>Reordering the members does not change the home when one of them contains the directory.\<close>

lemma find_only:
  assumes "\<exists>x \<in> set xs. P x" "\<forall>x \<in> set xs. \<forall>y \<in> set xs. P x \<and> P y \<longrightarrow> x = y" "set ys = set xs"
  shows "find P ys = find P xs"
proof -
  from assms(1) obtain x where x: "find P xs = Some x" by (metis find_None_iff not_Some_eq)
  from assms(1,3) obtain y where y: "find P ys = Some y" by (metis find_None_iff not_Some_eq)
  from x y have "x \<in> set xs" "P x" "y \<in> set ys" "P y" by (auto simp: find_Some_iff)
  with assms(2,3) have "x = y" by blast
  with x y show ?thesis by simp
qed

lemma home_root_order:
  assumes "set ms' = set members" "\<exists>m \<in> set members. prefix (wm_root m) (canonical_or env given)"
    "\<forall>m \<in> set members. \<forall>m' \<in> set members. overlaps (wm_root m) (wm_root m') \<longrightarrow> m = m'"
  shows "home_root env ms' given = home_root env members given"
proof -
  have "find (\<lambda>m. prefix (wm_root m) (canonical_or env given)) ms' = find (\<lambda>m. prefix (wm_root m) (canonical_or env given)) members"
    by (rule find_only) (use assms overlapping_prefixes in blast)+
  moreover from assms(2) obtain m where "find (\<lambda>m. prefix (wm_root m) (canonical_or env given)) members = Some m"
    by (metis find_None_iff not_Some_eq)
  ultimately show ?thesis by (simp add: home_root_def Let_def)
qed

text \<open>Without such a member, the first one of the repository of the linked worktree above the directory.\<close>

definition worktree_owner :: "ws_env \<Rightarrow> ws_member list \<Rightarrow> bytes list \<Rightarrow> ws_member option" where
  "worktree_owner env members start =
     (case linked_worktree_top env start of
        None \<Rightarrow> None
      | Some t \<Rightarrow> (case we_common_dir env t of None \<Rightarrow> None | Some common \<Rightarrow> find (\<lambda>m. member_common_dir env m = Some common) members))"

lemma home_root_outside:
  assumes "home_root env members given = Inr home" "\<forall>m \<in> set members. \<not> prefix (wm_root m) (canonical_or env given)"
  shows "map_option mr_member home = worktree_owner env members (canonical_or env given)"
proof -
  from assms(2) have "find (\<lambda>m. prefix (wm_root m) (canonical_or env given)) members = None" by (simp add: find_None_iff)
  with assms(1) show ?thesis
    by (auto simp: home_root_def worktree_owner_def Let_def map_sum_eq_Inr dest: MemberRoot_linked_fields split: option.splits)
qed

lemma filter_one_member:
  "distinct (map k ms) \<Longrightarrow> m \<in> set ms \<Longrightarrow> P a \<Longrightarrow> \<forall>x. \<not> P (f x) \<Longrightarrow>
   filter P (map (\<lambda>x. if k m = k x then a else f x) ms) = [a]"
proof (induction ms)
  case (Cons x ms)
  show ?case
  proof (cases "x = m")
    case True
    with Cons.prems have "\<forall>y \<in> set ms. k m \<noteq> k y" by (auto simp: image_iff)
    then have "filter P (map (\<lambda>x. if k m = k x then a else f x) ms) = []" using Cons.prems(4) by (auto simp: filter_empty_conv)
    with True Cons.prems(3) show ?thesis by simp
  next
    case False
    with Cons.prems have "k m \<noteq> k x" "m \<in> set ms" by (auto simp: image_iff)
    with Cons show ?thesis by simp
  qed
qed simp

lemma map_one_member:
  "distinct (map k ms) \<Longrightarrow> m \<in> set ms \<Longrightarrow> g a = m \<Longrightarrow> \<forall>x. g (f x) = x \<Longrightarrow>
   map g (map (\<lambda>x. if k m = k x then a else f x) ms) = ms"
  by (auto simp: distinct_map inj_on_def intro!: map_idI)

lemma WorkspaceConfig_home_root_cases:
  assumes "WorkspaceConfig_home_root env cfg given = Inr home"
  obtains cwd start found where "we_cwd env = Inr cwd" "resolve_path env given (absolute cwd) = Inr start"
    "home_root env (wc_members cfg) start = Inr found" "home = map_option (\<lambda>h. h\<lparr>mr_is_home := True\<rparr>) found"
  using assms by (auto simp: WorkspaceConfig_home_root_def map_sum_eq_Inr split: sum.splits)

lemma home_of_is_home [simp]: "home_of env ms start (h\<lparr>mr_is_home := b\<rparr>) = home_of env ms start h"
  by (simp add: home_of_def split: option.split)


section \<open>Discovery\<close>

lemma ancestor_config_split:
  "ancestor_config env as = Inr (Some p) \<Longrightarrow> \<exists>xs a ys. as = xs @ a # ys \<and> p = a @ [CONFIG_NAME]
     \<and> try_exists env (absolute p) = Some True \<and> (\<forall>x \<in> set xs. try_exists env (absolute (x @ [CONFIG_NAME])) = Some False)"
proof (induction as)
  case (Cons a as)
  then consider "p = a @ [CONFIG_NAME]" "try_exists env (absolute p) = Some True"
    | "try_exists env (absolute (a @ [CONFIG_NAME])) = Some False" "ancestor_config env as = Inr (Some p)"
    by (auto split: option.splits bool.splits)
  then show ?case
  proof cases
    case 1
    then show ?thesis by (intro exI [of _ "[]"] exI [of _ a] exI [of _ as]) simp
  next
    case 2
    from Cons.IH [OF 2(2)] obtain xs b ys where "as = xs @ b # ys" "p = b @ [CONFIG_NAME]" "try_exists env (absolute p) = Some True"
      "\<forall>x \<in> set xs. try_exists env (absolute (x @ [CONFIG_NAME])) = Some False" by blast
    with 2(1) show ?thesis by (intro exI [of _ "a # xs"]) auto
  qed
qed simp

lemma ancestor_config_none:
  "ancestor_config env as = Inr None \<Longrightarrow> a \<in> set as \<Longrightarrow> try_exists env (absolute (a @ [CONFIG_NAME])) = Some False"
  by (induction as) (auto split: option.splits bool.splits)

lemma prefix_ancestor: "prefix a p \<Longrightarrow> a \<in> set (ancestors p)"
proof -
  assume "prefix a p"
  then have "a = take (length p - (length p - length a)) p" "length p - length a \<in> {0..<Suc (length p)}"
    by (auto simp: prefix_def)
  then show ?thesis unfolding ancestors_def set_map set_upt by (rule image_eqI)
qed

lemma ancestors_sorted: "sorted_wrt (\<lambda>x y. length y < length x) (ancestors p)"
  unfolding ancestors_def sorted_wrt_map by (rule sorted_wrt_mono_rel [OF _ sorted_wrt_upt]) auto

lemma ancestors_decrease: "ancestors p = xs @ a # ys \<Longrightarrow> prefix b p \<Longrightarrow> length a < length b \<Longrightarrow> b \<in> set xs"
  using ancestors_sorted [of p] prefix_ancestor [of b p] by (fastforce simp: sorted_wrt_append)

text \<open>The configuration that governs a directory by its place: the nearest one above it.\<close>

definition nearest_config :: "ws_env \<Rightarrow> bytes list \<Rightarrow> bytes list \<Rightarrow> bool" where
  "nearest_config env start a \<longleftrightarrow> prefix a start \<and> try_exists env (absolute (a @ [CONFIG_NAME])) = Some True
     \<and> (\<forall>b. prefix b start \<and> length a < length b \<longrightarrow> try_exists env (absolute (b @ [CONFIG_NAME])) = Some False)"

lemma ancestor_config_nearest:
  assumes "ancestor_config env (ancestors start) = Inr (Some p)"
  shows "\<exists>a. p = a @ [CONFIG_NAME] \<and> nearest_config env start a"
proof -
  from ancestor_config_split [OF assms] obtain xs a ys where a: "ancestors start = xs @ a # ys" "p = a @ [CONFIG_NAME]"
    "try_exists env (absolute p) = Some True" "\<forall>x \<in> set xs. try_exists env (absolute (x @ [CONFIG_NAME])) = Some False" by blast
  from a(1) have "prefix a start" using ancestors_prefix [of a start] by simp
  with a ancestors_decrease [OF a(1)] show ?thesis by (auto simp: nearest_config_def)
qed

definition listed :: "ws_env \<Rightarrow> path \<Rightarrow> path \<Rightarrow> workspace_config \<Rightarrow> bool" where
  "listed env base candidate cfg \<longleftrightarrow>
     (\<exists>p. resolve_path env candidate base = Inr p \<and> WorkspaceConfig_load env (absolute p) = Inr cfg)"

definition admits :: "ws_env \<Rightarrow> bytes list \<Rightarrow> bool \<Rightarrow> workspace_config \<Rightarrow> bool" where
  "admits env start explicit_root cfg \<longleftrightarrow>
     (\<exists>h. WorkspaceConfig_home_root env cfg (absolute start) = Inr (Some h)) \<and> accept_root env cfg start explicit_root = Inr (Some cfg)"

lemma accept_root_Some: "accept_root env cfg start explicit_root = Inr (Some cfg') \<Longrightarrow> cfg' = cfg
    \<and> (explicit_root \<longrightarrow> accepts_explicit_root env cfg start = Inr True)"
  by (auto simp: accept_root_def map_sum_eq_Inr split: if_splits)

text \<open>Identifiers are digests of canonical paths; a path determines the configuration that loads from it.\<close>

lemma load_document_path: "load_document env p doc = Inr cfg \<Longrightarrow> wc_path cfg = p \<and> wc_id cfg = we_digest env p"
  by (auto simp: load_document_def split: sum.splits if_splits)

lemma listed_digest:
  assumes "listed env base c cfg"
  shows "wc_id cfg = we_digest env (wc_path cfg)
    \<and> (\<exists>doc. read_document env (we_config_toml env) (absolute (wc_path cfg)) = Inr doc \<and> load_document env (wc_path cfg) doc = Inr cfg)"
proof -
  from assms obtain p doc where "read_document env (we_config_toml env) (absolute p) = Inr doc" "load_document env p doc = Inr cfg"
    unfolding listed_def using WorkspaceConfig_load_document by blast
  with load_document_path show ?thesis by blast
qed

lemma listed_unique:
  assumes "listed env base c cfg" "listed env base c' cfg'" "wc_path cfg = wc_path cfg'"
  shows "cfg = cfg'"
  using listed_digest [OF assms(1)] listed_digest [OF assms(2)] assms(3) by auto

text \<open>Another entry has the same digest for a different path, so the registry takes the two for one.\<close>

definition collides :: "ws_env \<Rightarrow> path \<Rightarrow> path list \<Rightarrow> workspace_config \<Rightarrow> bool" where
  "collides env base workspaces cfg \<longleftrightarrow>
     (\<exists>c \<in> set workspaces. \<exists>cfg'. listed env base c cfg' \<and> wc_path cfg' \<noteq> wc_path cfg
        \<and> we_digest env (wc_path cfg') = we_digest env (wc_path cfg))"

definition seen_ok :: "ws_env \<Rightarrow> path \<Rightarrow> bytes list \<Rightarrow> bool \<Rightarrow> path list \<Rightarrow> workspace_config option \<Rightarrow> string list \<Rightarrow> bool" where
  "seen_ok env base start er workspaces matched seen \<longleftrightarrow>
     (\<forall>i \<in> set seen. \<exists>c \<in> set workspaces. \<exists>cfg. listed env base c cfg \<and> wc_id cfg = i
        \<and> (admits env start er cfg \<longrightarrow> matched = Some cfg))"

lemma seen_ok_entry:
  assumes "seen_ok env base start er workspaces matched seen" "listed env base c cfg" "wc_id cfg \<in> set seen"
    "admits env start er cfg"
  shows "matched = Some cfg \<or> collides env base workspaces cfg"
proof -
  from assms(1,3) obtain c' cfg' where c': "c' \<in> set workspaces" "listed env base c' cfg'" "wc_id cfg' = wc_id cfg"
    "admits env start er cfg' \<longrightarrow> matched = Some cfg'" by (auto simp: seen_ok_def)
  show ?thesis
  proof (cases "wc_path cfg' = wc_path cfg")
    case True
    with listed_unique [OF c'(2) assms(2)] c'(4) assms(4) show ?thesis by simp
  next
    case False
    with c' listed_digest [OF c'(2)] listed_digest [OF assms(2)] show ?thesis by (auto simp: collides_def)
  qed
qed

text \<open>What the loop over the registry has established when it ends.\<close>

lemma registry_loop_result:
  "registry_loop env base start er matched seen cs = Inr out \<Longrightarrow> set cs \<subseteq> set workspaces \<Longrightarrow>
   seen_ok env base start er workspaces matched seen \<Longrightarrow>
   (\<forall>cfg. matched = Some cfg \<longrightarrow> out = Some cfg)
   \<and> (\<forall>cfg. out = Some cfg \<longrightarrow> matched = Some cfg \<or> (\<exists>c \<in> set cs. listed env base c cfg) \<and> admits env start er cfg)
   \<and> (\<forall>c \<in> set cs. \<exists>cfg. listed env base c cfg \<and> (admits env start er cfg \<longrightarrow> out = Some cfg \<or> collides env base workspaces cfg))"
proof (induction cs arbitrary: matched seen)
  case (Cons c cs)
  from Cons.prems(1) obtain p cfg where l: "resolve_path env c base = Inr p" "WorkspaceConfig_load env (absolute p) = Inr cfg"
    by (auto split: sum.splits)
  then have listed: "listed env base c cfg" by (auto simp: listed_def)
  have sub: "set cs \<subseteq> set workspaces" and c: "c \<in> set workspaces" using Cons.prems(2) by auto
  from Cons.prems(1) l consider "wc_id cfg \<in> set seen" "registry_loop env base start er matched seen cs = Inr out"
    | "\<not> admits env start er cfg" "registry_loop env base start er matched (wc_id cfg # seen) cs = Inr out"
    | "admits env start er cfg" "matched = None" "registry_loop env base start er (Some cfg) (wc_id cfg # seen) cs = Inr out"
    by (auto simp: Let_def admits_def dest: accept_root_Some split: if_splits sum.splits option.splits)
  then show ?case
  proof cases
    case 1
    from seen_ok_entry [OF Cons.prems(3) listed 1(1)] Cons.IH [OF 1(2) sub Cons.prems(3)] listed show ?thesis by auto
  next
    case 2
    have "seen_ok env base start er workspaces matched (wc_id cfg # seen)"
      using Cons.prems(3) 2(1) listed c unfolding seen_ok_def by auto
    from Cons.IH [OF 2(2) sub this] 2(1) listed show ?thesis by auto
  next
    case 3
    have "seen_ok env base start er workspaces (Some cfg) (wc_id cfg # seen)"
      using Cons.prems(3) 3(2) listed c unfolding seen_ok_def by fastforce
    from Cons.IH [OF 3(3) sub this] 3(1,2) listed show ?thesis by auto
  qed
qed auto

text \<open>The registry that \<open>discover\<close> reads when no configuration lies above the directory.\<close>

definition registry_of :: "ws_env \<Rightarrow> path \<Rightarrow> path list \<Rightarrow> bool" where
  "registry_of env base workspaces \<longleftrightarrow> (\<exists>dir. registry_base env = Some dir \<and> base = dir @ [Normal ''trufflepig'']
     \<and> read_document env (we_registry_toml env) (base @ [Normal ''workspaces.toml'']) = Inr workspaces)"

lemma discover_registry_Some:
  assumes "discover_registry env (dir @ [Normal ''trufflepig'', Normal ''workspaces.toml'']) start er = Inr (Some cfg)"
    "registry_base env = Some dir"
  shows "\<exists>base workspaces. registry_of env base workspaces \<and> (\<exists>c \<in> set workspaces. listed env base c cfg) \<and> admits env start er cfg
    \<and> (\<forall>c \<in> set workspaces. \<exists>cfg'. listed env base c cfg'
         \<and> (admits env start er cfg' \<longrightarrow> cfg' = cfg \<or> collides env base workspaces cfg'))"
proof -
  let ?base = "dir @ [Normal ''trufflepig'']"
  from assms(1) obtain workspaces where w: "read_document env (we_registry_toml env) (?base @ [Normal ''workspaces.toml'']) = Inr workspaces"
    "registry_loop env ?base start er None [] workspaces = Inr (Some cfg)"
    by (auto simp: discover_registry_def parent_path_def butlast_append split: option.splits bool.splits sum.splits)
  from registry_loop_result [OF w(2), of workspaces] w(1) assms(2) show ?thesis
    by (intro exI [of _ ?base] exI [of _ workspaces]) (fastforce simp: seen_ok_def registry_of_def)
qed

text \<open>
  C27. A workspace that discovery returns loads from a file whose members have valid distinct names and separate roots
  and are the declared ones, and accepts the root when one was named.  An explicit file is used as given; otherwise the
  nearest configuration above the directory governs; only when no directory above has one is the registry asked, and
  then every entry of it loads, the result is an entry that has a home for the directory and accepts it, and no other
  entry has and does, except one whose path has the same digest as the path of another entry, which the registry takes
  for a repetition.  The members of a parsed document are a map, as TOML tables are.
\<close>

theorem discovered_workspace_sound:
  assumes "documents_ok env"
    "WorkspaceConfig_discover env given explicit no_workspace explicit_root = Inr (Some cfg)"
  shows "\<not> no_workspace
    \<and> (\<exists>doc. read_document env (we_config_toml env) (absolute (wc_path cfg)) = Inr doc \<and> config_ok env doc cfg)
    \<and> (\<exists>cwd start. we_cwd env = Inr cwd \<and> resolve_path env given (absolute cwd) = Inr start
         \<and> (explicit_root \<longrightarrow> accepts_explicit_root env cfg start = Inr True)
         \<and> (case explicit of
              Some p \<Rightarrow> WorkspaceConfig_load env p = Inr cfg
            | None \<Rightarrow>
                (\<exists>a. nearest_config env start a \<and> WorkspaceConfig_load env (absolute (a @ [CONFIG_NAME])) = Inr cfg)
                \<or> (\<forall>a. prefix a start \<longrightarrow> try_exists env (absolute (a @ [CONFIG_NAME])) = Some False)
                  \<and> (\<exists>base workspaces. registry_of env base workspaces \<and> (\<exists>c \<in> set workspaces. listed env base c cfg)
                       \<and> admits env start explicit_root cfg
                       \<and> (\<forall>c \<in> set workspaces. \<exists>cfg'. listed env base c cfg'
                            \<and> (admits env start explicit_root cfg' \<longrightarrow> cfg' = cfg \<or> collides env base workspaces cfg')))))"
proof -
  from assms(2) obtain cwd start where s: "\<not> no_workspace" "we_cwd env = Inr cwd" "resolve_path env given (absolute cwd) = Inr start"
    by (auto simp: WorkspaceConfig_discover_def split: if_splits sum.splits)
  consider (explicit) p where "explicit = Some p" "WorkspaceConfig_load env p = Inr cfg"
      "explicit_root \<longrightarrow> accepts_explicit_root env cfg start = Inr True"
    | (nearest) p cfg' where "explicit = None" "ancestor_config env (ancestors start) = Inr (Some p)"
      "WorkspaceConfig_load env (absolute p) = Inr cfg'" "accept_root env cfg' start explicit_root = Inr (Some cfg)"
    | (registry) dir where "explicit = None" "ancestor_config env (ancestors start) = Inr None" "registry_base env = Some dir"
      "discover_registry env (dir @ [Normal ''trufflepig'', Normal ''workspaces.toml'']) start explicit_root = Inr (Some cfg)"
    using assms(2) by (cases explicit)
      (auto simp: WorkspaceConfig_discover_def s split: sum.splits option.splits bool.splits if_splits)
  then show ?thesis
  proof cases
    case (explicit p)
    with s WorkspaceConfig_load_ok [OF _ assms(1)] show ?thesis by auto
  next
    case (nearest p cfg')
    from accept_root_Some [OF nearest(4)] have "cfg' = cfg" "explicit_root \<longrightarrow> accepts_explicit_root env cfg start = Inr True" by auto
    with s nearest WorkspaceConfig_load_ok [OF _ assms(1)] ancestor_config_nearest [OF nearest(2)] show ?thesis by auto
  next
    case (registry dir)
    from discover_registry_Some [OF registry(4,3)] obtain base workspaces where r: "registry_of env base workspaces"
      "\<exists>c \<in> set workspaces. listed env base c cfg" "admits env start explicit_root cfg"
      "\<forall>c \<in> set workspaces. \<exists>cfg'. listed env base c cfg' \<and> (admits env start explicit_root cfg' \<longrightarrow> cfg' = cfg \<or> collides env base workspaces cfg')"
      by blast
    from r(2) WorkspaceConfig_load_ok [OF _ assms(1)]
    have "\<exists>doc. read_document env (we_config_toml env) (absolute (wc_path cfg)) = Inr doc \<and> config_ok env doc cfg"
      by (auto simp: listed_def)
    moreover have "explicit_root \<longrightarrow> accepts_explicit_root env cfg start = Inr True"
      using r(3) accept_root_Some by (auto simp: admits_def)
    moreover have "\<forall>a. prefix a start \<longrightarrow> try_exists env (absolute (a @ [CONFIG_NAME])) = Some False"
      using ancestor_config_none [OF registry(2)] prefix_ancestor by blast
    ultimately show ?thesis using s registry(1) discover_registry_Some [OF registry(4,3)] by simp
  qed
qed

section \<open>A workspace of two members\<close>

definition names_in :: "path \<Rightarrow> bytes list" where
  "names_in p = List.map_filter (\<lambda>c. case c of Normal n \<Rightarrow> Some n | _ \<Rightarrow> None) p"

definition pair_document :: config_document where
  "pair_document = \<lparr>cd_name = ''pair'', cd_selection = Some [''b'', ''a''],
     cd_members = [(''a'', [Normal ''a'']), (''b'', [Normal ''b''])], cd_semantic = None, cd_output = Some (Some 500)\<rparr>"

definition pair_env :: ws_env where
  "pair_env = \<lparr>we_cwd = Inr [''w'', ''b'', ''src''], we_home = None, we_xdg = None,
     we_canonicalize = (\<lambda>p. Found (names_in p)),
     we_metadata = (\<lambda>p. if names_in p = [''w'', ''a''] then Found \<lparr>fi_dir = True, fi_file = False, fi_device = 1, fi_inode = 2\<rparr>
       else if names_in p = [''w'', ''b''] then Found \<lparr>fi_dir = True, fi_file = False, fi_device = 1, fi_inode = 3\<rparr>
       else if names_in p = [''w'', CONFIG_NAME] then Found \<lparr>fi_dir = False, fi_file = True, fi_device = 1, fi_inode = 4\<rparr>
       else NotFound),
     we_open = (\<lambda>p. Some (Inr [])), we_config_toml = (\<lambda>s. Some pair_document), we_registry_toml = (\<lambda>s. Some []),
     we_common_dir = (\<lambda>d. None), we_digest = (\<lambda>p. ''id''), we_display = (\<lambda>p. [])\<rparr>"

definition pair_config :: workspace_config where
  "pair_config = \<lparr>wc_name = ''pair'', wc_id = ''id'', wc_path = [''w'', CONFIG_NAME],
     wc_members = [\<lparr>wm_name = ''b'', wm_root = [''w'', ''b''], wm_identity = Some \<lparr>mi_device = 1, mi_inode = 3\<rparr>\<rparr>,
       \<lparr>wm_name = ''a'', wm_root = [''w'', ''a''], wm_identity = Some \<lparr>mi_device = 1, mi_inode = 2\<rparr>\<rparr>],
     wc_semantic = (False, False), wc_budget = Some 500\<rparr>"

lemma pair_canonicalize [simp]: "we_canonicalize pair_env p = Found (names_in p)"
  by (simp add: pair_env_def)

lemma names_in_simps [simp]: "names_in [] = []" "names_in (RootDir # p) = names_in p" "names_in (CurDir # p) = names_in p"
  "names_in (ParentDir # p) = names_in p" "names_in (Normal n # p) = n # names_in p"
  by (simp_all add: names_in_def List.map_filter_def)

lemma names_in_absolute [simp]: "names_in (absolute ns) = ns"
  by (induction ns) (simp_all add: absolute_def names_in_def List.map_filter_def)

lemma pair_resolve: "resolve_loop pair_env acc (map Normal ns) = Inr (acc @ ns)"
  by (induction ns arbitrary: acc) simp_all

lemma pair_resolve_absolute [simp]: "resolve_path pair_env (absolute ns) base = Inr ns"
  by (simp add: resolve_path_def expand_tilde_def join_def absolute_def pair_resolve Let_def)

lemma pair_load: "WorkspaceConfig_load pair_env (absolute [''w'', CONFIG_NAME]) = Inr pair_config"
proof -
  have env: "we_cwd pair_env = Inr [''w'', ''b'', ''src'']" "we_config_toml pair_env = (\<lambda>s. Some pair_document)"
    "we_open pair_env = (\<lambda>p. Some (Inr []))" "we_digest pair_env = (\<lambda>p. ''id'')" by (simp_all add: pair_env_def)
  moreover have "load_members pair_env (cd_members pair_document) (absolute [''w'']) [] [''b'', ''a''] = Inr (wc_members pair_config)"
    by code_simp
  moreover have "valid_name (cd_name pair_document)" "member_names pair_document = Inr [''b'', ''a'']" by code_simp+
  moreover have "document_budget pair_document = Inr (Some 500)" by (simp add: document_budget_def pair_document_def MAX_BUDGET_def)
  ultimately have "load_document pair_env [''w'', CONFIG_NAME] pair_document = Inr pair_config"
    by (simp add: load_document_def pair_config_def MEMBER_LIMIT_def) (simp add: pair_document_def)
  moreover have "well_formed_utf8 []" by code_simp
  ultimately show ?thesis using env by (simp add: WorkspaceConfig_load_def read_document_def)
qed

lemma pair_documents: "documents_ok pair_env"
  by (simp add: documents_ok_def pair_env_def pair_document_def bt_ok_def)

definition pair_roots :: "member_root list" where
  "pair_roots = [(MemberRoot_configured (wc_members pair_config ! 0))\<lparr>mr_is_home := True\<rparr>,
     MemberRoot_configured (wc_members pair_config ! 1)]"


theorem discovered_workspace_sound_witness:
  "WorkspaceConfig_discover pair_env (absolute [''w'', ''b'', ''src'']) None False False = Inr (Some pair_config)
   \<and> (\<exists>doc. config_ok pair_env doc pair_config)"
proof -
  have "ancestor_config pair_env (ancestors [''w'', ''b'', ''src'']) = Inr (Some [''w'', CONFIG_NAME])" by code_simp
  moreover have "we_cwd pair_env = Inr [''w'', ''b'', ''src'']" by (simp add: pair_env_def)
  ultimately have disc: "WorkspaceConfig_discover pair_env (absolute [''w'', ''b'', ''src'']) None False False = Inr (Some pair_config)"
    by (simp add: WorkspaceConfig_discover_def pair_load accept_root_def)
  from discovered_workspace_sound [OF pair_documents disc] disc show ?thesis by blast
qed

end
