(* ===== verification/TP_Workspace_Results.thy ===== *)
theory TP_Workspace_Results
  imports TP_Result_Store TP_Workspace TP_Text
begin

text \<open>
  Workspace snapshots and the merged result cache (\<open>workspace/result_cache.rs\<close>, \<open>workspace/result_cache/lines.rs\<close>).  An
  owner snapshot records where a member's index was and what identified it; a set of hits remembers its owners, is
  stored in the table of the workspace cache and shown page by page.  Opening an index (\<open>store.rs\<close>) and the JSON library
  are arguments.
\<close>

section \<open>Snapshots\<close>

record member_snapshot =
  ms_name :: string
  ms_root :: string
  ms_cache :: string
  ms_device :: nat
  ms_inode :: nat
  ms_index_identity :: string
  ms_generation :: int
  ms_coverage :: json
  ms_worktree :: "string option"
  ms_parent :: "(string \<times> string) option"

text \<open>What is used of an open index.\<close>

record open_store =
  os_root :: "bytes list"
  os_index_root :: "bytes list"
  os_index_cache :: "bytes list"
  os_epoch :: "string option"
  os_coverage :: "json result"

definition path_bytes :: "bytes list \<Rightarrow> bytes" where
  "path_bytes names = ''/'' @ join_with ''/'' names"

definition encoded :: "bytes list \<Rightarrow> string" where
  "encoded names = encode_path (path_bytes names)"

definition MemberSnapshot_capture :: "ws_env \<Rightarrow> member_root \<Rightarrow> open_store \<Rightarrow> path \<Rightarrow> int \<Rightarrow> member_snapshot result" where
  "MemberSnapshot_capture env r store cache generation =
     (case MemberRoot_verify_identity env r of
        Inl e \<Rightarrow> Inl e
      | Inr _ \<Rightarrow>
          (case mr_identity r of
             None \<Rightarrow> Inl ''member_unavailable: original root identity is missing''
           | Some identity \<Rightarrow>
               (case os_epoch store of
                  None \<Rightarrow> Inl ''Query returned no rows''
                | Some epoch \<Rightarrow>
                    (case we_canonicalize env cache of
                       Found canonical \<Rightarrow>
                         (case os_coverage store of
                            Inl e \<Rightarrow> Inl e
                          | Inr coverage \<Rightarrow>
                              Inr \<lparr>ms_name = wm_name (mr_member r), ms_root = encoded (mr_root r), ms_cache = encoded canonical,
                                ms_device = mi_device identity, ms_inode = mi_inode identity, ms_index_identity = epoch,
                                ms_generation = generation, ms_coverage = coverage, ms_worktree = mr_worktree r,
                                ms_parent = (if os_index_root store \<noteq> os_root store
                                  then Some (encoded (os_index_root store), encoded (os_index_cache store)) else None)\<rparr>)
                     | _ \<Rightarrow> Inl ''canonicalize''))))"

definition MemberSnapshot_member_root :: "ws_env \<Rightarrow> workspace_config \<Rightarrow> member_snapshot \<Rightarrow> member_root result" where
  "MemberSnapshot_member_root env cfg s =
     (case find (\<lambda>m. wm_name m = ms_name s) (wc_members cfg) of
        None \<Rightarrow> Inl ''member_unavailable: result owner was removed from workspace''
      | Some m \<Rightarrow>
          if ms_worktree s = None then
            (if encoded (wm_root m) \<noteq> ms_root s then Inl ''member_unavailable: result owner path changed''
             else Inr (MemberRoot_configured m))
          else
            (case decode_path (ms_root s) of
               Inl e \<Rightarrow> Inl e
             | Inr root \<Rightarrow>
                 (case linked_root_of_member env m (path_components root) of
                    None \<Rightarrow> Inl ''member_unavailable: result owner is missing''
                  | Some top_level \<Rightarrow> map_sum id (\<lambda>owner. owner\<lparr>mr_is_home := True\<rparr>) (MemberRoot_linked env m top_level))))"

definition index_file_exists :: "ws_env \<Rightarrow> path \<Rightarrow> bool" where
  "index_file_exists env cache =
     (case we_metadata env (cache @ [Normal ''index.sqlite3'']) of Found info \<Rightarrow> fi_file info | _ \<Rightarrow> False)"

text \<open>\<open>open_read\<close> opens the index of a root in a cache, \<open>reading_from\<close> reads files of another root over it.\<close>

record store_ops =
  so_open_read :: "bytes list \<Rightarrow> path \<Rightarrow> open_store result"
  so_reading_from :: "open_store \<Rightarrow> bytes list \<Rightarrow> path \<Rightarrow> open_store result"

definition open_index :: "ws_env \<Rightarrow> store_ops \<Rightarrow> member_root \<Rightarrow> member_snapshot \<Rightarrow> path \<Rightarrow> open_store result" where
  "open_index env ops r s cache =
     (case ms_parent s of
        Some (root, parent) \<Rightarrow>
          if encoded (wm_root (mr_member r)) \<noteq> root then Inl ''member_unavailable: parent index owner changed''
          else (case decode_path parent of
              Inl e \<Rightarrow> Inl e
            | Inr p \<Rightarrow>
                if \<not> index_file_exists env (path_components p) then Inl ''member_unavailable: owning index was removed''
                else (case so_open_read ops (wm_root (mr_member r)) (path_components p) of
                    Inl e \<Rightarrow> Inl e
                  | Inr store \<Rightarrow> so_reading_from ops store (mr_root r) cache))
      | None \<Rightarrow>
          if \<not> index_file_exists env cache then Inl ''member_unavailable: owning index was removed''
          else so_open_read ops (mr_root r) cache)"

definition MemberSnapshot_open :: "ws_env \<Rightarrow> store_ops \<Rightarrow> workspace_config \<Rightarrow> member_snapshot \<Rightarrow> open_store result" where
  "MemberSnapshot_open env ops cfg s =
     (case MemberSnapshot_member_root env cfg s of
        Inl e \<Rightarrow> Inl e
      | Inr r \<Rightarrow>
          (case we_metadata env (absolute (mr_root r)) of
             Found info \<Rightarrow>
               if fi_device info \<noteq> ms_device s \<or> fi_inode info \<noteq> ms_inode s
               then Inl ''member_unavailable: result owner was replaced''
               else (case we_canonicalize env (absolute (mr_root r)) of
                   Found canonical \<Rightarrow>
                     if canonical \<noteq> mr_root r then Inl ''member_unavailable: result owner was replaced''
                     else (case decode_path (ms_cache s) of
                         Inl e \<Rightarrow> Inl e
                       | Inr cache \<Rightarrow>
                           (case open_index env ops r s (path_components cache) of
                              Inl e \<Rightarrow> Inl e
                            | Inr store \<Rightarrow>
                                if os_epoch store \<noteq> Some (ms_index_identity s)
                                then Inl ''member_unavailable: owning index was replaced''
                                else Inr store))
                 | _ \<Rightarrow> Inl ''canonicalize'')
           | _ \<Rightarrow> Inl ''member_unavailable: result owner is missing''))"

definition MemberSnapshot_metadata :: "string \<Rightarrow> member_snapshot \<Rightarrow> json" where
  "MemberSnapshot_metadata workspace s =
     (let v0 = JObj [(''workspace'', JStr workspace), (''member'', JStr (ms_name s)), (''repository'', JStr (ms_root s))];
          v1 = (case ms_worktree s of Some label \<Rightarrow> json_set ''worktree'' (JStr label) v0 | None \<Rightarrow> v0)
      in if ms_parent s \<noteq> None then json_set ''served_from'' (JStr (ms_name s @ '' index'')) v1 else v1)"

section \<open>Sets\<close>

record owned_entry =
  ow_owner :: nat
  ow_member_rank :: nat
  ow_entry :: result_entry
  ow_worktree_differs :: bool

record workspace_set =
  ws_workspace :: string
  ws_home :: "string option"
  ws_owners :: "member_snapshot list"
  ws_coverage :: "json list"
  ws_hits :: "owned_entry list"
  ws_truncated :: bool
  ws_scope :: "string option"

text \<open>\<open>counts\<close> of \<open>refresh_retained_counts\<close>; every hit has an owner in range, or the indexing panics.\<close>

definition retained_counts :: "workspace_set \<Rightarrow> nat list" where
  "retained_counts st = map (\<lambda>i. length (filter (\<lambda>h. ow_owner h = i) (ws_hits st))) [0..<length (ws_owners st)]"

definition refresh_row :: "nat \<Rightarrow> json \<Rightarrow> json" where
  "refresh_row n v =
     json_set ''retained'' (JNum (int n))
       (case as_u64 (json_get ''retained'' v) of
          Some old \<Rightarrow> if old > n then json_set ''truncated'' (JBool True) v else v
        | None \<Rightarrow> v)"

fun update_first :: "('a \<Rightarrow> bool) \<Rightarrow> ('a \<Rightarrow> 'a) \<Rightarrow> 'a list \<Rightarrow> 'a list" where
  "update_first p f [] = []"
| "update_first p f (x # xs) = (if p x then f x # xs else x # update_first p f xs)"

definition row_of :: "member_snapshot \<Rightarrow> json \<Rightarrow> bool" where
  "row_of owner v \<longleftrightarrow> json_get ''member'' v = JStr (ms_name owner)"

definition refresh_retained_counts :: "workspace_set \<Rightarrow> workspace_set" where
  "refresh_retained_counts st = st\<lparr>ws_coverage :=
     fold (\<lambda>(owner, n). update_first (row_of owner) (refresh_row n)) (zip (ws_owners st) (retained_counts st)) (ws_coverage st)\<rparr>"

definition assign_owned :: "string \<Rightarrow> owned_entry list \<Rightarrow> owned_entry list" where
  "assign_owned ident hits =
     map (\<lambda>(i, h). h\<lparr>ow_entry := set_entry_handle (ident @ '':'' @ show_nat (i + 1)) (ow_entry h)\<rparr>) (enumerate 0 hits)"

section \<open>The store\<close>

record workspace_row =
  wr_id :: string
  wr_expires :: int
  wr_payload :: string

function bound_workspace :: "(workspace_set \<Rightarrow> string result) \<Rightarrow> workspace_set \<Rightarrow> string \<Rightarrow> (workspace_set \<times> string) result" where
  "bound_workspace to_string st payload =
     (if length payload > MAX_BYTES \<and> ws_hits st \<noteq> [] then
        let keep = length (ws_hits st) * MAX_BYTES div length payload - 1;
            st' = refresh_retained_counts (st\<lparr>ws_hits := take keep (ws_hits st), ws_truncated := True\<rparr>)
        in case to_string st' of
             Inl e \<Rightarrow> Inl e
           | Inr payload' \<Rightarrow> bound_workspace to_string st' payload'
      else Inr (st, payload))"
  by pat_completeness auto

termination
proof (relation "measure (\<lambda>(_, st, _). length (ws_hits st))", goal_cases)
  case (2 to_string st payload keep st' payload')
  then show ?case using keep_less [of "length payload" "length (ws_hits st)"]
    by (simp add: refresh_retained_counts_def)
qed simp

declare bound_workspace.simps [simp del]

definition bytes_kept :: "workspace_row list \<Rightarrow> nat" where
  "bytes_kept db = sum_list (map (length \<circ> wr_payload) db)"

definition workspace_over :: "workspace_row list \<Rightarrow> bool" where
  "workspace_over db \<longleftrightarrow> \<not> (length db \<le> 50 \<and> bytes_kept db \<le> MAX_BYTES)"

definition expiry_le :: "workspace_row \<Rightarrow> workspace_row \<Rightarrow> bool" where
  "expiry_le a b \<longleftrightarrow> wr_expires a < wr_expires b \<or> (wr_expires a = wr_expires b \<and> wr_id a \<le> wr_id b)"

definition evict_workspace :: "string \<Rightarrow> workspace_row list \<Rightarrow> workspace_row list" where
  "evict_workspace ident db =
     (case sort_by expiry_le (filter (\<lambda>r. wr_id r \<noteq> ident) db) of
        [] \<Rightarrow> db
      | first # _ \<Rightarrow> filter (\<lambda>r. wr_id r \<noteq> wr_id first) db)"

text \<open>The transaction; the clock is read at the deletion and again at the insertion.\<close>

definition workspace_insert :: "string \<Rightarrow> int \<Rightarrow> int \<Rightarrow> string \<Rightarrow> workspace_row list \<Rightarrow> (workspace_row list \<times> string result) option" where
  "workspace_insert ident now later payload db =
     (let live = filter (\<lambda>r. \<not> wr_expires r \<le> now) db
      in if ident \<in> set (map wr_id live) then Some (db, Inl ''UNIQUE constraint failed: workspace_results.id'')
         else map_option (\<lambda>db'. (db', Inr ident))
           (while_option workspace_over (evict_workspace ident)
             (live @ [\<lparr>wr_id = ident, wr_expires = later + 600, wr_payload = payload\<rparr>])))"

definition WorkspaceResults_save :: "(workspace_set \<Rightarrow> string result) \<Rightarrow> string \<Rightarrow> int \<Rightarrow> int \<Rightarrow> workspace_set \<Rightarrow> workspace_row list \<Rightarrow>
    (workspace_row list \<times> string result) option" where
  "WorkspaceResults_save to_string ident now later st db =
     (let st1 = st\<lparr>ws_truncated := (ws_truncated st \<or> length (ws_hits st) > MAX_HITS),
                  ws_hits := assign_owned ident (take MAX_HITS (ws_hits st))\<rparr>;
          st2 = refresh_retained_counts st1
      in case to_string st2 of
           Inl e \<Rightarrow> Some (db, Inl e)
         | Inr payload0 \<Rightarrow>
             (case bound_workspace to_string st2 payload0 of
                Inl e \<Rightarrow> Some (db, Inl e)
              | Inr (st3, payload) \<Rightarrow>
                  if length payload > MAX_BYTES
                  then Some (db, Inl ''result_cache_unavailable: workspace metadata exceeds capacity'')
                  else workspace_insert ident now later payload db))"

definition WorkspaceResults_load :: "(string \<Rightarrow> workspace_set option) \<Rightarrow> (string \<Rightarrow> 'u option) \<Rightarrow> int \<Rightarrow> workspace_row list \<Rightarrow>
    string \<Rightarrow> workspace_set result" where
  "WorkspaceResults_load from_str parse_uuid now db ident =
     (if parse_uuid ident = None then Inl ''invalid_handle: invalid set identifier''
      else case find (\<lambda>r. wr_id r = ident \<and> wr_expires r > now) db of
        None \<Rightarrow> Inl ''expired_result: workspace result expired or was evicted; search again''
      | Some r \<Rightarrow>
          if length (wr_payload r) > MAX_BYTES then Inl ''result_unavailable: oversized workspace result''
          else (case from_str (wr_payload r) of
              None \<Rightarrow> Inl ''result_unavailable: invalid workspace result''
            | Some st \<Rightarrow>
                if length (ws_owners st) \<le> 32 \<and> length (ws_hits st) \<le> MAX_HITS
                   \<and> list_all (\<lambda>h. ow_owner h < length (ws_owners st)) (ws_hits st)
                then Inr st else Inl ''result_unavailable: invalid workspace ownership''))"

definition WorkspaceResults_entry :: "(string \<Rightarrow> workspace_set option) \<Rightarrow> (string \<Rightarrow> 'u option) \<Rightarrow> ('u \<Rightarrow> string) \<Rightarrow> int \<Rightarrow>
    workspace_row list \<Rightarrow> string \<Rightarrow> (workspace_set \<times> nat) result" where
  "WorkspaceResults_entry from_str parse_uuid show_uuid now db hdl =
     (case ResultHandle_parse parse_uuid hdl of
        Inl e \<Rightarrow> Inl e
      | Inr h \<Rightarrow>
          (case WorkspaceResults_load from_str parse_uuid now db (show_uuid (handle_set h)) of
             Inl e \<Rightarrow> Inl e
           | Inr st \<Rightarrow>
               if handle_ordinal h \<le> length (ws_hits st) then Inr (st, handle_ordinal h - 1)
               else Inl ''invalid_handle: ordinal outside result set''))"

section \<open>Coverage in both formats\<close>

text \<open>The bytes of the arrow and of the ellipsis in UTF-8.\<close>

definition ARROW :: string where "ARROW = [CHR 0xE2, CHR 0x86, CHR 0x92]"
definition ELLIPSIS :: string where "ELLIPSIS = [CHR 0xE2, CHR 0x80, CHR 0xA6]"

definition is_true :: "json \<Rightarrow> bool" where
  "is_true v \<longleftrightarrow> v = JBool True"

definition str_or :: "string \<Rightarrow> json \<Rightarrow> string" where
  "str_or fallback v = (case as_str v of Some s \<Rightarrow> s | None \<Rightarrow> fallback)"

definition status_rank :: "string \<Rightarrow> nat" where
  "status_rank status = (if status = ''ready'' then 0 else if status = ''pending'' then 1 else if status = ''partial'' then 2 else 3)"

definition partial_text :: "json \<Rightarrow> string" where
  "partial_text v =
     (let kinds = (case json_get ''unsearched_kinds'' v of JArr ks \<Rightarrow> List.map_filter as_str ks | _ \<Rightarrow> [])
      in case as_u64 (json_get ''unsearched'' v) of
           Some n \<Rightarrow>
             if n > 0 \<and> kinds \<noteq> [] then ''partial ('' @ show_nat n @ '' unsearched: '' @ join_with '', '' kinds @ '')''
             else if n > 0 then ''partial ('' @ show_nat n @ '' unsearched)''
             else ''partial''
         | None \<Rightarrow> ''partial'')"

definition differs_text :: "json \<Rightarrow> string" where
  "differs_text v =
     (case as_u64 v of
        None \<Rightarrow> ''differences unknown''
      | Some n \<Rightarrow> if n = 0 then ''no files differ'' else if n = 1 then ''1 file differs'' else show_nat n @ '' files differ'')"

definition state_text :: "string \<Rightarrow> json \<Rightarrow> string" where
  "state_text name v =
     (let state = str_or ''unknown'' (json_get ''state'' v)
      in if state = ''searched'' then (if is_true (json_get ''partial'' v) then name @ '' '' @ partial_text v else name @ '' complete'')
         else if state = ''parent_fallback'' then
           name @ '' '' @ str_or ''warming'' (json_get ''home_state'' v) @ '' '' @ ARROW @ '' served from ''
             @ str_or ''parent index'' (json_get ''served_from'' v) @ '' ('' @ differs_text (json_get ''differs'' v) @ '')''
             @ (if is_true (json_get ''partial'' v) then '' '' @ partial_text v else [])
         else if state = ''timed_out'' then name @ '' timed out''
         else (case as_str (json_get ''reason'' v) of
             Some reason \<Rightarrow> name @ '' '' @ state @ '' ('' @ reason @ '')''
           | None \<Rightarrow> name @ '' '' @ state))"

definition member_part :: "json \<Rightarrow> string" where
  "member_part v =
     (let mem = str_or ''?'' (json_get ''member'' v);
          name = (case as_str (json_get ''worktree'' v) of Some label \<Rightarrow> mem @ ''@'' @ label | None \<Rightarrow> mem)
      in state_text name v
         @ (if is_true (json_get ''truncated'' v) then '' truncated'' else [])
         @ (case reference_summary v of Some refs \<Rightarrow> '' ('' @ refs @ '')'' | None \<Rightarrow> []))"

definition worst_semantic :: "json \<Rightarrow> string option \<Rightarrow> string option" where
  "worst_semantic v current =
     (let issues = json_get ''issues'' v
      in case as_str (json_get ''semantic_status'' issues) of
           None \<Rightarrow> current
         | Some status \<Rightarrow>
             if \<not> unconfigured (as_str (json_get ''semantic_reason'' issues))
                \<and> (case current of None \<Rightarrow> True | Some c \<Rightarrow> status_rank status > status_rank c)
             then Some status else current)"

definition rerank_missing :: "json \<Rightarrow> bool" where
  "rerank_missing v \<longleftrightarrow>
     (let issues = json_get ''issues'' v
      in as_str (json_get ''rerank_status'' issues) = Some ''unavailable''
         \<and> \<not> unconfigured (as_str (json_get ''rerank_reason'' issues)))"

definition member_coverage_summary :: "json list \<Rightarrow> string" where
  "member_coverage_summary values =
     join_with ''; '' (map member_part values
       @ (case fold worst_semantic values None of
            Some status \<Rightarrow> if status \<noteq> ''ready'' then [''semantic '' @ status] else []
          | None \<Rightarrow> [])
       @ (if list_ex rerank_missing values then [''rerank unavailable''] else []))"

definition differing_handles :: "owned_entry list \<Rightarrow> string list" where
  "differing_handles hits =
     List.map_filter (\<lambda>h. case ow_entry h of LiveSource l \<Rightarrow> Some (hit_handle l) | _ \<Rightarrow> None) (filter ow_worktree_differs hits)"

definition mark_line :: "string list \<Rightarrow> string \<Rightarrow> string" where
  "mark_line differing body =
     body @ (case split_once TAB body of
               Some (h, _) \<Rightarrow> if h \<in> set differing then [TAB] @ ''differs'' else []
             | None \<Rightarrow> [])"

text \<open>The pieces of \<open>split_inclusive\<close>, each with its newline, put together again.\<close>

definition mark_worktree_differs :: "string \<Rightarrow> owned_entry list \<Rightarrow> string" where
  "mark_worktree_differs s hits =
     (let differing = differing_handles hits
      in if differing = [] then s else join_with [LF] (map (mark_line differing) (split_char LF s)))"

definition COVERAGE_KEYS :: "string list" where
  "COVERAGE_KEYS = [''member'', ''root'', ''worktree'', ''state'', ''home_state'', ''served_from'', ''differs'', ''differing_hits'',
     ''status'', ''available'', ''availability'', ''pending'', ''pending_reason'', ''pending_status'', ''reason'', ''reasons'',
     ''unavailable_reason'', ''error'', ''failure'', ''generation'', ''retained'', ''truncated'', ''partial'', ''unsearched'',
     ''unsearched_kinds'', ''issues'']"

definition REFERENCE_COVERAGE_KEYS :: "string list" where
  "REFERENCE_COVERAGE_KEYS = [''reference_sites'', ''reference_files'', ''reference_sites_truncated'']"

text \<open>\<open>Map::remove\<close> of an insertion-ordered object: the last entry takes the place of the removed one.\<close>

definition swap_remove :: "string \<Rightarrow> (string \<times> json) list \<Rightarrow> (string \<times> json) list" where
  "swap_remove key kvs =
     (if key \<notin> set (map fst kvs) then kvs
      else if fst (last kvs) = key then butlast kvs
      else map (\<lambda>kv. if fst kv = key then last kvs else kv) (butlast kvs))"

definition shorten :: "string \<Rightarrow> string" where
  "shorten reason = concat (take 120 (chars_of reason)) @ (if length (chars_of reason) > 120 then ELLIPSIS else [])"

definition compact_issues :: "json \<Rightarrow> json" where
  "compact_issues issues =
     (case issues of
        JObj kvs \<Rightarrow>
          let kept = (if as_str (json_get ''semantic_status'' issues) = Some ''ready''
                then fold swap_remove [''semantic_scope'', ''semantic_regions'', ''semantic_total_regions''] kvs else kvs)
          in fold (\<lambda>key v. case as_str (json_get key v) of Some reason \<Rightarrow> json_set key (JStr (shorten reason)) v | None \<Rightarrow> v)
               [''semantic_reason'', ''semantic_preparation_error''] (JObj kept)
      | _ \<Rightarrow> issues)"

definition compact_coverage :: "json list \<Rightarrow> json list" where
  "compact_coverage =
     map (\<lambda>v. case v of
       JObj kvs \<Rightarrow> JObj (List.map_filter
         (\<lambda>key. map_option (\<lambda>w. (key, if key = ''issues'' then compact_issues w else w)) (map_of kvs key))
         (COVERAGE_KEYS @ REFERENCE_COVERAGE_KEYS))
     | _ \<Rightarrow> v)"

section \<open>Pages\<close>

fun group_diagnosis :: "string \<Rightarrow> string \<Rightarrow> (string \<times> string list) list \<Rightarrow> (string \<times> string list) list" where
  "group_diagnosis name diagnosis [] = [(diagnosis, [name])]"
| "group_diagnosis name diagnosis ((known, ms) # gs) =
     (if known = diagnosis then (known, ms @ [name]) # gs else (known, ms) # group_diagnosis name diagnosis gs)"

definition filter_diagnoses :: "member_snapshot list \<Rightarrow> string" where
  "filter_diagnoses owners =
     concat (map (\<lambda>(diagnosis, ms). ''; '' @ join_with '', '' ms @ '': '' @ diagnosis)
       (fold (\<lambda>owner gs. case as_str (json_get ''filter_diagnosis'' (ms_coverage owner)) of
            None \<Rightarrow> gs | Some diagnosis \<Rightarrow> group_diagnosis (ms_name owner) diagnosis gs) owners []))"

definition is_live :: "result_entry \<Rightarrow> bool" where
  "is_live e = (case e of LiveSource _ \<Rightarrow> True | _ \<Rightarrow> False)"

definition owned_value :: "page_libs \<Rightarrow> member_snapshot list \<Rightarrow> hit_detail \<Rightarrow> owned_entry \<Rightarrow> json result" where
  "owned_value libs owners detail h =
     (let owner = owners ! ow_owner h
      in case decode_path (ms_root owner) of
           Inl e \<Rightarrow> Inl e
         | Inr root \<Rightarrow>
             map_sum id (\<lambda>v. case v of
                JObj _ \<Rightarrow>
                  let v1 = json_set ''member'' (JStr (ms_name owner)) v;
                      v2 = (if is_live (ow_entry h) then v1 else json_set ''member_rank'' (JNum (int (ow_member_rank h))) v1)
                  in if ow_worktree_differs h then json_set ''differs'' (JBool True) v2 else v2
              | _ \<Rightarrow> v)
               (compact_entry (entry_value libs) root (Some (ms_name owner)) detail (ow_entry h)))"

definition opt_str :: "string option \<Rightarrow> json" where
  "opt_str x = (case x of Some s \<Rightarrow> JStr s | None \<Rightarrow> JNull)"

definition workspace_page_value :: "page_libs \<Rightarrow> workspace_set \<Rightarrow> string \<Rightarrow> nat \<Rightarrow> nat \<Rightarrow> hit_detail \<Rightarrow> json result" where
  "workspace_page_value libs st ident offset n detail =
     map_sum id (\<lambda>hits. JObj [(''workspace'', JStr (ws_workspace st)), (''home'', opt_str (ws_home st)),
         (''scope'', opt_str (ws_scope st)), (''coverage'', JArr (compact_coverage (ws_coverage st))), (''hits'', JArr hits),
         (''next'', opt_str (next_cursor ident offset n (length (ws_hits st)))),
         (''truncated'', JBool (ws_truncated st)), (''tokenizer'', JStr ''o200k_base'')])
       (collect_values (map (owned_value libs (ws_owners st) detail) (slice offset (offset + n) (ws_hits st))))"

definition coverage_line :: "workspace_set \<Rightarrow> string" where
  "coverage_line st =
     member_coverage_summary (ws_coverage st)
     @ (case ws_scope st of Some scope \<Rightarrow> ''; scope '' @ scope | None \<Rightarrow> [])
     @ (if ws_hits st = [] then filter_diagnoses (ws_owners st) else [])"

definition workspace_render :: "page_libs \<Rightarrow> workspace_set \<Rightarrow> string \<Rightarrow> nat \<Rightarrow> nat \<Rightarrow> output_budget \<Rightarrow> nat \<Rightarrow> hit_detail \<Rightarrow> string result" where
  "workspace_render libs st ident offset limit b n detail =
     (let shown = slice offset (offset + n) (ws_hits st)
      in case budget_format b of
           Json \<Rightarrow> (case workspace_page_value libs st ident offset n detail of Inl e \<Rightarrow> Inl e | Inr v \<Rightarrow> budget_encode libs v)
         | Lines \<Rightarrow>
             Inr (mark_worktree_differs
               (page_text (map (\<lambda>h. (Some (ms_name (ws_owners st ! ow_owner h)), ow_entry h)) shown) detail (coverage_line st)
                 (map_option (\<lambda>cursor. more_command cursor offset n limit) (next_cursor ident offset n (length (ws_hits st))))
                 (ws_truncated st)) shown))"

text \<open>One round of the loop over \<open>names\<close>: \<open>Some\<close> a page, or go on.\<close>

definition workspace_tier :: "page_libs \<Rightarrow> output_budget \<Rightarrow> (nat \<Rightarrow> hit_detail \<Rightarrow> string result) \<Rightarrow> nat \<Rightarrow> bool \<Rightarrow> string option result" where
  "workspace_tier libs b render max_count names =
     (let plain = (\<lambda>n nm. render n \<lparr>detail_names = nm, detail_snippets = False\<rparr>)
      in case largest_fitting max_count (\<lambda>n. text_fits libs b (plain n names)) of
           Inl e \<Rightarrow> Inl e
         | Inr low \<Rightarrow>
             if low > 0 then
               (case plain low True of
                  Inl e \<Rightarrow> Inl e
                | Inr named \<Rightarrow> if budget_fits libs b named then Inr (Some named) else map_sum id Some (plain low names))
             else Inr None)"

definition WORKSPACE_TOO_SMALL :: string where
  "WORKSPACE_TOO_SMALL = ''budget_too_small: workspace coverage and one result do not fit''"

definition workspace_page_of :: "page_libs \<Rightarrow> workspace_set \<Rightarrow> string \<Rightarrow> nat \<Rightarrow> nat \<Rightarrow> output_budget \<Rightarrow> string result" where
  "workspace_page_of libs st ident offset limit b =
     (if offset > length (ws_hits st) then Inl ''invalid_cursor: offset outside result set''
      else
        let available = length (ws_hits st) - offset;
            max_count = min (min available limit) (budget_limit b);
            render = workspace_render libs st ident offset limit b
        in case snippet_page libs max_count b render of
             Inl e \<Rightarrow> Inl e
           | Inr (Some t) \<Rightarrow> Inr t
           | Inr None \<Rightarrow>
         (case workspace_tier libs b render max_count False of
             Inl e \<Rightarrow> Inl e
           | Inr (Some t) \<Rightarrow> Inr t
           | Inr None \<Rightarrow>
         (case workspace_tier libs b render max_count True of
             Inl e \<Rightarrow> Inl e
           | Inr (Some t) \<Rightarrow> Inr t
           | Inr None \<Rightarrow>
               if available = 0 then
                 (case render 0 \<lparr>detail_names = False, detail_snippets = False\<rparr> of
                    Inl e \<Rightarrow> Inl e
                  | Inr t \<Rightarrow> if budget_fits libs b t then Inr t else Inl WORKSPACE_TOO_SMALL)
               else Inl WORKSPACE_TOO_SMALL)))"

definition WorkspaceResults_page :: "page_libs \<Rightarrow> (string \<Rightarrow> workspace_set result) \<Rightarrow> string \<Rightarrow> nat \<Rightarrow> nat \<Rightarrow> output_budget \<Rightarrow> string result" where
  "WorkspaceResults_page libs get_set ident offset limit b =
     (case get_set ident of Inl e \<Rightarrow> Inl e | Inr st \<Rightarrow> workspace_page_of libs st ident offset limit b)"

definition WorkspaceResults_more :: "page_libs \<Rightarrow> (string \<Rightarrow> 'u option) \<Rightarrow> ('u \<Rightarrow> string) \<Rightarrow> (string \<Rightarrow> workspace_set result) \<Rightarrow>
    string \<Rightarrow> nat \<Rightarrow> output_budget \<Rightarrow> string result" where
  "WorkspaceResults_more libs parse_uuid show_uuid get_set cursor limit b =
     (case ResultCursor_parse parse_uuid cursor of
        Inl e \<Rightarrow> Inl e
      | Inr c \<Rightarrow> WorkspaceResults_page libs get_set (show_uuid (cursor_set c)) (cursor_offset c) limit b)"

section \<open>Retained counts\<close>

lemma json_get_refresh:
  "json_get k (refresh_row n (JObj kvs)) =
     (if k = ''retained'' then JNum (int n)
      else if k = ''truncated'' \<and> (\<exists>old. as_u64 (json_get ''retained'' (JObj kvs)) = Some old \<and> n < old) then JBool True
      else json_get k (JObj kvs))"
proof -
  obtain kvs' where set: "json_set ''truncated'' (JBool True) (JObj kvs) = JObj kvs'" using json_set_obj by blast
  have "json_get j (JObj kvs') = (if j = ''truncated'' then JBool True else json_get j (JObj kvs))" for j
    using json_get_set [of j "''truncated''" "JBool True" kvs] by (simp only: set)
  then show ?thesis by (simp add: refresh_row_def set split: option.split)
qed

lemma row_of_object: "row_of owner v \<Longrightarrow> \<exists>kvs. v = JObj kvs"
  by (cases v) (auto simp: row_of_def json_get_def)

text \<open>How a coverage row may change: it keeps its member, and when fewer hits are retained than it said it is marked
  as truncated, for good.\<close>

definition row_follows :: "json \<Rightarrow> json \<Rightarrow> bool" where
  "row_follows v w \<longleftrightarrow> json_get ''member'' w = json_get ''member'' v
     \<and> (json_get ''truncated'' v = JBool True \<longrightarrow> json_get ''truncated'' w = JBool True)
     \<and> (\<forall>old. as_u64 (json_get ''retained'' v) = Some old \<longrightarrow>
          (\<exists>n. as_u64 (json_get ''retained'' w) = Some n \<and> (n < old \<longrightarrow> json_get ''truncated'' w = JBool True)))"

lemma row_follows_refl: "row_follows v v"
  by (simp add: row_follows_def)

lemma row_follows_trans: "row_follows u v \<Longrightarrow> row_follows v w \<Longrightarrow> row_follows u w"
proof -
  assume uv: "row_follows u v" and vw: "row_follows v w"
  have "\<exists>n. as_u64 (json_get ''retained'' w) = Some n \<and> (n < old \<longrightarrow> json_get ''truncated'' w = JBool True)"
    if old: "as_u64 (json_get ''retained'' u) = Some old" for old
  proof -
    from uv old obtain m where m: "as_u64 (json_get ''retained'' v) = Some m" "m < old \<longrightarrow> json_get ''truncated'' v = JBool True"
      unfolding row_follows_def by blast
    from vw m(1) obtain n where "as_u64 (json_get ''retained'' w) = Some n" "n < m \<longrightarrow> json_get ''truncated'' w = JBool True"
      unfolding row_follows_def by blast
    moreover from vw m(2) have "m < old \<longrightarrow> json_get ''truncated'' w = JBool True" unfolding row_follows_def by blast
    ultimately show ?thesis by (intro exI [of _ n]) auto
  qed
  with uv vw show ?thesis unfolding row_follows_def by simp
qed

lemma refresh_row_follows: "row_of owner v \<Longrightarrow> row_follows v (refresh_row n v)"
proof -
  assume "row_of owner v"
  then obtain kvs where v: "v = JObj kvs" using row_of_object by blast
  have "as_u64 (JNum (int n)) = Some n" by (simp add: as_u64_def)
  then show ?thesis unfolding v row_follows_def by (simp add: json_get_refresh)
qed

lemma list_all2_follows_trans:
  "list_all2 row_follows xs ys \<Longrightarrow> list_all2 row_follows ys zs \<Longrightarrow> list_all2 row_follows xs zs"
  using list_all2_trans [of row_follows row_follows row_follows] row_follows_trans by blast

lemma update_first_follows: "list_all2 row_follows xs (update_first (row_of owner) (refresh_row n) xs)"
  by (induction xs) (auto simp: refresh_row_follows row_follows_refl list_all2_refl)

lemma fold_refresh_follows:
  "list_all2 row_follows xs (fold (\<lambda>(owner, n). update_first (row_of owner) (refresh_row n)) ps xs)"
proof (induction ps arbitrary: xs)
  case Nil
  show ?case by (simp add: row_follows_refl list_all2_refl)
next
  case (Cons p ps)
  obtain owner n where p: "p = (owner, n)" by (cases p)
  show ?case unfolding p fold_simps prod.case comp_def
    by (rule list_all2_follows_trans [OF update_first_follows Cons.IH])
qed

lemma refresh_row_row_of: "row_of o1 v \<Longrightarrow> row_of o2 (refresh_row n v) \<longleftrightarrow> row_of o2 v"
  using row_of_object [of o1 v] by (auto simp: row_of_def json_get_refresh)

lemma find_update_first_other:
  assumes "ms_name o1 \<noteq> ms_name o2"
  shows "find (row_of o2) (update_first (row_of o1) (refresh_row n) xs) = find (row_of o2) xs"
proof (induction xs)
  case (Cons x xs)
  have "\<not> (row_of o1 x \<and> row_of o2 x)" using assms by (auto simp: row_of_def)
  with Cons show ?case by (auto simp: refresh_row_row_of)
qed simp

lemma find_update_first_self:
  "find (row_of owner) (update_first (row_of owner) (refresh_row n) xs) = map_option (refresh_row n) (find (row_of owner) xs)"
  by (induction xs) (auto simp: refresh_row_row_of)

lemma fold_refresh_find:
  "distinct (map (ms_name \<circ> fst) ps) \<Longrightarrow> (owner, n) \<in> set ps \<Longrightarrow>
   find (row_of owner) (fold (\<lambda>(owner, n). update_first (row_of owner) (refresh_row n)) ps xs)
   = map_option (refresh_row n) (find (row_of owner) xs)"
proof (induction ps arbitrary: xs)
  case (Cons p ps)
  obtain o1 k where p: "p = (o1, k)" by (cases p)
  show ?case
  proof (cases "(owner, n) = (o1, k)")
    case True
    have other: "find (row_of owner) (fold (\<lambda>(owner, n). update_first (row_of owner) (refresh_row n)) qs ys) = find (row_of owner) ys"
      if "\<forall>q \<in> set qs. ms_name (fst q) \<noteq> ms_name owner" for qs ys
      using that by (induction qs arbitrary: ys) (auto simp: find_update_first_other)
    have "\<forall>q \<in> set ps. ms_name (fst q) \<noteq> ms_name owner" using Cons.prems(1) True p by (force simp: image_iff)
    from other [OF this] True p show ?thesis by (simp add: find_update_first_self)
  next
    case False
    with Cons.prems p have "(owner, n) \<in> set ps" "ms_name o1 \<noteq> ms_name owner" by (auto simp: image_iff)
    with Cons p show ?thesis by (simp add: find_update_first_other)
  qed
qed simp

text \<open>Every member's row states how many of the set's hits it owns.\<close>

definition counts_exact :: "workspace_set \<Rightarrow> bool" where
  "counts_exact st \<longleftrightarrow> (\<forall>i < length (ws_owners st). \<forall>v. find (row_of (ws_owners st ! i)) (ws_coverage st) = Some v \<longrightarrow>
     json_get ''retained'' v = JNum (int (length (filter (\<lambda>h. ow_owner h = i) (ws_hits st)))))"

lemma refresh_fields [simp]:
  "ws_hits (refresh_retained_counts st) = ws_hits st" "ws_owners (refresh_retained_counts st) = ws_owners st"
  "ws_truncated (refresh_retained_counts st) = ws_truncated st" "ws_workspace (refresh_retained_counts st) = ws_workspace st"
  "ws_home (refresh_retained_counts st) = ws_home st" "ws_scope (refresh_retained_counts st) = ws_scope st"
  by (simp_all add: refresh_retained_counts_def)

lemma refresh_follows: "list_all2 row_follows (ws_coverage st) (ws_coverage (refresh_retained_counts st))"
  unfolding refresh_retained_counts_def by (simp add: fold_refresh_follows)

lemma refresh_counts_exact:
  assumes "distinct (map ms_name (ws_owners st))"
  shows "counts_exact (refresh_retained_counts st)"
proof -
  let ?ps = "zip (ws_owners st) (retained_counts st)"
  have len: "length (retained_counts st) = length (ws_owners st)" by (simp add: retained_counts_def)
  have "map (ms_name \<circ> fst) ?ps = map ms_name (ws_owners st)"
    using len by (simp add: map_fst_zip flip: map_map)
  with assms have d: "distinct (map (ms_name \<circ> fst) ?ps)" by simp
  have "json_get ''retained'' v = JNum (int (length (filter (\<lambda>h. ow_owner h = i) (ws_hits st))))"
    if i: "i < length (ws_owners st)" and v: "find (row_of (ws_owners st ! i)) (ws_coverage (refresh_retained_counts st)) = Some v" for i v
  proof -
    have mem: "(ws_owners st ! i, retained_counts st ! i) \<in> set ?ps" using i len by (auto simp: set_zip)
    from v fold_refresh_find [OF d mem, of "ws_coverage st"] obtain u where u: "find (row_of (ws_owners st ! i)) (ws_coverage st) = Some u"
      "v = refresh_row (retained_counts st ! i) u"
      by (auto simp: refresh_retained_counts_def)
    from u(1) have "row_of (ws_owners st ! i) u" by (auto simp: find_Some_iff)
    with row_of_object obtain kvs where "u = JObj kvs" by blast
    with u(2) i show ?thesis by (simp add: json_get_refresh retained_counts_def)
  qed
  then show ?thesis by (simp add: counts_exact_def)
qed

section \<open>Round trip\<close>

lemma take_own_length: "xs = take (length xs) ys \<Longrightarrow> length xs \<le> length ys"
proof -
  assume "xs = take (length xs) ys"
  then have "length xs = length (take (length xs) ys)" by (rule arg_cong)
  then show ?thesis by (simp add: min_def split: if_splits)
qed

lemma bound_workspace_Inr:
  "bound_workspace to_string st payload = Inr (st', payload') \<Longrightarrow> to_string st = Inr payload \<Longrightarrow> counts_exact st \<Longrightarrow>
   distinct (map ms_name (ws_owners st)) \<Longrightarrow>
   to_string st' = Inr payload' \<and> counts_exact st' \<and> list_all2 row_follows (ws_coverage st) (ws_coverage st')
   \<and> ws_owners st' = ws_owners st \<and> ws_workspace st' = ws_workspace st \<and> ws_home st' = ws_home st \<and> ws_scope st' = ws_scope st
   \<and> ws_hits st' = take (length (ws_hits st')) (ws_hits st)
   \<and> (ws_truncated st' \<longleftrightarrow> ws_truncated st \<or> length (ws_hits st') < length (ws_hits st))"
proof (induction to_string st payload rule: bound_workspace.induct)
  case (1 to_string st payload)
  show ?case
  proof (cases "length payload > MAX_BYTES \<and> ws_hits st \<noteq> []")
    case False
    with "1.prems" show ?thesis by (subst (asm) bound_workspace.simps) (auto simp: row_follows_refl list_all2_refl)
  next
    case True
    define keep where "keep = length (ws_hits st) * MAX_BYTES div length payload - 1"
    define nxt where "nxt = refresh_retained_counts (st\<lparr>ws_hits := take keep (ws_hits st), ws_truncated := True\<rparr>)"
    have less: "keep < length (ws_hits st)" using True keep_less unfolding keep_def by simp
    from "1.prems"(1) True obtain p1 where p1: "to_string nxt = Inr p1" and rec: "bound_workspace to_string nxt p1 = Inr (st', payload')"
      by (subst (asm) bound_workspace.simps) (auto simp: keep_def nxt_def Let_def split: sum.splits)
    have "counts_exact nxt" "distinct (map ms_name (ws_owners nxt))"
      using "1.prems"(4) by (simp_all add: nxt_def refresh_counts_exact)
    note ih = "1.IH" [OF True keep_def nxt_def p1 rec p1 this]
    have "list_all2 row_follows (ws_coverage st) (ws_coverage nxt)"
      using refresh_follows [of "st\<lparr>ws_hits := take keep (ws_hits st), ws_truncated := True\<rparr>"] by (simp add: nxt_def)
    with ih have "list_all2 row_follows (ws_coverage st) (ws_coverage st')" using list_all2_follows_trans by blast
    moreover have "ws_hits st' = take (length (ws_hits st')) (ws_hits st)" "length (ws_hits st') < length (ws_hits st)"
    proof -
      have h: "ws_hits st' = take (length (ws_hits st')) (take keep (ws_hits st))" using ih by (simp add: nxt_def)
      have "length (ws_hits st') \<le> keep" using take_own_length [OF h] by simp
      with h less show "ws_hits st' = take (length (ws_hits st')) (ws_hits st)" "length (ws_hits st') < length (ws_hits st)"
        by (simp_all add: min_absorb1)
    qed
    ultimately show ?thesis using ih by (simp add: nxt_def)
  qed
qed

lemma length_assign_owned [simp]: "length (assign_owned ident hits) = length hits"
  by (simp add: assign_owned_def)

lemma assign_owned_take: "assign_owned ident (take n hits) = take n (assign_owned ident hits)"
  by (rule nth_equalityI) (auto simp: assign_owned_def nth_enumerate_eq)

definition prepared :: "string \<Rightarrow> workspace_set \<Rightarrow> workspace_set" where
  "prepared ident st = refresh_retained_counts (st\<lparr>ws_truncated := (ws_truncated st \<or> length (ws_hits st) > MAX_HITS),
     ws_hits := assign_owned ident (take MAX_HITS (ws_hits st))\<rparr>)"

text \<open>What is stored for a set.\<close>

definition stored_as :: "string \<Rightarrow> workspace_set \<Rightarrow> workspace_set \<Rightarrow> bool" where
  "stored_as ident st st' \<longleftrightarrow> counts_exact st' \<and> list_all2 row_follows (ws_coverage st) (ws_coverage st')
     \<and> ws_owners st' = ws_owners st \<and> ws_workspace st' = ws_workspace st \<and> ws_home st' = ws_home st \<and> ws_scope st' = ws_scope st
     \<and> length (ws_hits st') \<le> MAX_HITS
     \<and> ws_hits st' = take (length (ws_hits st')) (assign_owned ident (ws_hits st))
     \<and> (ws_truncated st' \<longleftrightarrow> ws_truncated st \<or> length (ws_hits st') < length (ws_hits st))"

lemma WorkspaceResults_save_cases:
  assumes "distinct (map ms_name (ws_owners st))"
  obtains (error) e where "WorkspaceResults_save to_string ident now later st db = Some (db, Inl e)"
  | (saved) st' payload where "WorkspaceResults_save to_string ident now later st db = workspace_insert ident now later payload db"
      "length payload \<le> MAX_BYTES" "to_string st' = Inr payload" "stored_as ident st st'"
proof (cases "to_string (prepared ident st)")
  case (Inl e)
  then show ?thesis by (intro error [of e]) (simp add: WorkspaceResults_save_def prepared_def)
next
  case (Inr payload0)
  have save: "WorkspaceResults_save to_string ident now later st db =
     (case bound_workspace to_string (prepared ident st) payload0 of
        Inl e \<Rightarrow> Some (db, Inl e)
      | Inr (st3, payload) \<Rightarrow> if length payload > MAX_BYTES
          then Some (db, Inl ''result_cache_unavailable: workspace metadata exceeds capacity'')
          else workspace_insert ident now later payload db)"
    using Inr by (simp add: WorkspaceResults_save_def prepared_def)
  let ?cut = "st\<lparr>ws_truncated := (ws_truncated st \<or> length (ws_hits st) > MAX_HITS),
     ws_hits := assign_owned ident (take MAX_HITS (ws_hits st))\<rparr>"
  show ?thesis
  proof (cases "bound_workspace to_string (prepared ident st) payload0")
    case (Inl e)
    then show ?thesis using save by (intro error [of e]) simp
  next
    case bp: (Inr a)
    obtain st' payload where a: "a = (st', payload)" by (cases a)
    have "counts_exact (prepared ident st)" "distinct (map ms_name (ws_owners (prepared ident st)))"
      using assms refresh_counts_exact [of ?cut] by (simp_all add: prepared_def)
    note b = bound_workspace_Inr [OF bp [unfolded a] Inr this]
    have hits: "ws_hits (prepared ident st) = take MAX_HITS (assign_owned ident (ws_hits st))"
      by (simp add: prepared_def assign_owned_take)
    have h: "ws_hits st' = take (length (ws_hits st')) (take MAX_HITS (assign_owned ident (ws_hits st)))" using b hits by simp
    have len: "length (ws_hits st') \<le> min MAX_HITS (length (ws_hits st))"
      using take_own_length [OF h] by simp
    have "list_all2 row_follows (ws_coverage st) (ws_coverage (prepared ident st))"
      using refresh_follows [of ?cut] by (simp add: prepared_def)
    with b have "list_all2 row_follows (ws_coverage st) (ws_coverage st')" using list_all2_follows_trans by blast
    moreover have "ws_truncated st' \<longleftrightarrow> ws_truncated st \<or> length (ws_hits st') < length (ws_hits st)"
      using b len by (auto simp: prepared_def)
    moreover have "ws_hits st' = take (length (ws_hits st')) (assign_owned ident (ws_hits st))" using h len by (simp add: min_absorb1)
    ultimately have stored: "stored_as ident st st'" using b len by (simp add: stored_as_def) (simp add: prepared_def)
    show ?thesis
    proof (cases "length payload > MAX_BYTES")
      case True
      then show ?thesis using save bp a by (intro error) simp
    next
      case False
      then show ?thesis using save bp a b stored by (intro saved [of payload st']) simp_all
    qed
  qed
qed

section \<open>Retention\<close>

text \<open>The rows as rows of the result-set table, whose age is the expiry: eviction is the same.\<close>

definition as_row :: "workspace_row \<Rightarrow> result_row" where
  "as_row r = \<lparr>row_id = wr_id r, row_created = wr_expires r, row_expires = wr_expires r, row_payload = wr_payload r\<rparr>"

lemma as_row_fields [simp]: "row_id (as_row r) = wr_id r" "row_expires (as_row r) = wr_expires r"
  "row_payload (as_row r) = wr_payload r" "row_le (as_row a) (as_row b) = expiry_le a b"
  by (simp_all add: as_row_def row_le_def expiry_le_def)

lemma inj_as_row: "inj as_row"
  by (rule injI) (metis (mono_tags) as_row_fields(1-3) workspace_row.equality old.unit.exhaust)

lemma sort_by_as_row: "sort_by row_le (map as_row xs) = map as_row (sort_by expiry_le xs)"
proof -
  have "insert_by row_le (as_row x) (map as_row ys) = map as_row (insert_by expiry_le x ys)" for x ys
    by (induction ys) simp_all
  then show ?thesis by (induction xs) simp_all
qed

lemma evict_as_row: "evict_oldest ident (map as_row db) = map as_row (evict_workspace ident db)"
proof -
  have "filter (\<lambda>r. row_id r \<noteq> i) (map as_row db) = map as_row (filter (\<lambda>r. wr_id r \<noteq> i) db)" for i db
    by (induction db) simp_all
  then show ?thesis
    by (simp add: evict_oldest_def evict_workspace_def sort_by_as_row split: list.split)
qed

lemma over_as_row: "over_limits (map as_row db) = workspace_over db"
  by (simp add: over_limits_def workspace_over_def bytes_kept_def MAX_SETS_def comp_def)

lemma workspace_evict_loop:
  assumes "saving_ok ident (map as_row before)"
  shows "\<exists>db. while_option workspace_over (evict_workspace ident) before = Some db
     \<and> evicted_oldest ident (map as_row before) (map as_row db) \<and> \<not> workspace_over db"
proof -
  have "map_option (map as_row) (while_option workspace_over (evict_workspace ident) before)
      = while_option over_limits (evict_oldest ident) (map as_row before)"
    by (rule while_option_commute) (simp_all add: over_as_row evict_as_row)
  with evict_loop_oldest [OF assms] show ?thesis by (auto simp: over_as_row)
qed

definition workspace_row_of :: "string \<Rightarrow> int \<Rightarrow> string \<Rightarrow> workspace_row" where
  "workspace_row_of ident later payload = \<lparr>wr_id = ident, wr_expires = later + 600, wr_payload = payload\<rparr>"

lemma workspace_insert_spec:
  assumes "distinct (map wr_id db)" "ident \<notin> wr_id ` set db" "length payload \<le> MAX_BYTES"
  shows "\<exists>db'. workspace_insert ident now later payload db = Some (db', Inr ident) \<and> \<not> workspace_over db'
     \<and> distinct (map wr_id db') \<and> workspace_row_of ident later payload \<in> set db'
     \<and> (\<forall>r \<in> set db'. wr_id r \<noteq> ident \<longrightarrow> r \<in> set db \<and> now < wr_expires r)
     \<and> (\<forall>gone \<in> set db - set db'. now < wr_expires gone \<longrightarrow> (\<forall>r \<in> set db'. wr_id r \<noteq> ident \<longrightarrow> expiry_le gone r))"
proof -
  let ?before = "filter (\<lambda>r. \<not> wr_expires r \<le> now) db @ [workspace_row_of ident later payload]"
  have "distinct (map wr_id ?before)"
    using assms(1,2) by (auto simp: distinct_map_filter workspace_row_of_def)
  then have "saving_ok ident (map as_row ?before)"
    using assms(3) by (simp add: saving_ok_def db_ok_def comp_def workspace_row_of_def)
  from workspace_evict_loop [OF this] obtain db' where db': "while_option workspace_over (evict_workspace ident) ?before = Some db'"
    "evicted_oldest ident (map as_row ?before) (map as_row db')" "\<not> workspace_over db'" by blast
  have "workspace_insert ident now later payload db = Some (db', Inr ident)"
    using db'(1) assms(2) by (auto simp: workspace_insert_def workspace_row_of_def)
  moreover have "distinct (map wr_id db')"
    using db'(2) by (simp add: evicted_oldest_def saving_ok_def db_ok_def comp_def)
  moreover have sub: "set db' \<subseteq> set ?before"
  proof -
    have "as_row ` set db' \<subseteq> as_row ` set ?before" using db'(2) unfolding evicted_oldest_def set_map by blast
    then show ?thesis by (simp only: inj_image_subset_iff [OF inj_as_row])
  qed
  moreover have "workspace_row_of ident later payload \<in> set db'"
  proof -
    have "as_row (workspace_row_of ident later payload) \<in> set (map as_row db')"
      using db'(2) by (auto simp: evicted_oldest_def workspace_row_of_def)
    then show ?thesis using inj_as_row by (auto dest: injD)
  qed
  moreover have "expiry_le gone r" if "gone \<in> set db - set db'" "now < wr_expires gone" "r \<in> set db'" "wr_id r \<noteq> ident" for gone r
  proof -
    have "as_row gone \<in> set (map as_row ?before) - set (map as_row db')" using that(1,2) inj_as_row by (auto dest: injD)
    with db'(2) that(3,4) have "row_le (as_row gone) (as_row r)" by (auto simp: evicted_oldest_def simp del: as_row_fields(4))
    then show ?thesis by simp
  qed
  ultimately show ?thesis using db'(3) by (auto simp: workspace_row_of_def)
qed

lemma find_by_id:
  "distinct (map wr_id db) \<Longrightarrow> r \<in> set db \<Longrightarrow> find (\<lambda>x. wr_id x = wr_id r \<and> p x) db = (if p r then Some r else None)"
proof (induction db)
  case (Cons x xs)
  then show ?case by (cases "x = r") (auto simp: find_None_iff image_iff)
qed simp

lemma stored_owners:
  assumes "stored_as ident st st'" "list_all (\<lambda>h. ow_owner h < length (ws_owners st)) (ws_hits st)"
  shows "list_all (\<lambda>h. ow_owner h < length (ws_owners st')) (ws_hits st')"
proof -
  have "ow_owner h \<in> ow_owner ` set (ws_hits st)" if "h \<in> set (assign_owned ident (ws_hits st))" for h
    using that by (auto simp: assign_owned_def in_set_enumerate_eq)
  moreover have "set (ws_hits st') \<subseteq> set (assign_owned ident (ws_hits st))"
    using assms(1) set_take_subset unfolding stored_as_def by metis
  ultimately show ?thesis using assms by (fastforce simp: list_all_iff stored_as_def)
qed

lemma handle_parse_display:
  assumes "\<And>u. parse_uuid (show_uuid u) = Some u" "Suc k \<le> usize_max"
  shows "ResultHandle_parse parse_uuid (ResultHandle_display show_uuid \<lparr>handle_set = u, handle_ordinal = Suc k\<rparr>)
    = Inr \<lparr>handle_set = u, handle_ordinal = Suc k\<rparr>"
  using rsplit_once_append [OF colon_not_in_show_nat, of "show_uuid u"] assms
  by (simp add: ResultHandle_parse_def ResultHandle_display_def parse_show_nat)

text \<open>
  C18. Saving a workspace set under a fresh identifier always ends, for a set whose owners have distinct names and whose
  hits have an owner in range, given a serialiser that its parser inverts and identifiers that parse as they print.  An
  error leaves the table untouched.  A success leaves at most 50 rows and 32 MiB, other rows only evicted in the order of
  their expiry.  Until its own expiry the identifier loads the set, provided that it has at most 32 owners: same owners,
  scope and workspace, the hits a prefix of the given ones numbered from 1 under that identifier, the flag set exactly
  when the given set was already truncated or hits were dropped, every member's coverage row stating how many of the kept
  hits it owns and marked as truncated when that is fewer than it said; every handle addresses its hit.  A set of more
  owners is saved and then refused.  Afterwards the set has expired.
\<close>

theorem workspace_results_roundtrip:
  assumes json: "\<And>s p. to_string s = Inr p \<Longrightarrow> from_str p = Some s"
    and uuid: "\<And>u. parse_uuid (show_uuid u) = Some u"
    and db: "distinct (map wr_id db)" "show_uuid u \<notin> wr_id ` set db"
    and set: "distinct (map ms_name (ws_owners st))"
      "list_all (\<lambda>h. ow_owner h < length (ws_owners st)) (ws_hits st)"
  shows "\<exists>db' r. WorkspaceResults_save to_string (show_uuid u) now later st db = Some (db', r)
     \<and> (case r of
          Inl e \<Rightarrow> db' = db
        | Inr i \<Rightarrow> i = show_uuid u \<and> length db' \<le> 50 \<and> bytes_kept db' \<le> MAX_BYTES
            \<and> (\<forall>r \<in> set db'. wr_id r \<noteq> i \<longrightarrow> r \<in> set db \<and> now < wr_expires r)
            \<and> (\<forall>gone \<in> set db - set db'. now < wr_expires gone \<longrightarrow> (\<forall>r \<in> set db'. wr_id r \<noteq> i \<longrightarrow> expiry_le gone r))
            \<and> (\<exists>st'. stored_as i st st'
                 \<and> (\<forall>t < later + 600. if length (ws_owners st) \<le> 32 then WorkspaceResults_load from_str parse_uuid t db' i = Inr st'
                      \<and> (\<forall>k < length (ws_hits st'). WorkspaceResults_entry from_str parse_uuid show_uuid t db'
                           (ResultHandle_display show_uuid \<lparr>handle_set = u, handle_ordinal = Suc k\<rparr>) = Inr (st', k))
                    else WorkspaceResults_load from_str parse_uuid t db' i = Inl ''result_unavailable: invalid workspace ownership''))
            \<and> (\<forall>t \<ge> later + 600. WorkspaceResults_load from_str parse_uuid t db' i
                 = Inl ''expired_result: workspace result expired or was evicted; search again''))"
proof (rule WorkspaceResults_save_cases [OF set(1), of to_string "show_uuid u" now later db], goal_cases error saved)
  case (error e)
  then show ?thesis by auto
next
  case (saved st' payload)
  let ?i = "show_uuid u"
  from workspace_insert_spec [OF db saved(2), of now later] obtain db' where ins:
    "workspace_insert ?i now later payload db = Some (db', Inr ?i)" "\<not> workspace_over db'" "distinct (map wr_id db')"
    "workspace_row_of ?i later payload \<in> set db'" "\<forall>r \<in> set db'. wr_id r \<noteq> ?i \<longrightarrow> r \<in> set db \<and> now < wr_expires r"
    "\<forall>gone \<in> set db - set db'. now < wr_expires gone \<longrightarrow> (\<forall>r \<in> set db'. wr_id r \<noteq> ?i \<longrightarrow> expiry_le gone r)"
    by blast
  have found: "find (\<lambda>r. wr_id r = ?i \<and> wr_expires r > t) db' =
      (if t < later + 600 then Some (workspace_row_of ?i later payload) else None)" for t
    using find_by_id [OF ins(3,4), of "\<lambda>r. wr_expires r > t"] by (simp add: workspace_row_of_def)
  have owners: "list_all (\<lambda>h. ow_owner h < length (ws_owners st')) (ws_hits st')"
    using stored_owners [OF saved(4) set(2)] .
  have load: "WorkspaceResults_load from_str parse_uuid t db' ?i = (if t < later + 600
      then (if length (ws_owners st) \<le> 32 then Inr st' else Inl ''result_unavailable: invalid workspace ownership'')
      else Inl ''expired_result: workspace result expired or was evicted; search again'')" for t
    using found [of t] saved(2,4) json [OF saved(3)] owners
    by (simp add: WorkspaceResults_load_def uuid workspace_row_of_def stored_as_def)
  have "WorkspaceResults_entry from_str parse_uuid show_uuid t db'
      (ResultHandle_display show_uuid \<lparr>handle_set = u, handle_ordinal = Suc k\<rparr>) = Inr (st', k)"
    if "t < later + 600" "k < length (ws_hits st')" "length (ws_owners st) \<le> 32" for t k
  proof -
    have "Suc k \<le> usize_max" using that(2) saved(4) by (simp add: stored_as_def MAX_HITS_def usize_max_def)
    with handle_parse_display [OF uuid] show ?thesis using that load by (simp add: WorkspaceResults_entry_def)
  qed
  with ins saved(1,4) load show ?thesis
    by (intro exI [of _ db'] exI [of _ "Inr ?i"]) (auto simp: workspace_over_def intro!: exI [of _ st'])
qed

section \<open>Pages\<close>

definition workspace_page_shows :: "page_libs \<Rightarrow> workspace_set \<Rightarrow> string \<Rightarrow> nat \<Rightarrow> nat \<Rightarrow> output_budget \<Rightarrow> nat \<Rightarrow> string \<Rightarrow> bool" where
  "workspace_page_shows libs st ident offset limit b n t \<longleftrightarrow>
     budget_fits libs b t \<and> n \<le> min (min (length (ws_hits st) - offset) limit) (budget_limit b)
     \<and> (\<exists>detail. workspace_render libs st ident offset limit b n detail = Inr t)"

lemma workspace_tier_Some:
  assumes "workspace_tier libs b render m names = Inr (Some t)"
  shows "\<exists>n detail. 0 < n \<and> n \<le> m \<and> render n detail = Inr t \<and> budget_fits libs b t"
proof -
  let ?p = "\<lambda>n nm. render n \<lparr>detail_names = nm, detail_snippets = False\<rparr>"
  from assms obtain low where low: "largest_fitting m (\<lambda>n. text_fits libs b (?p n names)) = Inr low" "0 < low"
    "(?p low True = Inr t \<and> budget_fits libs b t) \<or> ?p low names = Inr t"
    by (auto simp: workspace_tier_def Let_def map_sum_eq_Inr split: sum.splits if_splits)
  from largest_fitting_Inr [OF low(1)] low(2,3) show ?thesis
    by (intro exI [of _ low]) (auto simp: text_fits_def map_sum_eq_Inr)
qed

text \<open>
  A page of a workspace set renders \<open>n\<close> consecutive hits from the requested offset and fits the budget in full;
  \<open>n\<close> exceeds neither the hits left, the limit nor the budget and is positive while hits are left.
\<close>

theorem workspace_page_fits:
  assumes "WorkspaceResults_page libs get_set ident offset limit b = Inr t"
  shows "\<exists>st n. get_set ident = Inr st \<and> offset \<le> length (ws_hits st)
     \<and> workspace_page_shows libs st ident offset limit b n t \<and> (offset < length (ws_hits st) \<longrightarrow> 0 < n)"
proof -
  from assms obtain st where st: "get_set ident = Inr st" and p: "workspace_page_of libs st ident offset limit b = Inr t"
    by (auto simp: WorkspaceResults_page_def split: sum.splits)
  from p have off: "offset \<le> length (ws_hits st)" by (auto simp: workspace_page_of_def split: if_splits)
  let ?m = "min (min (length (ws_hits st) - offset) limit) (budget_limit b)"
  let ?r = "workspace_render libs st ident offset limit b"
  from p off consider (snip) "snippet_page libs ?m b ?r = Inr (Some t)"
    | (tier) names where "workspace_tier libs b ?r ?m names = Inr (Some t)"
    | (empty) "offset = length (ws_hits st)" "budget_fits libs b t" "?r 0 \<lparr>detail_names = False, detail_snippets = False\<rparr> = Inr t"
    by (auto simp: workspace_page_of_def Let_def split: sum.splits option.splits if_splits)
  then have "\<exists>n. workspace_page_shows libs st ident offset limit b n t \<and> (offset < length (ws_hits st) \<longrightarrow> 0 < n)"
  proof cases
    case snip
    from snippet_page_Some [OF this] show ?thesis unfolding workspace_page_shows_def by blast
  next
    case (tier names)
    from workspace_tier_Some [OF this] show ?thesis unfolding workspace_page_shows_def by blast
  next
    case empty
    then show ?thesis by (intro exI [of _ 0]) (auto simp: workspace_page_shows_def)
  qed
  with st off show ?thesis by blast
qed

text \<open>Marking changes no handle of a page: the mark follows the first tab.\<close>

lemma mark_line_handle: "hd (split_char TAB (mark_line ds l)) = hd (split_char TAB l)"
proof (cases "split_once TAB l")
  case (Some p)
  obtain a b where "split_once TAB l = Some (a, b)" using Some by (cases p) auto
  then have "l = a @ TAB # b" "TAB \<notin> set a" by (simp_all add: split_once_Some)
  then show ?thesis by (simp add: mark_line_def split_once_append split_char_head)
qed (simp add: mark_line_def)

section \<open>Reopening\<close>

text \<open>
  C12. A snapshot is reopened only as what it was: its member is still configured under that name, the root is the
  member's own at the recorded path or a linked worktree of the member's repository, it is canonical and the very
  directory (device and inode) that was captured, and the index opened there carries the recorded identity; a snapshot
  answered by a parent's index reads that member's index only.
\<close>

theorem snapshot_reopens_same_owner:
  assumes "MemberSnapshot_open env ops cfg s = Inr store"
  shows "\<exists>m root info cache. m \<in> set (wc_members cfg) \<and> wm_name m = ms_name s
    \<and> (case ms_worktree s of
         None \<Rightarrow> root = wm_root m \<and> encoded root = ms_root s
       | Some label \<Rightarrow> root \<noteq> wm_root m \<and> linked_worktree_top env root = Some root \<and> same_repository env root m)
    \<and> we_metadata env (absolute root) = Found info \<and> fi_device info = ms_device s \<and> fi_inode info = ms_inode s
    \<and> we_canonicalize env (absolute root) = Found root
    \<and> decode_path (ms_cache s) = Inr cache \<and> os_epoch store = Some (ms_index_identity s)
    \<and> (case ms_parent s of
         None \<Rightarrow> so_open_read ops root (path_components cache) = Inr store
       | Some (parent, index_cache) \<Rightarrow> encoded (wm_root m) = parent
           \<and> (\<exists>p opened. decode_path index_cache = Inr p \<and> so_open_read ops (wm_root m) (path_components p) = Inr opened
                \<and> so_reading_from ops opened root (path_components cache) = Inr store))"
proof -
  from assms obtain r info cache where r: "MemberSnapshot_member_root env cfg s = Inr r"
    "we_metadata env (absolute (mr_root r)) = Found info" "fi_device info = ms_device s" "fi_inode info = ms_inode s"
    "we_canonicalize env (absolute (mr_root r)) = Found (mr_root r)" "decode_path (ms_cache s) = Inr cache"
    "open_index env ops r s (path_components cache) = Inr store" "os_epoch store = Some (ms_index_identity s)"
    by (auto simp: MemberSnapshot_open_def split: sum.splits lookup.splits if_splits)
  from r(1) obtain m where m: "find (\<lambda>m. wm_name m = ms_name s) (wc_members cfg) = Some m"
    by (auto simp: MemberSnapshot_member_root_def split: option.splits)
  from m have mem: "m \<in> set (wc_members cfg)" "wm_name m = ms_name s" by (auto simp: find_Some_iff)
  have owner: "mr_member r = m \<and> (case ms_worktree s of
         None \<Rightarrow> mr_root r = wm_root m \<and> encoded (mr_root r) = ms_root s
       | Some label \<Rightarrow> mr_root r \<noteq> wm_root m \<and> linked_worktree_top env (mr_root r) = Some (mr_root r) \<and> same_repository env (mr_root r) m)"
  proof (cases "ms_worktree s")
    case None
    with r(1) m show ?thesis by (auto simp: MemberSnapshot_member_root_def MemberRoot_configured_def split: if_splits)
  next
    case (Some label)
    with r(1) m obtain root t owner where t: "linked_root_of_member env m (path_components root) = Some t"
      "MemberRoot_linked env m t = Inr owner" "r = owner\<lparr>mr_is_home := True\<rparr>"
      by (auto simp: MemberSnapshot_member_root_def map_sum_eq_Inr split: sum.splits option.splits)
    from t(1) have "t \<noteq> wm_root m" "linked_worktree_top env t = Some t" "same_repository env t m"
      by (auto simp: linked_root_of_member_def same_repository_def split: lookup.splits option.splits if_splits)
    with Some t(3) MemberRoot_linked_fields [OF t(2)] show ?thesis by simp
  qed
  have opened: "case ms_parent s of
         None \<Rightarrow> so_open_read ops (mr_root r) (path_components cache) = Inr store
       | Some (parent, index_cache) \<Rightarrow> encoded (wm_root m) = parent
           \<and> (\<exists>p opened. decode_path index_cache = Inr p \<and> so_open_read ops (wm_root m) (path_components p) = Inr opened
                \<and> so_reading_from ops opened (mr_root r) (path_components cache) = Inr store)"
    using r(7) owner by (auto simp: open_index_def split: option.splits if_splits sum.splits)
  show ?thesis using mem r(2-6,8) owner opened
    by (intro exI [of _ m] exI [of _ "mr_root r"] exI [of _ info] exI [of _ cache]) simp
qed

section \<open>Concrete runs\<close>

definition one_hit :: hit where
  "one_hit = \<lparr>hit_handle = ''ab:1'', hit_path = ''x.rs'', hit_revision = None, hit_start = 0, hit_end = 3, hit_start_line = 1,
     hit_end_line = 1, hit_name = ''f'', hit_kind = ''function'', hit_container = None, hit_provenance = None, hit_resolution = None,
     hit_candidates = [], hit_target = None, hit_snippet = None, hit_repeats = None\<rparr>"

definition b_snapshot :: member_snapshot where
  "b_snapshot = \<lparr>ms_name = ''b'', ms_root = ''/w/b'', ms_cache = ''/c'', ms_device = 1, ms_inode = 3, ms_index_identity = ''e'',
     ms_generation = 4, ms_coverage = JObj [], ms_worktree = None, ms_parent = None\<rparr>"

definition one_set :: workspace_set where
  "one_set = \<lparr>ws_workspace = ''pair'', ws_home = Some ''b'', ws_owners = [b_snapshot],
     ws_coverage = [JObj [(''member'', JStr ''b''), (''state'', JStr ''searched''), (''retained'', JNum 1)]],
     ws_hits = [\<lparr>ow_owner = 0, ow_member_rank = 1, ow_entry = LiveSource one_hit, ow_worktree_differs = True\<rparr>],
     ws_truncated = False, ws_scope = None\<rparr>"

definition one_to_string :: "workspace_set \<Rightarrow> string result" where
  "one_to_string s = (if s = one_set then Inr ''{}'' else Inl ''unsupported'')"

theorem workspace_results_roundtrip_witness:
  "\<exists>db' st'. WorkspaceResults_save one_to_string ''ab'' 7 7 one_set [] = Some (db', Inr ''ab'')
     \<and> WorkspaceResults_load (\<lambda>_. Some one_set) Some 8 db' ''ab'' = Inr st' \<and> stored_as ''ab'' one_set st'"
proof -
  have json: "\<And>s p. one_to_string s = Inr p \<Longrightarrow> Some one_set = Some s" by (auto simp: one_to_string_def split: if_splits)
  have "show_nat (Suc 0) = ''1''" by code_simp
  then have hits: "assign_owned ''ab'' (ws_hits one_set) = ws_hits one_set"
    by (simp add: assign_owned_def one_set_def one_hit_def)
  have "refresh_retained_counts one_set = one_set" by code_simp
  with hits have same: "prepared ''ab'' one_set = one_set"
    by (simp add: prepared_def MAX_HITS_def one_set_def)
  then have "WorkspaceResults_save one_to_string ''ab'' 7 7 one_set [] = workspace_insert ''ab'' 7 7 ''{}'' []"
    by (simp add: WorkspaceResults_save_def prepared_def one_to_string_def bound_workspace.simps MAX_BYTES_def)
  moreover obtain db' where "workspace_insert ''ab'' 7 7 ''{}'' [] = Some (db', Inr ''ab'')"
    using workspace_insert_spec [of "[]" "''ab''" "''{}''" 7 7] by (auto simp: MAX_BYTES_def)
  ultimately have "WorkspaceResults_save one_to_string ''ab'' 7 7 one_set [] = Some (db', Inr ''ab'')" by simp
  moreover have "length (ws_owners one_set) = 1" "distinct (map ms_name (ws_owners one_set))"
    "list_all (\<lambda>h. ow_owner h < length (ws_owners one_set)) (ws_hits one_set)" by (simp_all add: one_set_def)
  ultimately show ?thesis
    using workspace_results_roundtrip [of one_to_string "\<lambda>_. Some one_set" Some "\<lambda>x. x" "[]" "''ab''" one_set 7 7, OF json refl]
    by fastforce
qed

theorem workspace_page_fits_witness:
  "\<exists>t n. WorkspaceResults_page sample_libs (\<lambda>_. Inr one_set) ''ab'' 0 5 \<lparr>budget_limit = 9, budget_format = Lines\<rparr> = Inr t
     \<and> workspace_page_shows sample_libs one_set ''ab'' 0 5 \<lparr>budget_limit = 9, budget_format = Lines\<rparr> n t \<and> 0 < n"
proof -
  have "\<not> isl (WorkspaceResults_page sample_libs (\<lambda>_. Inr one_set) ''ab'' 0 5 \<lparr>budget_limit = 9, budget_format = Lines\<rparr>)"
    by code_simp
  then obtain t where t: "WorkspaceResults_page sample_libs (\<lambda>_. Inr one_set) ''ab'' 0 5
      \<lparr>budget_limit = 9, budget_format = Lines\<rparr> = Inr t"
    by (metis sum.collapse(2))
  from workspace_page_fits [OF t] t show ?thesis by (auto simp: one_set_def)
qed

definition b_store :: open_store where
  "b_store = \<lparr>os_root = [''w'', ''b''], os_index_root = [''w'', ''b''], os_index_cache = [''c''], os_epoch = Some ''e'', os_coverage = Inr JNull\<rparr>"

definition b_ops :: store_ops where
  "b_ops = \<lparr>so_open_read = (\<lambda>root cache. if root = [''w'', ''b''] \<and> cache = absolute [''c''] then Inr b_store else Inl ''foreign''),
     so_reading_from = (\<lambda>store root cache. Inl ''unused'')\<rparr>"

definition b_env :: ws_env where
  "b_env = pair_env\<lparr>we_metadata := (\<lambda>p. if names_in p = [''c'', ''index.sqlite3'']
     then Found \<lparr>fi_dir = False, fi_file = True, fi_device = 1, fi_inode = 9\<rparr> else we_metadata pair_env p)\<rparr>"

theorem snapshot_reopens_same_owner_witness:
  "MemberSnapshot_open b_env b_ops pair_config b_snapshot = Inr b_store
   \<and> (\<exists>m. m \<in> set (wc_members pair_config) \<and> wm_name m = ''b'' \<and> encoded (wm_root m) = ''/w/b'') \<and> os_epoch b_store = Some ''e''"
proof -
  have opened: "MemberSnapshot_open b_env b_ops pair_config b_snapshot = Inr b_store" by code_simp
  from snapshot_reopens_same_owner [OF opened] opened show ?thesis by (auto simp: b_snapshot_def)
qed

end
