(* ===== verification/TP_References.thy ===== *)
theory TP_References
  imports TP_Declarations TP_Snippets TP_Result_Store
begin

text \<open>
  The \<open>refs\<close> search (\<open>search/navigation/reference_sites.rs\<close>) and \<open>definition_target\<close> of \<open>search/navigation.rs\<close>: the
  occurrences of a name in tiers, at most a given number of them, sites of one line folded into one row.  The parser of
  the JSON list in the \<open>candidates\<close> column and the size of a serialised hit are arguments; the resolvers write that
  column, so \<open>json_each\<close> and \<open>serde_json\<close> read the same list.
\<close>

section \<open>Sites\<close>

definition definition_target_of :: "index_db \<Rightarrow> int \<Rightarrow> definition_target result" where
  "definition_target_of db i =
     (case definition_of db i of
        None \<Rightarrow> Inl ''Query returned no rows''
      | Some d \<Rightarrow>
          (case file_of db (de_file d) of
             None \<Rightarrow> Inl ''Query returned no rows''
           | Some f \<Rightarrow>
               (case fe_revision f of
                  None \<Rightarrow> Inl ''Invalid column type Null''
                | Some r \<Rightarrow> Inr \<lparr>dt_path = fe_path f, dt_revision = r, dt_start = de_start d, dt_end = de_end d, dt_name = de_name d\<rparr>)))"

definition reference_query :: "unicode \<Rightarrow> string \<Rightarrow> query result" where
  "reference_query u input =
     map_sum id (\<lambda>q. case strip_prefix ''refs:'' (q_text q) of Some name \<Rightarrow> q\<lparr>q_text := str_trim u name\<rparr> | None \<Rightarrow> q)
       (Query_parse u input)"

record site =
  st_hit :: hit
  st_target :: "int option"
  st_candidates :: string
  st_in_test_module :: bool
  st_target_kind :: "string option"
  st_candidate_ids :: "int list"

definition site_tier :: "site \<Rightarrow> nat" where
  "site_tier s =
     (let declaration = (hit_kind (st_hit s) = ''declaration'');
          imports = (hit_kind (st_hit s) = ''import'' \<or> declaration \<and> st_target_kind s = Some ''import'')
      in if st_in_test_module s \<or> is_test_path (hit_path (st_hit s)) then 3
         else if declaration \<and> \<not> imports then 0
         else if imports then 2 else 1)"

record ref_libs =
  rl_ids :: "string \<Rightarrow> int list option"
  rl_size :: "hit \<Rightarrow> nat result"

text \<open>A definition the occurrence resolves to or names as a candidate.\<close>

definition points_to :: "ref_libs \<Rightarrow> occurrence_entry \<Rightarrow> definition_entry \<Rightarrow> bool" where
  "points_to libs oc d \<longleftrightarrow> oe_target oc = Some (de_id d)
     \<or> (case rl_ids libs (oe_candidates oc) of Some ids \<Rightarrow> de_id d \<in> set ids | None \<Rightarrow> False)"

definition reference_row_passes :: "ref_libs \<Rightarrow> index_db \<Rightarrow> qualified_name \<Rightarrow> bound_path_filter \<Rightarrow> query \<Rightarrow> occurrence_entry \<Rightarrow>
    file_entry \<Rightarrow> bool" where
  "reference_row_passes libs db name paths q oc f \<longleftrightarrow>
     oe_name oc = qn_name name \<and> passes paths (q_language q) f
     \<and> (q_kind q = [] \<or> oe_role oc = q_kind q \<or> list_ex (\<lambda>d. de_kind d = q_kind q \<and> points_to libs oc d) (db_definitions db))
     \<and> (owner_hint name = [] \<or> list_ex (\<lambda>d. case file_of db (de_file d) of
            Some tf \<Rightarrow> points_to libs oc d \<and> owner_hint_holds (owner_hint name) (d, tf, []) | None \<Rightarrow> False) (db_definitions db))"

definition in_test_module :: "index_db \<Rightarrow> occurrence_entry \<Rightarrow> bool" where
  "in_test_module db oc = list_ex (\<lambda>d. de_file d = oe_file oc \<and> de_kind d = ''module'' \<and> de_name d \<in> {''tests'', ''test''}
     \<and> de_start d \<le> oe_start oc \<and> de_end d \<ge> oe_end oc) (db_definitions db)"

definition site_of :: "index_db \<Rightarrow> occurrence_entry \<Rightarrow> file_entry \<Rightarrow> bytes \<Rightarrow> site" where
  "site_of db oc f bs =
     \<lparr>st_hit = hit_row f bs (oe_start oc) (oe_end oc) (oe_name oc) (oe_role oc) None (oe_provenance oc),
      st_target = oe_target oc, st_candidates = oe_candidates oc, st_in_test_module = in_test_module db oc,
      st_target_kind = (case oe_target oc of None \<Rightarrow> None | Some i \<Rightarrow> map_option de_kind (definition_of db i)),
      st_candidate_ids = []\<rparr>"

definition reference_key :: "occurrence_entry \<times> file_entry \<times> bytes \<Rightarrow> string \<times> nat \<times> int" where
  "reference_key = (\<lambda>(oc, f, _). (fe_path f, oe_start oc, oe_id oc))"

definition reference_rows :: "ref_libs \<Rightarrow> index_db \<Rightarrow> qualified_name \<Rightarrow> bound_path_filter \<Rightarrow> query \<Rightarrow> site list" where
  "reference_rows libs db name paths q =
     map (\<lambda>(oc, f, bs). site_of db oc f bs) (sort_by (by_key reference_key)
       (List.map_filter (\<lambda>oc. case located db (oe_file oc) of
            Some (f, bs) \<Rightarrow> if reference_row_passes libs db name paths q oc f then Some (oc, f, bs) else None
          | None \<Rightarrow> None) (db_occurrences db)))"

fun matches_qualifier :: "unicode \<Rightarrow> index_db \<Rightarrow> qualified_name \<Rightarrow> int list \<Rightarrow> bool result" where
  "matches_qualifier u db name [] = Inr False"
| "matches_qualifier u db name (i # ids) =
     (case definition_of db i of
        None \<Rightarrow> Inl ''Query returned no rows''
      | Some d \<Rightarrow>
          (case file_of db (de_file d) of
             None \<Rightarrow> Inl ''Query returned no rows''
           | Some f \<Rightarrow> if name_matches u name (fe_path f) (de_container d) \<noteq> None then Inr True
                        else matches_qualifier u db name ids))"

definition site_matches_qualifier :: "unicode \<Rightarrow> index_db \<Rightarrow> qualified_name \<Rightarrow> site \<Rightarrow> bool result" where
  "site_matches_qualifier u db name s =
     matches_qualifier u db name ((case st_target s of Some i \<Rightarrow> [i] | None \<Rightarrow> []) @ st_candidate_ids s)"

text \<open>The site with its candidates parsed, unless the qualifier excludes it.\<close>

definition accept_site :: "unicode \<Rightarrow> ref_libs \<Rightarrow> index_db \<Rightarrow> qualified_name \<Rightarrow> site \<Rightarrow> site option result" where
  "accept_site u libs db name s0 =
     (case rl_ids libs (st_candidates s0) of
        None \<Rightarrow> Inl ''invalid candidates''
      | Some ids \<Rightarrow>
          let s = s0\<lparr>st_candidate_ids := ids\<rparr>
          in if is_qualified name
             then map_sum id (\<lambda>ok. if ok then Some s else None) (site_matches_qualifier u db name s)
             else Inr (Some s))"

section \<open>The bounded buffer\<close>

text \<open>The four vectors, the number of sites they hold, and whether a site was dropped.\<close>

type_synonym site_buffer = "site list list \<times> nat \<times> bool"

definition push_site :: "nat \<Rightarrow> site \<Rightarrow> site list list \<Rightarrow> site list list" where
  "push_site tier s buckets = buckets[tier := (buckets ! tier) @ [s]]"

definition worst_tier :: "site list list \<Rightarrow> nat" where
  "worst_tier buckets = (case rposition_of (\<lambda>b. b \<noteq> []) buckets of Some i \<Rightarrow> i | None \<Rightarrow> 0)"

definition full_of_best :: "nat \<Rightarrow> site_buffer \<Rightarrow> bool" where
  "full_of_best cap = (\<lambda>(buckets, retained, _). retained = cap \<and> length (buckets ! 0) = cap)"

text \<open>One accepted site; the flag says that the loop ends.\<close>

definition buffer_site :: "nat \<Rightarrow> site \<Rightarrow> site_buffer \<Rightarrow> site_buffer \<times> bool" where
  "buffer_site cap s = (\<lambda>(buckets, retained, truncated).
     let priority = site_tier s
     in if retained < cap then
          (let st = (push_site priority s buckets, retained + 1, truncated)
           in if full_of_best cap st then ((fst st, retained + 1, True), True) else (st, False))
        else
          let worst = worst_tier buckets
          in if priority < worst then
               (let st = (push_site priority s (buckets[worst := butlast (buckets ! worst)]), retained, True)
                in (st, full_of_best cap st))
             else if priority = 0 \<and> worst = 0 then ((buckets, retained, True), True)
             else ((buckets, retained, True), full_of_best cap (buckets, retained, True)))"

fun site_loop :: "unicode \<Rightarrow> ref_libs \<Rightarrow> index_db \<Rightarrow> qualified_name \<Rightarrow> nat \<Rightarrow> site list \<Rightarrow> site_buffer \<Rightarrow> site_buffer result" where
  "site_loop u libs db name cap [] st = Inr st"
| "site_loop u libs db name cap (row # rows) st =
     (case accept_site u libs db name row of
        Inl e \<Rightarrow> Inl e
      | Inr None \<Rightarrow> site_loop u libs db name cap rows st
      | Inr (Some s) \<Rightarrow>
          (let (st', stop) = buffer_site cap s st
           in if stop then Inr st' else site_loop u libs db name cap rows st'))"

section \<open>Folding sites into rows\<close>

record site_key =
  sk_path :: string
  sk_line :: nat
  sk_role :: string
  sk_target :: "int option"
  sk_candidates :: "int list"

definition key_of :: "site \<Rightarrow> site_key" where
  "key_of s = \<lparr>sk_path = hit_path (st_hit s), sk_line = hit_start_line (st_hit s), sk_role = hit_kind (st_hit s),
     sk_target = st_target s, sk_candidates = sort (st_candidate_ids s)\<rparr>"

fun targets_of :: "index_db \<Rightarrow> int list \<Rightarrow> definition_target list result" where
  "targets_of db [] = Inr []"
| "targets_of db (i # ids) =
     (case definition_target_of db i of Inl e \<Rightarrow> Inl e | Inr t \<Rightarrow> map_sum id (Cons t) (targets_of db ids))"

definition resolution_of :: "site \<Rightarrow> string" where
  "resolution_of s = (if st_target s \<noteq> None then ''resolved'' else if st_candidate_ids s \<noteq> [] then ''candidate'' else ''unresolved'')"

definition resolved_hit :: "index_db \<Rightarrow> site \<Rightarrow> hit result" where
  "resolved_hit db s =
     (case (case st_target s of None \<Rightarrow> Inr None | Some i \<Rightarrow> map_sum id Some (definition_target_of db i)) of
        Inl e \<Rightarrow> Inl e
      | Inr target \<Rightarrow>
          map_sum id (\<lambda>cs. (st_hit s)\<lparr>hit_resolution := Some (resolution_of s), hit_target := target,
                           hit_candidates := hit_candidates (st_hit s) @ cs\<rparr>)
            (targets_of db (filter (\<lambda>i. Some i \<noteq> st_target s) (sort (st_candidate_ids s)))))"

definition repeat_hit :: "hit \<Rightarrow> hit" where
  "repeat_hit h = h\<lparr>hit_repeats := Some ((case hit_repeats h of Some n \<Rightarrow> n | None \<Rightarrow> 1) + 1)\<rparr>"

text \<open>\<open>rows\<close> maps a key to the place of its row; the flag says that the byte limit ended the loop.\<close>

fun fold_sites :: "ref_libs \<Rightarrow> index_db \<Rightarrow> site list \<Rightarrow> hit list \<Rightarrow> (site_key \<times> nat) list \<Rightarrow> nat \<Rightarrow> (hit list \<times> bool) result" where
  "fold_sites libs db [] hits rows bytes = Inr (hits, False)"
| "fold_sites libs db (s # ss) hits rows bytes =
     (case map_of rows (key_of s) of
        Some i \<Rightarrow> fold_sites libs db ss (hits[i := repeat_hit (hits ! i)]) rows bytes
      | None \<Rightarrow>
          (case resolved_hit db s of
             Inl e \<Rightarrow> Inl e
           | Inr h \<Rightarrow>
               (case rl_size libs h of
                  Inl e \<Rightarrow> Inl e
                | Inr n \<Rightarrow>
                    if bytes + n > MAX_BYTES then Inr (hits, True)
                    else fold_sites libs db ss (hits @ [h]) ((key_of s, length hits) # rows) (bytes + n))))"

definition distinct_paths :: "site list \<Rightarrow> nat" where
  "distinct_paths ss = length (remdups (map (hit_path \<circ> st_hit) ss))"

definition reference_coverage :: "json \<Rightarrow> site list \<Rightarrow> bool \<Rightarrow> json" where
  "reference_coverage coverage ss truncated =
     (let v = json_set ''reference_files'' (JNum (int (distinct_paths ss)))
                (json_set ''reference_sites'' (JNum (int (length ss))) coverage)
      in if truncated then json_set ''reference_sites_truncated'' (JBool True) v else v)"

definition references_with_limit :: "unicode \<Rightarrow> ref_libs \<Rightarrow> index_db \<Rightarrow> query \<Rightarrow> nat \<Rightarrow> live_result_set result" where
  "references_with_limit u libs db q max_sites =
     (let name = parse_name u (q_text q)
      in if qn_name name = [] then Inl ''usage: refs NAME''
         else
           let paths = PathFilter_bind (q_path q) (map fe_path (db_files db))
           in case site_loop u libs db name (saturating_add max_sites 1) (reference_rows libs db name paths q)
                  ([[], [], [], []], 0, False) of
                Inl e \<Rightarrow> Inl e
              | Inr (buckets, _, dropped) \<Rightarrow>
                  (let all_sites = concat buckets;
                       capped = (dropped \<or> length all_sites > max_sites);
                       ss = take max_sites all_sites;
                       coverage = reference_coverage (db_coverage db) ss capped
                   in case fold_sites libs db (sort_by (by_key site_tier) ss) [] [] 0 of
                        Inl e \<Rightarrow> Inl e
                      | Inr (hits, out_of_bytes) \<Rightarrow>
                          Inr \<lparr>ls_generation = db_generation db, ls_coverage = coverage, ls_truncated = (capped \<or> out_of_bytes),
                               ls_hits = attach u db (preview_terms u (qn_name name)) hits\<rparr>))"

definition references :: "unicode \<Rightarrow> ref_libs \<Rightarrow> index_db \<Rightarrow> query \<Rightarrow> live_result_set result" where
  "references u libs db q = references_with_limit u libs db q MAX_HITS"

section \<open>The buffer keeps the best sites\<close>

text \<open>The reference definition: all sites by tier, each tier in row order.\<close>

definition tier_list :: "nat \<Rightarrow> site list \<Rightarrow> site list" where
  "tier_list i ss = filter (\<lambda>s. site_tier s = i) ss"

definition tiered :: "site list \<Rightarrow> site list" where
  "tiered ss = tier_list 0 ss @ tier_list 1 ss @ tier_list 2 ss @ tier_list 3 ss"

definition place_site :: "site \<Rightarrow> site list \<Rightarrow> site list" where
  "place_site s ss = takeWhile (\<lambda>x. site_tier x \<le> site_tier s) ss @ s # dropWhile (\<lambda>x. site_tier x \<le> site_tier s) ss"

lemma site_tier_cases: "site_tier s = 0 \<or> site_tier s = 1 \<or> site_tier s = 2 \<or> site_tier s = 3"
  by (simp add: site_tier_def Let_def)

lemma place_between:
  assumes "\<forall>x \<in> set xs. site_tier x \<le> site_tier s" "\<forall>y \<in> set ys. site_tier s < site_tier y"
  shows "place_site s (xs @ ys) = xs @ s # ys"
proof -
  have "takeWhile (\<lambda>x. site_tier x \<le> site_tier s) ys = []" "dropWhile (\<lambda>x. site_tier x \<le> site_tier s) ys = ys"
    using assms(2) by (cases ys; force)+
  with assms(1) show ?thesis by (simp add: place_site_def takeWhile_append2 dropWhile_append2)
qed

text \<open>Buckets that hold the sites of their tier.\<close>

definition buckets_ok :: "site list list \<Rightarrow> bool" where
  "buckets_ok bs \<longleftrightarrow> length bs = 4 \<and> (\<forall>i < 4. \<forall>s \<in> set (bs ! i). site_tier s = i)"

lemma buckets_four:
  assumes "buckets_ok bs"
  obtains a b c d where "bs = [a, b, c, d]" "\<forall>s \<in> set a. site_tier s = 0" "\<forall>s \<in> set b. site_tier s = 1"
    "\<forall>s \<in> set c. site_tier s = 2" "\<forall>s \<in> set d. site_tier s = 3"
proof -
  from assms have "length bs = Suc (Suc (Suc (Suc 0)))" by (simp add: buckets_ok_def)
  then obtain a b c d where bs: "bs = [a, b, c, d]" by (auto simp: length_Suc_conv)
  have "\<forall>i < 4. \<forall>s \<in> set (bs ! i). site_tier s = i" using assms by (simp add: buckets_ok_def)
  from this [rule_format, of 0] this [rule_format, of 1] this [rule_format, of 2] this [rule_format, of 3] bs that show thesis
    by simp
qed

lemma buckets_ok_four:
  "buckets_ok [a, b, c, d] \<longleftrightarrow> (\<forall>s \<in> set a. site_tier s = 0) \<and> (\<forall>s \<in> set b. site_tier s = 1)
     \<and> (\<forall>s \<in> set c. site_tier s = 2) \<and> (\<forall>s \<in> set d. site_tier s = 3)"
  by (auto simp: buckets_ok_def less_Suc_eq numeral_eq_Suc)

lemma push_site_place:
  assumes "buckets_ok bs"
  shows "concat (push_site (site_tier s) s bs) = place_site s (concat bs) \<and> buckets_ok (push_site (site_tier s) s bs)"
proof -
  from assms obtain a b c d where bs: "bs = [a, b, c, d]" and t: "\<forall>s \<in> set a. site_tier s = 0" "\<forall>s \<in> set b. site_tier s = 1"
    "\<forall>s \<in> set c. site_tier s = 2" "\<forall>s \<in> set d. site_tier s = 3" by (rule buckets_four)
  consider "site_tier s = 0" | "site_tier s = 1" | "site_tier s = 2" | "site_tier s = 3" using site_tier_cases [of s] by auto
  then show ?thesis
  proof cases
    case 1
    have "place_site s (a @ (b @ c @ d)) = a @ s # (b @ c @ d)" by (rule place_between) (use 1 t in auto)
    with 1 t show ?thesis by (simp add: bs push_site_def buckets_ok_four)
  next
    case 2
    have "place_site s ((a @ b) @ (c @ d)) = (a @ b) @ s # (c @ d)" by (rule place_between) (use 2 t in auto)
    with 2 t show ?thesis by (simp add: bs push_site_def buckets_ok_four)
  next
    case 3
    have "place_site s ((a @ b @ c) @ d) = (a @ b @ c) @ s # d" by (rule place_between) (use 3 t in auto)
    with 3 t show ?thesis by (simp add: bs push_site_def buckets_ok_four)
  next
    case 4
    have "place_site s ((a @ b @ c @ d) @ []) = (a @ b @ c @ d) @ s # []" by (rule place_between) (use 4 t in auto)
    with 4 t show ?thesis by (simp add: bs push_site_def buckets_ok_four)
  qed
qed

lemma tiered_snoc: "tiered (ss @ [s]) = place_site s (tiered ss)"
proof -
  have ok: "buckets_ok [tier_list 0 ss, tier_list 1 ss, tier_list 2 ss, tier_list 3 ss]"
    by (simp add: buckets_ok_four tier_list_def)
  from push_site_place [OF ok, of s] site_tier_cases [of s] show ?thesis
    by (auto simp: push_site_def tiered_def tier_list_def)
qed

lemma tiered_sorted: "sorted_wrt (\<lambda>x y. site_tier x \<le> site_tier y) (tiered ss)"
proof -
  have "sorted_wrt (\<lambda>x y. site_tier x \<le> site_tier y) (tier_list i ss)" for i
    by (induction ss) (auto simp: tier_list_def)
  then show ?thesis by (simp add: tiered_def sorted_wrt_append) (auto simp: tier_list_def)
qed

text \<open>Keeping the best \<open>cap\<close> while placing one more.\<close>

lemma take_place:
  assumes "sorted_wrt (\<lambda>x y. site_tier x \<le> site_tier y) ts" "0 < cap"
  shows "take cap (place_site s ts) =
    (if length ts < cap then place_site s (take cap ts)
     else if site_tier s < site_tier (last (take cap ts)) then place_site s (butlast (take cap ts))
     else take cap ts)"
proof -
  let ?low = "\<lambda>x. site_tier x \<le> site_tier s"
  define a b where "a = takeWhile ?low ts" and "b = dropWhile ?low ts"
  have ts: "ts = a @ b" by (simp add: a_def b_def)
  have a: "\<forall>x \<in> set a. ?low x" by (auto simp: a_def dest: set_takeWhileD)
  have b: "\<forall>y \<in> set b. site_tier s < site_tier y"
  proof (cases b)
    case (Cons y ys)
    then have "\<not> ?low y" by (metis b_def hd_dropWhile list.sel(1) list.simps(3))
    with assms(1) ts Cons show ?thesis by (auto simp: sorted_wrt_append)
  qed simp
  have placed: "place_site s ts = a @ s # b" by (simp add: place_site_def a_def b_def)
  show ?thesis
  proof (cases "length a < cap")
    case False
    then have "take cap ts = take cap a" "take cap a \<noteq> []" "\<not> length ts < cap"
      using assms(2) by (auto simp: ts)
    moreover have "take cap (place_site s ts) = take cap a" unfolding placed using False by simp
    moreover from calculation(2) have "last (take cap a) \<in> set a" by (meson in_set_takeD last_in_set)
    ultimately show ?thesis using a by auto
  next
    case True
    have whole: "take cap (place_site s ts) = a @ s # take (cap - length a - 1) b"
      using True by (simp add: placed take_Cons' Suc_diff_Suc)
    show ?thesis
    proof (cases "length ts < cap")
      case True
      with whole placed show ?thesis by (simp add: ts)
    next
      case False
      with True have ne: "take (cap - length a) b \<noteq> []" by (auto simp: ts)
      have t: "take cap ts = a @ take (cap - length a) b" using True by (simp add: ts)
      from ne have "last (take cap ts) \<in> set b" unfolding t by (metis in_set_takeD last_appendR last_in_set)
      with b have "site_tier s < site_tier (last (take cap ts))" by blast
      moreover have "butlast (take cap ts) = a @ take (cap - length a - 1) b"
        using ne False unfolding t by (simp add: butlast_append butlast_take ts)
      moreover have "place_site s (a @ take (cap - length a - 1) b) = a @ s # take (cap - length a - 1) b"
        using a b by (intro place_between) (auto dest: in_set_takeD)
      ultimately show ?thesis using whole False by simp
    qed
  qed
qed

lemma length_tiered [simp]: "length (tiered ss) = length ss"
proof -
  have "length ss = length (tier_list 0 ss) + length (tier_list 1 ss) + length (tier_list 2 ss) + length (tier_list 3 ss)"
  proof (induction ss)
    case (Cons s ss)
    then show ?case using site_tier_cases [of s] by (auto simp: tier_list_def)
  qed (simp add: tier_list_def)
  then show ?thesis by (simp add: tiered_def)
qed

lemma set_tiered: "set (tiered ss) \<subseteq> set ss"
  by (auto simp: tiered_def tier_list_def)

lemma pop_worst:
  assumes "buckets_ok bs" "concat bs \<noteq> []"
  shows "worst_tier bs = site_tier (last (concat bs))"
    "concat (bs[worst_tier bs := butlast (bs ! worst_tier bs)]) = butlast (concat bs)"
    "buckets_ok (bs[worst_tier bs := butlast (bs ! worst_tier bs)])"
proof -
  from assms(1) obtain a b c d where bs: "bs = [a, b, c, d]" and t: "\<forall>s \<in> set a. site_tier s = 0" "\<forall>s \<in> set b. site_tier s = 1"
    "\<forall>s \<in> set c. site_tier s = 2" "\<forall>s \<in> set d. site_tier s = 3" by (rule buckets_four)
  note eval = bs worst_tier_def rposition_of_def buckets_ok_four butlast_append last_append
  consider "d \<noteq> []" | "d = []" "c \<noteq> []" | "d = []" "c = []" "b \<noteq> []" | "d = []" "c = []" "b = []" "a \<noteq> []"
    using assms(2) bs by auto
  note cases = this
  show "worst_tier bs = site_tier (last (concat bs))"
    using cases t by cases (auto simp: eval)
  show "concat (bs[worst_tier bs := butlast (bs ! worst_tier bs)]) = butlast (concat bs)"
    using cases t by cases (auto simp: eval)
  show "buckets_ok (bs[worst_tier bs := butlast (bs ! worst_tier bs)])"
    using cases t by cases (auto simp: eval dest: in_set_butlastD)
qed

definition buffer_ok :: "nat \<Rightarrow> site list \<Rightarrow> site_buffer \<Rightarrow> bool" where
  "buffer_ok cap ss = (\<lambda>(buckets, retained, truncated). buckets_ok buckets \<and> concat buckets = take cap (tiered ss)
     \<and> retained = length (concat buckets) \<and> (truncated \<longleftrightarrow> cap < length ss))"

text \<open>The buffer is full of the best tier, so no later site can enter.\<close>

definition saturated :: "nat \<Rightarrow> site list \<Rightarrow> bool" where
  "saturated cap ss \<longleftrightarrow> cap \<le> length ss \<and> site_tier (last (take cap (tiered ss))) = 0"

lemma saturated_stays:
  assumes "0 < cap" "saturated cap ss"
  shows "saturated cap (ss @ rest) \<and> take cap (tiered (ss @ rest)) = take cap (tiered ss)"
proof (induction rest rule: rev_induct)
  case (snoc s rest)
  have "tiered (ss @ rest @ [s]) = place_site s (tiered (ss @ rest))" using tiered_snoc [of "ss @ rest" s] by simp
  moreover have "site_tier (last (take cap (tiered (ss @ rest)))) = 0" "\<not> length (tiered (ss @ rest)) < cap"
    using snoc unfolding saturated_def by (blast, simp)
  ultimately have "take cap (tiered (ss @ rest @ [s])) = take cap (tiered (ss @ rest))"
    using take_place [OF tiered_sorted assms(1), of s "ss @ rest"] by (simp only: if_False not_less0)
  with snoc show ?case unfolding saturated_def by auto
qed (use assms in simp)

lemma full_of_best_saturated:
  assumes "buckets_ok bs" "concat bs = take cap (tiered ss)" "full_of_best cap (bs, length (concat bs), tr)" "0 < cap"
  shows "saturated cap ss"
proof -
  from assms(1) obtain a b c d where bs: "bs = [a, b, c, d]" "\<forall>s \<in> set a. site_tier s = 0" by (rule buckets_four)
  with assms(3,4) have "concat bs = a" "length a = cap" "a \<noteq> []" by (auto simp: full_of_best_def)
  with bs(2) assms(2) have "site_tier (last (take cap (tiered ss))) = 0" "length (take cap (tiered ss)) = cap"
    by (metis last_in_set, metis)
  then show ?thesis by (simp add: saturated_def min_def split: if_splits)
qed

lemma buffer_site_ok:
  assumes "buffer_ok cap ss st" "0 < cap" "buffer_site cap s st = ((bs', retained', truncated'), stop)"
  shows "concat bs' = take cap (tiered (ss @ [s]))"
    "if stop then saturated cap (ss @ [s]) \<and> truncated' else buffer_ok cap (ss @ [s]) (bs', retained', truncated')"
proof -
  obtain bs retained truncated where st: "st = (bs, retained, truncated)" by (cases st) auto
  from assms(1) have ok: "buckets_ok bs" "concat bs = take cap (tiered ss)" "retained = length (concat bs)"
    "truncated \<longleftrightarrow> cap < length ss" by (auto simp: buffer_ok_def st)
  note place = take_place [OF tiered_sorted assms(2), of s ss, folded tiered_snoc]
  have ret: "retained = min (length ss) cap" using ok(2,3) by simp
  have "concat bs' = take cap (tiered (ss @ [s])) \<and>
    (if stop then saturated cap (ss @ [s]) \<and> truncated' else buffer_ok cap (ss @ [s]) (bs', retained', truncated'))"
  proof (cases "retained < cap")
    case True
    with ret have short: "length ss < cap" by simp
    let ?bs = "push_site (site_tier s) s bs"
    have p: "concat ?bs = take cap (tiered (ss @ [s]))" "buckets_ok ?bs"
      using push_site_place [OF ok(1), of s] place short by (simp_all only: ok(2) length_tiered if_True)
    then have len: "length (concat ?bs) = retained + 1" using ret short by simp
    have "bs' = ?bs" "retained' = retained + 1" "stop \<longleftrightarrow> full_of_best cap (?bs, retained + 1, truncated)" "truncated' \<longleftrightarrow> truncated \<or> stop"
      using assms(3) True by (auto simp: buffer_site_def st Let_def split: if_splits)
    with p len short ok(4) full_of_best_saturated [OF p(2,1) _ assms(2)] show ?thesis by (auto simp: buffer_ok_def)
  next
    case False
    with ret have long: "cap \<le> length ss" and full: "retained = cap" by auto
    have ne: "concat bs \<noteq> []" using ok(3) full assms(2) by auto
    note worst = pop_worst [OF ok(1) ne]
    show ?thesis
    proof (cases "site_tier s < worst_tier bs")
      case True
      let ?bs = "push_site (site_tier s) s (bs[worst_tier bs := butlast (bs ! worst_tier bs)])"
      have e: "take cap (tiered (ss @ [s])) = place_site s (butlast (concat bs))"
        using place long True unfolding worst(1) ok(2) by (simp only: length_tiered not_less [symmetric] if_True if_False)
      have p: "concat ?bs = take cap (tiered (ss @ [s]))" "buckets_ok ?bs"
        using push_site_place [OF worst(3), of s] by (simp_all only: e worst(2))
      then have len: "length (concat ?bs) = cap" using long by simp
      have "bs' = ?bs" "retained' = cap" "truncated'" "stop \<longleftrightarrow> full_of_best cap (?bs, cap, True)"
        using assms(3) True False full by (auto simp: buffer_site_def st Let_def split: if_splits)
      with p len long full_of_best_saturated [OF p(2,1) _ assms(2)] show ?thesis by (auto simp: buffer_ok_def)
    next
      case drop: False
      have p: "concat bs = take cap (tiered (ss @ [s]))" using worst(1) place long drop ok(2) by simp
      have "bs' = bs" "retained' = cap" "truncated'" "stop \<longrightarrow> worst_tier bs = 0 \<or> full_of_best cap (bs, cap, True)"
        using assms(3) drop False full by (auto simp: buffer_site_def st Let_def split: if_splits)
      moreover have "saturated cap (ss @ [s])" if "worst_tier bs = 0"
        using that worst(1) p long by (simp add: saturated_def)
      ultimately show ?thesis
        using p ok(1,3) full long full_of_best_saturated [OF ok(1) p _ assms(2)] by (auto simp: buffer_ok_def)
    qed
  qed
  then show "concat bs' = take cap (tiered (ss @ [s]))"
    "if stop then saturated cap (ss @ [s]) \<and> truncated' else buffer_ok cap (ss @ [s]) (bs', retained', truncated')"
    by simp_all
qed

text \<open>The sites that the rows give, when none of them fails.\<close>

fun accepted_sites :: "unicode \<Rightarrow> ref_libs \<Rightarrow> index_db \<Rightarrow> qualified_name \<Rightarrow> site list \<Rightarrow> site list result" where
  "accepted_sites u libs db name [] = Inr []"
| "accepted_sites u libs db name (row # rows) =
     (case accept_site u libs db name row of
        Inl e \<Rightarrow> Inl e
      | Inr s \<Rightarrow> map_sum id (\<lambda>ss. (case s of Some x \<Rightarrow> [x] | None \<Rightarrow> []) @ ss) (accepted_sites u libs db name rows))"

lemma site_loop_keeps_best:
  "accepted_sites u libs db name rows = Inr ss \<Longrightarrow> buffer_ok cap done st \<Longrightarrow> 0 < cap \<Longrightarrow>
   \<exists>bs retained truncated. site_loop u libs db name cap rows st = Inr (bs, retained, truncated)
     \<and> concat bs = take cap (tiered (done @ ss))
     \<and> (truncated \<or> cap \<le> length (concat bs) \<longleftrightarrow> cap \<le> length (done @ ss))"
proof (induction rows arbitrary: ss st "done")
  case Nil
  then show ?case by (cases st) (auto simp: buffer_ok_def)
next
  case (Cons row rows)
  from Cons.prems(1) obtain x ss' where x: "accept_site u libs db name row = Inr x" "accepted_sites u libs db name rows = Inr ss'"
    "ss = (case x of Some s \<Rightarrow> [s] | None \<Rightarrow> []) @ ss'"
    by (auto simp: map_sum_eq_Inr split: sum.splits)
  show ?case
  proof (cases x)
    case None
    with Cons.IH [OF x(2) Cons.prems(2,3)] x show ?thesis by simp
  next
    case (Some s)
    obtain bs retained truncated stop where b: "buffer_site cap s st = ((bs, retained, truncated), stop)"
      by (metis surj_pair)
    note ok = buffer_site_ok [OF Cons.prems(2,3) b]
    show ?thesis
    proof (cases stop)
      case True
      with ok(2) have sat: "saturated cap (done @ [s])" "truncated" by simp_all
      from saturated_stays [OF Cons.prems(3) sat(1), of ss'] have "take cap (tiered (done @ s # ss')) = concat bs"
        "cap \<le> length (done @ s # ss')" using ok(1) by (simp_all add: saturated_def)
      with True b x Some sat(2) show ?thesis by (intro exI [of _ bs] exI [of _ retained] exI [of _ truncated]) simp
    next
      case False
      with ok(2) have "buffer_ok cap (done @ [s]) (bs, retained, truncated)" by simp
      from Cons.IH [OF x(2) this Cons.prems(3)] False b x Some show ?thesis by simp
    qed
  qed
qed

section \<open>Folding\<close>

lemma first_by_snoc:
  "first_by f (xs @ [x]) = (if f x \<in> f ` set xs then first_by f xs else first_by f xs @ [x])"
proof (induction f xs rule: first_by.induct)
  case (2 f y xs)
  show ?case
  proof (cases "f x = f y")
    case False
    then have "f x \<in> f ` set (filter (\<lambda>z. f z \<noteq> f y) xs) \<longleftrightarrow> f x \<in> f ` set xs" by auto
    with 2 False show ?thesis by simp
  qed simp
qed simp

definition key_count :: "site list \<Rightarrow> site \<Rightarrow> nat" where
  "key_count ss s = length (filter (\<lambda>x. key_of x = key_of s) ss)"

text \<open>The row of a site among \<open>ss\<close>: its resolved hit, with the number of sites that share the key when there are several.\<close>

definition site_row :: "index_db \<Rightarrow> site list \<Rightarrow> site \<Rightarrow> hit" where
  "site_row db ss s =
     (case resolved_hit db s of
        Inl _ \<Rightarrow> st_hit s
      | Inr h \<Rightarrow> if key_count ss s > 1 then h\<lparr>hit_repeats := Some (key_count ss s)\<rparr> else h)"

definition folded :: "index_db \<Rightarrow> site list \<Rightarrow> hit list" where
  "folded db ss = map (site_row db ss) (first_by key_of ss)"

definition rows_ok :: "site list \<Rightarrow> (site_key \<times> nat) list \<Rightarrow> bool" where
  "rows_ok ss rows \<longleftrightarrow> (\<forall>k i. map_of rows k = Some i \<longleftrightarrow> i < length (first_by key_of ss) \<and> key_of (first_by key_of ss ! i) = k)"

lemma resolved_repeats: "resolved_hit db s = Inr h \<Longrightarrow> hit_repeats h = hit_repeats (st_hit s)"
  by (auto simp: resolved_hit_def map_sum_eq_Inr split: sum.splits option.splits)

lemma rows_okD: "rows_ok ss rows \<Longrightarrow>
   map_of rows k = Some i \<longleftrightarrow> i < length (first_by key_of ss) \<and> key_of (first_by key_of ss ! i) = k"
  unfolding rows_ok_def by blast

lemma rows_ok_mem: "rows_ok ss rows \<Longrightarrow> map_of rows (key_of s) = None \<longleftrightarrow> key_of s \<notin> key_of ` set ss"
proof -
  assume ok: "rows_ok ss rows"
  have "key_of s \<in> set (map key_of (first_by key_of ss)) \<longleftrightarrow> (\<exists>i. map_of rows (key_of s) = Some i)"
    unfolding in_set_conv_nth rows_okD [OF ok] by (metis length_map nth_map)
  then show ?thesis by (auto simp: keys_first_by)
qed

lemma site_row_other: "key_of x \<noteq> key_of s \<Longrightarrow> site_row db (ss @ [s]) x = site_row db ss x"
proof -
  assume "key_of x \<noteq> key_of s"
  then have "key_count (ss @ [s]) x = key_count ss x" by (simp add: key_count_def)
  then show ?thesis by (simp only: site_row_def)
qed

lemma folded_repeat:
  assumes "rows_ok ss rows" "map_of rows (key_of s) = Some i" "\<forall>x \<in> set ss. \<exists>h. resolved_hit db x = Inr h" "\<forall>x \<in> set ss. hit_repeats (st_hit x) = None"
  shows "folded db (ss @ [s]) = (folded db ss)[i := repeat_hit (folded db ss ! i)]"
proof (rule nth_equalityI)
  let ?f = "first_by key_of ss"
  from assms(1,2) have i: "i < length ?f" "key_of (?f ! i) = key_of s" using rows_okD by blast+
  then have "key_of s \<in> key_of ` set ss" by (metis image_eqI keys_first_by nth_mem)
  then have first: "first_by key_of (ss @ [s]) = ?f" by (simp add: first_by_snoc)
  then show "length (folded db (ss @ [s])) = length ((folded db ss)[i := repeat_hit (folded db ss ! i)])" by (simp add: folded_def)
  fix j assume "j < length (folded db (ss @ [s]))"
  then have j: "j < length ?f" by (simp add: folded_def first)
  show "folded db (ss @ [s]) ! j = (folded db ss)[i := repeat_hit (folded db ss ! i)] ! j"
  proof (cases "j = i")
    case False
    with i j distinct_first_by [of key_of ss] have "key_of (?f ! j) \<noteq> key_of s"
      by (metis length_map nth_eq_iff_index_eq nth_map)
    from site_row_other [OF this, of db ss] j False i show ?thesis by (simp add: folded_def first)
  next
    case True
    have mem: "?f ! i \<in> set ss" using nth_mem [OF i(1)] set_first_by_subset [of key_of ss] by (rule subsetD [rotated])
    then obtain h where h: "resolved_hit db (?f ! i) = Inr h" using assms(3) by blast
    with resolved_repeats mem assms(4) have none: "hit_repeats h = None" by metis
    have "?f ! i \<in> set (filter (\<lambda>x. key_of x = key_of (?f ! i)) ss)" using mem by simp
    then have "0 < key_count ss (?f ! i)" unfolding key_count_def by (rule length_pos_if_in_set)
    moreover have "key_count (ss @ [s]) (?f ! i) = Suc (key_count ss (?f ! i))" using i(2) by (simp add: key_count_def)
    ultimately show ?thesis using True i h none by (simp add: folded_def first site_row_def repeat_hit_def)
  qed
qed

lemma folded_new:
  assumes "key_of s \<notin> key_of ` set ss" "resolved_hit db s = Inr h"
  shows "folded db (ss @ [s]) = folded db ss @ [h]"
proof -
  have "site_row db (ss @ [s]) x = site_row db ss x" if "x \<in> set (first_by key_of ss)" for x
  proof -
    from set_first_by_subset [of key_of ss] that have "x \<in> set ss" by (rule subsetD)
    then have "key_of x \<in> key_of ` set ss" by (rule imageI)
    with assms(1) have "key_of x \<noteq> key_of s" by auto
    then show ?thesis by (rule site_row_other)
  qed
  then have "map (site_row db (ss @ [s])) (first_by key_of ss) = folded db ss" unfolding folded_def by (intro map_cong) auto
  moreover have "filter (\<lambda>x. key_of x = key_of s) ss = []" using assms(1) by (auto simp: filter_empty_conv) (metis imageI)
  then have "site_row db (ss @ [s]) s = h" using assms(2) by (simp add: site_row_def key_count_def)
  ultimately show ?thesis unfolding folded_def [of db "ss @ [s]"] first_by_snoc using assms(1) by (simp only: if_False map_append list.map)
qed

lemma rows_ok_new:
  assumes "rows_ok ss rows" "key_of s \<notin> key_of ` set ss" "n = length (first_by key_of ss)"
  shows "rows_ok (ss @ [s]) ((key_of s, n) # rows)"
proof -
  have first: "first_by key_of (ss @ [s]) = first_by key_of ss @ [s]" using assms(2) by (simp add: first_by_snoc)
  have fresh: "key_of (first_by key_of ss ! i) \<noteq> key_of s" if "i < length (first_by key_of ss)" for i
    using that assms(2) by (metis image_eqI keys_first_by nth_mem)
  have "map_of ((key_of s, n) # rows) k = Some i \<longleftrightarrow>
      i < length (first_by key_of (ss @ [s])) \<and> key_of (first_by key_of (ss @ [s]) ! i) = k" for k i
    using rows_okD [OF assms(1), of k i] fresh [of i] assms(3)
    by (cases "k = key_of s"; cases "i < n"; cases "i = n") (auto simp: first nth_append)
  then show ?thesis unfolding rows_ok_def by blast
qed

lemma rows_ok_old: "rows_ok ss rows \<Longrightarrow> key_of s \<in> key_of ` set ss \<Longrightarrow> rows_ok (ss @ [s]) rows"
  by (simp add: rows_ok_def first_by_snoc)

text \<open>Sites with one key resolve alike, up to the hit they started from.\<close>

lemma resolved_same_key:
  "key_of s \<in> key_of ` set ss \<Longrightarrow> \<forall>x \<in> set ss. \<exists>h. resolved_hit db x = Inr h \<Longrightarrow> \<exists>h. resolved_hit db s = Inr h"
proof -
  assume "key_of s \<in> key_of ` set ss" and all: "\<forall>x \<in> set ss. \<exists>h. resolved_hit db x = Inr h"
  then obtain y where y: "y \<in> set ss" "st_target s = st_target y" "sort (st_candidate_ids s) = sort (st_candidate_ids y)"
    by (auto simp: key_of_def)
  with all obtain h where "resolved_hit db y = Inr h" by blast
  with y(2,3) show ?thesis by (auto simp: resolved_hit_def map_sum_eq_Inr split: sum.splits)
qed

lemma fold_sites_result:
  "fold_sites libs db ss (folded db done) rows bytes = Inr (hits, out_of_bytes) \<Longrightarrow> rows_ok done rows \<Longrightarrow>
   \<forall>x \<in> set done. \<exists>h. resolved_hit db x = Inr h \<Longrightarrow> \<forall>x \<in> set (done @ ss). hit_repeats (st_hit x) = None \<Longrightarrow>
   \<exists>taken. prefix taken ss \<and> hits = folded db (done @ taken) \<and> (out_of_bytes \<longleftrightarrow> taken \<noteq> ss)"
proof (induction ss arbitrary: "done" rows bytes)
  case (Cons s ss)
  show ?case
  proof (cases "map_of rows (key_of s)")
    case (Some i)
    with Cons.prems rows_ok_mem [of "done" rows s] have mem: "key_of s \<in> key_of ` set done" by auto
    let ?hits = "folded db (done @ [s])"
    have "?hits = (folded db done)[i := repeat_hit (folded db done ! i)]"
      using folded_repeat [OF Cons.prems(2) Some] Cons.prems(3,4) by auto
    with Cons.prems(1) Some have "fold_sites libs db ss ?hits rows bytes = Inr (hits, out_of_bytes)" by simp
    moreover have "\<forall>x \<in> set (done @ [s]). \<exists>h. resolved_hit db x = Inr h" using Cons.prems(3) mem resolved_same_key by auto
    ultimately obtain taken where "prefix taken ss" "hits = folded db ((done @ [s]) @ taken)" "out_of_bytes \<longleftrightarrow> taken \<noteq> ss"
      using Cons.IH [OF _ rows_ok_old [OF Cons.prems(2) mem], of bytes] Cons.prems(4) by auto
    then show ?thesis by (intro exI [of _ "s # taken"]) auto
  next
    case None
    with Cons.prems rows_ok_mem [of "done" rows s] have new: "key_of s \<notin> key_of ` set done" by auto
    from Cons.prems(1) None obtain h n where h: "resolved_hit db s = Inr h" "rl_size libs h = Inr n"
      by (auto split: sum.splits)
    show ?thesis
    proof (cases "bytes + n > MAX_BYTES")
      case True
      with Cons.prems(1) None h show ?thesis by (intro exI [of _ "[]"]) auto
    next
      case False
      have len: "length (folded db done) = length (first_by key_of done)" by (simp add: folded_def)
      with False Cons.prems(1) None h folded_new [OF new h(1)] have
        "fold_sites libs db ss (folded db (done @ [s])) ((key_of s, length (first_by key_of done)) # rows) (bytes + n) = Inr (hits, out_of_bytes)"
        by simp
      moreover have "\<forall>x \<in> set (done @ [s]). \<exists>h. resolved_hit db x = Inr h" using Cons.prems(3) h(1) by auto
      ultimately obtain taken where "prefix taken ss" "hits = folded db ((done @ [s]) @ taken)" "out_of_bytes \<longleftrightarrow> taken \<noteq> ss"
        using Cons.IH [OF _ rows_ok_new [OF Cons.prems(2) new refl]] Cons.prems(4) by auto
      then show ?thesis by (intro exI [of _ "s # taken"]) auto
    qed
  qed
qed simp

section \<open>The search\<close>

lemma accept_site_hit: "accept_site u libs db name r = Inr (Some s) \<Longrightarrow> st_hit s = st_hit r"
  by (auto simp: accept_site_def Let_def map_sum_eq_Inr split: option.splits if_splits)

lemma accepted_sites_hits:
  "accepted_sites u libs db name rows = Inr ss \<Longrightarrow> s \<in> set ss \<Longrightarrow> \<exists>r \<in> set rows. accept_site u libs db name r = Inr (Some s)"
proof (induction rows arbitrary: ss)
  case (Cons r rows)
  from Cons.prems(1) obtain x ss' where "accept_site u libs db name r = Inr x" "accepted_sites u libs db name rows = Inr ss'"
    "ss = (case x of Some y \<Rightarrow> [y] | None \<Rightarrow> []) @ ss'"
    by (auto simp: map_sum_eq_Inr split: sum.splits)
  with Cons.IH Cons.prems(2) show ?case by (cases x) auto
qed simp

lemma reference_rows_mem:
  "r \<in> set (reference_rows libs db name paths q) \<Longrightarrow> \<exists>oc \<in> set (db_occurrences db). \<exists>f bs. located db (oe_file oc) = Some (f, bs)
     \<and> reference_row_passes libs db name paths q oc f \<and> r = site_of db oc f bs"
proof -
  assume "r \<in> set (reference_rows libs db name paths q)"
  then obtain oc' f' bs' oc where oc: "oc \<in> set (db_occurrences db)" "r = site_of db oc' f' bs'"
    "(case located db (oe_file oc) of Some (f, bs) \<Rightarrow> if reference_row_passes libs db name paths q oc f then Some (oc, f, bs) else None
       | None \<Rightarrow> None) = Some (oc', f', bs')"
    by (auto simp: reference_rows_def map_filter_mem)
  then obtain f bs where "located db (oe_file oc) = Some (f, bs)" by (cases "located db (oe_file oc)") auto
  with oc show ?thesis by (auto split: if_splits)
qed

lemma hit_row_repeats [simp]: "hit_repeats (hit_row f bs a b n k c p) = None"
  by (simp add: hit_row_def split: prod.splits)

lemma tiered_sort: "sort_by (by_key site_tier) (take n (tiered ss)) = take n (tiered ss)"
  by (rule by_key.sort_by_sorted, rule sorted_wrt_mono_rel [OF _ sorted_wrt_take [OF tiered_sorted]]) (simp add: by_key_def)

lemma fold_sites_return:
  "\<forall>s \<in> set ss. \<exists>h. resolved_hit db s = Inr h \<Longrightarrow> \<forall>h. \<exists>n. rl_size libs h = Inr n \<Longrightarrow>
   \<exists>r. fold_sites libs db ss hits rows bytes = Inr r"
proof (induction ss arbitrary: hits rows bytes)
  case (Cons s ss)
  from Cons.prems obtain h where "resolved_hit db s = Inr h" by auto
  moreover from Cons.prems(2) obtain n where "rl_size libs h = Inr n" by blast
  ultimately show ?case using Cons.IH Cons.prems by (auto split: option.splits)
qed auto

text \<open>The search returns when every row reads well and every kept site resolves.\<close>

lemma references_return:
  assumes "max_sites < usize_max" "qn_name (parse_name u (q_text q)) \<noteq> []"
    "accepted_sites u libs db (parse_name u (q_text q))
       (reference_rows libs db (parse_name u (q_text q)) (PathFilter_bind (q_path q) (map fe_path (db_files db))) q) = Inr ss"
    "\<forall>s \<in> set ss. \<exists>h. resolved_hit db s = Inr h" "\<forall>h. \<exists>n. rl_size libs h = Inr n"
  shows "\<exists>result. references_with_limit u libs db q max_sites = Inr result"
proof -
  have cap: "saturating_add max_sites (Suc 0) = Suc max_sites" using assms(1) by (simp add: saturating_add_def)
  have "buffer_ok (Suc max_sites) [] ([[], [], [], []], 0, False)"
    by (simp add: buffer_ok_def buckets_ok_four tiered_def tier_list_def)
  from site_loop_keeps_best [OF assms(3) this] obtain bs retained dropped where loop:
    "site_loop u libs db (parse_name u (q_text q)) (Suc max_sites)
       (reference_rows libs db (parse_name u (q_text q)) (PathFilter_bind (q_path q) (map fe_path (db_files db))) q)
       ([[], [], [], []], 0, False) = Inr (bs, retained, dropped)" "concat bs = take (Suc max_sites) (tiered ss)"
    by auto
  have "set (sort_by (by_key site_tier) (take max_sites (concat bs))) \<subseteq> set ss"
    using set_tiered [of ss] by (auto simp: loop(2) dest: in_set_takeD)
  with assms(4) have "\<forall>s \<in> set (sort_by (by_key site_tier) (take max_sites (concat bs))). \<exists>h. resolved_hit db s = Inr h" by blast
  from fold_sites_return [OF this assms(5), of "[]" "[]" 0] obtain r where
    "fold_sites libs db (sort_by (by_key site_tier) (take max_sites (concat bs))) [] [] 0 = Inr r" by blast
  with assms(2) loop(1) show ?thesis by (cases r) (simp add: references_with_limit_def Let_def cap)
qed

text \<open>
  C20. \<open>refs\<close> shows the best sites.  When the rows of the query read well, the sites it keeps are the first \<open>max_sites\<close> of
  all accepted ones ordered by tier (declarations, code, imports, tests) and within a tier by path and position, although
  the loop keeps only a bounded buffer and stops early.  They are folded in that order into one row per path, line, role
  and resolution, each with the number of its sites; the coverage counts the kept sites and files; and the result is
  flagged as truncated exactly when sites were left out, by the limit or because the rows exceed the byte limit.
\<close>

theorem references_show_best_sites:
  assumes "references_with_limit u libs db q max_sites = Inr result" "max_sites < usize_max"
    "accepted_sites u libs db (parse_name u (q_text q))
       (reference_rows libs db (parse_name u (q_text q)) (PathFilter_bind (q_path q) (map fe_path (db_files db))) q) = Inr ss"
  shows "\<exists>taken. prefix taken (take max_sites (tiered ss))
    \<and> ls_hits result = attach u db (preview_terms u (qn_name (parse_name u (q_text q)))) (folded db taken)
    \<and> ls_coverage result = reference_coverage (db_coverage db) (take max_sites (tiered ss)) (max_sites < length ss)
    \<and> (ls_truncated result \<longleftrightarrow> max_sites < length ss \<or> taken \<noteq> take max_sites (tiered ss))
    \<and> ls_generation result = db_generation db"
proof -
  let ?name = "parse_name u (q_text q)" and ?paths = "PathFilter_bind (q_path q) (map fe_path (db_files db))"
  let ?rows = "reference_rows libs db ?name ?paths q"
  have cap: "saturating_add max_sites (Suc 0) = Suc max_sites" using assms(2) by (simp add: saturating_add_def)
  have "buffer_ok (Suc max_sites) [] ([[], [], [], []], 0, False)"
    by (simp add: buffer_ok_def buckets_ok_four tiered_def tier_list_def)
  from site_loop_keeps_best [OF assms(3) this] obtain bs retained dropped where loop:
    "site_loop u libs db ?name (Suc max_sites) ?rows ([[], [], [], []], 0, False) = Inr (bs, retained, dropped)"
    "concat bs = take (Suc max_sites) (tiered ss)" "dropped \<or> Suc max_sites \<le> length (concat bs) \<longleftrightarrow> Suc max_sites \<le> length ss"
    by auto
  have best: "take max_sites (concat bs) = take max_sites (tiered ss)" by (simp add: loop(2))
  have capped: "dropped \<or> max_sites < length (concat bs) \<longleftrightarrow> max_sites < length ss" using loop(3) by (simp add: Suc_le_eq)
  from assms(1) obtain hits out where fold: "fold_sites libs db (take max_sites (tiered ss)) [] [] 0 = Inr (hits, out)"
    "result = \<lparr>ls_generation = db_generation db, ls_coverage = reference_coverage (db_coverage db) (take max_sites (tiered ss)) (max_sites < length ss),
       ls_truncated = (max_sites < length ss \<or> out), ls_hits = attach u db (preview_terms u (qn_name ?name)) hits\<rparr>"
    by (auto simp: references_with_limit_def Let_def cap loop(1) best capped tiered_sort split: if_splits sum.splits)
  have "hit_repeats (st_hit x) = None" if "x \<in> set (take max_sites (tiered ss))" for x
  proof -
    from in_set_takeD [OF that] have "x \<in> set ss" using set_tiered [of ss] by blast
    with accepted_sites_hits [OF assms(3)] obtain r where "r \<in> set ?rows" "st_hit x = st_hit r" using accept_site_hit by metis
    with reference_rows_mem [of r libs db ?name ?paths q] show ?thesis by (auto simp: site_of_def)
  qed
  with fold_sites_result [of libs db "take max_sites (tiered ss)" "[]" "[]" 0 hits out] fold(1)
  obtain taken where "prefix taken (take max_sites (tiered ss))" "hits = folded db taken" "out \<longleftrightarrow> taken \<noteq> take max_sites (tiered ss)"
    by (auto simp: folded_def rows_ok_def)
  with fold(2) show ?thesis by (intro exI [of _ taken]) auto
qed

section \<open>A small index\<close>

definition ref_index :: index_db where
  "ref_index = \<lparr>db_generation = 1, db_coverage = JObj [], db_contents = [(''r1'', ''use f; f(); f()''), (''r2'', ''fn f'')],
     db_files = [\<lparr>fe_id = 1, fe_path = ''a.rs'', fe_revision = Some ''r1'', fe_language = ''rust''\<rparr>,
       \<lparr>fe_id = 2, fe_path = ''b.rs'', fe_revision = Some ''r2'', fe_language = ''rust''\<rparr>],
     db_definitions = [\<lparr>de_id = 7, de_file = 2, de_name = ''f'', de_kind = ''function'', de_start = 0, de_end = 4, de_container = None\<rparr>],
     db_occurrences = map (\<lambda>(i, fl, a, role). \<lparr>oe_id = i, oe_file = fl, oe_name = ''f'', oe_start = a, oe_end = a + 1, oe_role = role,
         oe_target = Some 7, oe_candidates = ''[]'', oe_provenance = ''p''\<rparr>)
       [(1, 1, 4, ''import''), (2, 1, 7, ''call''), (3, 1, 12, ''call''), (4, 2, 3, ''declaration'')],
     db_regions = []\<rparr>"

definition ref_sample_libs :: ref_libs where
  "ref_sample_libs = \<lparr>rl_ids = (\<lambda>_. Some []), rl_size = (\<lambda>_. Inr 10)\<rparr>"

definition f_query :: query where
  "f_query = Query_default\<lparr>q_text := ''f''\<rparr>"

definition f_rows :: "site list" where
  "f_rows = reference_rows ref_sample_libs ref_index (parse_name ascii_unicode ''f'') (PathFilter_bind PathFilter_default [''a.rs'', ''b.rs'']) f_query"

theorem references_show_best_sites_witness:
  "\<exists>result ss. references_with_limit ascii_unicode ref_sample_libs ref_index f_query 3 = Inr result
     \<and> map (\<lambda>s. (hit_path (st_hit s), site_tier s)) (take 3 (tiered ss)) = [(''b.rs'', 0), (''a.rs'', 1), (''a.rs'', 1)]
     \<and> ls_truncated result"
proof -
  have rows: "reference_rows ref_sample_libs ref_index (parse_name ascii_unicode (q_text f_query))
      (PathFilter_bind (q_path f_query) (map fe_path (db_files ref_index))) f_query = f_rows"
    by (simp add: f_rows_def f_query_def Query_default_def ref_index_def)
  have acc: "accepted_sites ascii_unicode ref_sample_libs ref_index (parse_name ascii_unicode (q_text f_query)) f_rows = Inr f_rows"
    by code_simp
  have "list_all (\<lambda>s. \<not> isl (resolved_hit ref_index s)) f_rows" "qn_name (parse_name ascii_unicode (q_text f_query)) \<noteq> []" by code_simp+
  then have "\<forall>s \<in> set f_rows. \<exists>h. resolved_hit ref_index s = Inr h" "qn_name (parse_name ascii_unicode (q_text f_query)) \<noteq> []"
    by (auto simp: list_all_iff) (metis sum.collapse(2))
  with references_return [of 3 ascii_unicode f_query ref_sample_libs ref_index f_rows] rows acc
  obtain result where result: "references_with_limit ascii_unicode ref_sample_libs ref_index f_query 3 = Inr result"
    by (auto simp: usize_max_def ref_sample_libs_def)
  have len: "length f_rows = 4" by code_simp
  have "map (\<lambda>s. (hit_path (st_hit s), site_tier s)) (take 3 (tiered f_rows)) = [(''b.rs'', 0), (''a.rs'', 1), (''a.rs'', 1)]"
    by code_simp
  moreover from references_show_best_sites [OF result, of f_rows] rows acc len have "ls_truncated result"
    by (auto simp: usize_max_def)
  ultimately show ?thesis using result by (intro exI [of _ result] exI [of _ f_rows] conjI)
qed

end
