(* ===== verification/Spec2Isabelle.thy ===== *)
theory Spec2Isabelle
  imports TP_Identity TP_Paths TP_Path_Filter TP_Filter_Diagnosis TP_Path_Class TP_Scheduler TP_Admission
    TP_Request_Control TP_Batch TP_Ordered_Chains TP_Regions TP_Source_Diff TP_Correspondence TP_Results TP_Page
    TP_Result_Store TP_Pool TP_Search TP_Dm_Resolve TP_Acquire TP_Modules TP_Spool
    TP_Workspace_Results TP_References
begin

text \<open>
  \<^bold>\<open>Trufflepig: a verification development.\<close>

  Trufflepig indexes source trees and answers symbol, text and semantic queries about them over a local daemon.  A
  scan reads files, extracts declarations and occurrences and publishes them as tables with full-text regions; a query
  is parsed, filtered by path and language, answered by several lanes whose rankings are fused, and stored as a result
  set whose hits are addressed by handles and printed page by page within a byte and token budget.  Beside it a worker
  process computes embeddings in bounded batches for several roots at once, and a history service relates the
  declarations of two revisions.

  \<^bold>\<open>Foundations.\<close>
  \<^item> \<open>TP_Prelude\<close>: results as sums (\<open>Inl\<close> the error text), bytes and strings, decimal and hexadecimal numerals, \<open>usize\<close>
    arithmetic with its saturation and overflow checks, \<open>BTreeMap\<close>s as key-ordered association lists.
  \<^item> \<open>TP_Interfaces\<close>: the contracts as locales: an order relation for a stable sort with bounded selection and
    first-of-each-key, a state machine with an invariant, and the others the components interpret.
  \<^item> \<open>TP_Text\<close>: Rust's \<open>str\<close> operations on UTF-8 byte strings; the Unicode classes and lower-casing are an argument.

  \<^bold>\<open>Addresses, paths and filters.\<close>
  \<^item> \<open>TP_Identity\<close> (\<open>identity.rs\<close>): object ids, spans, result handles and cursors; printing and parsing are inverse.
  \<^item> \<open>TP_Paths\<close> (\<open>store/paths.rs\<close>): percent encoding of raw paths; decoding inverts it.
  \<^item> \<open>TP_Path_Filter\<close> (\<open>search/path_filter.rs\<close>): \<open>file:\<close> filters, their binding to the index, and the SQL predicate they
    become, as an expression that is both printed and evaluated; it selects what the in-memory matcher accepts.
  \<^item> \<open>TP_Filter_Diagnosis\<close> (\<open>search/path_filter/filter_diagnosis.rs\<close>): why a filter selected nothing; the edit distance is
    the length of a shortest edit script.
  \<^item> \<open>TP_Path_Class\<close> (\<open>search/path_class.rs\<close>, \<open>search/language_filter.rs\<close>): test and documentation paths, languages.

  \<^bold>\<open>Queries and ranking.\<close>
  \<^item> \<open>TP_Query\<close> (\<open>search.rs\<close>, \<open>search/concept_query.rs\<close>, \<open>search/path_prior.rs\<close>): query text, its terms and shapes,
    the prior.
  \<^item> \<open>TP_Qualified_Name\<close> (\<open>search/qualified_name.rs\<close>): \<open>A::b\<close> names against modules and containers.
  \<^item> \<open>TP_Fusion\<close> (\<open>search/file_ranking.rs\<close>): reciprocal-rank fusion of lanes, equal to a per-file
    specification.
  \<^item> \<open>TP_Index\<close> (\<open>store/schema.rs\<close>, \<open>search.rs\<close>): the tables a query reads and the rows of hits.
  \<^item> \<open>TP_Declarations\<close> (\<open>search/declarations.rs\<close>): exact and qualified lookup; every declaration that the name
    matches is found, in the documented order.
  \<^item> \<open>TP_References\<close> (\<open>search/navigation/reference_sites.rs\<close>): \<open>refs\<close>; its four bounded vectors keep the best sites of a
    specification that sees them all.
  \<^item> \<open>TP_Lanes\<close> (\<open>search.rs\<close>): the full-text, identifier, occurrence and filename lanes, through the locale
    \<open>search_lane\<close>; each keeps to its limit and to the filters.
  \<^item> \<open>TP_Semantic_Lane\<close> (\<open>search/semantic_lane.rs\<close>): retrieval over cached vectors and its fusion.
  \<^item> \<open>TP_Utf8\<close> (\<open>search/rerank_window.rs\<close>): Rust's UTF-8 validation and lossy decoding.
  \<^item> \<open>TP_Rerank\<close> (\<open>search/rerank_window.rs\<close>): window bodies, tiers and the in-place permutation, proved to be a
    stable sort of the window; a failing scorer keeps the order.
  \<^item> \<open>TP_Snippets\<close> (\<open>search/snippets.rs\<close>): the preview line of a hit.
  \<^item> \<open>TP_Live\<close> (\<open>search/live.rs\<close>): the regex scan over files on disk.
  \<^item> \<open>TP_Search\<close> (\<open>search.rs\<close>): parsing, lanes, semantic stage, reranking, deduplication and page composed;
    whatever a lane returns, the hits satisfy the filters of the query.

  \<^bold>\<open>Results.\<close>
  \<^item> \<open>TP_Results\<close> (\<open>results.rs\<close>, \<open>results/lines.rs\<close>, \<open>results/entries.rs\<close>, \<open>output/lines.rs\<close>): hits, JSON text, the lines
    format and the recovery of handles from it.
  \<^item> \<open>TP_Page\<close> (\<open>results/page.rs\<close>, \<open>output.rs\<close>): the largest page that fits a budget, and its cursor.
  \<^item> \<open>TP_Result_Store\<close> (\<open>results/result_set_store.rs\<close>): saving, eviction, loading by handle.

  \<^bold>\<open>Reading sources.\<close>
  \<^item> \<open>TP_Source\<close> (\<open>source.rs\<close>, \<open>source/lines.rs\<close>): reads confined to the root over a tree of inodes, line windows, the
    response of \<open>show\<close> within its budget.
  \<^item> \<open>TP_Import_Trail\<close> (\<open>search/import_trail.rs\<close>): from an import to the declaration it names.
  \<^item> \<open>TP_Acquire\<close> (\<open>source/acquisition.rs\<close> and below, \<open>source/reextraction.rs\<close>): what a handle, a continuation, a path or
    a symbol reads; a source is verified only against a recorded revision, and continuations resume it.

  \<^bold>\<open>Extraction.\<close>
  \<^item> \<open>TP_Extraction\<close> (\<open>extract.rs\<close>): the facts of a file and when they are well formed.
  \<^item> \<open>TP_Dm_Lex\<close>, \<open>TP_Dm_Extract\<close>, \<open>TP_Dm_Resolve\<close> (\<open>extract/dreammaker.rs\<close> and below): the hand-written DreamMaker
    extractor, from tokens to declarations and resolved references; targets exist, have the referenced name and are the
    nearest binding.

  \<^bold>\<open>Resolution of imports.\<close>
  \<^item> \<open>TP_Modules\<close> (\<open>store/module_config.rs\<close>, \<open>store/module_resolver.rs\<close>): JSON with comments, the nearest \<open>tsconfig.json\<close>,
    \<open>.luaurc\<close> and Rojo project, relative imports, and the pass over the occurrences; a resolved import names a declaration
    of a file one of its candidate paths reaches.

  \<^bold>\<open>Daemon and inference worker.\<close>
  \<^item> \<open>TP_Protocol\<close> (\<open>daemon/protocol.rs\<close>): length-prefixed frames, the checks of a request, oversized replies.
  \<^item> \<open>TP_Spool\<close> (\<open>daemon/spool.rs\<close>): the request directory as a step relation of clients, server and workers over its
    files; a request runs at most once and an answer is its own.
  \<^item> \<open>TP_Pool\<close> (\<open>daemon/pool.rs\<close>): the request pool as a step relation over the program counters of its threads.
  \<^item> \<open>TP_Request_Control\<close> (\<open>daemon/deadline.rs\<close>, \<open>cli/retry.rs\<close>): deadlines and the one client retry.
  \<^item> \<open>TP_Scheduler\<close> (\<open>semantic/worker/scheduler.rs\<close>): fair queues; refinement to one FIFO per root and class, and a bound
    on how long background work waits.
  \<^item> \<open>TP_Admission\<close> (\<open>semantic/worker/admission.rs\<close>, \<open>load_retry.rs\<close>): counters and tickets, load back-off.
  \<^item> \<open>TP_Batch\<close> (\<open>semantic/inference/batch.rs\<close>): planning by padded tokens, bisection around a bad input.

  \<^bold>\<open>Workspaces.\<close>
  \<^item> \<open>TP_Workspace\<close> (\<open>workspace/config.rs\<close>, \<open>workspace/member_root.rs\<close>): loading and discovery of a configuration, the home
    member of a directory and linked worktrees; the roots of a loaded workspace do not overlap, so the member that contains a directory is its
    home whatever the order of the members.
  \<^item> \<open>TP_Workspace_Results\<close> (\<open>workspace/result_cache.rs\<close> and below): owner snapshots and their reopening, the merged result
    cache, its pages and coverage text; eviction is that of \<open>TP_Result_Store\<close> through a map of its rows.

  \<^bold>\<open>Sources, regions and history.\<close>
  \<^item> \<open>TP_Regions\<close> (\<open>store/regions.rs\<close>): partition of a source into regions on UTF-8 boundaries.
  \<^item> \<open>TP_Ordered_Chains\<close> (\<open>store/inheritance/ordered_chains.rs\<close>): registered class chains.
  \<^item> \<open>TP_Source_Diff\<close>, \<open>TP_Correspondence\<close> (\<open>history/source_diff.rs\<close> and below): unchanged lines and the correspondence of
    declarations.

  \<^bold>\<open>Bounds and loops.\<close>  Every loop is a structural or measured recursion, so every definition is total, with two
  exceptions: the eviction loop of \<open>store_row\<close> and the cycle walk of \<open>permute_in_place\<close> run by \<open>while_option\<close>, where not
  ending is the value \<open>None\<close>; both are proved to end.  \<open>usize\<close> is 64 bits wide.

  \<^bold>\<open>Parameters.\<close>  Code outside the repository is an argument of the definitions that call it: UUID generation and the
  clock, JSON numbers and the tokenizer of the output budget, the ONNX model and its tokenizer, the histogram diff,
  the full-text index and its ranking, the vector cache and the reranking scorer, the regex engine and the directory
  walk, Unicode tables, the BLAKE3 digest and Git, hash-map iteration order, and the rounding of \<open>f64\<close>.

  \<^bold>\<open>Not modelled.\<close>  Tree-sitter extraction of the other languages and the resolvers that walk its trees, SQLite transactions and file-system
  scanning, Git object access, sockets and process supervision, ONNX sessions and vector arithmetic, command-line
  parsing, diagnostics files.  They are I/O or calls into third-party code for the most part.
\<close>

end
